(* ===== verification/Prelude.thy ===== *)
theory Prelude
  imports Main "HOL-Library.Word"
begin

unbundle bit_operations_syntax

section \<open>Shared vocabulary of the development\<close>

text \<open>
  The machine types of the C sources, the return codes of xdelta3, the sequencing combinator that
  models \<open>if ((ret = f (stream))) { return ret; }\<close>, and the generic facts about lists and words
  that the component theories use.

  \<^item> \<open>u8\<close>, \<open>u32\<close>, \<open>u64\<close> are \<open>uint8_t\<close>, \<open>uint32_t\<close>, \<open>uint64_t\<close>; \<open>usize_t\<close> and \<open>xoff_t\<close> of
    xdelta3 are both 64 bits wide in this build (\<open>XD3_USE_LARGEFILE64\<close> and \<open>XD3_USE_LARGESIZET\<close>
    default to 1 in xdelta3.h).
  \<^item> A byte buffer with a length is a list of bytes; an advancing pointer into it is the list of
    the bytes that remain.
\<close>

type_synonym u8 = "8 word"
type_synonym u32 = "32 word"
type_synonym u64 = "64 word"
type_synonym usize_t = "64 word"
type_synonym xoff_t = "64 word"
type_synonym bytes = "8 word list"

named_theorems unat_rules \<open>facts that move word arithmetic to natural numbers\<close>
named_theorems step_simps \<open>unfolding rules of the sequencing combinators\<close>

subsection \<open>Return codes\<close>

text \<open>The \<open>xd3_rvalues\<close> enumeration of xdelta3.h, with the two \<open>errno\<close> values the library
  returns. The value 0 ("no error, go on") is \<open>None\<close> of type \<open>xd3_ret\<close>.\<close>

datatype xd3_rvalues =
    XD3_INPUT | XD3_OUTPUT | XD3_GETSRCBLK | XD3_GOTHEADER | XD3_WINSTART | XD3_WINFINISH
  | XD3_TOOFARBACK | XD3_INTERNAL | XD3_INVALID | XD3_INVALID_INPUT | XD3_NOSECOND
  | XD3_UNIMPLEMENTED | ENOMEM | ENOSPC

type_synonym xd3_ret = "xd3_rvalues option"

text \<open>\<open>if ((ret = f (s)) != 0) { return ret; } g (s)\<close>\<close>

definition seqr :: "('s \<Rightarrow> xd3_ret \<times> 's) \<Rightarrow> ('s \<Rightarrow> xd3_ret \<times> 's) \<Rightarrow> 's \<Rightarrow> xd3_ret \<times> 's" where
  "seqr f g s = (case f s of (None, s') \<Rightarrow> g s' | (Some r, s') \<Rightarrow> (Some r, s'))"

lemma seqr_ok [step_simps]: "f s = (None, s') \<Longrightarrow> seqr f g s = g s'"
  by (simp add: seqr_def)

lemma seqr_fail [step_simps]: "f s = (Some r, s') \<Longrightarrow> seqr f g s = (Some r, s')"
  by (simp add: seqr_def)

lemma seqr_None_iff:
  "seqr f g s = (None, t) \<longleftrightarrow> (\<exists>s'. f s = (None, s') \<and> g s' = (None, t))"
  by (auto simp: seqr_def split: prod.splits option.splits)

lemma seqr_assoc: "seqr (seqr f g) h s = seqr f (seqr g h) s"
  by (auto simp: seqr_def split: prod.splits option.splits)

subsection \<open>Lists\<close>

lemma list_update_last: "xs \<noteq> [] \<Longrightarrow> xs[length xs - 1 := f (last xs)] = butlast xs @ [f (last xs)]"
  by (induction xs rule: rev_induct) simp_all

lemma take_eq_prefix: "n \<le> length xs \<Longrightarrow> take n (xs @ ys) = take n xs"
  by simp

lemma take_add_slice: "take (m + n) xs = take m xs @ take n (drop m xs)"
  by (rule take_add)

lemma nth_slice: "k < n \<Longrightarrow> p + n \<le> length xs \<Longrightarrow> take n (drop p xs) ! k = xs ! (p + k)"
  by simp

lemma slice_eqI:
  assumes "p + n \<le> length xs" "q + n \<le> length ys" "\<And>k. k < n \<Longrightarrow> xs ! (p + k) = ys ! (q + k)"
  shows "take n (drop p xs) = take n (drop q ys)"
  by (rule nth_equalityI) (use assms in auto)

subsection \<open>Words\<close>

lemma unat_of_nat_less [unat_rules]:
  "n < 2 ^ LENGTH('a) \<Longrightarrow> unat (of_nat n :: 'a::len word) = n"
  by (simp add: unat_of_nat)

lemma unat_add_less [unat_rules]:
  "unat a + unat b < 2 ^ LENGTH('a) \<Longrightarrow> unat (a + b :: 'a::len word) = unat a + unat b"
  by (simp add: unat_word_ariths)

lemma unat_sub_le [unat_rules]:
  "unat b \<le> unat a \<Longrightarrow> unat (a - b :: 'a::len word) = unat a - unat b"
  by (simp add: unat_sub word_le_nat_alt)

lemma unat_ucast_up [unat_rules]: "unat (ucast (b :: u8) :: u64) = unat b"
proof -
  have "unat b < 2 ^ 8" using unsigned_less [of b, where 'a = nat] by simp
  also have "(2::nat) ^ 8 < 2 ^ 64" by simp
  finally show ?thesis by (simp add: unsigned_ucast_eq take_bit_nat_eq_self)
qed

lemma unat_drop_bit_div [unat_rules]: "unat (drop_bit n w :: 'a::len word) = unat w div 2 ^ n"
  by (rule trans [OF unat_drop_bit_eq drop_bit_eq_div])

lemma unat_push_bit_mult [unat_rules]:
  "unat w * 2 ^ n < 2 ^ LENGTH('a) \<Longrightarrow> unat (push_bit n w :: 'a::len word) = unat w * 2 ^ n"
  by (rule trans [OF unsigned_push_bit_eq]) (simp add: push_bit_eq_mult take_bit_nat_eq_self)

lemma unat_take_bit_mod [unat_rules]: "unat (take_bit n w :: 'a::len word) = unat w mod 2 ^ n"
  by (rule trans [OF unsigned_take_bit_eq take_bit_eq_mod])

lemma unat_u8_lt [simp]: "unat (b :: u8) < 256"
  using unsigned_less [of b] by simp

lemma unat_u64_lt [simp]: "unat (w :: u64) < 18446744073709551616"
  using unsigned_less [of w] by simp

lemma u8_and_127: "(b :: u8) AND 127 = take_bit 7 b"
  by (simp add: take_bit_eq_mask mask_numeral)

lemma u64_and_127: "(w :: u64) AND 127 = take_bit 7 w"
  by (simp add: take_bit_eq_mask mask_numeral)

lemma u8_and_128: "(b :: u8) AND 128 = 0 \<longleftrightarrow> \<not> bit b 7"
  by (simp add: bit_iff_and_push_bit_not_eq_0)

lemma bit_128:
  "bit (128 :: u8) n \<longleftrightarrow> n = 7" "bit (128 :: u64) n \<longleftrightarrow> n = 7"
  "bit (128 :: nat) n \<longleftrightarrow> n = 7" "bit (128 :: int) n \<longleftrightarrow> n = 7"
proof -
  have "(128 :: u8) = 2 ^ 7" "(128 :: u64) = 2 ^ 7" "(128 :: nat) = 2 ^ 7" "(128 :: int) = 2 ^ 7"
    by simp_all
  then show "bit (128 :: u8) n \<longleftrightarrow> n = 7" "bit (128 :: u64) n \<longleftrightarrow> n = 7"
    "bit (128 :: nat) n \<longleftrightarrow> n = 7" "bit (128 :: int) n \<longleftrightarrow> n = 7"
    by (simp_all only: bit_exp_iff) (auto simp: possible_bit_def)
qed

lemma u64_high7_clear: "(w :: u64) AND 0xfe00000000000000 = 0 \<longleftrightarrow> unat w < 2 ^ 57"
proof -
  have m: "(0xfe00000000000000 :: u64) = NOT (mask 57)"
    by (simp add: mask_numeral)
  have "w AND NOT (mask 57) = 0 \<longleftrightarrow> take_bit 57 w = w"
    by (auto simp: take_bit_eq_mask bit_eq_iff bit_simps)
  also have "\<dots> \<longleftrightarrow> unat w mod 2 ^ 57 = unat w"
    by (simp only: word_unat_eq_iff unat_take_bit_mod)
  also have "\<dots> \<longleftrightarrow> unat w < 2 ^ 57"
    by (metis mod_less mod_less_divisor zero_less_numeral zero_less_power)
  finally show ?thesis by (simp only: m)
qed

end
