(* ===== verification/Xd3_Integer.thy ===== *)
theory Xd3_Integer
  imports Prelude
begin

section \<open>VCDIFF integers (xdelta3-internal.h)\<close>

text \<open>
  The base-128 integer codec: the macros \<open>EMIT_INTEGER_TYPE\<close>, \<open>READ_INTEGER_TYPE\<close> and
  \<open>DECODE_INTEGER_TYPE\<close> at 64 bits (\<open>usize_t\<close> and \<open>xoff_t\<close> are 64 bits wide), and
  \<open>xd3_sizeof_uint64_t\<close>. \<open>xd3_read_uint64_t\<close> reads from a section that is completely in memory;
  \<open>xd3_decode_uint64_t\<close> is the resumable reader of the header states, which keeps the partial value
  in \<open>dec_64part\<close> when it runs out of input.
\<close>

definition UINT64_OFLOW_MASK :: u64 where
  "UINT64_OFLOW_MASK = 0xfe00000000000000"

subsection \<open>Emitting\<close>

text \<open>The \<open>do { buf[--bufi] = (num & 127) | 128; num >>= 7U; } while (num != 0)\<close> loop;
  \<open>acc\<close> is the filled tail \<open>buf[bufi..9]\<close> of the 10-byte buffer.\<close>

function emit_integer_loop :: "u64 \<Rightarrow> bytes \<Rightarrow> bytes" where
  "emit_integer_loop num acc =
     (let acc' = (ucast (num AND 127) OR 128) # acc; num' = drop_bit 7 num
      in if num' \<noteq> 0 then emit_integer_loop num' acc' else acc')"
  by pat_completeness auto
termination
proof (relation "measure (\<lambda>(num, acc). unat num)", simp)
  fix num :: u64 and acc acc' :: bytes and num' :: u64
  assume n: "num' = drop_bit 7 num" and nz: "num' \<noteq> 0"
  have "unat num' = unat num div 128" using n by (simp only: unat_drop_bit_div) simp
  moreover have "unat num' \<noteq> 0" using nz by (simp add: unat_eq_zero)
  ultimately show "((num', acc'), num, acc) \<in> measure (\<lambda>(num, acc). unat num)"
    by (simp add: div_less_dividend)
qed

declare emit_integer_loop.simps [simp del]

text \<open>\<open>buf[9] &= 127\<close> clears the continuation bit of the last byte.\<close>

definition emit_uint64 :: "u64 \<Rightarrow> bytes" where
  "emit_uint64 num = (let buf = emit_integer_loop num [] in buf[length buf - 1 := last buf AND 127])"

definition xd3_sizeof_uint64_t :: "u64 \<Rightarrow> u32" where
  "xd3_sizeof_uint64_t num =
     (if num < push_bit 7 1 then 1 else if num < push_bit 14 1 then 2
      else if num < push_bit 21 1 then 3 else if num < push_bit 28 1 then 4
      else if num < push_bit 35 1 then 5 else if num < push_bit 42 1 then 6
      else if num < push_bit 49 1 then 7 else if num < push_bit 56 1 then 8
      else if num < push_bit 63 1 then 9 else 10)"

subsection \<open>Reading\<close>

fun read_integer_loop :: "u64 \<Rightarrow> bytes \<Rightarrow> xd3_rvalues + (u64 \<times> bytes)" where
  "read_integer_loop val [] = Inl XD3_INVALID_INPUT"
| "read_integer_loop val (b # inp) =
     (if val AND UINT64_OFLOW_MASK \<noteq> 0 then Inl XD3_INVALID_INPUT
      else let val' = push_bit 7 val OR (ucast b AND 127)
           in if b AND 128 \<noteq> 0 then read_integer_loop val' inp else Inr (val', inp))"

definition xd3_read_uint64_t :: "bytes \<Rightarrow> xd3_rvalues + (u64 \<times> bytes)" where
  "xd3_read_uint64_t inp = read_integer_loop 0 inp"

text \<open>The resumable decoder: the result is the return code, the new \<open>dec_64part\<close>, the value
  stored through the pointer (if any) and the unread input.\<close>

fun xd3_decode_uint64_t :: "u64 \<Rightarrow> bytes \<Rightarrow> xd3_ret \<times> u64 \<times> u64 option \<times> bytes" where
  "xd3_decode_uint64_t part [] = (Some XD3_INPUT, part, None, [])"
| "xd3_decode_uint64_t part (b # inp) =
     (if part AND UINT64_OFLOW_MASK \<noteq> 0 then (Some XD3_INVALID_INPUT, part, None, inp)
      else let part' = push_bit 7 part OR (ucast b AND 127)
           in if b AND 128 = 0 then (None, 0, Some part', inp) else xd3_decode_uint64_t part' inp)"

subsection \<open>One round of each loop, on natural numbers\<close>

lemma oflow_clear: "val AND UINT64_OFLOW_MASK = 0 \<longleftrightarrow> unat val < 2 ^ 57"
  unfolding UINT64_OFLOW_MASK_def by (rule u64_high7_clear)

lemma unat_integer_step:
  assumes "unat val < 2 ^ 57"
  shows "unat (push_bit 7 val OR (ucast (b :: u8) AND 127) :: u64) = unat val * 128 + unat b mod 128"
proof -
  have disj: "push_bit 7 val AND take_bit 7 (ucast b) = (0 :: u64)"
    by (auto simp: bit_eq_iff bit_simps)
  have p: "unat (push_bit 7 val) = unat val * 128"
    using assms by (subst unat_push_bit_mult) auto
  have t: "unat (take_bit 7 (ucast b :: u64)) = unat b mod 128"
    by (simp only: unat_take_bit_mod unat_ucast_up) simp
  have "unat (push_bit 7 val OR take_bit 7 (ucast b) :: u64)
      = unat (push_bit 7 val + take_bit 7 (ucast b) :: u64)"
    using disjunctive_add_eq_or [OF disj] by simp
  also have "\<dots> = unat val * 128 + unat b mod 128"
    using assms by (subst unat_add_less) (simp_all only: p t, simp)
  finally show ?thesis by (simp only: u64_and_127)
qed

lemma integer_step_rejoin:
  "push_bit 7 (drop_bit 7 num) OR (ucast (ucast (num AND 127 :: u64) :: u8) AND 127) = num"
proof -
  have "bit (push_bit 7 (drop_bit 7 num) OR take_bit 7 (ucast (ucast (take_bit 7 num) :: u8))) n
      = bit num n" for n
    by (cases "n < 7") (auto simp: bit_simps dest: bit_imp_le_length)
  then show ?thesis
    by (simp only: u64_and_127 bit_eq_iff) blast
qed

lemma integer_step_rejoin_cont:
  "push_bit 7 (drop_bit 7 num) OR (ucast (ucast (num AND 127 :: u64) OR 128 :: u8) AND 127) = num"
proof -
  have "bit (push_bit 7 (drop_bit 7 num) OR take_bit 7 (ucast (ucast (take_bit 7 num) OR 128 :: u8))) n
      = bit num n" for n
    by (cases "n < 7") (auto simp: bit_simps bit_128 dest: bit_imp_le_length)
  then show ?thesis
    by (simp only: u64_and_127 bit_eq_iff) blast
qed

lemma shifted_no_oflow [simp]: "drop_bit 7 num AND UINT64_OFLOW_MASK = 0"
proof -
  have "unat num div 2 ^ 7 < 2 ^ 57" using unat_u64_lt [of num] by (simp add: div_less_iff_less_mult)
  then show ?thesis by (simp only: oflow_clear unat_drop_bit_div)
qed

subsection \<open>The emitted digits\<close>

lemma emit_integer_loop_unfold:
  "emit_integer_loop num acc =
     (if drop_bit 7 num \<noteq> 0 then emit_integer_loop (drop_bit 7 num) ((ucast (num AND 127) OR 128) # acc)
      else (ucast (num AND 127) OR 128) # acc)"
  by (subst emit_integer_loop.simps) (simp only: Let_def)

lemma drop_bit_7_less: "drop_bit 7 num \<noteq> 0 \<Longrightarrow> unat (drop_bit 7 num :: u64) < unat num"
proof -
  assume "drop_bit 7 num \<noteq> 0"
  then have "unat (drop_bit 7 num) \<noteq> 0" by (simp only: unat_eq_zero not_False_eq_True)
  then show ?thesis by (simp only: unat_drop_bit_div) simp
qed

lemma emit_integer_loop_acc: "emit_integer_loop num acc = emit_integer_loop num [] @ acc"
proof (induction "unat num" arbitrary: num acc rule: less_induct)
  case less
  show ?case
  proof (cases "drop_bit 7 num = 0")
    case True
    then show ?thesis
      by (simp only: emit_integer_loop_unfold [of num acc] emit_integer_loop_unfold [of num "[]"]) simp
  next
    case False
    note IH = less [OF drop_bit_7_less [OF False]]
    from False show ?thesis
      by (simp only: emit_integer_loop_unfold [of num acc] emit_integer_loop_unfold [of num "[]"]
          IH [of "_ # acc"] IH [of "[_]"]) simp
  qed
qed

lemma emit_integer_loop_Nil:
  "emit_integer_loop num [] =
     (if drop_bit 7 num \<noteq> 0 then emit_integer_loop (drop_bit 7 num) [] else [])
       @ [ucast (num AND 127) OR 128]"
  by (subst emit_integer_loop_unfold) (simp add: emit_integer_loop_acc [of _ "[_]"])

lemma emit_uint64_eq:
  "emit_uint64 num =
     (if drop_bit 7 num \<noteq> 0 then emit_integer_loop (drop_bit 7 num) [] else [])
       @ [ucast (num AND 127)]"
proof -
  have "(ucast (num AND 127) OR 128 :: u8) AND 127 = ucast (num AND 127)"
    unfolding u64_and_127 u8_and_127 by (rule bit_word_eqI) (auto simp: bit_simps bit_128)
  then show ?thesis
    by (simp add: emit_uint64_def Let_def emit_integer_loop_Nil [of num])
qed

lemma digit_cont_bit [simp]: "(ucast (num AND 127 :: u64) OR 128 :: u8) AND 128 \<noteq> 0"
  by (simp only: u8_and_128) (simp add: bit_simps bit_128)

lemma digit_stop_bit [simp]: "(ucast (num AND 127 :: u64) :: u8) AND 128 = 0"
  by (simp only: u8_and_128 u64_and_127) (simp add: bit_simps)

subsection \<open>Reading back what was emitted\<close>

lemma read_emitted_digits:
  "read_integer_loop 0 (emit_integer_loop num [] @ rest) = read_integer_loop num rest"
proof (induction "unat num" arbitrary: num rest rule: less_induct)
  case less
  let ?d = "ucast (num AND 127) OR 128 :: u8"
  have step: "read_integer_loop (drop_bit 7 num) (?d # rest) = read_integer_loop num rest"
    by (simp add: Let_def integer_step_rejoin_cont del: drop_bit_eq_div)
  show ?case
  proof (cases "drop_bit 7 num = 0")
    case True
    with step show ?thesis by (simp only: emit_integer_loop_Nil [of num]) simp
  next
    case False
    then show ?thesis
      using less [OF drop_bit_7_less [OF False], of "?d # rest"] step
      by (simp only: emit_integer_loop_Nil [of num]) simp
  qed
qed

lemma read_uint64_emit: "xd3_read_uint64_t (emit_uint64 num @ rest) = Inr (num, rest)"
proof -
  have stop: "read_integer_loop (drop_bit 7 num) (ucast (num AND 127) # rest) = Inr (num, rest)"
    by (simp add: Let_def integer_step_rejoin)
  show ?thesis
  proof (cases "drop_bit 7 num = 0")
    case True
    with stop show ?thesis by (simp only: xd3_read_uint64_t_def emit_uint64_eq) simp
  next
    case False
    with stop show ?thesis
      by (simp only: xd3_read_uint64_t_def emit_uint64_eq) (simp add: read_emitted_digits)
  qed
qed

lemma decode_emitted_digits:
  "xd3_decode_uint64_t 0 (emit_integer_loop num [] @ rest) = xd3_decode_uint64_t num rest"
proof (induction "unat num" arbitrary: num rest rule: less_induct)
  case less
  let ?d = "ucast (num AND 127) OR 128 :: u8"
  have step: "xd3_decode_uint64_t (drop_bit 7 num) (?d # rest) = xd3_decode_uint64_t num rest"
    by (simp add: Let_def integer_step_rejoin_cont)
  show ?case
  proof (cases "drop_bit 7 num = 0")
    case True
    with step show ?thesis by (simp only: emit_integer_loop_Nil [of num]) simp
  next
    case False
    then show ?thesis
      using less [OF drop_bit_7_less [OF False], of "?d # rest"] step
      by (simp only: emit_integer_loop_Nil [of num]) simp
  qed
qed

lemma decode_uint64_emit: "xd3_decode_uint64_t 0 (emit_uint64 num @ rest) = (None, 0, Some num, rest)"
proof -
  have stop: "xd3_decode_uint64_t (drop_bit 7 num) (ucast (num AND 127) # rest) = (None, 0, Some num, rest)"
    by (simp add: Let_def integer_step_rejoin)
  show ?thesis
  proof (cases "drop_bit 7 num = 0")
    case True
    with stop show ?thesis by (simp only: emit_uint64_eq) simp
  next
    case False
    with stop show ?thesis by (simp only: emit_uint64_eq) (simp add: decode_emitted_digits)
  qed
qed

subsection \<open>Lengths\<close>

lemma length_emit_integer_loop_le:
  "0 < k \<Longrightarrow> length (emit_integer_loop num []) \<le> k \<longleftrightarrow> unat num < 128 ^ k"
proof (induction k arbitrary: num)
  case (Suc k)
  have z: "drop_bit 7 num = 0 \<longleftrightarrow> unat num < 128"
    by (simp only: flip: unat_eq_zero) (simp only: unat_drop_bit_div, simp add: div_eq_0_iff)
  show ?case
  proof (cases "drop_bit 7 num = 0")
    case True
    then have "unat num < 128" using z by blast
    also have "(128::nat) \<le> 128 ^ Suc k" by simp
    finally show ?thesis using True by (simp only: emit_integer_loop_Nil [of num]) simp
  next
    case False
    have len: "length (emit_integer_loop num []) = Suc (length (emit_integer_loop (drop_bit 7 num) []))"
      using False by (simp only: emit_integer_loop_Nil [of num]) simp
    show ?thesis
    proof (cases "k = 0")
      case True
      have "emit_integer_loop (drop_bit 7 num) [] \<noteq> []"
        by (subst emit_integer_loop_Nil) simp
      then show ?thesis using True False z len by simp
    next
      case k: False
      have "unat (drop_bit 7 num) < 128 ^ k \<longleftrightarrow> unat num < 128 ^ Suc k"
        by (simp only: unat_drop_bit_div) (simp add: div_less_iff_less_mult mult.commute)
      then show ?thesis using Suc.IH [of "drop_bit 7 num"] k len by simp
    qed
  qed
qed simp

lemma length_emit_uint64_le: "0 < k \<Longrightarrow> length (emit_uint64 num) \<le> k \<longleftrightarrow> unat num < 128 ^ k"
  by (simp add: emit_uint64_def Let_def length_emit_integer_loop_le)

lemma xd3_sizeof_uint64_t_eq: "unat (xd3_sizeof_uint64_t num) = length (emit_uint64 num)"
proof -
  have lt: "num < push_bit n 1 \<longleftrightarrow> unat num < 2 ^ n" if "n < 64" for n
  proof -
    have "unat (push_bit n 1 :: u64) = 2 ^ n"
      using that power_strict_increasing [of n 64 "2::nat"] by (subst unat_push_bit_mult) simp_all
    then show ?thesis by (simp only: word_less_nat_alt)
  qed
  have le: "length (emit_uint64 num) \<le> k \<longleftrightarrow> unat num < 2 ^ (7 * k)" if "0 < k" for k
    using length_emit_uint64_le [OF that, of num] by (simp add: power_mult)
  have pos: "0 < length (emit_uint64 num)" by (simp add: emit_uint64_eq)
  have ten: "length (emit_uint64 num) \<le> 10"
    using le [of 10] unat_u64_lt [of num] by simp
  have c: "num < push_bit (7 * k) 1 \<longleftrightarrow> length (emit_uint64 num) \<le> k" if "0 < k" "k < 10" for k
    using that by (simp only: lt le)
  have chain: "unat (if l \<le> 1 then 1 else if l \<le> 2 then 2 else if l \<le> 3 then 3 else if l \<le> 4 then 4
      else if l \<le> 5 then 5 else if l \<le> 6 then 6 else if l \<le> 7 then 7 else if l \<le> 8 then 8
      else if l \<le> 9 then 9 else 10 :: u32) = l" if "0 < l" "l \<le> 10" for l :: nat
    using that by auto
  have cs: "num < push_bit 7 1 \<longleftrightarrow> length (emit_uint64 num) \<le> 1"
    "num < push_bit 14 1 \<longleftrightarrow> length (emit_uint64 num) \<le> 2"
    "num < push_bit 21 1 \<longleftrightarrow> length (emit_uint64 num) \<le> 3"
    "num < push_bit 28 1 \<longleftrightarrow> length (emit_uint64 num) \<le> 4"
    "num < push_bit 35 1 \<longleftrightarrow> length (emit_uint64 num) \<le> 5"
    "num < push_bit 42 1 \<longleftrightarrow> length (emit_uint64 num) \<le> 6"
    "num < push_bit 49 1 \<longleftrightarrow> length (emit_uint64 num) \<le> 7"
    "num < push_bit 56 1 \<longleftrightarrow> length (emit_uint64 num) \<le> 8"
    "num < push_bit 63 1 \<longleftrightarrow> length (emit_uint64 num) \<le> 9"
    using c [of 1] c [of 2] c [of 3] c [of 4] c [of 5] c [of 6] c [of 7] c [of 8] c [of 9] by simp_all
  show ?thesis
    unfolding xd3_sizeof_uint64_t_def cs by (rule chain [OF pos ten])
qed

subsection \<open>The value of a digit string\<close>

text \<open>The reference semantics: the base-128 value of a digit string, the bytes of which carry a
  continuation bit on all but the last.\<close>

definition base128_value :: "nat \<Rightarrow> bytes \<Rightarrow> nat" where
  "base128_value acc ds = foldl (\<lambda>a b. a * 128 + unat b mod 128) acc ds"

fun digit_string :: "bytes \<Rightarrow> bool" where
  "digit_string [] = False"
| "digit_string [b] = (\<not> bit b 7)"
| "digit_string (b # bs) = (bit b 7 \<and> digit_string bs)"

lemma base128_value_ge: "acc * 128 ^ length ds \<le> base128_value acc ds"
proof (induction ds arbitrary: acc)
  case (Cons b ds)
  have "acc * 128 ^ length (b # ds) \<le> (acc * 128 + unat b mod 128) * 128 ^ length ds"
    by (simp add: algebra_simps)
  also have "\<dots> \<le> base128_value acc (b # ds)"
    using Cons [of "acc * 128 + unat b mod 128"] by (simp add: base128_value_def)
  finally show ?case .
qed (simp add: base128_value_def)

lemma read_integer_loop_exact:
  "digit_string ds \<Longrightarrow> read_integer_loop val (ds @ rest) =
     (if base128_value (unat val) ds < 2 ^ 64 then Inr (of_nat (base128_value (unat val) ds), rest)
      else Inl XD3_INVALID_INPUT)"
proof (induction ds arbitrary: val rule: digit_string.induct)
  case (2 b)
  show ?case
  proof (cases "unat val < 2 ^ 57")
    case True
    note s = unat_integer_step [OF True, of b]
    have v: "base128_value (unat val) [b] = unat (push_bit 7 val OR (ucast b AND 127) :: u64)"
      by (simp only: s) (simp add: base128_value_def)
    then have "base128_value (unat val) [b] < 2 ^ 64" by (simp only:) simp
    moreover have "of_nat (base128_value (unat val) [b]) = (push_bit 7 val OR (ucast b AND 127) :: u64)"
      by (simp only: v) simp
    ultimately show ?thesis
      using 2 True by (simp add: oflow_clear u8_and_128 Let_def)
  next
    case False
    then have "\<not> base128_value (unat val) [b] < 2 ^ 64" by (simp add: base128_value_def)
    then show ?thesis using False by (simp add: oflow_clear)
  qed
next
  case (3 b c cs)
  show ?case
  proof (cases "unat val < 2 ^ 57")
    case True
    have "base128_value (unat (push_bit 7 val OR (ucast b AND 127) :: u64)) (c # cs)
        = base128_value (unat val) (b # c # cs)"
      by (simp only: unat_integer_step [OF True]) (simp add: base128_value_def)
    then show ?thesis
      using 3 True by (simp add: oflow_clear u8_and_128 Let_def)
  next
    case False
    have "(2 :: nat) ^ 64 \<le> unat val * 128" using False by simp
    also have "\<dots> \<le> unat val * 128 ^ length (b # c # cs)" by simp
    also have "\<dots> \<le> base128_value (unat val) (b # c # cs)" by (rule base128_value_ge)
    finally show ?thesis using False by (simp add: oflow_clear)
  qed
qed simp

subsection \<open>Self-delimiting codecs\<close>

text \<open>The contract the section and header codecs rely on: decoding reads back one encoded value
  and leaves the rest of the input. The laws derived from it (injectivity, prefix-freeness, reading a
  sequence of values) hold for every instance.\<close>

locale prefix_codec =
  fixes enc :: "'a \<Rightarrow> bytes"
    and dec :: "bytes \<Rightarrow> xd3_rvalues + ('a \<times> bytes)"
  assumes dec_enc: "dec (enc x @ rest) = Inr (x, rest)"
begin

lemma enc_inject: "enc x = enc y \<longleftrightarrow> x = y"
  by (metis dec_enc prod.inject sum.inject(2))

lemma enc_prefix_free: "enc x @ r = enc y @ r' \<Longrightarrow> x = y \<and> r = r'"
  by (metis dec_enc prod.inject sum.inject(2))

lemma dec_enc_Nil: "dec (enc x) = Inr (x, [])"
  using dec_enc [of x "[]"] by simp

fun dec_many :: "nat \<Rightarrow> bytes \<Rightarrow> xd3_rvalues + ('a list \<times> bytes)" where
  "dec_many 0 inp = Inr ([], inp)"
| "dec_many (Suc n) inp =
     (case dec inp of Inl e \<Rightarrow> Inl e
      | Inr (x, inp') \<Rightarrow> (case dec_many n inp' of Inl e \<Rightarrow> Inl e | Inr (xs, r) \<Rightarrow> Inr (x # xs, r)))"

lemma dec_many_concat: "dec_many (length xs) (concat (map enc xs) @ rest) = Inr (xs, rest)"
  by (induction xs) (simp_all add: dec_enc)

end

interpretation int64: prefix_codec emit_uint64 xd3_read_uint64_t
  by unfold_locales (rule read_uint64_emit)

subsection \<open>Resuming a partial decode\<close>

lemma decode_uint64_append:
  "xd3_decode_uint64_t part (xs @ ys) =
     (case xd3_decode_uint64_t part xs of (r, p, v, rest) \<Rightarrow>
        if r = Some XD3_INPUT then xd3_decode_uint64_t p ys else (r, p, v, rest @ ys))"
proof (induction part xs rule: xd3_decode_uint64_t.induct)
  case (1 part)
  then show ?case by simp
next
  case (2 part b inp)
  show ?case
    using 2 by (cases "part AND UINT64_OFLOW_MASK = 0"; cases "b AND 128 = 0") (simp_all add: Let_def)
qed

subsection \<open>Properties\<close>

text \<open>C17. Round trip of VCDIFF integers: reading a number that \<open>xd3_emit_size\<close> wrote gives the
  number back and consumes exactly the bytes written, with the in-memory reader of the sections and
  with the resumable reader of the header states; the encoding never exceeds the 10 bytes of the
  stack buffer.\<close>

theorem integer_roundtrip:
  "xd3_read_uint64_t (emit_uint64 num @ rest) = Inr (num, rest)
   \<and> xd3_decode_uint64_t 0 (emit_uint64 num @ rest) = (None, 0, Some num, rest)
   \<and> length (emit_uint64 num) \<le> 10"
  using read_uint64_emit decode_uint64_emit length_emit_uint64_le [of 10 num] unat_u64_lt [of num]
  by simp

text \<open>C23. Exactness of the overflow check: on every digit string the reader returns the base-128
  value when it fits 64 bits and reports invalid input otherwise, so it never wraps around.\<close>

theorem read_uint64_exact:
  "digit_string ds \<Longrightarrow> xd3_read_uint64_t (ds @ rest) =
     (if base128_value 0 ds < 2 ^ 64 then Inr (of_nat (base128_value 0 ds), rest)
      else Inl XD3_INVALID_INPUT)"
  using read_integer_loop_exact [of ds 0 rest] by (simp add: xd3_read_uint64_t_def)

theorem read_uint64_exact_witness:
  "digit_string [0x81, 0x00] \<and> xd3_read_uint64_t ([0x81, 0x00] @ [0x7f]) = Inr (128, [0x7f])"
proof -
  have d: "digit_string [0x81, 0x00]" by simp
  have "base128_value 0 [0x81, 0x00] = 128" by (simp add: base128_value_def)
  then show ?thesis using d read_uint64_exact [OF d, of "[0x7f]"] by simp
qed

text \<open>C24. Resumability: feeding a header integer in two pieces gives the result of feeding it at
  once; when the first piece ends inside the number the decoder asks for input and continues from
  \<open>dec_64part\<close>.\<close>

theorem decode_uint64_resumes:
  "xd3_decode_uint64_t part (xs @ ys) =
     (case xd3_decode_uint64_t part xs of (r, p, v, rest) \<Rightarrow>
        if r = Some XD3_INPUT then xd3_decode_uint64_t p ys else (r, p, v, rest @ ys))"
  by (rule decode_uint64_append)

end
