(* ===== verification/Xd3_CodeTable.thy ===== *)
theory Xd3_CodeTable
  imports Prelude
begin

section \<open>Instruction code table (xdelta3.c, "Instruction tables")\<close>

text \<open>
  The parametrized description of a VCDIFF code table, the construction of the default RFC 3284
  table by \<open>xd3_build_code_table\<close>, and \<open>xd3_choose_instruction\<close>, which picks the single code of an
  instruction and the double code of a pair. The lemmas show that the table built by the loops is the
  table the RFC lists and that every code the encoder picks stands for the instructions it was
  picked for.
\<close>

definition XD3_NOOP :: u8 where "XD3_NOOP = 0"
definition XD3_ADD :: u8 where "XD3_ADD = 1"
definition XD3_RUN :: u8 where "XD3_RUN = 2"
definition XD3_CPY :: u8 where "XD3_CPY = 3"

definition MIN_MATCH :: u64 where "MIN_MATCH = 4"

lemmas xd3_rtype_defs = XD3_NOOP_def XD3_ADD_def XD3_RUN_def XD3_CPY_def

record xd3_dinst =
  type1 :: u8
  size1 :: u8
  type2 :: u8
  size2 :: u8

record xd3_rinst =
  rtype :: u8
  xtra :: u8
  code1 :: u8
  code2 :: u8
  rpos :: usize_t
  rsize :: usize_t
  raddr :: xoff_t

text \<open>The fields of \<open>struct _xd3_code_table_desc\<close> that \<open>xd3_build_code_table\<close> reads (the two
  arrays \<open>addcopy_max_sizes\<close> and \<open>copyadd_max_sizes\<close> are never read in this version).\<close>

record xd3_code_table_desc =
  add_sizes :: u8
  near_modes :: u8
  same_modes :: u8
  cpy_sizes :: u8
  addcopy_add_max :: u8
  addcopy_near_cpy_max :: u8
  addcopy_same_cpy_max :: u8
  copyadd_add_max :: u8
  copyadd_near_cpy_max :: u8
  copyadd_same_cpy_max :: u8

definition rfc3284_code_table_desc :: xd3_code_table_desc where
  "rfc3284_code_table_desc =
     \<lparr>add_sizes = 17, near_modes = 4, same_modes = 3, cpy_sizes = 15,
      addcopy_add_max = 4, addcopy_near_cpy_max = 6, addcopy_same_cpy_max = 4,
      copyadd_add_max = 1, copyadd_near_cpy_max = 4, copyadd_same_cpy_max = 4\<rparr>"

text \<open>Each loop of \<open>xd3_build_code_table\<close> advances \<open>d\<close> by one entry per iteration over a zeroed
  table, so the table is the concatenation of what the loops write. \<open>upto8 a b\<close> are the values of a
  counter that runs from \<open>a\<close> up to and including \<open>b\<close>.\<close>

definition upto8 :: "nat \<Rightarrow> nat \<Rightarrow> u8 list" where
  "upto8 a b = map of_nat [a..<Suc b]"

definition single :: "u8 \<Rightarrow> u8 \<Rightarrow> xd3_dinst" where
  "single t s = \<lparr>type1 = t, size1 = s, type2 = 0, size2 = 0\<rparr>"

definition xd3_build_code_table :: "xd3_code_table_desc \<Rightarrow> xd3_dinst list" where
  "xd3_build_code_table desc =
     (let cpy_modes = 2 + unat (near_modes desc) + unat (same_modes desc);
          modes = map of_nat [0..<cpy_modes];
          near = (\<lambda>mode :: u8. unat mode < 2 + unat (near_modes desc))
      in [single XD3_RUN 0, single XD3_ADD 0]
         @ map (single XD3_ADD) (upto8 1 (unat (add_sizes desc)))
         @ concat (map (\<lambda>mode. single (XD3_CPY + mode) 0 #
               map (single (XD3_CPY + mode)) (upto8 4 (3 + unat (cpy_sizes desc)))) modes)
         @ concat (map (\<lambda>mode. concat (map (\<lambda>s1.
               map (\<lambda>s2. \<lparr>type1 = XD3_ADD, size1 = s1, type2 = XD3_CPY + mode, size2 = s2\<rparr>)
                 (upto8 4 (unat (if near mode then addcopy_near_cpy_max desc
                                 else addcopy_same_cpy_max desc))))
               (upto8 1 (unat (addcopy_add_max desc))))) modes)
         @ concat (map (\<lambda>mode. concat (map (\<lambda>s1.
               map (\<lambda>s2. \<lparr>type1 = XD3_CPY + mode, size1 = s1, type2 = XD3_ADD, size2 = s2\<rparr>)
                 (upto8 1 (unat (copyadd_add_max desc))))
               (upto8 4 (unat (if near mode then copyadd_near_cpy_max desc
                               else copyadd_same_cpy_max desc))))) modes))"

definition xd3_rfc3284_code_table :: "xd3_dinst list" where
  "xd3_rfc3284_code_table = xd3_build_code_table rfc3284_code_table_desc"

text \<open>\<open>xd3_choose_instruction (prev, inst)\<close>: \<open>prev\<close> is the pointer \<open>stream->iout\<close>, possibly
  \<open>NULL\<close>; both instructions are returned updated.\<close>

definition xd3_choose_instruction ::
  "xd3_rinst option \<Rightarrow> xd3_rinst \<Rightarrow> xd3_rinst option \<times> xd3_rinst" where
  "xd3_choose_instruction prev inst =
     (if rtype inst = XD3_RUN then (prev, inst\<lparr>code1 := 0\<rparr>)
      else if rtype inst = XD3_ADD then
        (if rsize inst \<le> 17 then
           (case prev of
              Some p \<Rightarrow>
                if rsize inst = 1 \<and> rsize p = 4 \<and> XD3_CPY \<le> rtype p
                then Some (p\<lparr>code2 := 247 + (rtype p - XD3_CPY)\<rparr>) else Some p
            | None \<Rightarrow> None,
            inst\<lparr>code1 := 1 + ucast (rsize inst)\<rparr>)
         else (prev, inst\<lparr>code1 := 1\<rparr>))
      else
        (let mode = rtype inst - XD3_CPY; base = 19 + 16 * mode
         in if rsize inst \<le> 18 \<and> 4 \<le> rsize inst then
              (case prev of
                 Some p \<Rightarrow>
                   if rtype p = XD3_ADD \<and> rsize p \<le> 4 then
                     if rsize inst \<le> 6 \<and> mode \<le> 5 then
                       Some (p\<lparr>code2 := 163 + mode * 12 + 3 * (ucast (rsize p) - 1)
                                       + (ucast (rsize inst) - 4)\<rparr>)
                     else if rsize inst = 4 \<and> 6 \<le> mode then
                       Some (p\<lparr>code2 := 235 + (mode - 6) * 4 + (ucast (rsize p) - 1)\<rparr>)
                     else Some p
                   else Some p
               | None \<Rightarrow> None,
               inst\<lparr>code1 := base + ucast (rsize inst - 3)\<rparr>)
            else (prev, inst\<lparr>code1 := base\<rparr>)))"

subsection \<open>The table of RFC 3284\<close>

text \<open>The rows of the instruction table in the opening comment of xdelta3.c, by index.\<close>

definition rfc3284_entry :: "nat \<Rightarrow> xd3_dinst" where
  "rfc3284_entry i =
     (if i = 0 then single XD3_RUN 0
      else if i \<le> 18 then single XD3_ADD (of_nat (i - 1))
      else if i \<le> 162 then
        single (XD3_CPY + of_nat ((i - 19) div 16))
          (if (i - 19) mod 16 = 0 then 0 else of_nat (3 + (i - 19) mod 16))
      else if i \<le> 234 then
        \<lparr>type1 = XD3_ADD, size1 = of_nat (1 + (i - 163) mod 12 div 3),
         type2 = XD3_CPY + of_nat ((i - 163) div 12), size2 = of_nat (4 + (i - 163) mod 3)\<rparr>
      else if i \<le> 246 then
        \<lparr>type1 = XD3_ADD, size1 = of_nat (1 + (i - 235) mod 4),
         type2 = XD3_CPY + of_nat (6 + (i - 235) div 4), size2 = 4\<rparr>
      else \<lparr>type1 = XD3_CPY + of_nat (i - 247), size1 = 4, type2 = XD3_ADD, size2 = 1\<rparr>)"

lemma code_table_eq_rfc: "xd3_rfc3284_code_table = map rfc3284_entry [0..<256]"
  by code_simp

lemma length_code_table [simp]: "length xd3_rfc3284_code_table = 256"
  by (simp add: code_table_eq_rfc)

lemma code_table_nth: "xd3_rfc3284_code_table ! unat (c :: u8) = rfc3284_entry (unat c)"
  by (simp add: code_table_eq_rfc)

subsection \<open>What a chosen code stands for\<close>

text \<open>\<open>codes_single d inst\<close>: table entry \<open>d\<close> encodes \<open>inst\<close> alone, its size being in the entry or,
  when the entry has size 0, written after the code. \<open>codes_double d p inst\<close>: the entry encodes both,
  sizes included.\<close>

definition codes_single :: "xd3_dinst \<Rightarrow> xd3_rinst \<Rightarrow> bool" where
  "codes_single d inst \<longleftrightarrow> type1 d = rtype inst \<and> type2 d = XD3_NOOP \<and>
     (size1 d = 0 \<or> ucast (size1 d) = rsize inst)"

definition codes_double :: "xd3_dinst \<Rightarrow> xd3_rinst \<Rightarrow> xd3_rinst \<Rightarrow> bool" where
  "codes_double d p inst \<longleftrightarrow> type1 d = rtype p \<and> type2 d = rtype inst \<and>
     size1 d \<noteq> 0 \<and> ucast (size1 d) = rsize p \<and> size2 d \<noteq> 0 \<and> ucast (size2 d) = rsize inst"

definition valid_rtype :: "u8 \<Rightarrow> bool" where
  "valid_rtype t \<longleftrightarrow> t = XD3_ADD \<or> t = XD3_RUN \<or> (XD3_CPY \<le> t \<and> t < 12)"

lemma valid_rtype_cases:
  assumes "valid_rtype t"
  obtains "t = XD3_ADD" | "t = XD3_RUN" | m where "m < 9" "t = XD3_CPY + of_nat m"
proof -
  consider "t = XD3_ADD" | "t = XD3_RUN" | "XD3_CPY \<le> t" "t < 12"
    using assms by (auto simp: valid_rtype_def)
  then show thesis
  proof cases
    case 3
    then have b: "3 \<le> unat t" "unat t < 12"
      by (simp_all add: XD3_CPY_def word_le_nat_alt word_less_nat_alt)
    have "t = of_nat (3 + (unat t - 3))" using b by simp
    then have "t = XD3_CPY + of_nat (unat t - 3)" by (simp add: XD3_CPY_def)
    then show thesis using that(3) [of "unat t - 3"] b by simp
  qed (use that in auto)
qed

lemma small_size_cases:
  assumes "(n :: u64) \<le> of_nat k" "k < 100"
  obtains m where "m \<le> k" "n = of_nat m"
proof
  show "unat n \<le> k" using assms by (simp add: word_le_nat_alt unat_of_nat_less)
  show "n = of_nat (unat n)" by simp
qed

text \<open>The code picked depends on the types and sizes only, and on no size above 18.\<close>

definition single_code :: "u8 \<Rightarrow> u64 \<Rightarrow> u8" where
  "single_code t n =
     (if t = XD3_RUN then 0
      else if t = XD3_ADD then (if n \<le> 17 then 1 + ucast n else 1)
      else if n \<le> 18 \<and> 4 \<le> n then 19 + 16 * (t - XD3_CPY) + ucast (n - 3)
      else 19 + 16 * (t - XD3_CPY))"

definition double_code :: "u8 \<Rightarrow> u64 \<Rightarrow> u8 \<Rightarrow> u64 \<Rightarrow> u8 option" where
  "double_code tp np t n =
     (if t = XD3_ADD \<and> n = 1 \<and> np = 4 \<and> XD3_CPY \<le> tp then Some (247 + (tp - XD3_CPY))
      else if XD3_CPY \<le> t \<and> tp = XD3_ADD \<and> np \<le> 4 \<and> 4 \<le> n \<and> n \<le> 6 \<and> t - XD3_CPY \<le> 5 then
        Some (163 + (t - XD3_CPY) * 12 + 3 * (ucast np - 1) + (ucast n - 4))
      else if XD3_CPY \<le> t \<and> tp = XD3_ADD \<and> np \<le> 4 \<and> n = 4 \<and> 6 \<le> t - XD3_CPY then
        Some (235 + (t - XD3_CPY - 6) * 4 + (ucast np - 1))
      else None)"

lemma rtype_CPY: "valid_rtype t \<Longrightarrow> t \<noteq> XD3_RUN \<Longrightarrow> t \<noteq> XD3_ADD \<Longrightarrow> XD3_CPY \<le> t"
  by (auto simp: valid_rtype_def)

lemma CPY_neq [simp]: "XD3_CPY \<le> t \<Longrightarrow> t \<noteq> XD3_ADD" "XD3_CPY \<le> t \<Longrightarrow> t \<noteq> XD3_RUN"
  by (auto simp: xd3_rtype_defs word_le_nat_alt)

lemma choose_instruction_eq:
  assumes "valid_rtype (rtype inst)"
  shows "xd3_choose_instruction prev inst =
     (case prev of None \<Rightarrow> None
      | Some p \<Rightarrow> Some (case double_code (rtype p) (rsize p) (rtype inst) (rsize inst) of
            None \<Rightarrow> p | Some c \<Rightarrow> p\<lparr>code2 := c\<rparr>),
      inst\<lparr>code1 := single_code (rtype inst) (rsize inst)\<rparr>)"
proof -
  consider "rtype inst = XD3_RUN" | "rtype inst = XD3_ADD" | "XD3_CPY \<le> rtype inst"
    using rtype_CPY [OF assms] by blast
  then show ?thesis
  proof cases
    case 1
    then show ?thesis
      by (auto simp: xd3_choose_instruction_def single_code_def double_code_def xd3_rtype_defs split: option.splits)
  next
    case 2
    then show ?thesis
      by (auto simp: xd3_choose_instruction_def single_code_def double_code_def xd3_rtype_defs
          word_le_nat_alt split: option.splits)
  next
    case 3
    show ?thesis
    proof (cases "rsize inst \<le> 18 \<and> 4 \<le> rsize inst")
      case True
      then show ?thesis using 3
        by (auto simp: xd3_choose_instruction_def single_code_def double_code_def Let_def
            split: option.splits)
    next
      case False
      then have "\<not> (4 \<le> rsize inst \<and> rsize inst \<le> 6)" "rsize inst \<noteq> 4"
        by (auto simp: word_le_nat_alt)
      then have "double_code tp np (rtype inst) (rsize inst) = None" for tp np
        using 3 by (auto simp: double_code_def)
      then show ?thesis using 3 False
        by (auto simp: xd3_choose_instruction_def single_code_def Let_def split: option.splits)
    qed
  qed
qed

definition words :: "nat \<Rightarrow> nat \<Rightarrow> 'a::len word list" where
  "words a b = map of_nat [a..<b]"

lemma in_words: "b \<le> 2 ^ LENGTH('a) \<Longrightarrow> t \<in> set (words a b) \<longleftrightarrow> a \<le> unat t \<and> unat t < b"
  for t :: "'a::len word"
proof -
  assume "b \<le> 2 ^ LENGTH('a)"
  then have "t \<in> of_nat ` set [a..<b] \<longleftrightarrow> unat t \<in> set [a..<b]"
    by (auto simp: image_iff unat_of_nat intro!: bexI [of _ "unat t"])
  then show ?thesis by (simp add: words_def)
qed

definition inst_of :: "u8 \<Rightarrow> u64 \<Rightarrow> xd3_rinst" where
  "inst_of t n = \<lparr>rtype = t, xtra = 0, code1 = 0, code2 = 0, rpos = 0, rsize = n, raddr = 0\<rparr>"

lemma single_codes_checked:
  "let tab = xd3_rfc3284_code_table in
    list_all (\<lambda>t. list_all (\<lambda>n. codes_single (tab ! unat (single_code t n)) (inst_of t n))
      (words 0 20)) (words 1 12)"
  by code_simp

lemma long_codes_checked:
  "let tab = xd3_rfc3284_code_table in
    list_all (\<lambda>t. tab ! unat (single_code t 19) = single t 0) (words 1 12)"
  by code_simp

lemma copyadd_codes_checked:
  "let tab = xd3_rfc3284_code_table in
    list_all (\<lambda>t. codes_double (tab ! unat (247 + (t - XD3_CPY)))
      (inst_of t 4) (inst_of XD3_ADD 1) \<and> 247 + (t - XD3_CPY) \<noteq> 0) (words 3 12)"
  by code_simp

lemma addcopy_near_codes_checked:
  "let tab = xd3_rfc3284_code_table in
    list_all (\<lambda>t. list_all (\<lambda>np. list_all (\<lambda>n. case double_code XD3_ADD np t n of None \<Rightarrow> False | Some c \<Rightarrow>
      codes_double (tab ! unat c) (inst_of XD3_ADD np) (inst_of t n) \<and> c \<noteq> 0)
      (words 4 7)) (words 1 5)) (words 3 9)"
  by code_simp

lemma addcopy_same_codes_checked:
  "let tab = xd3_rfc3284_code_table in
    list_all (\<lambda>t. list_all (\<lambda>np. case double_code XD3_ADD np t 4 of None \<Rightarrow> False | Some c \<Rightarrow>
      codes_double (tab ! unat c) (inst_of XD3_ADD np) (inst_of t 4) \<and> c \<noteq> 0)
      (words 1 5)) (words 9 12)"
  by code_simp

lemma codes_single_inst_of: "codes_single d inst = codes_single d (inst_of (rtype inst) (rsize inst))"
  by (simp add: codes_single_def inst_of_def)

lemma codes_double_inst_of:
  "codes_double d p inst = codes_double d (inst_of (rtype p) (rsize p)) (inst_of (rtype inst) (rsize inst))"
  by (simp add: codes_double_def inst_of_def)

lemma valid_rtype_unat: "valid_rtype t \<longleftrightarrow> 1 \<le> unat t \<and> unat t < 12"
  by (auto simp: valid_rtype_def xd3_rtype_defs word_le_nat_alt word_less_nat_alt word_unat_eq_iff)

lemma single_code_correct:
  assumes "valid_rtype (rtype inst)"
  shows "codes_single (xd3_rfc3284_code_table ! unat (single_code (rtype inst) (rsize inst))) inst"
proof (cases "unat (rsize inst) < 20")
  case True
  have "rtype inst \<in> set (words 1 12)" "rsize inst \<in> set (words 0 20)"
    using assms True by (simp_all add: in_words valid_rtype_unat)
  then show ?thesis
    using single_codes_checked by (subst codes_single_inst_of) (simp only: list_all_iff Let_def)
next
  case False
  have "rtype inst \<in> set (words 1 12)"
    using assms by (simp add: in_words valid_rtype_unat)
  moreover have "single_code (rtype inst) (rsize inst) = single_code (rtype inst) 19"
    using False by (simp add: single_code_def word_le_nat_alt)
  ultimately show ?thesis
    using long_codes_checked by (simp add: list_all_iff Let_def codes_single_def single_def XD3_NOOP_def)
qed

lemma double_code_correct:
  assumes v: "valid_rtype tp" "valid_rtype t" and np: "np \<noteq> 0" and c: "double_code tp np t n = Some c"
  shows "codes_double (xd3_rfc3284_code_table ! unat c) (inst_of tp np) (inst_of t n) \<and> c \<noteq> 0"
proof -
  consider (ca) "t = XD3_ADD" "n = 1" "np = 4" "XD3_CPY \<le> tp" "c = 247 + (tp - XD3_CPY)"
    | (near) "tp = XD3_ADD" "XD3_CPY \<le> t" "np \<le> 4" "4 \<le> n" "n \<le> 6" "t - XD3_CPY \<le> 5"
    | (same) "tp = XD3_ADD" "XD3_CPY \<le> t" "np \<le> 4" "n = 4" "6 \<le> t - XD3_CPY"
    using c by (auto simp: double_code_def split: if_splits)
  then show ?thesis
  proof cases
    case ca
    then have "tp \<in> set (words 3 12)"
      using v by (simp add: in_words valid_rtype_unat word_le_nat_alt XD3_CPY_def)
    with ca show ?thesis using copyadd_codes_checked by (simp only: list_all_iff simp_thms Let_def)
  next
    case near
    have "t \<in> set (words 3 9)" "np \<in> set (words 1 5)" "n \<in> set (words 4 7)"
      using near np v by (simp_all add: in_words valid_rtype_unat word_le_nat_alt XD3_CPY_def unat_sub_le Suc_le_eq unat_gt_0)
    with near show ?thesis using addcopy_near_codes_checked c by (fastforce simp only: list_all_iff option.case Let_def)
  next
    case same
    have "t \<in> set (words 9 12)" "np \<in> set (words 1 5)" 
      using same np v by (simp_all add: in_words valid_rtype_unat word_le_nat_alt XD3_CPY_def unat_sub_le Suc_le_eq unat_gt_0)
    with same show ?thesis using addcopy_same_codes_checked c by (fastforce simp only: list_all_iff option.case Let_def)
  qed
qed

lemma choose_prev_codes:
  assumes "valid_rtype (rtype p)" "valid_rtype (rtype inst)" "rsize p \<noteq> 0" "code2 p = 0"
    "xd3_choose_instruction (Some p) inst = (Some p', inst')" "code2 p' \<noteq> 0"
  shows "codes_double (xd3_rfc3284_code_table ! unat (code2 p')) p inst"
  using assms double_code_correct [of "rtype p" "rtype inst" "rsize p" "rsize inst"]
  by (subst codes_double_inst_of) (auto simp: choose_instruction_eq split: option.splits)

subsection \<open>Properties\<close>

text \<open>C20. The 256 entries that the nested loops of \<open>xd3_build_code_table\<close> produce from the
  description of RFC 3284 are the rows of the default code table that the comment of xdelta3.c lists
  (inclusive ranges, sizes and address modes).\<close>

theorem build_code_table_rfc3284:
  "xd3_build_code_table rfc3284_code_table_desc = map rfc3284_entry [0..<256]"
  using code_table_eq_rfc by (simp add: xd3_rfc3284_code_table_def)

text \<open>C19. Every code \<open>xd3_choose_instruction\<close> picks decodes to what it was picked for: \<open>code1\<close> is the
  index of an entry for the new instruction, and when a double code was found for the previous
  instruction (\<open>code2 \<noteq> 0\<close>) its entry stands for both, sizes included. Nothing else of the two
  instructions changes.\<close>

theorem choose_instruction_correct:
  assumes "valid_rtype (rtype p)" "valid_rtype (rtype inst)" "rsize p \<noteq> 0" "code2 p = 0"
  shows "\<exists>c1 c2. xd3_choose_instruction (Some p) inst = (Some (p\<lparr>code2 := c2\<rparr>), inst\<lparr>code1 := c1\<rparr>)
     \<and> codes_single (xd3_rfc3284_code_table ! unat c1) inst
     \<and> (c2 \<noteq> 0 \<longrightarrow> codes_double (xd3_rfc3284_code_table ! unat c2) p inst)"
proof -
  define c2 where "c2 = (case double_code (rtype p) (rsize p) (rtype inst) (rsize inst) of
    None \<Rightarrow> 0 | Some c \<Rightarrow> c)"
  have e: "xd3_choose_instruction (Some p) inst =
      (Some (p\<lparr>code2 := c2\<rparr>), inst\<lparr>code1 := single_code (rtype inst) (rsize inst)\<rparr>)"
    using assms by (auto simp: choose_instruction_eq c2_def split: option.splits)
  moreover have "c2 \<noteq> 0 \<longrightarrow> codes_double (xd3_rfc3284_code_table ! unat c2) p inst"
    using choose_prev_codes [OF assms e] by simp
  ultimately show ?thesis using single_code_correct [OF assms(2)] by blast
qed

theorem choose_instruction_correct_witness:
  "\<exists>c1 c2. xd3_choose_instruction (Some (inst_of XD3_ADD 2)) (inst_of (XD3_CPY + 1) 5)
       = (Some ((inst_of XD3_ADD 2)\<lparr>code2 := c2\<rparr>), (inst_of (XD3_CPY + 1) 5)\<lparr>code1 := c1\<rparr>)
     \<and> codes_single (xd3_rfc3284_code_table ! unat c1) (inst_of (XD3_CPY + 1) 5)
     \<and> (c2 \<noteq> 0 \<longrightarrow> codes_double (xd3_rfc3284_code_table ! unat c2) (inst_of XD3_ADD 2)
           (inst_of (XD3_CPY + 1) 5))"
  by (rule choose_instruction_correct) (simp_all add: inst_of_def valid_rtype_unat xd3_rtype_defs)


end
