(* ===== verification/Xd3_Util.thy ===== *)
theory Xd3_Util
  imports Prelude
begin

section \<open>Arithmetic helpers, Adler-32 and runs (xdelta3.c)\<close>

text \<open>
  The small routines the stream code relies on: the power-of-two tests and roundings used for block
  and window sizes, the Adler-32 checksum stored in every window, the run-length scan of the string
  matcher, and the block arithmetic of xdelta3.h. The loops are kept as the code has them
  (\<open>xd3_pow2_roundup\<close> can run forever, so it is a partial function) and are shown equal to closed
  forms.
\<close>

definition USIZE_T_MAX :: u64 where "USIZE_T_MAX = - 1"
definition USIZE_T_MAXBLKSZ :: u64 where "USIZE_T_MAXBLKSZ = 0x8000000000000000"

definition USIZE_T_OVERFLOW :: "u64 \<Rightarrow> u64 \<Rightarrow> bool" where
  "USIZE_T_OVERFLOW a b \<longleftrightarrow> USIZE_T_MAX - a < b"

definition XOFF_T_OVERFLOW :: "u64 \<Rightarrow> u64 \<Rightarrow> bool" where
  "XOFF_T_OVERFLOW a b \<longleftrightarrow> USIZE_T_MAX - a < b"

subsection \<open>Powers of two\<close>

text \<open>The loop \<open>for (; x != 0; x <<= 1, *logof += 1)\<close>; the result is the return code and
  \<open>*logof\<close>.\<close>

lemma shift_steps_decrease:
  assumes "(x :: u64) \<noteq> 0"
  shows "(LEAST k. push_bit k (push_bit 1 x) = 0) < (LEAST k. push_bit k x = 0)"
proof -
  have "push_bit 64 x = 0" by (simp add: bit_eq_iff bit_simps)
  then have z: "push_bit (LEAST k. push_bit k x = 0) x = 0" by (rule LeastI)
  with assms obtain j where j: "(LEAST k. push_bit k x = 0) = Suc j"
    by (cases "LEAST k. push_bit k x = 0") simp_all
  then have "push_bit j (push_bit 1 x) = 0" using z by (simp add: ac_simps)
  then have "(LEAST k. push_bit k (push_bit 1 x) = 0) \<le> j" by (rule Least_le)
  then show ?thesis using j by simp
qed

function check_pow2_loop :: "xoff_t \<Rightarrow> xoff_t \<Rightarrow> usize_t \<Rightarrow> xd3_ret \<times> usize_t" where
  "check_pow2_loop value x logof =
     (if x = 0 then (Some XD3_INTERNAL, logof)
      else if x = value then (None, logof)
      else check_pow2_loop value (push_bit 1 x) (logof + 1))"
  by pat_completeness auto
termination
  by (relation "measure (\<lambda>(value, x, logof). LEAST k. push_bit k x = 0)")
    (simp, simp only: in_measure case_prod_conv shift_steps_decrease not_False_eq_True)

declare check_pow2_loop.simps [simp del]

definition xd3_check_pow2 :: "xoff_t \<Rightarrow> xd3_ret \<times> usize_t" where
  "xd3_check_pow2 value = check_pow2_loop value 1 0"

partial_function (option) pow2_roundup_loop :: "usize_t \<Rightarrow> usize_t \<Rightarrow> usize_t option" where
  "pow2_roundup_loop x i = (if x > i then pow2_roundup_loop x (push_bit 1 i) else Some i)"

definition xd3_pow2_roundup :: "usize_t \<Rightarrow> usize_t option" where
  "xd3_pow2_roundup x = pow2_roundup_loop x 1"

definition xd3_xoff_roundup :: "xoff_t \<Rightarrow> xoff_t option" where
  "xd3_xoff_roundup x = pow2_roundup_loop x 1"

definition xd3_round_blksize :: "usize_t \<Rightarrow> usize_t \<Rightarrow> usize_t" where
  "xd3_round_blksize sz blksz =
     (let mod' = sz AND (blksz - 1)
      in if mod' = 0 then sz
         else if sz > USIZE_T_MAXBLKSZ then USIZE_T_MAXBLKSZ
         else sz + (blksz - mod'))"

subsection \<open>Block arithmetic (xdelta3.h)\<close>

text \<open>\<open>shiftby\<close> and \<open>maskby\<close> of the source; \<open>xd3_set_source\<close> sets them from a power-of-two block
  size.\<close>

definition xd3_blksize_div :: "xoff_t \<Rightarrow> nat \<Rightarrow> u64 \<Rightarrow> xoff_t \<times> usize_t" where
  "xd3_blksize_div offset shiftby maskby = (drop_bit shiftby offset, offset AND maskby)"

definition xd3_blksize_add :: "xoff_t \<Rightarrow> usize_t \<Rightarrow> nat \<Rightarrow> u64 \<Rightarrow> usize_t \<Rightarrow> xoff_t \<times> usize_t" where
  "xd3_blksize_add blkno blkoff shiftby maskby add =
     (let blkoff' = blkoff + add; blkdiff = drop_bit shiftby blkoff'
      in if blkdiff \<noteq> 0 then (blkno + blkdiff, blkoff' AND maskby) else (blkno, blkoff'))"

subsection \<open>Adler-32\<close>

definition A32_BASE :: u32 where "A32_BASE = 65521"
definition A32_NMAX :: nat where "A32_NMAX = 5552"

definition A32_DO1 :: "u32 \<times> u32 \<Rightarrow> u8 \<Rightarrow> u32 \<times> u32" where
  "A32_DO1 s b = (case s of (s1, s2) \<Rightarrow> let s1' = s1 + ucast b in (s1', s2 + s1'))"

text \<open>The unrolled \<open>A32_DO16\<close> is sixteen \<open>A32_DO1\<close> in the order of the buffer.\<close>

definition A32_DO16 :: "u32 \<times> u32 \<Rightarrow> bytes \<Rightarrow> u32 \<times> u32" where
  "A32_DO16 s buf = foldl A32_DO1 s (take 16 buf)"

function a32_block :: "nat \<Rightarrow> u32 \<times> u32 \<Rightarrow> bytes \<Rightarrow> (u32 \<times> u32) \<times> bytes" where
  "a32_block k s buf =
     (if k \<ge> 16 then a32_block (k - 16) (A32_DO16 s buf) (drop 16 buf)
      else (foldl A32_DO1 s (take k buf), drop k buf))"
  by pat_completeness auto
termination by (relation "measure (\<lambda>(k, s, buf). k)") auto

declare a32_block.simps [simp del]

function adler32_loop :: "u32 \<times> u32 \<Rightarrow> bytes \<Rightarrow> nat \<Rightarrow> u32 \<times> u32" where
  "adler32_loop s buf len =
     (if len > 0 then
        (let k = (if len < A32_NMAX then len else A32_NMAX);
             ((s1, s2), buf') = a32_block k s buf
         in adler32_loop (s1 mod A32_BASE, s2 mod A32_BASE) buf' (len - k))
      else s)"
  by pat_completeness auto
termination
  by (relation "measure (\<lambda>(s, buf, len). len)") (auto simp: A32_NMAX_def)

declare adler32_loop.simps [simp del]

definition adler32 :: "u32 \<Rightarrow> bytes \<Rightarrow> u32" where
  "adler32 adler buf =
     (case adler32_loop (adler AND 0xffff, drop_bit 16 adler AND 0xffff) buf (length buf) of
        (s1, s2) \<Rightarrow> push_bit 16 s2 OR s1)"

subsection \<open>Runs\<close>

definition NEXTRUN :: "u8 \<Rightarrow> usize_t \<times> u8 \<Rightarrow> usize_t \<times> u8" where
  "NEXTRUN c run = (case run of (run_l, run_c) \<Rightarrow> if c = run_c then (run_l + 1, run_c) else (1, c))"

text \<open>\<open>xd3_comprun (seg, slook, &run_c)\<close>, with \<open>seg\<close> the \<open>slook\<close> bytes scanned.\<close>

definition xd3_comprun :: "bytes \<Rightarrow> usize_t \<times> u8" where
  "xd3_comprun seg = fold NEXTRUN seg (0, 0)"

subsection \<open>Powers of two: closed forms\<close>

lemma push_bit_1_exp: "push_bit 1 (2 ^ k :: u64) = 2 ^ Suc k"
  by (simp add: push_bit_eq_mult)

lemma exp_u64_eq_0_iff: "(2 ^ k :: u64) = 0 \<longleftrightarrow> 64 \<le> k"
  using exp_eq_zero_iff [of k, where ?'a = 64] by simp

lemma unat_exp_u64: "k < 64 \<Longrightarrow> unat (2 ^ k :: u64) = 2 ^ k"
  using unat_push_bit_mult [of "1 :: u64" k] power_strict_increasing [of k 64 "2::nat"]
  by (simp add: push_bit_eq_mult)

lemma exp_u64_inject: "j < 64 \<Longrightarrow> k < 64 \<Longrightarrow> (2 ^ j :: u64) = 2 ^ k \<longleftrightarrow> j = k"
  by (metis unat_exp_u64 power_inject_exp one_less_numeral_iff semiring_norm(76))

lemma check_pow2_hit:
  "k \<le> j \<Longrightarrow> j < 64 \<Longrightarrow> check_pow2_loop (2 ^ j) (2 ^ k) (of_nat k) = (None, of_nat j)"
proof (induction "j - k" arbitrary: k)
  case 0
  then show ?case by (subst check_pow2_loop.simps) (simp add: exp_u64_eq_0_iff)
next
  case (Suc d)
  then have "check_pow2_loop (2 ^ j) (2 ^ Suc k) (of_nat (Suc k)) = (None, of_nat j)"
    by (intro Suc.hyps(1)) simp_all
  then show ?case
    using Suc.prems Suc.hyps(2)
    by (subst check_pow2_loop.simps)
      (simp only: push_bit_1_exp exp_u64_eq_0_iff exp_u64_inject, simp add: ac_simps)
qed

lemma check_pow2_miss:
  "k \<le> 64 \<Longrightarrow> (\<And>j. j < 64 \<Longrightarrow> v \<noteq> 2 ^ j) \<Longrightarrow>
     check_pow2_loop v (2 ^ k) (of_nat k) = (Some XD3_INTERNAL, 64)"
proof (induction "64 - k" arbitrary: k)
  case 0
  then have "k = 64" by simp
  then show ?case by (subst check_pow2_loop.simps) (simp add: exp_u64_eq_0_iff)
next
  case (Suc d)
  then have "check_pow2_loop v (2 ^ Suc k) (of_nat (Suc k)) = (Some XD3_INTERNAL, 64)"
    by (intro Suc.hyps(1)) simp_all
  moreover have "2 ^ k \<noteq> v"
    using Suc.prems(2) [of k] Suc.hyps(2) by (cases "k < 64") auto
  ultimately show ?case
    using Suc.prems Suc.hyps(2)
    by (subst check_pow2_loop.simps) (simp only: push_bit_1_exp exp_u64_eq_0_iff, simp add: ac_simps)
qed

lemma check_pow2_spec:
  "xd3_check_pow2 v = (None, logof) \<longleftrightarrow> (\<exists>k < 64. v = 2 ^ k \<and> logof = of_nat k)"
proof (cases "\<exists>k < 64. v = 2 ^ k")
  case True
  then obtain k where k: "k < 64" "v = 2 ^ k" by blast
  then have "xd3_check_pow2 v = (None, of_nat k)"
    using check_pow2_hit [of 0 k] by (simp add: xd3_check_pow2_def)
  then show ?thesis using k exp_u64_inject by auto
next
  case False
  then have "xd3_check_pow2 v = (Some XD3_INTERNAL, 64)"
    using check_pow2_miss [of 0 v] by (auto simp: xd3_check_pow2_def)
  then show ?thesis using False by auto
qed

lemma pow2_roundup_loop_ok:
  assumes "unat x \<le> 2 ^ m" "m < 64" "\<And>j. j < m \<Longrightarrow> 2 ^ j < unat x"
  shows "k \<le> m \<Longrightarrow> pow2_roundup_loop x (2 ^ k) = Some (2 ^ m)"
proof (induction "m - k" arbitrary: k)
  case 0
  then show ?case using assms
    by (subst pow2_roundup_loop.simps) (simp add: word_less_nat_alt unat_exp_u64)
next
  case (Suc d)
  then have "2 ^ k < x" using assms by (simp add: word_less_nat_alt unat_exp_u64)
  moreover have "pow2_roundup_loop x (2 ^ Suc k) = Some (2 ^ m)"
    using Suc.hyps(2) Suc.prems by (intro Suc.hyps(1)) simp_all
  ultimately show ?case by (subst pow2_roundup_loop.simps) (simp only: push_bit_1_exp if_True)
qed

lemma pow2_roundup_loop_result:
  assumes "pow2_roundup_loop x i = Some y" "i = 0 \<or> (\<exists>k < 64. i = 2 ^ k)"
  shows "x \<le> y \<and> (y = 0 \<or> (\<exists>k < 64. y = 2 ^ k))"
proof -
  let ?pow = "\<lambda>i :: u64. i = 0 \<or> (\<exists>k < 64. i = 2 ^ k)"
  have "(case (x, i) of (x, i) \<Rightarrow> \<lambda>y. ?pow i \<longrightarrow> x \<le> y \<and> ?pow y) y"
  proof (rule pow2_roundup_loop.raw_induct)
    fix loop :: "u64 \<Rightarrow> u64 \<Rightarrow> u64 option" and x i y
    assume IH: "\<And>x i y. loop x i = Some y \<Longrightarrow> ?pow i \<longrightarrow> x \<le> y \<and> ?pow y"
      and e: "(if i < x then loop x (push_bit 1 i) else Some i) = Some y"
    have "?pow (push_bit 1 i)" if "?pow i"
      using that by (metis exp_u64_eq_0_iff linorder_not_le push_bit_1_exp push_bit_of_0)
    then show "?pow i \<longrightarrow> x \<le> y \<and> ?pow y"
      using IH [of x "push_bit 1 i" y] e by (metis linorder_not_le option.inject)
  qed (simp add: assms)
  then show ?thesis using assms(2) by (simp only: case_prod_conv simp_thms)
qed

lemma pow2_roundup_eq:
  "xd3_pow2_roundup x =
     (if unat x \<le> 2 ^ 63 then Some (2 ^ (LEAST m. unat x \<le> 2 ^ m)) else None)"
proof (cases "unat x \<le> 2 ^ 63")
  case True
  define m where "m = (LEAST m. unat x \<le> 2 ^ m)"
  have "unat x \<le> 2 ^ m"
    unfolding m_def by (rule LeastI [where P = "\<lambda>m. unat x \<le> 2 ^ m", OF True])
  moreover have "m \<le> 63"
    unfolding m_def by (rule Least_le [where P = "\<lambda>m. unat x \<le> 2 ^ m", OF True])
  moreover have "2 ^ j < unat x" if "j < m" for j
    using not_less_Least [of j "\<lambda>m. unat x \<le> 2 ^ m"] that by (simp add: m_def)
  ultimately have "pow2_roundup_loop x (2 ^ 0) = Some (2 ^ m)"
    by (intro pow2_roundup_loop_ok) auto
  then show ?thesis using True by (simp add: xd3_pow2_roundup_def m_def)
next
  case False
  have "pow2_roundup_loop x (2 ^ 0) \<noteq> Some y" for y
  proof
    assume "pow2_roundup_loop x (2 ^ 0) = Some y"
    then have xy: "x \<le> y" and "y = 0 \<or> (\<exists>k < 64. y = 2 ^ k)"
      using pow2_roundup_loop_result [of x "2 ^ 0" y] by (metis zero_less_numeral)+
    then have "unat y \<le> 2 ^ 63" using power_increasing [of _ 63 "2::nat"] by (auto simp: unat_exp_u64)
    then show False using xy False by (simp add: word_le_nat_alt)
  qed
  then show ?thesis using False by (simp add: xd3_pow2_roundup_def) (metis option.exhaust)
qed

lemma and_mask_exp: "k < 64 \<Longrightarrow> (w :: u64) AND (2 ^ k - 1) = take_bit k w"
  by (simp add: take_bit_eq_mask mask_eq_exp_minus_1)

lemma round_blksize_spec:
  assumes k: "k < 64" and blk: "blksz = 2 ^ k" and r: "r = xd3_round_blksize sz blksz"
    and small: "unat sz \<le> 2 ^ 63"
  shows "2 ^ k dvd unat r \<and> unat sz \<le> unat r \<and> unat r < unat sz + 2 ^ k"
proof -
  have m: "unat (sz AND (blksz - 1)) = unat sz mod 2 ^ k"
    using k blk by (simp only: and_mask_exp unat_take_bit_mod)
  show ?thesis
  proof (cases "unat sz mod 2 ^ k = 0")
    case True
    then have "sz AND (blksz - 1) = 0" using m by (simp add: unat_eq_zero)
    then have "r = sz" using r by (simp add: xd3_round_blksize_def)
    then show ?thesis using True by (simp add: mod_eq_0_iff_dvd)
  next
    case False
    then have nz: "sz AND (blksz - 1) \<noteq> 0" using m by (metis unat_0)
    have "\<not> sz > USIZE_T_MAXBLKSZ" using small by (simp add: word_less_nat_alt USIZE_T_MAXBLKSZ_def)
    then have req: "r = sz + (blksz - (sz AND (blksz - 1)))"
      using r nz by (simp add: xd3_round_blksize_def Let_def)
    have ub: "unat blksz = 2 ^ k" using blk k by (simp add: unat_exp_u64)
    have lt: "unat sz mod 2 ^ k < 2 ^ k" by simp
    have d: "unat (blksz - (sz AND (blksz - 1))) = 2 ^ k - unat sz mod 2 ^ k"
      using lt by (subst unat_sub_le) (simp_all only: m ub)
    have "(2::nat) ^ k \<le> 2 ^ 63" using k power_increasing [of k 63 "2::nat"] by simp
    then have "unat sz + (2 ^ k - unat sz mod 2 ^ k) < 2 ^ 64" using small False by simp
    then have ur: "unat r = unat sz + (2 ^ k - unat sz mod 2 ^ k)"
      unfolding req by (subst unat_add_less) (simp_all only: d len_bit0 len_num1, simp)
    have "unat sz + (2 ^ k - unat sz mod 2 ^ k) = 2 ^ k * (unat sz div 2 ^ k + 1)"
      using lt by (simp add: minus_mod_eq_mult_div [symmetric] algebra_simps)
    then have "2 ^ k dvd unat r" unfolding ur by simp
    moreover have "unat sz \<le> unat r" "unat r < unat sz + 2 ^ k" using ur lt False by linarith+
    ultimately show ?thesis by blast
  qed
qed

lemma blksize_div_spec:
  assumes "k < 64" "xd3_blksize_div offset k (2 ^ k - 1) = (blkno, blkoff)"
  shows "unat offset = unat blkno * 2 ^ k + unat blkoff" "unat blkoff < 2 ^ k"
proof -
  have "unat blkno = unat offset div 2 ^ k" "unat blkoff = unat offset mod 2 ^ k"
    using assms by (auto simp: xd3_blksize_div_def and_mask_exp unat_drop_bit_div unat_take_bit_mod
      simp del: drop_bit_eq_div take_bit_eq_mod)
  then show "unat offset = unat blkno * 2 ^ k + unat blkoff" "unat blkoff < 2 ^ k"
    by (simp_all only: div_mult_mod_eq) simp
qed

lemma blksize_add_spec:
  assumes "k < 64" "xd3_blksize_add blkno blkoff k (2 ^ k - 1) add = (blkno', blkoff')"
    "unat blkno * 2 ^ k + unat blkoff + unat add < 2 ^ 64"
  shows "unat blkno' * 2 ^ k + unat blkoff' = unat blkno * 2 ^ k + unat blkoff + unat add"
    "unat blkoff' < 2 ^ k"
proof -
  have s: "unat (blkoff + add) = unat blkoff + unat add"
    using assms(3) by (intro unat_add_less) simp
  define d where "d = (unat blkoff + unat add) div 2 ^ k"
  have d: "unat (drop_bit k (blkoff + add)) = d"
    by (simp only: unat_drop_bit_div s d_def)
  have split: "unat blkoff + unat add = d * 2 ^ k + (unat blkoff + unat add) mod 2 ^ k"
    by (simp only: d_def div_mult_mod_eq)
  have o: "unat (blkoff + add AND (2 ^ k - 1)) = (unat blkoff + unat add) mod 2 ^ k"
    by (simp only: and_mask_exp [OF assms(1)] unat_take_bit_mod s)
  have "(unat blkno + d) * 2 ^ k < 2 ^ 64" using assms(3) split by (simp add: algebra_simps)
  then have "unat blkno + d < 2 ^ 64"
    by (metis le_less_trans mult_le_mono2 mult.right_neutral one_le_numeral one_le_power)
  then have n: "unat (blkno + drop_bit k (blkoff + add)) = unat blkno + d"
    by (subst unat_add_less) (simp_all only: d len_bit0 len_num1, simp)
  show "unat blkno' * 2 ^ k + unat blkoff' = unat blkno * 2 ^ k + unat blkoff + unat add"
  proof (cases "drop_bit k (blkoff + add) = 0")
    case True
    then show ?thesis using assms(2) s by (auto simp: xd3_blksize_add_def Let_def)
  next
    case False
    then have "blkno' = blkno + drop_bit k (blkoff + add)" "blkoff' = blkoff + add AND (2 ^ k - 1)"
      using assms(2) by (auto simp: xd3_blksize_add_def Let_def)
    then show ?thesis using split by (simp only: n o) (simp add: algebra_simps)
  qed
  show "unat blkoff' < 2 ^ k"
  proof (cases "drop_bit k (blkoff + add) = 0")
    case True
    then have "d = 0" using d by (metis unat_0)
    then show ?thesis using assms(2) s True split by (auto simp: xd3_blksize_add_def Let_def d_def div_eq_0_iff)
  next
    case False
    then have "blkoff' = blkoff + add AND (2 ^ k - 1)"
      using assms(2) by (auto simp: xd3_blksize_add_def Let_def)
    then show ?thesis by (simp only: o) simp
  qed
qed

subsection \<open>Adler-32: closed form\<close>

text \<open>The checksum of RFC 1950 over the integers: the sum of the bytes and the sum of the partial
  sums, modulo 65521.\<close>

definition adler_step :: "nat \<times> nat \<Rightarrow> u8 \<Rightarrow> nat \<times> nat" where
  "adler_step s b = (fst s + unat b, snd s + (fst s + unat b))"

definition adler_sums :: "nat \<times> nat \<Rightarrow> bytes \<Rightarrow> nat \<times> nat" where
  "adler_sums s buf = foldl adler_step s buf"

definition adler_spec :: "nat \<times> nat \<Rightarrow> bytes \<Rightarrow> nat \<times> nat" where
  "adler_spec s buf = (case adler_sums s buf of (s1, s2) \<Rightarrow> (s1 mod 65521, s2 mod 65521))"

lemma unat_ucast_u8_u32 [unat_rules]: "unat (ucast (b :: u8) :: u32) = unat b"
proof -
  have "unat b < 2 ^ 8" using unsigned_less [of b, where 'a = nat] by simp
  also have "(2::nat) ^ 8 < 2 ^ 32" by simp
  finally show ?thesis by (simp add: unsigned_ucast_eq take_bit_nat_eq_self)
qed

lemma a32_block_eq: "a32_block k s buf = (foldl A32_DO1 s (take k buf), drop k buf)"
proof (induction k s buf rule: a32_block.induct)
  case (1 k s buf)
  show ?case
  proof (cases "k \<ge> 16")
    case True
    have "take k buf = take 16 buf @ take (k - 16) (drop 16 buf)"
      using True take_add [of 16 "k - 16" buf] by simp
    then show ?thesis using 1 True
      by (subst a32_block.simps) (simp add: A32_DO16_def)
  next
    case False
    then show ?thesis by (subst a32_block.simps) simp
  qed
qed

lemma adler_sums_Nil [simp]: "adler_sums s [] = s"
  by (simp add: adler_sums_def)

lemma adler_sums_snoc [simp]: "adler_sums s (buf @ [b]) = adler_step (adler_sums s buf) b"
  by (simp add: adler_sums_def)

lemma adler_sums_append: "adler_sums s (xs @ ys) = adler_sums (adler_sums s xs) ys"
  by (simp add: adler_sums_def)

lemma adler_sums_bound:
  assumes "fst s \<le> 65535" "snd s \<le> 65535"
  shows "fst (adler_sums s buf) \<le> 65535 + 255 * length buf
    \<and> 2 * snd (adler_sums s buf) \<le> 2 * 65535 * Suc (length buf) + 255 * (length buf * Suc (length buf))"
proof (induction buf rule: rev_induct)
  case Nil
  then show ?case using assms by simp
next
  case (snoc b buf)
  have "unat b \<le> 255" using unat_u8_lt [of b] by linarith
  then show ?case using snoc by (auto simp: adler_step_def algebra_simps)
qed

lemma adler_no_overflow:
  assumes "fst s \<le> 65535" "snd s \<le> 65535" "length buf \<le> 5552"
  shows "fst (adler_sums s buf) < 2 ^ 32" "snd (adler_sums s buf) < 2 ^ 32"
proof -
  have "length buf * Suc (length buf) \<le> 5552 * 5553"
    using assms(3) by (intro mult_le_mono) simp_all
  then show "fst (adler_sums s buf) < 2 ^ 32" "snd (adler_sums s buf) < 2 ^ 32"
    using adler_sums_bound [OF assms(1,2), of buf] assms(3) by simp_all
qed

text \<open>Up to \<open>A32_NMAX\<close> bytes the 32-bit accumulators hold the integer sums.\<close>

lemma a32_fold_exact:
  assumes "unat s1 \<le> 65535" "unat s2 \<le> 65535"
  shows "length buf \<le> 5552 \<Longrightarrow> foldl A32_DO1 (s1, s2) buf = (t1, t2) \<Longrightarrow>
    (unat t1, unat t2) = adler_sums (unat s1, unat s2) buf"
proof (induction buf arbitrary: t1 t2 rule: rev_induct)
  case Nil
  then show ?case by simp
next
  case (snoc b buf)
  obtain u1 u2 where u: "foldl A32_DO1 (s1, s2) buf = (u1, u2)" by force
  have IH: "(unat u1, unat u2) = adler_sums (unat s1, unat s2) buf" using snoc u by simp
  have t: "t1 = u1 + ucast b" "t2 = u2 + t1"
    using snoc.prems(2) by (simp_all add: u) (auto simp: A32_DO1_def Let_def)
  note b = adler_no_overflow [of "(unat s1, unat s2)" "buf @ [b]"]
  have f: "fst (adler_sums (unat s1, unat s2) (buf @ [b])) = unat u1 + unat b"
    and g: "snd (adler_sums (unat s1, unat s2) (buf @ [b])) = unat u2 + (unat u1 + unat b)"
    by (simp_all add: adler_step_def flip: IH)
  have t1: "unat t1 = unat u1 + unat b"
    unfolding t(1) using b assms snoc.prems(1) f by (subst unat_add_less) (simp_all add: unat_ucast_u8_u32)
  then have t2: "unat t2 = unat u2 + (unat u1 + unat b)"
    unfolding t(2) using b assms snoc.prems(1) g by (subst unat_add_less) simp_all
  show ?case using t1 t2 f g by (simp add: prod_eq_iff)
qed

lemma adler_sums_mod:
  "fst s mod m = fst s' mod m \<Longrightarrow> snd s mod m = snd s' mod m \<Longrightarrow>
   fst (adler_sums s buf) mod m = fst (adler_sums s' buf) mod m
   \<and> snd (adler_sums s buf) mod m = snd (adler_sums s' buf) mod m"
proof (induction buf rule: rev_induct)
  case (snoc b buf)
  then have "fst (adler_sums s buf) mod m = fst (adler_sums s' buf) mod m"
    "snd (adler_sums s buf) mod m = snd (adler_sums s' buf) mod m" by auto
  then show ?case by (simp add: adler_step_def) (metis mod_add_cong)
qed simp

lemma adler_spec_append:
  "adler_spec s (xs @ ys) = adler_spec (adler_spec s xs) ys"
proof -
  have "fst (adler_sums s xs) mod 65521 = fst (adler_spec s xs) mod 65521"
    "snd (adler_sums s xs) mod 65521 = snd (adler_spec s xs) mod 65521"
    by (simp_all add: adler_spec_def case_prod_beta)
  from adler_sums_mod [OF this, of ys] show ?thesis
    by (simp add: adler_spec_def adler_sums_append case_prod_beta)
qed

lemma adler32_loop_exact:
  assumes "unat s1 \<le> 65535" "unat s2 \<le> 65535" "buf \<noteq> []" "adler32_loop (s1, s2) buf (length buf) = (t1, t2)"
  shows "(unat t1, unat t2) = adler_spec (unat s1, unat s2) buf"
  using assms
proof (induction "length buf" arbitrary: s1 s2 buf rule: less_induct)
  case less
  define k where "k = (if length buf < A32_NMAX then length buf else A32_NMAX)"
  have k: "k = length (take k buf)" "k \<le> 5552" "0 < k" "k \<le> length buf"
    using less.prems(3) by (auto simp: k_def A32_NMAX_def)
  obtain u1 u2 where u: "foldl A32_DO1 (s1, s2) (take k buf) = (u1, u2)" by force
  have ex: "(unat u1, unat u2) = adler_sums (unat s1, unat s2) (take k buf)"
    using k by (intro a32_fold_exact [OF less.prems(1,2) _ u]) simp
  define v1 v2 where "v1 = u1 mod A32_BASE" and "v2 = u2 mod A32_BASE"
  have v: "(unat v1, unat v2) = adler_spec (unat s1, unat s2) (take k buf)"
    by (simp add: adler_spec_def v1_def v2_def A32_BASE_def unat_mod flip: ex)
  have vb: "unat v1 \<le> 65535" "unat v2 \<le> 65535"
    by (simp_all add: v1_def v2_def A32_BASE_def unat_mod less_imp_le order.trans [OF mod_le_divisor])
  have step: "adler32_loop (s1, s2) buf (length buf) = adler32_loop (v1, v2) (drop k buf) (length (drop k buf))"
    using less.prems(3) u k by (subst adler32_loop.simps) (simp add: a32_block_eq Let_def v1_def v2_def flip: k_def)
  show ?case
  proof (cases "drop k buf = []")
    case True
    then have "(t1, t2) = (v1, v2)" using step less.prems(4) by (subst (asm) (2) adler32_loop.simps) simp
    then show ?thesis using v True by simp
  next
    case False
    have "(unat t1, unat t2) = adler_spec (unat v1, unat v2) (drop k buf)"
      using False k less.prems(4) step by (intro less.hyps vb) simp_all
    also have "\<dots> = adler_spec (unat s1, unat s2) (take k buf @ drop k buf)"
      unfolding adler_spec_append v ..
    finally show ?thesis by simp
  qed
qed

lemma u32_and_ffff: "(w :: u32) AND 0xffff = take_bit 16 w"
  by (simp add: take_bit_eq_mask mask_numeral)

lemma adler_halves:
  assumes "unat s1 < 2 ^ 16" "unat s2 < 2 ^ 16"
  shows "(push_bit 16 s2 OR s1 :: u32) AND 0xffff = s1"
    and "drop_bit 16 (push_bit 16 s2 OR s1 :: u32) AND 0xffff = s2"
    and "unat (push_bit 16 s2 OR s1 :: u32) = unat s2 * 2 ^ 16 + unat s1"
proof -
  have s: "take_bit 16 s1 = s1" "take_bit 16 s2 = s2"
    using assms by (simp_all only: word_unat_eq_iff unat_take_bit_mod mod_less)
  have b1: "bit s1 n \<Longrightarrow> n < 16" and b2: "bit s2 n \<Longrightarrow> n < 16" for n
    by (metis bit_take_bit_iff s(1)) (metis bit_take_bit_iff s(2))
  show "(push_bit 16 s2 OR s1) AND 0xffff = s1"
    unfolding u32_and_ffff by (rule bit_word_eqI) (auto simp: bit_simps dest: b1)
  show "drop_bit 16 (push_bit 16 s2 OR s1) AND 0xffff = s2"
    unfolding u32_and_ffff by (rule bit_word_eqI) (auto simp: bit_simps dest: b1 b2)
  have disj: "push_bit 16 s2 AND s1 = 0"
    by (rule bit_word_eqI) (auto simp: bit_simps dest: b1)
  have p: "unat (push_bit 16 s2) = unat s2 * 2 ^ 16"
    using assms by (intro unat_push_bit_mult) simp
  have "unat (push_bit 16 s2 OR s1) = unat (push_bit 16 s2 + s1)"
    using disjunctive_add_eq_or [OF disj] by simp
  also have "\<dots> = unat s2 * 2 ^ 16 + unat s1"
    using assms by (subst unat_add_less) (simp_all only: p, simp)
  finally show "unat (push_bit 16 s2 OR s1) = unat s2 * 2 ^ 16 + unat s1" .
qed

definition adler_halves_of :: "u32 \<Rightarrow> nat \<times> nat" where
  "adler_halves_of a = (unat (a AND 0xffff), unat (drop_bit 16 a AND 0xffff))"

lemma adler_halves_le: "fst (adler_halves_of a) \<le> 65535" "snd (adler_halves_of a) \<le> 65535"
proof -
  have "unat (take_bit 16 w) < 65536" for w :: u32
    by (simp only: unat_take_bit_mod) simp
  then show "fst (adler_halves_of a) \<le> 65535" "snd (adler_halves_of a) \<le> 65535"
    by (simp_all only: adler_halves_of_def fst_conv snd_conv u32_and_ffff)
       (simp_all add: less_Suc_eq_le [symmetric])
qed

lemma adler32_halves:
  assumes "buf \<noteq> []"
  shows "adler_halves_of (adler32 a buf) = adler_spec (adler_halves_of a) buf"
    and "unat (adler32 a buf) = snd (adler_spec (adler_halves_of a) buf) * 2 ^ 16
           + fst (adler_spec (adler_halves_of a) buf)"
proof -
  define s1 s2 where "s1 = a AND 0xffff" and "s2 = drop_bit 16 a AND 0xffff"
  obtain t1 t2 where t: "adler32_loop (s1, s2) buf (length buf) = (t1, t2)" by force
  have h: "adler_halves_of a = (unat s1, unat s2)" by (simp add: adler_halves_of_def s1_def s2_def)
  have e: "(unat t1, unat t2) = adler_spec (adler_halves_of a) buf"
    using adler32_loop_exact [OF _ _ assms t] adler_halves_le [of a] h by simp
  have lt: "unat t1 < 2 ^ 16" "unat t2 < 2 ^ 16"
  proof -
    have "fst (adler_spec p buf) < 65521" "snd (adler_spec p buf) < 65521" for p
      by (simp_all add: adler_spec_def case_prod_beta)
    from this [of "adler_halves_of a"] show "unat t1 < 2 ^ 16" "unat t2 < 2 ^ 16" 
      by (simp_all flip: e)
  qed
  have r: "adler32 a buf = push_bit 16 t2 OR t1"
    using t by (simp only: adler32_def s1_def s2_def case_prod_conv)
  show "adler_halves_of (adler32 a buf) = adler_spec (adler_halves_of a) buf"
    by (simp only: r adler_halves [OF lt] adler_halves_of_def [of "push_bit 16 t2 OR t1"] e)
  show "unat (adler32 a buf) = snd (adler_spec (adler_halves_of a) buf) * 2 ^ 16
           + fst (adler_spec (adler_halves_of a) buf)"
    by (simp only: r adler_halves [OF lt] fst_conv snd_conv flip: e)
qed

lemma adler32_Nil: "adler32 a [] = a"
  unfolding adler32_def
  by (subst adler32_loop.simps, rule bit_word_eqI)
     (auto simp: u32_and_ffff bit_simps simp del: drop_bit_eq_div take_bit_eq_mod push_bit_eq_mult)

lemma adler32_append: "adler32 (adler32 a xs) ys = adler32 a (xs @ ys)"
proof (cases "xs = [] \<or> ys = []")
  case True
  then show ?thesis by (auto simp: adler32_Nil)
next
  case False
  then have "adler_spec (adler_halves_of (adler32 a xs)) ys = adler_spec (adler_halves_of a) (xs @ ys)"
    by (simp add: adler32_halves(1) adler_spec_append)
  then show ?thesis using False by (simp add: word_unat_eq_iff adler32_halves(2))
qed

subsection \<open>Runs: closed form\<close>

lemma xd3_comprun_eq:
  "seg \<noteq> [] \<Longrightarrow> xd3_comprun seg = (of_nat (length (takeWhile ((=) (last seg)) (rev seg))), last seg)"
proof (induction seg rule: rev_induct)
  case (snoc b seg)
  show ?case
  proof (cases "seg = []")
    case True
    then show ?thesis by (simp add: xd3_comprun_def NEXTRUN_def)
  next
    case False
    then have "xd3_comprun (seg @ [b]) = NEXTRUN b (of_nat (length (takeWhile ((=) (last seg)) (rev seg))), last seg)"
      using snoc.IH by (simp add: xd3_comprun_def)
    moreover have "takeWhile ((=) b) (rev seg) = []" if "b \<noteq> last seg"
      using False that by (cases seg rule: rev_cases) auto
    ultimately show ?thesis by (auto simp: NEXTRUN_def)
  qed
qed simp

subsection \<open>Properties\<close>

text \<open>C18. The unrolled Adler-32 with deferred reductions computes the checksum of RFC 1950 for every
  start value and every buffer: the 32-bit accumulators never overflow within a block of \<open>A32_NMAX\<close>
  bytes, so both halves of the result are the integer sums modulo 65521, and a buffer may be summed in
  pieces.\<close>

theorem adler32_correct:
  "adler32 a [] = a
   \<and> adler_halves_of (adler32 a (b # buf)) = adler_spec (adler_halves_of a) (b # buf)
   \<and> unat (adler32 a (b # buf)) = snd (adler_spec (adler_halves_of a) (b # buf)) * 2 ^ 16
        + fst (adler_spec (adler_halves_of a) (b # buf))
   \<and> adler32 (adler32 a xs) ys = adler32 a (xs @ ys)"
  by (intro conjI adler32_Nil adler32_append adler32_halves) simp_all

text \<open>C31. \<open>xd3_pow2_roundup\<close> returns the least power of two that is at least its argument, for
  every argument up to \<open>2 ^ 63\<close>, and does not return above: there the shifted-out \<open>i\<close> stays 0.\<close>

theorem pow2_roundup_spec:
  "xd3_pow2_roundup x = (if unat x \<le> 2 ^ 63 then Some (2 ^ (LEAST m. unat x \<le> 2 ^ m)) else None)"
  by (rule pow2_roundup_eq)

text \<open>Source addressing by blocks: for a power-of-two block size, as \<open>xd3_check_pow2\<close> accepts
  it, \<open>xd3_blksize_div\<close> splits an offset into block number and offset within the block, and
  \<open>xd3_blksize_add\<close> advances the pair by a length that does not leave the 64-bit range.\<close>

theorem blksize_addressing:
  assumes "xd3_check_pow2 blksize = (None, shiftby)"
    and "xd3_blksize_div offset (unat shiftby) (blksize - 1) = (blkno, blkoff)"
    and "xd3_blksize_add blkno blkoff (unat shiftby) (blksize - 1) add = (blkno', blkoff')"
    and "unat offset + unat add < 2 ^ 64"
  shows "unat blkno * unat blksize + unat blkoff = unat offset \<and> blkoff < blksize
    \<and> unat blkno' * unat blksize + unat blkoff' = unat offset + unat add \<and> blkoff' < blksize"
proof -
  obtain k where k: "k < 64" "blksize = 2 ^ k" "shiftby = of_nat k"
    using assms(1) by (auto simp: check_pow2_spec)
  have u: "unat shiftby = k" "unat blksize = 2 ^ k" using k by (simp_all add: unat_of_nat unat_exp_u64)
  note d = blksize_div_spec [OF k(1), of offset blkno blkoff]
  have off: "unat blkno * 2 ^ k + unat blkoff = unat offset" "unat blkoff < 2 ^ k"
    using d assms(2) by (simp_all only: u k(2))
  note a = blksize_add_spec [OF k(1), of blkno blkoff add blkno' blkoff']
  have "unat blkno' * 2 ^ k + unat blkoff' = unat offset + unat add" "unat blkoff' < 2 ^ k"
    using a assms(3,4) by (simp_all only: u k(2) off)
  then show ?thesis using off by (simp only: word_less_nat_alt u)
qed

theorem blksize_addressing_witness:
  "unat (2 :: xoff_t) * unat (1024 :: xoff_t) + unat (5 :: usize_t) = unat (2053 :: xoff_t)
   \<and> (5 :: usize_t) < 1024
   \<and> unat (3 :: xoff_t) * unat (1024 :: xoff_t) + unat (1 :: usize_t)
       = unat (2053 :: xoff_t) + unat (1020 :: usize_t)
   \<and> (1 :: usize_t) < 1024"
proof (rule blksize_addressing)
  show p: "xd3_check_pow2 1024 = (None, 10)"
    unfolding check_pow2_spec by (rule exI [of _ 10]) simp
  show "xd3_blksize_div 2053 (unat (10 :: u64)) (1024 - 1) = (2, 5)" by code_simp
  show "xd3_blksize_add 2 5 (unat (10 :: u64)) (1024 - 1) 1020 = (3, 1)" by code_simp
qed simp

text \<open>The loops are executable.\<close>

declare pow2_roundup_loop.simps [code]

end
