(* ===== verification/Xd3_Output.thy ===== *)
theory Xd3_Output
  imports Prelude Xd3_Integer
begin

section \<open>Output pages (xdelta3.c, "Alloc/free" and "Basic encoder/decoder functions")\<close>

text \<open>
  The encoder writes its four sections into chains of pages of \<open>XD3_ALLOCSIZE\<close> bytes. A chain has at
  least one page (\<open>enc_heads[i]\<close> and \<open>enc_tails[i]\<close> are set up together), so it is modelled by the
  pages that precede the tail and by the tail. Of a page only the bytes below \<open>next\<close> are ever read;
  they are the list \<open>base\<close>, so \<open>next\<close> is its length, and \<open>avail\<close> is \<open>XD3_ALLOCSIZE\<close>, the only value
  the code ever stores there.

  Memory comes from \<open>stream->alloc\<close>, which may fail: \<open>alloc_ok n\<close> says whether the \<open>n\<close>-th request of
  the stream succeeds. Pages on the free list carry no information, \<open>enc_free\<close> counts them.
\<close>

definition XD3_ALLOCSIZE :: usize_t where "XD3_ALLOCSIZE = push_bit 14 1"

record xd3_mem =
  alloc_ok :: "nat \<Rightarrow> bool"
  alloc_cnt :: nat
  enc_free :: nat

definition xd3_alloc :: "xd3_mem \<Rightarrow> bool \<times> xd3_mem" where
  "xd3_alloc m = (alloc_ok m (alloc_cnt m), m\<lparr>alloc_cnt := Suc (alloc_cnt m)\<rparr>)"

record xd3_output =
  base :: bytes

definition next_off :: "xd3_output \<Rightarrow> usize_t" where
  "next_off p = of_nat (length (base p))"

text \<open>\<open>stored p bs\<close>: \<open>memcpy (output->base + output->next, bs, n); output->next += n\<close>.\<close>

definition stored :: "xd3_output \<Rightarrow> bytes \<Rightarrow> xd3_output" where
  "stored p bs = p\<lparr>base := base p @ bs\<rparr>"

record xd3_chain =
  pages :: "xd3_output list"
  tail :: xd3_output

text \<open>\<open>xd3_alloc_output\<close>: a page of the free list, or two requests to the allocator, one for the page
  header and one for its \<open>base\<close>. \<open>None\<close> is \<open>NULL\<close>.\<close>

definition xd3_alloc_output :: "xd3_mem \<Rightarrow> xd3_output option \<times> xd3_mem" where
  "xd3_alloc_output m =
     (if enc_free m \<noteq> 0 then (Some \<lparr>base = []\<rparr>, m\<lparr>enc_free := enc_free m - 1\<rparr>)
      else case xd3_alloc m of
        (False, m') \<Rightarrow> (None, m')
      | (True, m') \<Rightarrow> (case xd3_alloc m' of
            (False, m'') \<Rightarrow> (None, m'')
          | (True, m'') \<Rightarrow> (Some \<lparr>base = []\<rparr>, m'')))"

text \<open>Appending the new page to the chain of the old one: \<open>old_output->next_page = output\<close> and
  \<open>output = (*outputp) = aoutput\<close>.\<close>

definition extend_chain :: "xd3_chain \<Rightarrow> xd3_output \<Rightarrow> xd3_chain" where
  "extend_chain ch p = \<lparr>pages = pages ch @ [tail ch], tail = p\<rparr>"

definition xd3_emit_byte :: "u8 \<Rightarrow> xd3_mem \<times> xd3_chain \<Rightarrow> xd3_ret \<times> xd3_mem \<times> xd3_chain" where
  "xd3_emit_byte code s =
     (case s of (m, ch) \<Rightarrow>
        if next_off (tail ch) = XD3_ALLOCSIZE then
          (case xd3_alloc_output m of
             (None, m') \<Rightarrow> (Some ENOMEM, m', ch)
           | (Some p, m') \<Rightarrow>
               let ch' = extend_chain ch p in (None, m', ch'\<lparr>tail := stored (tail ch') [code]\<rparr>))
        else (None, m, ch\<lparr>tail := stored (tail ch) [code]\<rparr>))"

text \<open>The body of the loop of \<open>xd3_emit_bytes\<close>: make room if the tail is full, then copy
  \<open>xd3_min (output->avail - output->next, size)\<close> bytes.\<close>

definition emit_bytes_room :: "xd3_mem \<times> xd3_chain \<Rightarrow> xd3_ret \<times> xd3_mem \<times> xd3_chain" where
  "emit_bytes_room s =
     (case s of (m, ch) \<Rightarrow>
        if next_off (tail ch) = XD3_ALLOCSIZE then
          (case xd3_alloc_output m of
             (None, m') \<Rightarrow> (Some ENOMEM, m', ch)
           | (Some p, m') \<Rightarrow> (None, m', extend_chain ch p))
        else (None, m, ch))"

definition emit_take :: "xd3_chain \<Rightarrow> bytes \<Rightarrow> nat" where
  "emit_take ch data = min (unat (XD3_ALLOCSIZE - next_off (tail ch))) (length data)"

lemma XD3_ALLOCSIZE_unat [simp]: "unat XD3_ALLOCSIZE = 16384"
  by (simp add: XD3_ALLOCSIZE_def)

lemma emit_bytes_room_progress:
  assumes "emit_bytes_room s = (None, m, ch)"
  shows "next_off (tail ch) \<noteq> XD3_ALLOCSIZE"
proof -
  have "0 \<noteq> XD3_ALLOCSIZE" by (metis XD3_ALLOCSIZE_unat unat_0 zero_neq_numeral)
  then show ?thesis using assms
    by (auto simp: emit_bytes_room_def xd3_alloc_output_def extend_chain_def next_off_def
        split: prod.splits if_splits option.splits bool.splits)
qed

lemma emit_take_pos:
  assumes "next_off (tail ch) \<noteq> XD3_ALLOCSIZE" "data \<noteq> []"
  shows "0 < emit_take ch data"
proof -
  have "unat (XD3_ALLOCSIZE - next_off (tail ch)) \<noteq> 0" using assms(1) by (simp add: unat_eq_zero)
  then show ?thesis using assms(2) by (simp add: emit_take_def)
qed

function xd3_emit_bytes :: "bytes \<Rightarrow> xd3_mem \<times> xd3_chain \<Rightarrow> xd3_ret \<times> xd3_mem \<times> xd3_chain" where
  "xd3_emit_bytes data s =
     (case emit_bytes_room s of
        (Some r, s') \<Rightarrow> (Some r, s')
      | (None, m, ch) \<Rightarrow>
          let n = emit_take ch data;
              ch' = ch\<lparr>tail := stored (tail ch) (take n data)\<rparr>
          in if drop n data \<noteq> [] then xd3_emit_bytes (drop n data) (m, ch') else (None, m, ch'))"
  by pat_completeness auto
termination
proof (relation "measure (\<lambda>(data, s). length data)", simp)
  fix data s and x :: xd3_ret and x2 y :: "xd3_mem \<times> xd3_chain" and m ch n ch'
  assume r: "(x, y) = emit_bytes_room s" "x = None" "(m, ch) = y"
    and n: "n = emit_take ch data" and d: "drop n data \<noteq> []"
  have "next_off (tail ch) \<noteq> XD3_ALLOCSIZE" using r by (metis emit_bytes_room_progress)
  moreover have "data \<noteq> []" using d by auto
  ultimately have "0 < n" "data \<noteq> []" unfolding n by (auto intro: emit_take_pos)
  then show "((drop n data, m, ch'), data, s) \<in> measure (\<lambda>(data, s). length data)" by simp
qed

declare xd3_emit_bytes.simps [simp del]

definition xd3_emit_size :: "usize_t \<Rightarrow> xd3_mem \<times> xd3_chain \<Rightarrow> xd3_ret \<times> xd3_mem \<times> xd3_chain" where
  "xd3_emit_size num = xd3_emit_bytes (emit_uint64 num)"

text \<open>\<open>xd3_sizeof_output\<close> walks the chain and sums the \<open>next\<close> fields.\<close>

definition xd3_sizeof_output :: "xd3_chain \<Rightarrow> usize_t" where
  "xd3_sizeof_output ch = foldl (\<lambda>s p. s + next_off p) 0 (pages ch @ [tail ch])"

text \<open>\<open>xd3_freelist_output\<close> moves a list of pages to the free list.\<close>

definition xd3_freelist_output :: "xd3_output list \<Rightarrow> xd3_mem \<Rightarrow> xd3_mem" where
  "xd3_freelist_output ps m = fold (\<lambda>p m. m\<lparr>enc_free := Suc (enc_free m)\<rparr>) ps m"

subsection \<open>Append-only buffers\<close>

text \<open>What the section writers rely on: a successful operation appends its bytes, a failing one
  returns \<open>ENOMEM\<close> and leaves at most a prefix of them behind.\<close>

locale append_buffer =
  fixes valid :: "'s \<Rightarrow> bool"
    and contents :: "'s \<Rightarrow> bytes"
    and put_byte :: "u8 \<Rightarrow> 's \<Rightarrow> xd3_ret \<times> 's"
    and put_bytes :: "bytes \<Rightarrow> 's \<Rightarrow> xd3_ret \<times> 's"
  assumes put_byte_ok:
      "valid s \<Longrightarrow> put_byte b s = (None, s') \<Longrightarrow> valid s' \<and> contents s' = contents s @ [b]"
    and put_byte_fail:
      "valid s \<Longrightarrow> put_byte b s = (Some r, s') \<Longrightarrow> r = ENOMEM \<and> valid s' \<and> contents s' = contents s"
    and put_bytes_ok:
      "valid s \<Longrightarrow> put_bytes bs s = (None, s') \<Longrightarrow> valid s' \<and> contents s' = contents s @ bs"
    and put_bytes_fail:
      "valid s \<Longrightarrow> put_bytes bs s = (Some r, s') \<Longrightarrow>
         r = ENOMEM \<and> valid s' \<and> (\<exists>k \<le> length bs. contents s' = contents s @ take k bs)"
begin

lemma put_size_readable:
  assumes "valid s" "put_bytes (emit_uint64 num) s = (None, s')"
  shows "xd3_read_uint64_t (drop (length (contents s)) (contents s') @ rest) = Inr (num, rest)"
  using put_bytes_ok [OF assms] by (simp add: read_uint64_emit)

lemma put_bytes_split:
  assumes "valid s" "put_bytes xs s = (None, t)" "put_bytes ys t = (None, u)"
    and "put_bytes (xs @ ys) s = (None, v)"
  shows "contents u = contents v"
  using assms put_bytes_ok by (metis append.assoc)

text \<open>A sequence of writes stops at the first failure; the bytes written are always a prefix of the
  bytes asked for.\<close>

fun puts :: "bytes list \<Rightarrow> 's \<Rightarrow> xd3_ret \<times> 's" where
  "puts [] s = (None, s)"
| "puts (bs # bss) s = seqr (put_bytes bs) (puts bss) s"

lemma puts_prefix:
  "valid s \<Longrightarrow> puts bss s = (r, s') \<Longrightarrow>
     valid s' \<and> (\<exists>k \<le> length (concat bss). contents s' = contents s @ take k (concat bss))
     \<and> (r = None \<longrightarrow> contents s' = contents s @ concat bss)"
proof (induction bss arbitrary: s)
  case (Cons bs bss)
  obtain r1 s1 where p: "put_bytes bs s = (r1, s1)" by force
  show ?case
  proof (cases r1)
    case None
    then have v: "valid s1" "contents s1 = contents s @ bs" using Cons.prems(1) p put_bytes_ok by auto
    then have IH: "valid s'" "\<exists>k \<le> length (concat bss). contents s' = contents s1 @ take k (concat bss)"
      "r = None \<longrightarrow> contents s' = contents s1 @ concat bss"
      using Cons.IH [of s1] Cons.prems(2) p None by (auto simp: seqr_def)
    then obtain k where "k \<le> length (concat bss)" "contents s' = contents s1 @ take k (concat bss)" by auto
    then have "contents s' = contents s @ take (length bs + k) (concat (bs # bss))"
      "length bs + k \<le> length (concat (bs # bss))" using v by auto
    then show ?thesis using IH(1,3) v by (intro conjI exI [of _ "length bs + k"]) simp_all
  next
    case (Some e)
    then have s: "r = Some e" "s' = s1" using Cons.prems(2) p by (auto simp: seqr_def)
    then obtain k where "k \<le> length bs" "contents s' = contents s @ take k bs" "valid s'"
      using put_bytes_fail [OF Cons.prems(1)] p Some by blast
    then have "contents s' = contents s @ take k (concat (bs # bss))" "k \<le> length (concat (bs # bss))"
      by auto
    then show ?thesis using s \<open>valid s'\<close> by blast
  qed
qed simp

end

subsection \<open>Pages implement an append-only buffer\<close>

definition chain_bytes :: "xd3_chain \<Rightarrow> bytes" where
  "chain_bytes ch = concat (map base (pages ch)) @ base (tail ch)"

definition chain_wf :: "xd3_chain \<Rightarrow> bool" where
  "chain_wf ch \<longleftrightarrow> list_all (\<lambda>p. length (base p) = 16384) (pages ch) \<and> length (base (tail ch)) \<le> 16384"

lemma next_off_full:
  "length (base p) \<le> 16384 \<Longrightarrow> next_off p = XD3_ALLOCSIZE \<longleftrightarrow> length (base p) = 16384"
  by (simp add: word_unat_eq_iff next_off_def unat_of_nat)

lemma alloc_output_empty: "xd3_alloc_output m = (Some p, m') \<Longrightarrow> p = \<lparr>base = []\<rparr>"
  by (auto simp: xd3_alloc_output_def split: if_splits prod.splits bool.splits)

lemma extend_chain_bytes [simp]: "chain_bytes (extend_chain ch \<lparr>base = []\<rparr>) = chain_bytes ch"
  by (simp add: chain_bytes_def extend_chain_def)

lemma chain_wf_extend: "chain_wf ch \<Longrightarrow> length (base (tail ch)) = 16384 \<Longrightarrow> chain_wf (extend_chain ch \<lparr>base = []\<rparr>)"
  by (simp add: chain_wf_def extend_chain_def)

lemma chain_bytes_stored [simp]:
  "chain_bytes (ch\<lparr>tail := stored (tail ch) bs\<rparr>) = chain_bytes ch @ bs"
  by (simp add: chain_bytes_def stored_def)

lemma emit_byte_room:
  "xd3_emit_byte code s =
     (case emit_bytes_room s of (Some r, s') \<Rightarrow> (Some r, s')
      | (None, m, ch) \<Rightarrow> (None, m, ch\<lparr>tail := stored (tail ch) [code]\<rparr>))"
  by (auto simp: xd3_emit_byte_def emit_bytes_room_def Let_def split: prod.splits option.splits)

lemma emit_bytes_room_ok:
  assumes "chain_wf ch" "emit_bytes_room (m, ch) = (None, m', ch')"
  shows "chain_wf ch' \<and> chain_bytes ch' = chain_bytes ch \<and> length (base (tail ch')) < 16384"
proof -
  have le: "length (base (tail ch)) \<le> 16384" using assms(1) by (simp add: chain_wf_def)
  show ?thesis
  proof (cases "next_off (tail ch) = XD3_ALLOCSIZE")
    case True
    then obtain p where "xd3_alloc_output m = (Some p, m')" "ch' = extend_chain ch p"
      using assms(2) by (auto simp: emit_bytes_room_def split: prod.splits option.splits)
    then have e: "ch' = extend_chain ch \<lparr>base = []\<rparr>" using alloc_output_empty by blast
    have "chain_wf ch'" using e assms(1) True le by (simp add: chain_wf_extend next_off_full)
    then show ?thesis unfolding e by (simp add: extend_chain_def chain_bytes_def)
  next
    case False
    then have "ch' = ch" using assms(2) by (simp add: emit_bytes_room_def)
    then show ?thesis using assms(1) False le by (simp add: next_off_full)
  qed
qed

lemma emit_bytes_room_fail:
  "emit_bytes_room (m, ch) = (Some r, m', ch') \<Longrightarrow> r = ENOMEM \<and> ch' = ch"
  by (auto simp: emit_bytes_room_def split: if_splits prod.splits option.splits)

lemma chain_wf_stored:
  assumes "chain_wf ch" "length (base (tail ch)) + length bs \<le> 16384"
  shows "chain_wf (ch\<lparr>tail := stored (tail ch) bs\<rparr>)"
  using assms by (simp add: chain_wf_def stored_def)

lemma emit_take_le:
  assumes "chain_wf ch"
  shows "length (base (tail ch)) + emit_take ch data \<le> 16384"
proof -
  have le: "length (base (tail ch)) \<le> 16384" using assms by (simp add: chain_wf_def)
  then have u: "unat (next_off (tail ch)) = length (base (tail ch))"
    by (simp add: next_off_def unat_of_nat)
  then have "unat (XD3_ALLOCSIZE - next_off (tail ch)) = 16384 - length (base (tail ch))"
    using le by (subst unat_sub_le) simp_all
  then show ?thesis using le by (simp add: emit_take_def)
qed

lemma emit_bytes_result:
  "chain_wf (snd s) \<Longrightarrow> xd3_emit_bytes data s = (r, m', ch') \<Longrightarrow>
     chain_wf ch' \<and> (r = None \<longrightarrow> chain_bytes ch' = chain_bytes (snd s) @ data)
     \<and> (\<forall>e. r = Some e \<longrightarrow> e = ENOMEM \<and> (\<exists>k \<le> length data. chain_bytes ch' = chain_bytes (snd s) @ take k data))"
proof (induction data s rule: xd3_emit_bytes.induct)
  case (1 data s)
  obtain m0 ch0 where s: "s = (m0, ch0)" by force
  obtain q m ch where room: "emit_bytes_room s = (q, m, ch)" by (metis surj_pair)
  show ?case
  proof (cases q)
    case (Some e)
    then have "r = Some e" "ch' = ch" using "1.prems"(2) room by (subst (asm) xd3_emit_bytes.simps, simp)+
    moreover have "e = ENOMEM" "ch = ch0" using emit_bytes_room_fail room Some s by auto
    ultimately show ?thesis using "1.prems"(1) s by auto
  next
    case None
    note ok = emit_bytes_room_ok [of ch0 m0 m ch]
    define n where "n = emit_take ch data"
    define ch1 where "ch1 = ch\<lparr>tail := stored (tail ch) (take n data)\<rparr>"
    have ch: "chain_wf ch" "chain_bytes ch = chain_bytes ch0"
      using ok "1.prems"(1) room None s by auto
    have n: "n \<le> length data" by (simp add: n_def emit_take_def)
    have w: "chain_wf ch1" using emit_take_le [OF ch(1), of data] n
      unfolding ch1_def by (intro chain_wf_stored ch) (simp add: n_def min_def)
    have b: "chain_bytes ch1 = chain_bytes ch0 @ take n data" by (simp add: ch1_def ch)
    have e: "xd3_emit_bytes data s =
        (if drop n data \<noteq> [] then xd3_emit_bytes (drop n data) (m, ch1) else (None, m, ch1))"
      using room None by (subst xd3_emit_bytes.simps) (simp add: n_def ch1_def Let_def)
    show ?thesis
    proof (cases "drop n data = []")
      case True
      then show ?thesis using "1.prems"(2) e w b n s by simp
    next
      case False
      have IH: "chain_wf ch' \<and> (r = None \<longrightarrow> chain_bytes ch' = chain_bytes ch1 @ drop n data)
        \<and> (\<forall>e. r = Some e \<longrightarrow> e = ENOMEM \<and> (\<exists>k \<le> length (drop n data). chain_bytes ch' = chain_bytes ch1 @ take k (drop n data)))"
        using "1.IH" [of q "(m, ch)" m ch n ch1] room None False w "1.prems"(2) e
        by (simp add: n_def ch1_def)
      have "\<exists>k \<le> length data. chain_bytes ch' = chain_bytes ch0 @ take k data"
        if k: "k \<le> length (drop n data)" "chain_bytes ch' = chain_bytes ch1 @ take k (drop n data)" for k
        using k b n by (intro exI [of _ "n + k"]) (simp add: take_add)
      moreover have "chain_bytes ch1 @ drop n data = chain_bytes ch0 @ data" using b by simp
      ultimately show ?thesis using IH s by (metis snd_conv)
    qed
  qed
qed

lemma emit_byte_result:
  assumes "chain_wf ch" "xd3_emit_byte b (m, ch) = (r, m', ch')"
  shows "chain_wf ch' \<and> (r = None \<longrightarrow> chain_bytes ch' = chain_bytes ch @ [b])
     \<and> (\<forall>e. r = Some e \<longrightarrow> e = ENOMEM \<and> chain_bytes ch' = chain_bytes ch)"
proof -
  obtain q m1 ch1 where room: "emit_bytes_room (m, ch) = (q, m1, ch1)" by (metis surj_pair)
  show ?thesis
  proof (cases q)
    case None
    then have "r = None" "ch' = ch1\<lparr>tail := stored (tail ch1) [b]\<rparr>"
      using assms(2) room by (simp_all add: emit_byte_room)
    then show ?thesis
      using emit_bytes_room_ok [OF assms(1), of m m1 ch1] room None chain_wf_stored [of ch1 "[b]"] by simp
  next
    case (Some e)
    then have "r = Some e" "ch' = ch1" using assms(2) room by (simp_all add: emit_byte_room)
    then show ?thesis using emit_bytes_room_fail [of m ch e m1 ch1] room Some assms(1) by simp
  qed
qed

definition sect_valid :: "xd3_mem \<times> xd3_chain \<Rightarrow> bool" where
  "sect_valid s \<longleftrightarrow> chain_wf (snd s)"

definition sect_bytes :: "xd3_mem \<times> xd3_chain \<Rightarrow> bytes" where
  "sect_bytes s = chain_bytes (snd s)"

interpretation sect: append_buffer sect_valid sect_bytes xd3_emit_byte xd3_emit_bytes
proof
  fix s s' b bs r
  show "sect_valid s \<Longrightarrow> xd3_emit_byte b s = (None, s') \<Longrightarrow> sect_valid s' \<and> sect_bytes s' = sect_bytes s @ [b]"
    using emit_byte_result [of "snd s" b "fst s" None "fst s'" "snd s'"] by (simp add: sect_valid_def sect_bytes_def)
  show "sect_valid s \<Longrightarrow> xd3_emit_byte b s = (Some r, s') \<Longrightarrow> r = ENOMEM \<and> sect_valid s' \<and> sect_bytes s' = sect_bytes s"
    using emit_byte_result [of "snd s" b "fst s" "Some r" "fst s'" "snd s'"] by (simp add: sect_valid_def sect_bytes_def)
  show "sect_valid s \<Longrightarrow> xd3_emit_bytes bs s = (None, s') \<Longrightarrow> sect_valid s' \<and> sect_bytes s' = sect_bytes s @ bs"
    using emit_bytes_result [of s bs None "fst s'" "snd s'"] by (simp add: sect_valid_def sect_bytes_def)
  show "sect_valid s \<Longrightarrow> xd3_emit_bytes bs s = (Some r, s') \<Longrightarrow>
      r = ENOMEM \<and> sect_valid s' \<and> (\<exists>k \<le> length bs. sect_bytes s' = sect_bytes s @ take k bs)"
    using emit_bytes_result [of s bs "Some r" "fst s'" "snd s'"] by (simp add: sect_valid_def sect_bytes_def)
qed

lemma sizeof_output_eq: "xd3_sizeof_output ch = of_nat (length (chain_bytes ch))"
proof -
  have "foldl (\<lambda>s p. s + next_off p) a ps = a + of_nat (length (concat (map base ps)))" for a ps
    by (induction ps arbitrary: a) (simp_all add: next_off_def ac_simps)
  then show ?thesis by (simp add: xd3_sizeof_output_def chain_bytes_def)
qed

subsection \<open>Allocation failures\<close>

text \<open>The oracle of a stream whose allocator never fails.\<close>

definition mem_ok :: "xd3_mem \<Rightarrow> bool" where
  "mem_ok m \<longleftrightarrow> alloc_ok m = (\<lambda>_. True)"

lemma alloc_output_mem_ok: "mem_ok m \<Longrightarrow> \<exists>m'. xd3_alloc_output m = (Some \<lparr>base = []\<rparr>, m') \<and> mem_ok m'"
  by (auto simp: mem_ok_def xd3_alloc_output_def xd3_alloc_def)

lemma room_mem_ok: "mem_ok m \<Longrightarrow> \<exists>m' ch'. emit_bytes_room (m, ch) = (None, m', ch') \<and> mem_ok m'"
  using alloc_output_mem_ok [of m] by (auto simp: emit_bytes_room_def)

lemma emit_byte_mem_ok: "mem_ok m \<Longrightarrow> \<exists>m' ch'. xd3_emit_byte b (m, ch) = (None, m', ch') \<and> mem_ok m'"
  using room_mem_ok [of m ch] by (auto simp: emit_byte_room)

lemma emit_bytes_mem_ok:
  "mem_ok (fst s) \<Longrightarrow> \<exists>m' ch'. xd3_emit_bytes bs s = (None, m', ch') \<and> mem_ok m'"
proof (induction bs s rule: xd3_emit_bytes.induct)
  case (1 data s)
  obtain m ch where r: "emit_bytes_room s = (None, m, ch)" "mem_ok m"
    using room_mem_ok [of "fst s" "snd s"] 1(2) by auto
  show ?case
    using r 1(1) [of None "(m, ch)" m ch "emit_take ch data"
        "ch\<lparr>tail := stored (tail ch) (take (emit_take ch data) data)\<rparr>"]
    by (subst xd3_emit_bytes.simps) (simp add: Let_def)
qed

subsection \<open>Properties\<close>

text \<open>C22. The paged output is an append-only buffer, whatever the allocator does: every write keeps
  the chain well-formed (full pages before the tail), a successful write appends exactly its bytes,
  across page boundaries too, and a write that cannot get a page returns \<open>ENOMEM\<close> with at most a prefix
  of its bytes appended. \<open>xd3_sizeof_output\<close> is the number of bytes in the chain.\<close>

theorem emit_bytes_refines_append:
  assumes "chain_wf ch" "xd3_emit_bytes bs (m, ch) = (r, m', ch')"
  shows "chain_wf ch' \<and> xd3_sizeof_output ch' = of_nat (length (chain_bytes ch'))
     \<and> (case r of None \<Rightarrow> chain_bytes ch' = chain_bytes ch @ bs
        | Some e \<Rightarrow> e = ENOMEM \<and> (\<exists>k \<le> length bs. chain_bytes ch' = chain_bytes ch @ take k bs))"
proof (cases r)
  case None
  then show ?thesis
    using sect.put_bytes_ok [of "(m, ch)" bs "(m', ch')"] assms
    by (simp add: sizeof_output_eq sect_valid_def sect_bytes_def)
next
  case (Some e)
  then show ?thesis
    using sect.put_bytes_fail [of "(m, ch)" bs e "(m', ch')"] assms
    by (simp add: sizeof_output_eq sect_valid_def sect_bytes_def)
qed

theorem emit_bytes_refines_append_witness:
  "chain_wf \<lparr>pages = [], tail = \<lparr>base = [1, 2, 3]\<rparr>\<rparr>
   \<and> xd3_sizeof_output \<lparr>pages = [], tail = \<lparr>base = [1, 2, 3]\<rparr>\<rparr> = 3"
proof -
  let ?m = "\<lparr>alloc_ok = \<lambda>_. False, alloc_cnt = 0, enc_free = 0\<rparr>"
  have w: "chain_wf \<lparr>pages = [], tail = \<lparr>base = [1]\<rparr>\<rparr>" by (simp add: chain_wf_def)
  have e: "xd3_emit_bytes [2, 3] (?m, \<lparr>pages = [], tail = \<lparr>base = [1]\<rparr>\<rparr>)
      = (None, ?m, \<lparr>pages = [], tail = \<lparr>base = [1, 2, 3]\<rparr>\<rparr>)"
    by (subst xd3_emit_bytes.simps)
      (simp add: emit_bytes_room_def next_off_def emit_take_def stored_def XD3_ALLOCSIZE_def)
  show ?thesis using emit_bytes_refines_append [OF w e] by (simp add: chain_bytes_def)
qed

end
