(* ===== verification/Xd3_AddrCache.thy ===== *)
theory Xd3_AddrCache
  imports Prelude Xd3_Integer Xd3_Output
begin

section \<open>The VCDIFF address cache (xdelta3.c, "Address cache stuff")\<close>

text \<open>
  COPY addresses are written relative to a cache of recent addresses that the encoder and the decoder
  update in lock step. \<open>xd3_encode_address\<close> picks a mode and writes the address section,
  \<open>xd3_decode_address\<close> inverts it. The cache is the record \<open>xd3_addr_cache\<close>; \<open>next_slot\<close>, a C
  \<open>usize_t\<close>, indexes \<open>near_array\<close>.
\<close>

record xd3_addr_cache =
  s_near :: usize_t
  s_same :: usize_t
  next_slot :: usize_t
  near_array :: "usize_t list"
  same_array :: "usize_t list"

definition VCD_SELF :: usize_t where "VCD_SELF = 0"
definition VCD_HERE :: usize_t where "VCD_HERE = 1"

text \<open>\<open>xd3_alloc_cache\<close>: the new arrays hold indeterminate values (zeros here) until
  \<open>xd3_init_cache\<close>, which every caller runs before the first address.\<close>

definition xd3_alloc_cache :: "xd3_mem \<Rightarrow> xd3_addr_cache \<Rightarrow> xd3_ret \<times> xd3_mem \<times> xd3_addr_cache" where
  "xd3_alloc_cache m c =
     (let (ok1, m1) = (if 0 < s_near c then xd3_alloc m else (True, m));
          c1 = (if 0 < s_near c \<and> ok1 then c\<lparr>near_array := replicate (unat (s_near c)) 0\<rparr> else c)
      in if \<not> ok1 then (Some ENOMEM, m1, c1)
         else
           let (ok2, m2) = (if 0 < s_same c then xd3_alloc m1 else (True, m1));
               c2 = (if 0 < s_same c \<and> ok2
                     then c1\<lparr>same_array := replicate (unat (s_same c * 256)) 0\<rparr> else c1)
           in if \<not> ok2 then (Some ENOMEM, m2, c2) else (None, m2, c2))"

definition xd3_init_cache :: "xd3_addr_cache \<Rightarrow> xd3_addr_cache" where
  "xd3_init_cache c =
     (let c1 = (if 0 < s_near c
                then c\<lparr>near_array := replicate (unat (s_near c)) 0, next_slot := 0\<rparr> else c)
      in if 0 < s_same c then c1\<lparr>same_array := replicate (unat (s_same c * 256)) 0\<rparr> else c1)"

definition xd3_update_cache :: "usize_t \<Rightarrow> xd3_addr_cache \<Rightarrow> xd3_addr_cache" where
  "xd3_update_cache addr c =
     (let c1 = (if 0 < s_near c
                then c\<lparr>near_array := (near_array c)[unat (next_slot c) := addr],
                       next_slot := (next_slot c + 1) mod s_near c\<rparr>
                else c)
      in if 0 < s_same c
         then c1\<lparr>same_array := (same_array c1)[unat (addr mod (s_same c * 256)) := addr]\<rparr>
         else c1)"

subsection \<open>Encoding\<close>

text \<open>\<open>((x) & ~127U) == 0\<close>: the constant is a 32-bit \<open>unsigned\<close>, so only bits 7 to 31 of the 64-bit
  \<open>x\<close> are tested.\<close>

definition SMALLEST_INT :: "usize_t \<Rightarrow> bool" where
  "SMALLEST_INT x \<longleftrightarrow> x AND 0xFFFFFF80 = 0"

text \<open>The loop over the near modes from index \<open>i\<close>; the flag says whether it left by \<open>goto good\<close>.\<close>

fun near_loop :: "usize_t \<Rightarrow> usize_t list \<Rightarrow> usize_t \<Rightarrow> usize_t \<Rightarrow> usize_t \<Rightarrow> bool \<times> usize_t \<times> usize_t" where
  "near_loop addr [] i bestd bestm = (False, bestd, bestm)"
| "near_loop addr (a # as) i bestd bestm =
     (if a \<le> addr \<and> addr - a < bestd then
        if SMALLEST_INT (addr - a) then (True, addr - a, i + 2)
        else near_loop addr as (i + 1) (addr - a) (i + 2)
      else near_loop addr as (i + 1) bestd bestm)"

text \<open>The search up to the same modes: \<open>(good, bestd, bestm)\<close>.\<close>

definition address_search :: "usize_t \<Rightarrow> usize_t \<Rightarrow> xd3_addr_cache \<Rightarrow> bool \<times> usize_t \<times> usize_t" where
  "address_search addr here c =
     (if SMALLEST_INT addr then (True, addr, VCD_SELF)
      else if here - addr < addr then
        if SMALLEST_INT (here - addr) then (True, here - addr, VCD_HERE)
        else near_loop addr (take (unat (s_near c)) (near_array c)) 0 (here - addr) VCD_HERE
      else near_loop addr (take (unat (s_near c)) (near_array c)) 0 addr VCD_SELF)"

text \<open>\<open>xd3_encode_address (stream, addr, here, &mode)\<close> on the cache and the address section; the
  last component is the amount added to \<open>*mode\<close>.\<close>

definition xd3_encode_address ::
  "usize_t \<Rightarrow> usize_t \<Rightarrow> xd3_addr_cache \<Rightarrow> xd3_mem \<times> xd3_chain
     \<Rightarrow> xd3_ret \<times> xd3_addr_cache \<times> (xd3_mem \<times> xd3_chain) \<times> u8" where
  "xd3_encode_address addr here c s =
     (case address_search addr here c of (good, bestd, bestm) \<Rightarrow>
        let d = addr mod (s_same c * 256);
            hit = (\<not> good \<and> 0 < s_same c \<and> same_array c ! unat d = addr);
            (ret, s') = (if hit then xd3_emit_byte (ucast (d mod 256)) s else xd3_emit_size bestd s);
            m = (if hit then s_near c + 2 + d div 256 else bestm)
        in case ret of
             Some r \<Rightarrow> (Some r, c, s', 0)
           | None \<Rightarrow> (None, xd3_update_cache addr c, s', ucast m))"

subsection \<open>Decoding\<close>

text \<open>\<open>xd3_decode_address (stream, here, mode, &inp, max, &val)\<close>: \<open>inp\<close> are the bytes up to \<open>max\<close>.
  An error leaves the cache alone.\<close>

definition xd3_decode_address ::
  "usize_t \<Rightarrow> usize_t \<Rightarrow> xd3_addr_cache \<Rightarrow> bytes
     \<Rightarrow> xd3_rvalues + (usize_t \<times> xd3_addr_cache \<times> bytes)" where
  "xd3_decode_address here mode c inp =
     (let same_start = 2 + s_near c
      in if mode < same_start then
           (case xd3_read_uint64_t inp of
              Inl r \<Rightarrow> Inl r
            | Inr (v, inp') \<Rightarrow>
                let v' = (if mode = VCD_SELF then v
                          else if mode = VCD_HERE then here - v
                          else v + near_array c ! unat (mode - 2))
                in Inr (v', xd3_update_cache v' c, inp'))
         else
           (case inp of
              [] \<Rightarrow> Inl XD3_INVALID_INPUT
            | b # inp' \<Rightarrow>
                let v = same_array c ! unat ((mode - same_start) * 256 + ucast b)
                in Inr (v, xd3_update_cache v c, inp')))"

subsection \<open>Invariant\<close>

definition cache_wf :: "xd3_addr_cache \<Rightarrow> bool" where
  "cache_wf c \<longleftrightarrow> unat (s_near c) + unat (s_same c) \<le> 253
     \<and> length (near_array c) = unat (s_near c) \<and> length (same_array c) = unat (s_same c) * 256
     \<and> (0 < s_near c \<longrightarrow> next_slot c < s_near c)"

lemma cache_wf_init: "cache_wf c \<Longrightarrow> cache_wf (xd3_init_cache c)"
proof -
  assume w: "cache_wf c"
  then have "unat (s_same c * 256) = unat (s_same c) * 256"
    by (simp add: cache_wf_def unat_word_ariths)
  then show ?thesis using w by (simp add: cache_wf_def xd3_init_cache_def Let_def)
qed

lemma cache_wf_update: "cache_wf c \<Longrightarrow> cache_wf (xd3_update_cache addr c)"
  by (auto simp: cache_wf_def xd3_update_cache_def Let_def word_less_nat_alt unat_mod)

lemma update_cache_sizes [simp]:
  "s_near (xd3_update_cache addr c) = s_near c" "s_same (xd3_update_cache addr c) = s_same c"
  by (simp_all add: xd3_update_cache_def Let_def)

subsection \<open>What a mode and a number stand for\<close>

definition mode_value :: "xd3_addr_cache \<Rightarrow> usize_t \<Rightarrow> usize_t \<Rightarrow> usize_t \<Rightarrow> usize_t" where
  "mode_value c here mode d =
     (if mode = VCD_SELF then d else if mode = VCD_HERE then here - d
      else d + near_array c ! unat (mode - 2))"

definition represents :: "xd3_addr_cache \<Rightarrow> usize_t \<Rightarrow> usize_t \<Rightarrow> usize_t \<Rightarrow> usize_t \<Rightarrow> bool" where
  "represents c here addr mode d \<longleftrightarrow>
     unat mode < 2 + unat (s_near c) \<and> mode_value c here mode d = addr"

lemma represents_near:
  assumes "cache_wf c" "n < unat (s_near c)"
  shows "represents c here addr (of_nat n + 2) (addr - near_array c ! n)"
proof -
  have u0: "unat (of_nat (n + 2) :: u64) = n + 2"
    using assms by (intro unat_of_nat_less) (simp add: cache_wf_def)
  have e: "of_nat n + 2 = (of_nat (n + 2) :: u64)" by simp
  have u: "unat (of_nat n + 2 :: u64) = n + 2" unfolding e by (rule u0)
  then have "of_nat n + 2 \<noteq> VCD_SELF" "of_nat n + 2 \<noteq> VCD_HERE"
    unfolding VCD_SELF_def VCD_HERE_def
    by (metis add_2_eq_Suc' nat.distinct(1) unat_0, metis One_nat_def add_2_eq_Suc' nat.distinct(1) nat.inject unat_1)
  moreover have "unat (of_nat n + 2 - 2 :: u64) = n"
    using assms by (simp add: unat_of_nat cache_wf_def)
  ultimately show ?thesis using u assms by (simp add: represents_def mode_value_def)
qed

lemma near_loop_represents:
  assumes "cache_wf c"
  shows "drop n (near_array c) = as \<Longrightarrow> i = of_nat n \<Longrightarrow> represents c here addr bestm bestd \<Longrightarrow>
     near_loop addr as i bestd bestm = (good, d, m) \<Longrightarrow> represents c here addr m d"
proof (induction addr as i bestd bestm arbitrary: n rule: near_loop.induct)
  case (2 addr a as i bestd bestm)
  have len: "n < length (near_array c)" and a: "near_array c ! n = a"
    and d: "drop (Suc n) (near_array c) = as"
    using "2.prems"(1) by (metis drop_all linorder_not_le list.simps(3),
      metis Cons_nth_drop_Suc drop_all linorder_not_le list.inject list.simps(3),
      metis Cons_nth_drop_Suc drop_all linorder_not_le list.inject list.simps(3))
  have r: "represents c here addr (i + 2) (addr - a)"
    using represents_near [OF assms, of n here addr] len a "2.prems"(2) assms by (simp add: cache_wf_def)
  have i: "i + 1 = of_nat (Suc n)" using "2.prems"(2) by (simp add: ac_simps)
  show ?case
    using "2.prems"(3,4) "2.IH"(1) [OF _ _ d i] "2.IH"(2) [OF _ d i] r
    by (auto split: if_splits)
qed simp

lemma address_search_represents:
  assumes "cache_wf c" "address_search addr here c = (good, d, m)"
  shows "represents c here addr m d"
proof -
  have t: "take (unat (s_near c)) (near_array c) = near_array c" using assms(1) by (simp add: cache_wf_def)
  have self: "represents c here addr VCD_SELF addr"
    by (simp add: represents_def mode_value_def VCD_SELF_def)
  have hr: "represents c here addr VCD_HERE (here - addr)"
    by (simp add: represents_def mode_value_def VCD_SELF_def VCD_HERE_def)
  note l = near_loop_represents [OF assms(1), of 0, simplified]
  show ?thesis
    using assms(2) self hr l [OF refl refl self] l [OF refl refl hr]
    by (auto simp: address_search_def t split: if_splits)
qed

lemma same_start_unat: "cache_wf c \<Longrightarrow> unat (2 + s_near c) = 2 + unat (s_near c)"
  by (subst unat_add_less) (simp_all add: cache_wf_def)

lemma decode_address_read:
  assumes "cache_wf c" "represents c here addr m d"
  shows "xd3_decode_address here m c (emit_uint64 d @ rest) = Inr (addr, xd3_update_cache addr c, rest)"
proof -
  have "m < 2 + s_near c"
    using assms by (simp add: word_less_nat_alt same_start_unat represents_def)
  then show ?thesis
    using assms by (simp add: xd3_decode_address_def represents_def mode_value_def read_uint64_emit)
qed

text \<open>A hit in the same modes: the remainder \<open>d\<close> splits into a mode and a byte.\<close>

lemma same_mode_index:
  assumes w: "cache_wf c" and s: "0 < s_same c"
    and d: "d = addr mod (s_same c * 256)"
    and m: "mode = s_near c + 2 + d div 256"
  shows "unat mode = 2 + unat (s_near c) + unat d div 256" "unat d < unat (s_same c) * 256"
    "\<not> mode < 2 + s_near c" "(mode - (2 + s_near c)) * 256 + ucast (ucast (d mod 256) :: u8) = d"
proof -
  have n: "unat (s_near c) + unat (s_same c) \<le> 253" using w by (simp add: cache_wf_def)
  have s256: "unat (s_same c * 256) = unat (s_same c) * 256"
    using n by (simp add: unat_word_ariths)
  have "0 < unat (s_same c)" using s by (simp add: word_less_nat_alt)
  then show du: "unat d < unat (s_same c) * 256" by (simp add: d unat_mod s256)
  then have q: "unat d div 256 < unat (s_same c)" by (simp add: less_mult_imp_div_less)
  have ud: "unat (d div 256) = unat d div 256" by (simp add: unat_div)
  have "unat mode = unat (2 + s_near c) + unat d div 256"
    unfolding m using q n same_start_unat [OF w]
    by (simp only: add.commute [of "s_near c" 2]) (subst unat_add_less, simp_all add: ud)
  then show um: "unat mode = 2 + unat (s_near c) + unat d div 256" by (simp add: same_start_unat w)
  then show "\<not> mode < 2 + s_near c" by (simp add: word_less_nat_alt same_start_unat w)
  have sub: "mode - (2 + s_near c) = d div 256" by (simp add: m ac_simps)
  have "unat (d mod 256) < 256" by (simp add: unat_mod)
  then have b: "ucast (ucast (d mod 256) :: u8) = d mod 256"
    by (simp add: word_unat_eq_iff unat_ucast_up) (simp add: unsigned_ucast_eq take_bit_eq_mod)
  show "(mode - (2 + s_near c)) * 256 + ucast (ucast (d mod 256) :: u8) = d"
    unfolding sub b by (rule div_mult_mod_eq)
qed

lemma encode_address_decodes:
  assumes w: "cache_wf c" and v: "sect_valid s"
    and e: "xd3_encode_address addr here c s = (None, c', s', m)"
  shows "\<exists>bs. sect_valid s' \<and> sect_bytes s' = sect_bytes s @ bs \<and> bs \<noteq> [] \<and> c' = xd3_update_cache addr c
     \<and> unat m < 2 + unat (s_near c) + unat (s_same c)
     \<and> (\<forall>rest. xd3_decode_address here (ucast m) c (bs @ rest) = Inr (addr, c', rest))"
proof -
  obtain good bestd bestm where a: "address_search addr here c = (good, bestd, bestm)"
    by (metis prod_cases3)
  define d where "d = addr mod (s_same c * 256)"
  define hit where "hit \<longleftrightarrow> \<not> good \<and> 0 < s_same c \<and> same_array c ! unat d = addr"
  have c': "c' = xd3_update_cache addr c"
    and emit: "(if hit then xd3_emit_byte (ucast (d mod 256)) s else xd3_emit_size bestd s) = (None, s')"
    and m: "m = ucast (if hit then s_near c + 2 + d div 256 else bestm)"
    using e a by (auto simp: xd3_encode_address_def Let_def d_def hit_def split: prod.splits option.splits)
  have small: "ucast (ucast x :: u8) = x" "unat (ucast x :: u8) = unat x" if "unat x < 256" for x :: u64
    using that by (simp_all add: word_unat_eq_iff unat_ucast_up) (simp_all add: unsigned_ucast_eq take_bit_eq_mod)
  show ?thesis
  proof (cases hit)
    case True
    define mode where "mode = s_near c + 2 + d div 256"
    note ix = same_mode_index [OF w _ d_def mode_def]
    have s: "0 < s_same c" using True hit_def by simp
    have um: "unat mode < 2 + unat (s_near c) + unat (s_same c)"
      using ix(1,2) [OF s] by (simp add: less_mult_imp_div_less)
    then have "unat mode < 256" using w by (simp add: cache_wf_def)
    then have mm: "ucast m = mode" "unat m = unat mode"
      using m True small [of mode] by (simp_all add: mode_def)
    have "xd3_decode_address here (ucast m) c ([ucast (d mod 256)] @ rest) = Inr (addr, c', rest)" for rest
      using ix(3,4) [OF s] True by (simp add: xd3_decode_address_def mm Let_def hit_def c')
    then show ?thesis
      using sect.put_byte_ok [OF v, of "ucast (d mod 256)" s'] emit True c' um mm
      by (intro exI [of _ "[ucast (d mod 256)]"]) simp
  next
    case False
    have r: "represents c here addr bestm bestd" by (rule address_search_represents [OF w a])
    then have um: "unat bestm < 2 + unat (s_near c)" by (simp add: represents_def)
    then have "unat bestm < 256" using w by (simp add: cache_wf_def)
    then have mm: "ucast m = bestm" "unat m = unat bestm" using m False small [of bestm] by simp_all
    have "emit_uint64 bestd \<noteq> []" by (simp add: emit_uint64_eq)
    then show ?thesis
      using sect.put_bytes_ok [OF v, of "emit_uint64 bestd" s'] emit False c' um mm
        decode_address_read [OF w r]
      by (intro exI [of _ "emit_uint64 bestd"]) (simp add: xd3_emit_size_def)
  qed
qed

lemma decode_address_wf:
  "cache_wf c \<Longrightarrow> xd3_decode_address here mode c inp = Inr (v, c', inp') \<Longrightarrow>
     cache_wf c' \<and> s_near c' = s_near c \<and> s_same c' = s_same c"
  by (auto simp: xd3_decode_address_def Let_def cache_wf_update split: if_splits sum.splits prod.splits list.splits)

subsection \<open>Codecs that share a state\<close>

text \<open>The contract between the writer and the reader of the address section: each keeps its own copy
  of a state, and decoding what was encoded gives the value back and leaves the reader with the
  writer's new state. It lifts to sequences, which is how a window is decoded.\<close>

locale lockstep_codec =
  fixes state_ok :: "'c \<Rightarrow> bool"
    and valid :: "'s \<Rightarrow> bool"
    and contents :: "'s \<Rightarrow> bytes"
    and enc :: "'a \<Rightarrow> 'h \<Rightarrow> 'c \<Rightarrow> 's \<Rightarrow> xd3_ret \<times> 'c \<times> 's \<times> 'm"
    and dec :: "'h \<Rightarrow> 'm \<Rightarrow> 'c \<Rightarrow> bytes \<Rightarrow> xd3_rvalues + ('a \<times> 'c \<times> bytes)"
  assumes dec_enc: "state_ok c \<Longrightarrow> valid s \<Longrightarrow> enc a h c s = (None, c', s', m) \<Longrightarrow>
      state_ok c' \<and> valid s' \<and> (\<exists>bs. contents s' = contents s @ bs \<and>
        (\<forall>rest. dec h m c (bs @ rest) = Inr (a, c', rest)))"
begin

fun enc_all :: "('a \<times> 'h) list \<Rightarrow> 'c \<Rightarrow> 's \<Rightarrow> ('c \<times> 's \<times> ('h \<times> 'm) list) option" where
  "enc_all [] c s = Some (c, s, [])"
| "enc_all ((a, h) # xs) c s =
     (case enc a h c s of
        (None, c', s', m) \<Rightarrow>
          (case enc_all xs c' s' of None \<Rightarrow> None | Some (c'', s'', ms) \<Rightarrow> Some (c'', s'', (h, m) # ms))
      | _ \<Rightarrow> None)"

fun dec_all :: "('h \<times> 'm) list \<Rightarrow> 'c \<Rightarrow> bytes \<Rightarrow> xd3_rvalues + ('a list \<times> 'c \<times> bytes)" where
  "dec_all [] c inp = Inr ([], c, inp)"
| "dec_all ((h, m) # hms) c inp =
     (case dec h m c inp of Inl e \<Rightarrow> Inl e
      | Inr (a, c', inp') \<Rightarrow>
          (case dec_all hms c' inp' of Inl e \<Rightarrow> Inl e | Inr (as, c'', r) \<Rightarrow> Inr (a # as, c'', r)))"

lemma dec_all_enc_all:
  "state_ok c \<Longrightarrow> valid s \<Longrightarrow> enc_all xs c s = Some (c', s', hms) \<Longrightarrow>
     \<exists>bs. contents s' = contents s @ bs \<and> (\<forall>rest. dec_all hms c (bs @ rest) = Inr (map fst xs, c', rest))"
proof (induction xs arbitrary: c s hms)
  case Nil
  then show ?case by simp
next
  case (Cons x xs)
  obtain a h where x: "x = (a, h)" by force
  obtain c1 s1 m ms where e: "enc a h c s = (None, c1, s1, m)" "enc_all xs c1 s1 = Some (c', s', ms)"
    "hms = (h, m) # ms"
    using Cons.prems(3) by (auto simp: x split: prod.splits option.splits)
  obtain b1 where b1: "state_ok c1" "valid s1" "contents s1 = contents s @ b1"
    "\<And>rest. dec h m c (b1 @ rest) = Inr (a, c1, rest)"
    using dec_enc [OF Cons.prems(1,2) e(1)] by blast
  obtain b2 where b2: "contents s' = contents s1 @ b2"
    "\<And>rest. dec_all ms c1 (b2 @ rest) = Inr (map fst xs, c', rest)"
    using Cons.IH [OF b1(1,2) e(2)] by blast
  show ?case
    using b1 b2 e x by (intro exI [of _ "b1 @ b2"]) simp
qed

end

interpretation addr: lockstep_codec cache_wf sect_valid sect_bytes xd3_encode_address
  "\<lambda>here m. xd3_decode_address here (ucast (m :: u8))"
proof
  fix c s addr here c' s' m
  assume "cache_wf c" "sect_valid s" "xd3_encode_address addr here c s = (None, c', s', m)"
  from encode_address_decodes [OF this]
  show "cache_wf c' \<and> sect_valid s' \<and> (\<exists>bs. sect_bytes s' = sect_bytes s @ bs \<and>
      (\<forall>rest. xd3_decode_address here (ucast m) c (bs @ rest) = Inr (addr, c', rest)))"
    using cache_wf_update [OF \<open>cache_wf c\<close>] by blast
qed

subsection \<open>Properties\<close>

text \<open>The caches of RFC 3284 with the default sizes.\<close>

definition rfc3284_cache :: xd3_addr_cache where
  "rfc3284_cache = xd3_init_cache
     \<lparr>s_near = 4, s_same = 3, next_slot = 0, near_array = replicate 4 0, same_array = replicate 768 0\<rparr>"

text \<open>C11. Addresses round trip in lock step: whatever mode \<open>xd3_encode_address\<close> picks for a COPY
  address, in any state of the cache, decoding the bytes it wrote in that mode and with the same cache
  returns the address and the rest of the section, and leaves the decoder with the encoder's new cache,
  again well-formed; the mode is one of the \<open>2 + s_near + s_same\<close> modes.\<close>

theorem encode_address_roundtrip:
  assumes "cache_wf c" "chain_wf ch"
    and "xd3_encode_address addr here c (m, ch) = (None, c', (m', ch'), mode)"
  shows "cache_wf c' \<and> chain_wf ch' \<and> unat mode < 2 + unat (s_near c) + unat (s_same c)
     \<and> (\<exists>bs. chain_bytes ch' = chain_bytes ch @ bs
         \<and> (\<forall>rest. xd3_decode_address here (ucast mode) c (bs @ rest) = Inr (addr, c', rest)))"
  using encode_address_decodes [OF assms(1) _ assms(3)] cache_wf_update [OF assms(1)] assms(2)
  by (fastforce simp: sect_valid_def sect_bytes_def)

theorem encode_address_roundtrip_witness:
  "\<exists>c' m' ch' mode bs.
     xd3_encode_address 1000 1010 rfc3284_cache
       (\<lparr>alloc_ok = \<lambda>_. True, alloc_cnt = 0, enc_free = 0\<rparr>, \<lparr>pages = [], tail = \<lparr>base = [7]\<rparr>\<rparr>)
       = (None, c', (m', ch'), mode)
     \<and> mode = 1 \<and> chain_bytes ch' = [7] @ bs
     \<and> xd3_decode_address 1010 (ucast mode) rfc3284_cache (bs @ [8]) = Inr (1000, c', [8])"
proof -
  let ?m = "\<lparr>alloc_ok = \<lambda>_. True, alloc_cnt = 0, enc_free = 0\<rparr>"
  let ?ch = "\<lparr>pages = [], tail = \<lparr>base = [7 :: u8]\<rparr>\<rparr>"
  have w: "cache_wf rfc3284_cache" "chain_wf ?ch"
    by (simp_all add: rfc3284_cache_def xd3_init_cache_def cache_wf_def chain_wf_def)
  have a: "address_search 1000 1010 rfc3284_cache = (True, 10, VCD_HERE)"
    by (simp add: address_search_def SMALLEST_INT_def)
  obtain m' ch' where s: "xd3_emit_size 10 (?m, ?ch) = (None, m', ch')"
    using emit_bytes_mem_ok [of "(?m, ?ch)" "emit_uint64 10"] by (auto simp: xd3_emit_size_def mem_ok_def)
  have e: "xd3_encode_address 1000 1010 rfc3284_cache (?m, ?ch)
      = (None, xd3_update_cache 1000 rfc3284_cache, (m', ch'), 1)"
    by (simp add: xd3_encode_address_def a s VCD_HERE_def)
  have b: "chain_bytes ?ch = [7]" by (simp add: chain_bytes_def)
  show ?thesis using encode_address_roundtrip [OF w e] e b by auto
qed

end
