(* ===== verification/Xd3_Source.thy ===== *)
theory Xd3_Source
  imports Prelude Xd3_Util Xd3_Output
begin

section \<open>The source file object (xdelta3.h, xdelta3.c "Getblk interface")\<close>

text \<open>
  The source is read by blocks of a power-of-two size. \<open>curblk\<close> is the current block, \<open>None\<close> before the
  first one; a client either supplies a \<open>getblk\<close> callback or answers \<open>XD3_GETSRCBLK\<close> itself. The
  callback is code of the client: it is a function from the source and the block number to a return
  code and the updated source (it sets \<open>curblk\<close>, \<open>curblkno\<close> and \<open>onblk\<close>).
\<close>

record xd3_source =
  blksize :: usize_t
  max_winsize :: xoff_t
  curblkno :: xoff_t
  onblk :: usize_t
  curblk :: "bytes option"
  srclen :: usize_t
  srcbase :: xoff_t
  shiftby :: usize_t
  maskby :: usize_t
  cpyoff_blocks :: xoff_t
  cpyoff_blkoff :: usize_t
  getblkno :: xoff_t
  max_blkno :: xoff_t
  onlastblk :: usize_t
  eof_known :: bool

type_synonym getblk_func = "xd3_source \<Rightarrow> xoff_t \<Rightarrow> xd3_ret \<times> xd3_source"

definition xd3_source_eof :: "xd3_source \<Rightarrow> xoff_t" where
  "xd3_source_eof src = push_bit (unat (shiftby src)) (max_blkno src) + onlastblk src"

definition xd3_bytes_on_srcblk :: "xd3_source \<Rightarrow> xoff_t \<Rightarrow> usize_t" where
  "xd3_bytes_on_srcblk src blkno = (if blkno = max_blkno src then onlastblk src else blksize src)"

text \<open>The part of \<open>xd3_getblk\<close> after the block is in memory: \<open>max_blkno\<close>, \<open>eof_known\<close> and
  \<open>onlastblk\<close> are brought up to date.\<close>

definition getblk_account :: "xoff_t \<Rightarrow> xd3_source \<Rightarrow> xd3_source" where
  "getblk_account blkno src =
     (let src1 =
        (if blkno > max_blkno src then
           let src' = src\<lparr>max_blkno := blkno\<rparr>
           in if onblk src' = blksize src' then src'
              else if \<not> eof_known src' then src'\<lparr>eof_known := True\<rparr> else src'
         else src)
      in if blkno = max_blkno src1 then src1\<lparr>onlastblk := onblk src1\<rparr> else src1)"

definition xd3_getblk :: "getblk_func option \<Rightarrow> xoff_t \<Rightarrow> xd3_source \<Rightarrow> xd3_ret \<times> xd3_source" where
  "xd3_getblk getblk blkno src =
     (if curblk src = None \<or> blkno \<noteq> curblkno src then
        let src1 = src\<lparr>getblkno := blkno\<rparr>
        in case getblk of
             None \<Rightarrow> (Some XD3_GETSRCBLK, src1)
           | Some f \<Rightarrow>
               (case f src1 blkno of
                  (Some r, src2) \<Rightarrow> (Some r, src2)
                | (None, src2) \<Rightarrow> (None, getblk_account blkno src2))
      else (None, getblk_account blkno src))"

text \<open>The block size test of \<open>xd3_set_source\<close>: the size, rounded up if need be, and its logarithm.\<close>

definition pow2_blksize :: "usize_t \<Rightarrow> (usize_t \<times> usize_t) option" where
  "pow2_blksize b =
     (case xd3_check_pow2 b of
        (None, sh) \<Rightarrow> Some (b, sh)
      | (Some _, _) \<Rightarrow>
          (case xd3_pow2_roundup b of None \<Rightarrow> None | Some b' \<Rightarrow> Some (b', snd (xd3_check_pow2 b'))))"

definition pow2_winsize :: "xoff_t \<Rightarrow> xoff_t option" where
  "pow2_winsize w = (if fst (xd3_check_pow2 w) = None then Some w else xd3_xoff_roundup w)"

text \<open>\<open>xd3_set_source\<close>. The roundings to a power of two may run forever for sizes above \<open>2 ^ 63\<close>;
  \<open>None\<close> is such a run.\<close>

definition xd3_set_source :: "xd3_source \<Rightarrow> xd3_source option" where
  "xd3_set_source src =
     (let src0 = src\<lparr>srclen := 0, srcbase := 0\<rparr>
      in case pow2_blksize (blksize src0) of
           None \<Rightarrow> None
         | Some (b, sh) \<Rightarrow>
             let src1 = src0\<lparr>blksize := b, shiftby := sh, maskby := push_bit (unat sh) 1 - 1\<rparr>
             in case pow2_winsize (max_winsize src1) of
                  None \<Rightarrow> None
                | Some w \<Rightarrow> Some (src1\<lparr>max_winsize := max w XD3_ALLOCSIZE\<rparr>))"

definition xd3_set_source_and_size :: "xd3_source \<Rightarrow> xoff_t \<Rightarrow> xd3_source option" where
  "xd3_set_source_and_size src src_sz =
     (case xd3_set_source src of None \<Rightarrow> None
      | Some s \<Rightarrow>
          (case xd3_blksize_div src_sz (unat (shiftby s)) (maskby s) of
             (blkno, off) \<Rightarrow> Some (s\<lparr>eof_known := True, max_blkno := blkno, onlastblk := off\<rparr>)))"

text \<open>The source that \<open>xd3_process_memory\<close> sets up: one block with the whole buffer in it.\<close>

definition memory_source :: "bytes \<Rightarrow> xd3_source" where
  "memory_source source =
     (let n = of_nat (length source)
      in \<lparr>blksize = n, max_winsize = n, curblkno = 0, onblk = n, curblk = Some source,
          srclen = 0, srcbase = 0, shiftby = 0, maskby = 0, cpyoff_blocks = 0, cpyoff_blkoff = 0,
          getblkno = 0, max_blkno = 0, onlastblk = 0, eof_known = False\<rparr>)"

subsection \<open>Invariant\<close>

text \<open>What the readers of the source rely on: a power-of-two block size with its shift and mask, and a
  current block that holds the bytes it announces.\<close>

definition source_wf :: "xd3_source \<Rightarrow> bool" where
  "source_wf src \<longleftrightarrow> unat (shiftby src) < 64 \<and> blksize src = 2 ^ unat (shiftby src)
     \<and> maskby src = 2 ^ unat (shiftby src) - 1
     \<and> (\<forall>b. curblk src = Some b \<longrightarrow> length b = unat (onblk src) \<and> onblk src \<le> blksize src)"

definition getblk_wf :: "getblk_func option \<Rightarrow> bool" where
  "getblk_wf g \<longleftrightarrow> (\<forall>f src blkno r src'. g = Some f \<longrightarrow> source_wf src \<longrightarrow> f src blkno = (r, src') \<longrightarrow>
     source_wf src' \<and> blksize src' = blksize src
     \<and> cpyoff_blocks src' = cpyoff_blocks src \<and> cpyoff_blkoff src' = cpyoff_blkoff src
     \<and> (r = None \<longrightarrow> curblk src' \<noteq> None \<and> curblkno src' = blkno) \<and> r \<noteq> Some XD3_OUTPUT)"

lemma getblk_account_fields [simp]:
  "blksize (getblk_account b src) = blksize src" "curblk (getblk_account b src) = curblk src"
  "curblkno (getblk_account b src) = curblkno src" "onblk (getblk_account b src) = onblk src"
  "shiftby (getblk_account b src) = shiftby src" "maskby (getblk_account b src) = maskby src"
  "cpyoff_blocks (getblk_account b src) = cpyoff_blocks src"
  "cpyoff_blkoff (getblk_account b src) = cpyoff_blkoff src"
  "srcbase (getblk_account b src) = srcbase src" "srclen (getblk_account b src) = srclen src"
  by (simp_all add: getblk_account_def Let_def)

lemma source_wf_account [simp]: "source_wf (getblk_account b src) \<longleftrightarrow> source_wf src"
  by (simp add: source_wf_def)

lemma getblk_ok:
  assumes "source_wf src" "getblk_wf g" "xd3_getblk g blkno src = (r, src')"
  shows "source_wf src' \<and> blksize src' = blksize src
    \<and> cpyoff_blocks src' = cpyoff_blocks src \<and> cpyoff_blkoff src' = cpyoff_blkoff src
    \<and> (r = None \<longrightarrow> curblk src' \<noteq> None \<and> curblkno src' = blkno) \<and> r \<noteq> Some XD3_OUTPUT"
proof -
  have w1: "source_wf (src\<lparr>getblkno := blkno\<rparr>)" using assms(1) by (auto simp: source_wf_def)
  show ?thesis
  proof (cases "curblk src = None \<or> blkno \<noteq> curblkno src")
    case True
    show ?thesis
    proof (cases g)
      case None
      then show ?thesis using assms(3) True w1 by (auto simp: xd3_getblk_def)
    next
      case (Some f)
      obtain q s2 where f: "f (src\<lparr>getblkno := blkno\<rparr>) blkno = (q, s2)" by force
      have h: "source_wf s2" "blksize s2 = blksize src" "cpyoff_blocks s2 = cpyoff_blocks src"
        "cpyoff_blkoff s2 = cpyoff_blkoff src" "q = None \<longrightarrow> curblk s2 \<noteq> None \<and> curblkno s2 = blkno" "q \<noteq> Some XD3_OUTPUT"
        using assms(2) Some w1 f unfolding getblk_wf_def by fastforce+
      show ?thesis
        using assms(3) True Some f h by (cases q) (auto simp: xd3_getblk_def)
    qed
  next
    case False
    then show ?thesis using assms(1,3) by (auto simp: xd3_getblk_def)
  qed
qed

text \<open>The rounding of \<open>xd3_set_source\<close>: the block size becomes the least power of two.\<close>

lemma pow2_roundup_pow2:
  assumes "unat x \<le> 2 ^ 63"
  obtains k where "k < 64" "xd3_pow2_roundup x = Some (2 ^ k)" "unat x \<le> 2 ^ k"
proof -
  define m where "m = (LEAST m. unat x \<le> 2 ^ m)"
  have a: "unat x \<le> 2 ^ m"
    unfolding m_def by (rule LeastI [where P = "\<lambda>m. unat x \<le> 2 ^ m", OF assms])
  have b: "m \<le> 63"
    unfolding m_def by (rule Least_le [where P = "\<lambda>m. unat x \<le> 2 ^ m", OF assms])
  show thesis using a b assms by (intro that [of m]) (simp_all add: pow2_roundup_eq m_def)
qed

lemma check_pow2_pow2: "k < 64 \<Longrightarrow> xd3_check_pow2 (2 ^ k) = (None, of_nat k)"
  using check_pow2_spec by blast

lemma set_memory_source:
  assumes "length source \<le> 2 ^ 63"
  obtains s where "xd3_set_source_and_size (memory_source source) (of_nat (length source)) = Some s"
    "source_wf s" "curblk s = Some source" "curblkno s = 0" "onblk s = of_nat (length source)"
    "srcbase s = 0" "srclen s = 0" "eof_known s" "length source \<le> unat (blksize s)"
    "xd3_source_eof s = of_nat (length source)"
proof -
  let ?n = "of_nat (length source) :: u64"
  have un: "unat ?n = length source" using assms by (intro unat_of_nat_less) simp
  have le: "unat ?n \<le> 2 ^ 63" using un assms by simp
  have "\<exists>k < 64. unat ?n \<le> 2 ^ k \<and> pow2_blksize ?n = Some (2 ^ k, of_nat k)"
  proof (cases "xd3_check_pow2 ?n")
    case (Pair r sh)
    show ?thesis
    proof (cases r)
      case None
      then obtain k where k: "k < 64" "?n = 2 ^ k" "sh = of_nat k" using Pair check_pow2_spec by blast
      then have "unat ?n = 2 ^ k" by (metis unat_exp_u64)
      then show ?thesis using k Pair None by (intro exI [of _ k]) (simp add: pow2_blksize_def)
    next
      case (Some e)
      obtain k where "k < 64" "xd3_pow2_roundup ?n = Some (2 ^ k)" "unat ?n \<le> 2 ^ k"
        using pow2_roundup_pow2 [OF le] .
      then show ?thesis using Pair Some check_pow2_pow2 by (intro exI [of _ k]) (simp add: pow2_blksize_def)
    qed
  qed
  then obtain k where k: "k < 64" "unat ?n \<le> 2 ^ k" and b: "pow2_blksize ?n = Some (2 ^ k, of_nat k)"
    by blast
  obtain w where w: "pow2_winsize ?n = Some w"
  proof -
    obtain j where "xd3_pow2_roundup ?n = Some (2 ^ j)" using pow2_roundup_pow2 [OF le] .
    then have "xd3_xoff_roundup ?n = Some (2 ^ j)" by (simp only: xd3_xoff_roundup_def xd3_pow2_roundup_def)
    then show thesis using that by (cases "fst (xd3_check_pow2 ?n) = None") (simp_all add: pow2_winsize_def)
  qed
  have uk: "unat (of_nat k :: u64) = k" using k by (simp add: unat_of_nat)
  define s1 where "s1 = (memory_source source)\<lparr>srclen := 0, srcbase := 0, blksize := 2 ^ k, shiftby := of_nat k,
     maskby := push_bit k 1 - 1, max_winsize := max w XD3_ALLOCSIZE\<rparr>"
  have s1: "xd3_set_source (memory_source source) = Some s1"
    using b w by (simp add: xd3_set_source_def memory_source_def Let_def s1_def uk)
  obtain bn bo where d: "xd3_blksize_div ?n k (2 ^ k - 1) = (bn, bo)" by force
  define s where "s = s1\<lparr>eof_known := True, max_blkno := bn, onlastblk := bo\<rparr>"
  have pb: "push_bit k 1 = (2 ^ k :: u64)" by (simp add: push_bit_eq_mult)
  note dd = blksize_div_spec [OF k(1) d]
  have "bn * 2 ^ k + bo = ?n"
  proof -
    have "unat (bn * 2 ^ k + bo) = unat ?n"
      using dd(1) unat_exp_u64 [OF k(1)] unat_u64_lt [of ?n]
      by (simp add: unat_word_ariths) 
    then show ?thesis by (simp add: word_unat_eq_iff)
  qed
  then have eof: "xd3_source_eof s = ?n"
    by (simp add: xd3_source_eof_def s_def s1_def uk push_bit_eq_mult)
  show thesis
  proof (rule that [of s])
    show "xd3_set_source_and_size (memory_source source) ?n = Some s"
      using s1 d by (simp add: xd3_set_source_and_size_def s_def s1_def uk pb)
    show "source_wf s"
      using k un by (simp add: source_wf_def s_def s1_def uk pb memory_source_def Let_def
        word_le_nat_alt unat_exp_u64)
  qed (use eof k un in \<open>simp_all add: s_def s1_def memory_source_def Let_def unat_exp_u64\<close>)
qed

end
