(* ===== verification/Xd3_Decode.thy ===== *)
theory Xd3_Decode
  imports Prelude Xd3_Integer Xd3_CodeTable Xd3_Util Xd3_Output Xd3_AddrCache Xd3_Source
begin

section \<open>The decoder (xdelta3-decode.h)\<close>

text \<open>
  \<open>xd3_decode_input\<close> as a state machine over the decoder's part of \<open>struct _xd3_stream\<close>. The
  \<open>switch\<close> falls through from state to state; \<open>state_X\<close> is the code from the label \<open>case X\<close> to the
  next \<open>return\<close>. A run of the emit loop is a partial function: \<open>None\<close> stands for a run that does not
  end or that touches memory outside the written part of a buffer, so a result \<open>Some\<close> carries both
  termination and memory safety.

  Pointers: \<open>next_in\<close> with \<open>avail_in\<close> is the list of the input bytes that remain; a complete section
  (\<open>buf\<close> up to \<open>buf_max\<close>) is the list of its unread bytes, an incomplete one the bytes copied so far;
  the output window is the list of the bytes written at \<open>next_out\<close>, with \<open>avail_out\<close> and \<open>space_out\<close> as
  in the code. \<open>alloc1\<close> is \<open>None\<close> when \<open>copied1\<close> is \<open>NULL\<close>.
\<close>

subsection \<open>Constants\<close>

definition XD3_HARDMAXWINSIZE :: usize_t where "XD3_HARDMAXWINSIZE = push_bit 26 1"

definition XD3_JUST_HDR :: u32 where "XD3_JUST_HDR = push_bit 1 1"
definition XD3_SKIP_WINDOW :: u32 where "XD3_SKIP_WINDOW = push_bit 2 1"
definition XD3_SKIP_EMIT :: u32 where "XD3_SKIP_EMIT = push_bit 3 1"
definition XD3_FLUSH :: u32 where "XD3_FLUSH = push_bit 4 1"
definition XD3_ADLER32 :: u32 where "XD3_ADLER32 = push_bit 10 1"
definition XD3_ADLER32_NOVER :: u32 where "XD3_ADLER32_NOVER = push_bit 11 1"
definition XD3_NOCOMPRESS :: u32 where "XD3_NOCOMPRESS = push_bit 13 1"
definition XD3_BEGREEDY :: u32 where "XD3_BEGREEDY = push_bit 14 1"
definition XD3_ADLER32_RECODE :: u32 where "XD3_ADLER32_RECODE = push_bit 15 1"

definition VCD_SECONDARY :: usize_t where "VCD_SECONDARY = push_bit 0 1"
definition VCD_CODETABLE :: usize_t where "VCD_CODETABLE = push_bit 1 1"
definition VCD_APPHEADER :: usize_t where "VCD_APPHEADER = push_bit 2 1"
definition VCD_SOURCE :: usize_t where "VCD_SOURCE = push_bit 0 1"
definition VCD_TARGET :: usize_t where "VCD_TARGET = push_bit 1 1"
definition VCD_ADLER32 :: usize_t where "VCD_ADLER32 = push_bit 2 1"

text \<open>\<open>~0x7U\<close>, a 32-bit constant: \<open>VCD_INVHDR\<close>, \<open>VCD_INVWIN\<close> and \<open>VCD_INVDEL\<close>.\<close>

definition VCD_INV :: usize_t where "VCD_INV = 0xFFFFFFF8"

definition VCDIFF_MAGIC1 :: u8 where "VCDIFF_MAGIC1 = 0xd6"
definition VCDIFF_MAGIC2 :: u8 where "VCDIFF_MAGIC2 = 0xc3"
definition VCDIFF_MAGIC3 :: u8 where "VCDIFF_MAGIC3 = 0xc4"
definition VCDIFF_VERSION :: u8 where "VCDIFF_VERSION = 0x00"

lemmas vcd_defs = VCD_SECONDARY_def VCD_CODETABLE_def VCD_APPHEADER_def VCD_SOURCE_def VCD_TARGET_def
  VCD_ADLER32_def VCD_INV_def

lemmas xd3_flag_defs = XD3_JUST_HDR_def XD3_SKIP_WINDOW_def XD3_SKIP_EMIT_def XD3_FLUSH_def
  XD3_ADLER32_def XD3_ADLER32_NOVER_def XD3_NOCOMPRESS_def XD3_BEGREEDY_def XD3_ADLER32_RECODE_def

datatype xd3_decode_state =
    DEC_VCHEAD | DEC_HDRIND | DEC_SECONDID | DEC_TABLEN | DEC_NEAR | DEC_SAME | DEC_TABDAT
  | DEC_APPLEN | DEC_APPDAT | DEC_WININD | DEC_CPYLEN | DEC_CPYOFF | DEC_ENCLEN | DEC_TGTLEN
  | DEC_DELIND | DEC_DATALEN | DEC_INSTLEN | DEC_ADDRLEN | DEC_CKSUM | DEC_DATA | DEC_INST | DEC_ADDR
  | DEC_EMIT | DEC_FINISH | DEC_ABORTED

subsection \<open>State\<close>

record xd3_hinst =
  htype :: u8
  hsize :: usize_t
  haddr :: usize_t

record xd3_desect =
  sbuf :: bytes
  ssize :: usize_t
  spos :: usize_t
  alloc1 :: "usize_t option"

text \<open>The decoder's fields of \<open>struct _xd3_stream\<close>. \<open>encoding\<close> stands for \<open>enc_state != 0\<close>. With
  \<open>VCD_TARGET\<close> rejected, \<open>dec_lastwin\<close> and \<open>dec_lastspace\<close> are never used.\<close>

record xd3_dstream =
  mem :: xd3_mem
  next_in :: bytes
  total_in :: xoff_t
  next_out :: bytes
  avail_out :: usize_t
  space_out :: usize_t
  total_out :: xoff_t
  current_window :: xoff_t
  src :: "xd3_source option"
  getblk :: "getblk_func option"
  flags :: u32
  acache :: xd3_addr_cache
  encoding :: bool
  dec_state :: xd3_decode_state
  dec_hdr_ind :: usize_t
  dec_win_ind :: usize_t
  dec_del_ind :: usize_t
  dec_magic :: bytes
  dec_secondid :: usize_t
  dec_codetblsz :: usize_t
  dec_appheadsz :: usize_t
  dec_appheader :: "bytes option"
  dec_cksum :: bytes
  dec_adler32 :: u32
  dec_cpylen :: usize_t
  dec_cpyoff :: xoff_t
  dec_enclen :: usize_t
  dec_tgtlen :: usize_t
  dec_64part :: u64
  dec_winstart :: xoff_t
  dec_window_count :: xoff_t
  dec_winbytes :: usize_t
  dec_hdrsize :: usize_t
  dec_position :: usize_t
  dec_maxpos :: usize_t
  dec_current1 :: xd3_hinst
  dec_current2 :: xd3_hinst
  dec_lastlen :: usize_t
  dec_laststart :: xoff_t
  inst_sect :: xd3_desect
  addr_sect :: xd3_desect
  data_sect :: xd3_desect
  code_table :: "xd3_dinst list"

type_synonym dec_step = "xd3_dstream \<Rightarrow> xd3_ret \<times> xd3_dstream"

subsection \<open>Reading the input\<close>

text \<open>\<open>DECODE_INPUT (n)\<close>\<close>

definition decode_input_advance :: "nat \<Rightarrow> xd3_dstream \<Rightarrow> xd3_dstream" where
  "decode_input_advance n s = s\<lparr>total_in := total_in s + of_nat n, next_in := drop n (next_in s)\<rparr>"

definition xd3_decode_byte :: "(usize_t \<Rightarrow> xd3_dstream \<Rightarrow> xd3_dstream) \<Rightarrow> dec_step" where
  "xd3_decode_byte store s =
     (case next_in s of
        [] \<Rightarrow> (Some XD3_INPUT, s)
      | b # _ \<Rightarrow> (None, decode_input_advance 1 (store (ucast b) s)))"

text \<open>\<open>xd3_decode_bytes (stream, buf, &pos, size)\<close>: \<open>get s\<close> are the \<open>pos\<close> bytes of \<open>buf\<close> filled so
  far. One pass of the loop copies all that is available, so a second pass can only ask for input.\<close>

definition xd3_decode_bytes ::
  "(xd3_dstream \<Rightarrow> bytes) \<Rightarrow> (bytes \<Rightarrow> xd3_dstream \<Rightarrow> xd3_dstream) \<Rightarrow> nat \<Rightarrow> dec_step" where
  "xd3_decode_bytes get store sz s =
     (if length (get s) < sz then
        if next_in s = [] then (Some XD3_INPUT, s)
        else
          let want = sz - length (get s); n = min want (length (next_in s));
              s' = decode_input_advance n (store (get s @ take n (next_in s)) s)
          in if n < want then (Some XD3_INPUT, s') else (None, s')
      else (None, s))"

text \<open>\<open>xd3_decode_size\<close> and \<open>xd3_decode_offset\<close>.\<close>

definition xd3_decode_size :: "(usize_t \<Rightarrow> xd3_dstream \<Rightarrow> xd3_dstream) \<Rightarrow> dec_step" where
  "xd3_decode_size store s =
     (case xd3_decode_uint64_t (dec_64part s) (next_in s) of (r, part, v, rest) \<Rightarrow>
        let s' = decode_input_advance (length (next_in s) - length rest) (s\<lparr>dec_64part := part\<rparr>)
        in (r, case v of None \<Rightarrow> s' | Some x \<Rightarrow> store x s'))"

text \<open>The macros \<open>BYTE_CASE\<close>, \<open>SIZE_CASE\<close> and \<open>OFFSET_CASE\<close>: read when \<open>cond\<close> holds, then move to
  the next state.\<close>

definition goto :: "xd3_decode_state \<Rightarrow> dec_step" where
  "goto st s = (None, s\<lparr>dec_state := st\<rparr>)"

definition BYTE_CASE :: "(xd3_dstream \<Rightarrow> bool) \<Rightarrow> (usize_t \<Rightarrow> xd3_dstream \<Rightarrow> xd3_dstream)
    \<Rightarrow> xd3_decode_state \<Rightarrow> dec_step" where
  "BYTE_CASE cond store nstate =
     seqr (\<lambda>s. if cond s then xd3_decode_byte store s else (None, s)) (goto nstate)"

definition SIZE_CASE :: "(xd3_dstream \<Rightarrow> bool) \<Rightarrow> (usize_t \<Rightarrow> xd3_dstream \<Rightarrow> xd3_dstream)
    \<Rightarrow> xd3_decode_state \<Rightarrow> dec_step" where
  "SIZE_CASE cond store nstate =
     seqr (\<lambda>s. if cond s then xd3_decode_size store s else (None, s)) (goto nstate)"

text \<open>\<open>if (bad) { return r; }\<close>\<close>

definition fail_if :: "(xd3_dstream \<Rightarrow> bool) \<Rightarrow> xd3_rvalues \<Rightarrow> dec_step" where
  "fail_if bad r s = (if bad s then (Some r, s) else (None, s))"

definition modify :: "(xd3_dstream \<Rightarrow> xd3_dstream) \<Rightarrow> dec_step" where
  "modify f s = (None, f s)"

subsection \<open>Buffers and sections\<close>

definition xd3_decode_init_window :: dec_step where
  "xd3_decode_init_window s =
     (None, s\<lparr>dec_cpylen := 0, dec_cpyoff := 0, dec_cksum := [], acache := xd3_init_cache (acache s)\<rparr>)"

definition xd3_decode_setup_buffers :: dec_step where
  "xd3_decode_setup_buffers s =
     (if dec_win_ind s AND VCD_TARGET \<noteq> 0 then (Some XD3_UNIMPLEMENTED, s)
      else if space_out s < dec_tgtlen s then
        let s1 = s\<lparr>space_out := xd3_round_blksize (dec_tgtlen s) XD3_ALLOCSIZE\<rparr>
        in case xd3_alloc (mem s1) of
             (False, m) \<Rightarrow> (Some ENOMEM, s1\<lparr>mem := m, next_out := []\<rparr>)
           | (True, m) \<Rightarrow> (None, s1\<lparr>mem := m, next_out := []\<rparr>)
      else (None, s))"

text \<open>\<open>xd3_decode_allocate (stream, size, &buf, &alloc)\<close> on the memory and the \<open>alloc1\<close> of a section.\<close>

definition xd3_decode_allocate ::
  "usize_t \<Rightarrow> xd3_mem \<Rightarrow> usize_t option \<Rightarrow> xd3_ret \<times> xd3_mem \<times> usize_t option" where
  "xd3_decode_allocate sz m alloc =
     (let alloc' = (case alloc of Some a \<Rightarrow> if a < sz then None else Some a | None \<Rightarrow> None)
      in case alloc' of
           Some a \<Rightarrow> (None, m, Some a)
         | None \<Rightarrow> (case xd3_alloc m of
               (False, m') \<Rightarrow> (Some ENOMEM, m', None)
             | (True, m') \<Rightarrow> (None, m', Some (xd3_round_blksize sz XD3_ALLOCSIZE))))"

text \<open>\<open>xd3_decode_section (stream, section, nstate, copy)\<close>, with the section given by its selector and
  update. In the zero-copy case the section is the whole of it at \<open>next_in\<close>. The last step sets
  \<open>buf_max = buf + size\<close>, which makes a section of size 0 empty whatever \<open>buf\<close> was.\<close>

definition section_zerocopy ::
  "(xd3_dstream \<Rightarrow> xd3_desect) \<Rightarrow> (xd3_desect \<Rightarrow> xd3_dstream \<Rightarrow> xd3_dstream) \<Rightarrow> dec_step" where
  "section_zerocopy sect put s =
     (let sec = sect s; n = unat (ssize sec)
      in (None, decode_input_advance n
            (put (sec\<lparr>sbuf := take n (next_in s), spos := spos sec + ssize sec\<rparr>)
              (s\<lparr>dec_winbytes := dec_winbytes s + ssize sec\<rparr>))))"

definition section_allocate ::
  "(xd3_dstream \<Rightarrow> xd3_desect) \<Rightarrow> (xd3_desect \<Rightarrow> xd3_dstream \<Rightarrow> xd3_dstream) \<Rightarrow> dec_step" where
  "section_allocate sect put s =
     (let sec = sect s
      in if spos sec = 0 then
           case xd3_decode_allocate (ssize sec) (mem s) (alloc1 sec) of
             (r, m, a) \<Rightarrow> (r, put (sec\<lparr>alloc1 := a, sbuf := []\<rparr>) (s\<lparr>mem := m\<rparr>))
         else (None, s))"

definition section_append ::
  "(xd3_dstream \<Rightarrow> xd3_desect) \<Rightarrow> (xd3_desect \<Rightarrow> xd3_dstream \<Rightarrow> xd3_dstream) \<Rightarrow> dec_step" where
  "section_append sect put s =
     (let sec = sect s; n = min (unat (ssize sec - spos sec)) (length (next_in s))
      in (None, decode_input_advance n
            (put (sec\<lparr>sbuf := sbuf sec @ take n (next_in s), spos := spos sec + of_nat n\<rparr>)
              (s\<lparr>dec_winbytes := dec_winbytes s + of_nat n\<rparr>))))"

definition section_take ::
  "(xd3_dstream \<Rightarrow> xd3_desect) \<Rightarrow> (xd3_desect \<Rightarrow> xd3_dstream \<Rightarrow> xd3_dstream) \<Rightarrow> bool \<Rightarrow> dec_step" where
  "section_take sect put copy s =
     (if spos (sect s) < ssize (sect s) then
        if next_in s = [] then (Some XD3_INPUT, s)
        else if \<not> copy \<and> spos (sect s) = 0 then section_zerocopy sect put s
        else seqr (section_allocate sect put) (section_append sect put) s
      else (None, s))"

definition section_done ::
  "(xd3_dstream \<Rightarrow> xd3_desect) \<Rightarrow> (xd3_desect \<Rightarrow> xd3_dstream \<Rightarrow> xd3_dstream)
     \<Rightarrow> xd3_decode_state \<Rightarrow> dec_step" where
  "section_done sect put nstate s =
     (let sec = sect s
      in if spos sec < ssize sec then (Some XD3_INPUT, s)
         else (None, put (sec\<lparr>spos := 0, sbuf := take (unat (ssize sec)) (sbuf sec)\<rparr>)
                      (s\<lparr>dec_state := nstate\<rparr>)))"

definition xd3_decode_section ::
  "(xd3_dstream \<Rightarrow> xd3_desect) \<Rightarrow> (xd3_desect \<Rightarrow> xd3_dstream \<Rightarrow> xd3_dstream)
     \<Rightarrow> xd3_decode_state \<Rightarrow> bool \<Rightarrow> dec_step" where
  "xd3_decode_section sect put nstate copy = seqr (section_take sect put copy) (section_done sect put nstate)"

subsection \<open>Instructions\<close>

text \<open>The two reads of \<open>xd3_decode_parse_halfinst\<close>: the size, when the table entry has none, and the
  address of a copy with its bounds checks. The instruction is passed and returned by value; an error
  return leaves the stream as it was when the failing read began.\<close>

definition parse_size :: "xd3_hinst \<Rightarrow> xd3_dstream \<Rightarrow> xd3_rvalues + (xd3_hinst \<times> xd3_dstream)" where
  "parse_size inst s =
     (if hsize inst = 0 then
        case xd3_read_uint64_t (sbuf (inst_sect s)) of
          Inl _ \<Rightarrow> Inl XD3_INVALID_INPUT
        | Inr (n, rest) \<Rightarrow> Inr (inst\<lparr>hsize := n\<rparr>, s\<lparr>inst_sect := (inst_sect s)\<lparr>sbuf := rest\<rparr>\<rparr>)
      else Inr (inst, s))"

definition parse_address :: "xd3_hinst \<Rightarrow> xd3_dstream \<Rightarrow> xd3_rvalues + (xd3_hinst \<times> xd3_dstream)" where
  "parse_address inst s =
     (if XD3_CPY \<le> htype inst then
        case xd3_decode_address (dec_position s) (ucast (htype inst - XD3_CPY)) (acache s)
               (sbuf (addr_sect s)) of
          Inl r \<Rightarrow> Inl r
        | Inr (a, c, rest) \<Rightarrow>
            if dec_position s \<le> a then Inl XD3_INVALID_INPUT
            else if a < dec_cpylen s \<and> a + hsize inst > dec_cpylen s then Inl XD3_INVALID_INPUT
            else Inr (inst\<lparr>haddr := a\<rparr>, s\<lparr>acache := c, addr_sect := (addr_sect s)\<lparr>sbuf := rest\<rparr>\<rparr>)
      else Inr (inst, s))"

definition xd3_decode_parse_halfinst ::
  "xd3_hinst \<Rightarrow> xd3_dstream \<Rightarrow> xd3_ret \<times> xd3_hinst \<times> xd3_dstream" where
  "xd3_decode_parse_halfinst inst s =
     (case parse_size inst s of
        Inl r \<Rightarrow> (Some r, inst, s)
      | Inr (inst1, s1) \<Rightarrow>
        (case parse_address inst1 s1 of
           Inl r \<Rightarrow> (Some r, inst1, s1)
         | Inr (inst2, s2) \<Rightarrow>
             if dec_position s2 + hsize inst2 > dec_maxpos s2
             then (Some XD3_INVALID_INPUT, inst2, s2)
             else (None, inst2, s2\<lparr>dec_position := dec_position s2 + hsize inst2\<rparr>)))"

definition parse_current1 :: dec_step where
  "parse_current1 s =
     (if htype (dec_current1 s) \<noteq> XD3_NOOP then
        case xd3_decode_parse_halfinst (dec_current1 s) s of
          (r, inst, s') \<Rightarrow> (r, s'\<lparr>dec_current1 := inst\<rparr>)
      else (None, s))"

definition parse_current2 :: dec_step where
  "parse_current2 s =
     (if htype (dec_current2 s) \<noteq> XD3_NOOP then
        case xd3_decode_parse_halfinst (dec_current2 s) s of
          (r, inst, s') \<Rightarrow> (r, s'\<lparr>dec_current2 := inst\<rparr>)
      else (None, s))"

definition xd3_decode_instruction :: dec_step where
  "xd3_decode_instruction s =
     (case sbuf (inst_sect s) of
        [] \<Rightarrow> (Some XD3_INVALID_INPUT, s)
      | b # rest \<Rightarrow>
          let inst = code_table s ! unat b
          in seqr parse_current1 parse_current2
               (s\<lparr>inst_sect := (inst_sect s)\<lparr>sbuf := rest\<rparr>,
                  dec_current1 := (dec_current1 s)\<lparr>htype := type1 inst, hsize := ucast (size1 inst)\<rparr>,
                  dec_current2 := (dec_current2 s)\<lparr>htype := type2 inst, hsize := ucast (size2 inst)\<rparr>\<rparr>))"

subsection \<open>Output\<close>

text \<open>Writing \<open>bs\<close> at \<open>next_out + avail_out\<close>; \<open>None\<close> outside the window buffer or past a gap.\<close>

definition write_out :: "bytes \<Rightarrow> xd3_dstream \<Rightarrow> xd3_dstream option" where
  "write_out bs s =
     (if unat (avail_out s) \<le> length (next_out s) \<and> unat (avail_out s) + length bs \<le> unat (space_out s)
      then Some (s\<lparr>next_out := take (unat (avail_out s)) (next_out s) @ bs,
                   avail_out := avail_out s + of_nat (length bs)\<rparr>)
      else None)"

text \<open>The byte-by-byte copy \<open>*dst++ = *src++\<close> inside the window: \<open>out\<close> is what is written before
  \<open>dst\<close>, \<open>i\<close> the index of \<open>src\<close>. \<open>None\<close> when \<open>src\<close> has not been written.\<close>

fun overlap_copy :: "nat \<Rightarrow> nat \<Rightarrow> bytes \<Rightarrow> bytes option" where
  "overlap_copy 0 i out = Some out"
| "overlap_copy (Suc n) i out = (if i < length out then overlap_copy n (Suc i) (out @ [out ! i]) else None)"

definition noop :: "xd3_hinst \<Rightarrow> xd3_hinst" where
  "noop inst = inst\<lparr>htype := XD3_NOOP\<rparr>"

text \<open>The three branches of the \<open>switch\<close> of \<open>xd3_decode_output_halfinst\<close>.\<close>

definition output_run :: "xd3_hinst \<Rightarrow> xd3_dstream \<Rightarrow> (xd3_ret \<times> xd3_hinst \<times> xd3_dstream) option" where
  "output_run inst s =
     (case sbuf (data_sect s) of
        [] \<Rightarrow> Some (Some XD3_INVALID_INPUT, inst, s)
      | b # rest \<Rightarrow>
          (case write_out (replicate (unat (hsize inst)) b) s of
             None \<Rightarrow> None
           | Some s' \<Rightarrow> Some (None, noop inst, s'\<lparr>data_sect := (data_sect s)\<lparr>sbuf := rest\<rparr>\<rparr>)))"

definition output_add :: "xd3_hinst \<Rightarrow> xd3_dstream \<Rightarrow> (xd3_ret \<times> xd3_hinst \<times> xd3_dstream) option" where
  "output_add inst s =
     (let n = unat (hsize inst); buf = sbuf (data_sect s)
      in if n > length buf then Some (Some XD3_INVALID_INPUT, inst, s)
         else case write_out (take n buf) s of
                None \<Rightarrow> None
              | Some s' \<Rightarrow> Some (None, noop inst, s'\<lparr>data_sect := (data_sect s)\<lparr>sbuf := drop n buf\<rparr>\<rparr>))"

text \<open>A copy from the source window; \<open>None\<close> also when there is no source or the block is too short for
  what is read from it.\<close>

definition output_source_copy ::
  "xd3_hinst \<Rightarrow> xd3_dstream \<Rightarrow> (xd3_ret \<times> xd3_hinst \<times> xd3_dstream) option" where
  "output_source_copy inst s =
     (case src s of
        None \<Rightarrow> None
      | Some source \<Rightarrow>
        (case xd3_blksize_add (cpyoff_blocks source) (cpyoff_blkoff source)
                (unat (shiftby source)) (maskby source) (haddr inst) of
           (block, blkoff) \<Rightarrow>
             (case xd3_getblk (getblk s) block source of
                (Some r, source') \<Rightarrow>
                  Some (Some (if r = XD3_TOOFARBACK then XD3_INTERNAL else r), inst, s\<lparr>src := Some source'\<rparr>)
              | (None, source') \<Rightarrow>
                let s1 = s\<lparr>src := Some source'\<rparr>; bsz = blksize source
                in if onblk source' \<noteq> bsz \<and> blkoff + hsize inst > onblk source'
                   then Some (Some XD3_INVALID_INPUT, inst, s1)
                   else
                     let (n, inst') =
                       (if blkoff + hsize inst \<le> bsz
                        then (hsize inst, inst\<lparr>htype := XD3_NOOP, hsize := 0\<rparr>)
                        else (bsz - blkoff, inst\<lparr>hsize := hsize inst - (bsz - blkoff),
                                               haddr := haddr inst + (bsz - blkoff)\<rparr>))
                     in case curblk source' of
                          None \<Rightarrow> None
                        | Some blk \<Rightarrow>
                            if unat blkoff + unat n > length blk then None
                            else (case write_out (take (unat n) (drop (unat blkoff) blk)) s1 of
                                    None \<Rightarrow> None
                                  | Some s' \<Rightarrow> Some (None, inst', s')))))"

definition output_target_copy ::
  "xd3_hinst \<Rightarrow> xd3_dstream \<Rightarrow> (xd3_ret \<times> xd3_hinst \<times> xd3_dstream) option" where
  "output_target_copy inst s =
     (if unat (avail_out s) \<le> length (next_out s)
         \<and> unat (avail_out s) + unat (hsize inst) \<le> unat (space_out s) then
        case overlap_copy (unat (hsize inst)) (unat (haddr inst - dec_cpylen s))
               (take (unat (avail_out s)) (next_out s)) of
          None \<Rightarrow> None
        | Some out \<Rightarrow> Some (None, inst\<lparr>htype := XD3_NOOP, hsize := 0\<rparr>,
                             s\<lparr>next_out := out, avail_out := avail_out s + hsize inst\<rparr>)
      else None)"

definition xd3_decode_output_halfinst ::
  "xd3_hinst \<Rightarrow> xd3_dstream \<Rightarrow> (xd3_ret \<times> xd3_hinst \<times> xd3_dstream) option" where
  "xd3_decode_output_halfinst inst s =
     (if USIZE_T_OVERFLOW (avail_out s) (hsize inst) \<or> avail_out s + hsize inst > space_out s
      then Some (Some XD3_INVALID_INPUT, inst, s)
      else if htype inst = XD3_RUN then output_run inst s
      else if htype inst = XD3_ADD then output_add inst s
      else if haddr inst < dec_cpylen s then
        if dec_win_ind s AND VCD_TARGET \<noteq> 0
        then Some (Some XD3_UNIMPLEMENTED, inst\<lparr>hsize := 0, htype := XD3_NOOP\<rparr>, s)
        else output_source_copy inst s
      else output_target_copy inst s)"

subsection \<open>The emit loop\<close>

text \<open>\<open>while (stream->dec_current1.type != XD3_NOOP) ...\<close>, and the same for \<open>dec_current2\<close>.\<close>

partial_function (option) output_loop1 :: "xd3_dstream \<Rightarrow> (xd3_ret \<times> xd3_dstream) option" where
  "output_loop1 s =
     (if htype (dec_current1 s) \<noteq> XD3_NOOP then
        Option.bind (xd3_decode_output_halfinst (dec_current1 s) s) (\<lambda>(r, inst, s').
          case r of
            Some e \<Rightarrow> Some (Some e, s'\<lparr>dec_current1 := inst\<rparr>)
          | None \<Rightarrow> output_loop1 (s'\<lparr>dec_current1 := inst\<rparr>))
      else Some (None, s))"

partial_function (option) output_loop2 :: "xd3_dstream \<Rightarrow> (xd3_ret \<times> xd3_dstream) option" where
  "output_loop2 s =
     (if htype (dec_current2 s) \<noteq> XD3_NOOP then
        Option.bind (xd3_decode_output_halfinst (dec_current2 s) s) (\<lambda>(r, inst, s').
          case r of
            Some e \<Rightarrow> Some (Some e, s'\<lparr>dec_current2 := inst\<rparr>)
          | None \<Rightarrow> output_loop2 (s'\<lparr>dec_current2 := inst\<rparr>))
      else Some (None, s))"

definition more_instructions :: "xd3_dstream \<Rightarrow> bool" where
  "more_instructions s \<longleftrightarrow> sbuf (inst_sect s) \<noteq> [] \<or> htype (dec_current1 s) \<noteq> XD3_NOOP
     \<or> htype (dec_current2 s) \<noteq> XD3_NOOP"

definition next_instruction :: dec_step where
  "next_instruction s =
     (if htype (dec_current1 s) = XD3_NOOP \<and> htype (dec_current2 s) = XD3_NOOP
      then xd3_decode_instruction s else (None, s))"

partial_function (option) emit_loop :: "xd3_dstream \<Rightarrow> (xd3_ret \<times> xd3_dstream) option" where
  "emit_loop s =
     (if more_instructions s then
        case next_instruction s of
          (Some e, s1) \<Rightarrow> Some (Some e, s1)
        | (None, s1) \<Rightarrow> Option.bind (output_loop1 s1) (\<lambda>(r2, s2). case r2 of
              Some e \<Rightarrow> Some (Some e, s2)
            | None \<Rightarrow> Option.bind (output_loop2 s2) (\<lambda>(r3, s3). case r3 of
                  Some e \<Rightarrow> Some (Some e, s3)
                | None \<Rightarrow> emit_loop s3))
      else Some (None, s))"

definition xd3_decode_finish_window :: dec_step where
  "xd3_decode_finish_window s =
     (Some XD3_OUTPUT,
      s\<lparr>dec_winbytes := 0, dec_state := DEC_FINISH,
        data_sect := (data_sect s)\<lparr>spos := 0\<rparr>, inst_sect := (inst_sect s)\<lparr>spos := 0\<rparr>,
        addr_sect := (addr_sect s)\<lparr>spos := 0\<rparr>\<rparr>)"

text \<open>The checks of \<open>xd3_decode_emit\<close> after the loop.\<close>

definition window_output :: "xd3_dstream \<Rightarrow> bytes" where
  "window_output s = take (unat (avail_out s)) (next_out s)"

definition decode_emit_checks :: dec_step where
  "decode_emit_checks =
     seqr (fail_if (\<lambda>s. avail_out s \<noteq> dec_tgtlen s) XD3_INVALID_INPUT)
    (seqr (fail_if (\<lambda>s. sbuf (data_sect s) \<noteq> []) XD3_INVALID_INPUT)
    (seqr (fail_if (\<lambda>s. sbuf (addr_sect s) \<noteq> []) XD3_INVALID_INPUT)
    (seqr (fail_if (\<lambda>s. dec_win_ind s AND VCD_ADLER32 \<noteq> 0 \<and> flags s AND XD3_ADLER32_NOVER = 0
                       \<and> adler32 1 (window_output s) \<noteq> dec_adler32 s) XD3_INVALID_INPUT)
      xd3_decode_finish_window)))"

definition xd3_decode_emit :: "xd3_dstream \<Rightarrow> (xd3_ret \<times> xd3_dstream) option" where
  "xd3_decode_emit s =
     (case emit_loop s of
        None \<Rightarrow> None
      | Some (Some e, s') \<Rightarrow> Some (Some e, s')
      | Some (None, s') \<Rightarrow> Some (decode_emit_checks s'))"

subsection \<open>The sections of a window\<close>

text \<open>\<open>switch (stream->dec_state)\<close> of \<open>xd3_decode_sections\<close>.\<close>

definition read_addr_sect :: "bool \<Rightarrow> dec_step" where
  "read_addr_sect copy = xd3_decode_section addr_sect (\<lambda>v. addr_sect_update (\<lambda>_. v)) DEC_EMIT copy"

definition read_inst_sect :: "bool \<Rightarrow> dec_step" where
  "read_inst_sect copy =
     seqr (xd3_decode_section inst_sect (\<lambda>v. inst_sect_update (\<lambda>_. v)) DEC_ADDR copy) (read_addr_sect copy)"

definition read_data_sect :: "bool \<Rightarrow> dec_step" where
  "read_data_sect copy =
     seqr (xd3_decode_section data_sect (\<lambda>v. data_sect_update (\<lambda>_. v)) DEC_INST copy) (read_inst_sect copy)"

definition read_sections :: "bool \<Rightarrow> dec_step" where
  "read_sections copy s =
     (case dec_state s of
        DEC_DATA \<Rightarrow> read_data_sect copy s
      | DEC_INST \<Rightarrow> read_inst_sect copy s
      | DEC_ADDR \<Rightarrow> read_addr_sect copy s
      | _ \<Rightarrow> (Some XD3_INVALID_INPUT, s))"

definition xd3_decode_sections :: dec_step where
  "xd3_decode_sections s =
     (if flags s AND XD3_JUST_HDR \<noteq> 0 then xd3_decode_finish_window s
      else
        let need1 = ssize (inst_sect s); need2 = need1 + ssize (addr_sect s);
            need = need2 + ssize (data_sect s)
        in if USIZE_T_OVERFLOW need1 (ssize (addr_sect s)) then (Some XD3_INTERNAL, s)
           else if USIZE_T_OVERFLOW need2 (ssize (data_sect s)) then (Some XD3_INTERNAL, s)
           else
             let more = need - dec_winbytes s;
                 take' = min more (of_nat (length (next_in s)));
                 copy = (take' \<noteq> more)
             in if flags s AND XD3_SKIP_WINDOW \<noteq> 0 then
                  let s1 = decode_input_advance (unat take') s;
                      s2 = s1\<lparr>dec_winbytes := dec_winbytes s1 + take'\<rparr>
                  in if copy then (Some XD3_INPUT, s2) else xd3_decode_finish_window s2
                else
                  seqr (read_sections copy)
                    (\<lambda>s. if flags s AND XD3_SKIP_EMIT \<noteq> 0 then xd3_decode_finish_window s
                         else xd3_decode_setup_buffers s) s)"

subsection \<open>The states of xd3_decode_input\<close>

definition seqo :: "dec_step \<Rightarrow> (xd3_dstream \<Rightarrow> (xd3_ret \<times> xd3_dstream) option)
    \<Rightarrow> xd3_dstream \<Rightarrow> (xd3_ret \<times> xd3_dstream) option" where
  "seqo f g s = (case f s of (Some r, s') \<Rightarrow> Some (Some r, s') | (None, s') \<Rightarrow> g s')"

text \<open>\<open>case DEC_FINISH\<close>; the part for \<open>VCD_TARGET\<close> is unreachable, such windows having been refused.\<close>

definition state_FINISH :: dec_step where
  "state_FINISH s =
     (Some XD3_WINFINISH,
      s\<lparr>dec_lastlen := dec_tgtlen s, dec_laststart := dec_winstart s,
        dec_window_count := dec_window_count s + 1, dec_state := DEC_WININD\<rparr>)"

definition state_EMIT :: "xd3_dstream \<Rightarrow> (xd3_ret \<times> xd3_dstream) option" where
  "state_EMIT =
     seqo (\<lambda>s. if dec_win_ind s AND VCD_SOURCE \<noteq> 0 then
                 case src s of
                   None \<Rightarrow> (Some XD3_INVALID_INPUT, s)
                 | Some source \<Rightarrow>
                     (case xd3_blksize_div (dec_cpyoff s) (unat (shiftby source)) (maskby source) of
                        (b, o') \<Rightarrow>
                          (None, s\<lparr>src := Some (source\<lparr>cpyoff_blocks := b, cpyoff_blkoff := o'\<rparr>)\<rparr>))
               else (None, s))
     (\<lambda>s. case xd3_decode_emit s of
            None \<Rightarrow> None
          | Some (r, s') \<Rightarrow>
              Some (r, if r = Some XD3_OUTPUT then s'\<lparr>total_out := total_out s' + avail_out s'\<rparr> else s'))"

definition state_DATA :: "xd3_dstream \<Rightarrow> (xd3_ret \<times> xd3_dstream) option" where
  "state_DATA = seqo xd3_decode_sections state_EMIT"

definition adler32_of_bytes :: "u32 \<Rightarrow> bytes \<Rightarrow> u32" where
  "adler32_of_bytes a bs = foldl (\<lambda>a b. push_bit 8 a OR ucast b) a bs"

definition enclen_check :: "xd3_dstream \<Rightarrow> usize_t" where
  "enclen_check s =
     1 + (ucast (xd3_sizeof_uint64_t (dec_tgtlen s) + xd3_sizeof_uint64_t (ssize (data_sect s))
          + xd3_sizeof_uint64_t (ssize (inst_sect s)) + xd3_sizeof_uint64_t (ssize (addr_sect s))))
       + ssize (data_sect s) + ssize (inst_sect s) + ssize (addr_sect s)
       + (if dec_win_ind s AND VCD_ADLER32 \<noteq> 0 then 4 else 0)"

definition state_CKSUM :: dec_step where
  "state_CKSUM =
     seqr (\<lambda>s. if dec_win_ind s AND VCD_ADLER32 \<noteq> 0 then
                 seqr (xd3_decode_bytes dec_cksum (\<lambda>v. dec_cksum_update (\<lambda>_. v)) 4)
                      (modify (\<lambda>s. s\<lparr>dec_adler32 := adler32_of_bytes (dec_adler32 s) (dec_cksum s)\<rparr>)) s
               else (None, s))
    (seqr (goto DEC_DATA)
    (seqr (fail_if (\<lambda>s. dec_enclen s \<noteq> enclen_check s) XD3_INVALID_INPUT)
          (\<lambda>s. (Some (if current_window s = 0 then XD3_GOTHEADER else XD3_WINSTART), s))))"

definition state_ADDRLEN :: dec_step where
  "state_ADDRLEN =
     seqr (SIZE_CASE (\<lambda>_. True) (\<lambda>v. addr_sect_update (ssize_update (\<lambda>_. v))) DEC_CKSUM) state_CKSUM"

definition state_INSTLEN :: dec_step where
  "state_INSTLEN =
     seqr (SIZE_CASE (\<lambda>_. True) (\<lambda>v. inst_sect_update (ssize_update (\<lambda>_. v))) DEC_ADDRLEN) state_ADDRLEN"

definition state_DATALEN :: dec_step where
  "state_DATALEN =
     seqr (SIZE_CASE (\<lambda>_. True) (\<lambda>v. data_sect_update (ssize_update (\<lambda>_. v))) DEC_INSTLEN) state_INSTLEN"

definition state_DELIND :: dec_step where
  "state_DELIND =
     seqr (BYTE_CASE (\<lambda>_. True) (\<lambda>v. dec_del_ind_update (\<lambda>_. v)) DEC_DATALEN)
    (seqr (fail_if (\<lambda>s. dec_del_ind s AND VCD_INV \<noteq> 0) XD3_INVALID_INPUT)
    (seqr (fail_if (\<lambda>s. dec_del_ind s \<noteq> 0) XD3_INVALID_INPUT)
          state_DATALEN))"

definition state_TGTLEN :: dec_step where
  "state_TGTLEN =
     seqr (SIZE_CASE (\<lambda>_. True) (\<lambda>v. dec_tgtlen_update (\<lambda>_. v)) DEC_DELIND)
    (seqr (fail_if (\<lambda>s. USIZE_T_OVERFLOW (dec_cpylen s) (dec_tgtlen s)) XD3_INVALID_INPUT)
    (seqr (fail_if (\<lambda>s. dec_tgtlen s > XD3_HARDMAXWINSIZE) XD3_INVALID_INPUT)
    (seqr (modify (\<lambda>s. s\<lparr>dec_maxpos := dec_cpylen s + dec_tgtlen s\<rparr>))
          state_DELIND)))"

definition state_ENCLEN :: dec_step where
  "state_ENCLEN =
     seqr (SIZE_CASE (\<lambda>_. True) (\<lambda>v. dec_enclen_update (\<lambda>_. v)) DEC_TGTLEN) state_TGTLEN"

text \<open>\<open>SRCORTGT\<close>: exactly one of the two window bits is set.\<close>

definition SRCORTGT :: "usize_t \<Rightarrow> bool" where
  "SRCORTGT x \<longleftrightarrow> x AND (VCD_SOURCE OR VCD_TARGET) = VCD_SOURCE
     \<or> x AND (VCD_SOURCE OR VCD_TARGET) = VCD_TARGET"

definition state_CPYOFF :: dec_step where
  "state_CPYOFF =
     seqr (SIZE_CASE (\<lambda>s. SRCORTGT (dec_win_ind s)) (\<lambda>v. dec_cpyoff_update (\<lambda>_. v)) DEC_ENCLEN)
    (seqr (fail_if (\<lambda>s. XOFF_T_OVERFLOW (dec_cpyoff s) (dec_cpylen s)) XD3_INVALID_INPUT)
    (seqr (fail_if (\<lambda>s. dec_win_ind s AND VCD_TARGET \<noteq> 0
                       \<and> dec_cpyoff s + dec_cpylen s > dec_winstart s) XD3_INVALID_INPUT)
          state_ENCLEN))"

definition state_CPYLEN :: dec_step where
  "state_CPYLEN =
     seqr (SIZE_CASE (\<lambda>s. SRCORTGT (dec_win_ind s)) (\<lambda>v. dec_cpylen_update (\<lambda>_. v)) DEC_CPYOFF)
    (seqr (modify (\<lambda>s. s\<lparr>dec_position := dec_cpylen s\<rparr>))
          state_CPYOFF)"

definition state_WININD :: dec_step where
  "state_WININD =
     seqr (xd3_decode_byte (\<lambda>v. dec_win_ind_update (\<lambda>_. v)))
    (seqr (modify (\<lambda>s. s\<lparr>current_window := dec_window_count s\<rparr>))
    (seqr (fail_if (\<lambda>s. XOFF_T_OVERFLOW (dec_winstart s) (dec_tgtlen s)) XD3_INVALID_INPUT)
    (seqr (modify (\<lambda>s. s\<lparr>dec_winstart := dec_winstart s + dec_tgtlen s\<rparr>))
    (seqr (fail_if (\<lambda>s. dec_win_ind s AND VCD_INV \<noteq> 0) XD3_INVALID_INPUT)
    (seqr xd3_decode_init_window
    (seqr (goto DEC_CPYLEN)
          state_CPYLEN))))))"

definition alloc_appheader :: dec_step where
  "alloc_appheader s =
     (case dec_appheader s of
        Some _ \<Rightarrow> (None, s)
      | None \<Rightarrow> (case xd3_alloc (mem s) of
            (False, m) \<Rightarrow> (Some ENOMEM, s\<lparr>mem := m\<rparr>)
          | (True, m) \<Rightarrow> (None, s\<lparr>mem := m, dec_appheader := Some []\<rparr>)))"

definition read_appheader :: dec_step where
  "read_appheader s =
     xd3_decode_bytes (\<lambda>s. case dec_appheader s of None \<Rightarrow> [] | Some b \<Rightarrow> b)
       (\<lambda>v. dec_appheader_update (\<lambda>_. Some v)) (unat (dec_appheadsz s)) s"

definition state_APPDAT :: dec_step where
  "state_APPDAT =
     seqr (\<lambda>s. if dec_hdr_ind s AND VCD_APPHEADER \<noteq> 0 then
                 seqr (fail_if (\<lambda>s. USIZE_T_OVERFLOW (dec_appheadsz s) 1) XD3_INVALID_INPUT)
                (seqr alloc_appheader read_appheader) s
               else (None, s))
    (seqr (modify (\<lambda>s. s\<lparr>dec_hdrsize := total_in s\<rparr>))
    (seqr (goto DEC_WININD)
          state_WININD))"

definition state_APPLEN :: dec_step where
  "state_APPLEN =
     seqr (SIZE_CASE (\<lambda>s. dec_hdr_ind s AND VCD_APPHEADER \<noteq> 0) (\<lambda>v. dec_appheadsz_update (\<lambda>_. v)) DEC_APPDAT)
       state_APPDAT"

definition decode_alloc_cache :: dec_step where
  "decode_alloc_cache s =
     (case xd3_alloc_cache (mem s) (acache s) of (r, m, c) \<Rightarrow> (r, s\<lparr>mem := m, acache := c\<rparr>))"

definition state_TABDAT :: dec_step where
  "state_TABDAT =
     seqr (fail_if (\<lambda>s. dec_hdr_ind s AND VCD_CODETABLE \<noteq> 0) XD3_UNIMPLEMENTED)
    (seqr (modify (\<lambda>s. s\<lparr>acache := (acache s)\<lparr>s_near := ucast (near_modes rfc3284_code_table_desc),
                                               s_same := ucast (same_modes rfc3284_code_table_desc)\<rparr>,
                          code_table := xd3_rfc3284_code_table\<rparr>))
    (seqr decode_alloc_cache
    (seqr (goto DEC_APPLEN)
          state_APPLEN)))"

definition state_SAME :: dec_step where
  "state_SAME =
     seqr (BYTE_CASE (\<lambda>s. dec_hdr_ind s AND VCD_CODETABLE \<noteq> 0)
             (\<lambda>v. acache_update (s_same_update (\<lambda>_. v))) DEC_TABDAT) state_TABDAT"

definition state_NEAR :: dec_step where
  "state_NEAR =
     seqr (BYTE_CASE (\<lambda>s. dec_hdr_ind s AND VCD_CODETABLE \<noteq> 0)
             (\<lambda>v. acache_update (s_near_update (\<lambda>_. v))) DEC_SAME) state_SAME"

definition state_TABLEN :: dec_step where
  "state_TABLEN =
     seqr (SIZE_CASE (\<lambda>s. dec_hdr_ind s AND VCD_CODETABLE \<noteq> 0) (\<lambda>v. dec_codetblsz_update (\<lambda>_. v)) DEC_NEAR)
    (seqr (fail_if (\<lambda>s. dec_hdr_ind s AND VCD_CODETABLE \<noteq> 0 \<and> dec_codetblsz s \<le> 2) ENOMEM)
    (seqr (modify (\<lambda>s. if dec_hdr_ind s AND VCD_CODETABLE \<noteq> 0
                       then s\<lparr>dec_codetblsz := dec_codetblsz s - 2\<rparr> else s))
          state_NEAR))"

text \<open>No secondary compressor is compiled in: the three known identifiers are internal errors, any
  other is invalid input.\<close>

definition state_SECONDID :: dec_step where
  "state_SECONDID =
     seqr (\<lambda>s. if dec_hdr_ind s AND VCD_SECONDARY \<noteq> 0 then
                 seqr (BYTE_CASE (\<lambda>_. True) (\<lambda>v. dec_secondid_update (\<lambda>_. v)) DEC_TABLEN)
                   (\<lambda>s. (Some (if dec_secondid s \<in> {16, 1, 2} then XD3_INTERNAL else XD3_INVALID_INPUT), s)) s
               else (None, s))
       state_TABLEN"

definition state_HDRIND :: dec_step where
  "state_HDRIND =
     seqr (xd3_decode_byte (\<lambda>v. dec_hdr_ind_update (\<lambda>_. v)))
    (seqr (fail_if (\<lambda>s. dec_hdr_ind s AND VCD_INV \<noteq> 0) XD3_INVALID_INPUT)
    (seqr (goto DEC_SECONDID)
          state_SECONDID))"

definition state_VCHEAD :: dec_step where
  "state_VCHEAD =
     seqr (xd3_decode_bytes dec_magic (\<lambda>v. dec_magic_update (\<lambda>_. v)) 4)
    (seqr (fail_if (\<lambda>s. take 3 (dec_magic s) \<noteq> [VCDIFF_MAGIC1, VCDIFF_MAGIC2, VCDIFF_MAGIC3])
             XD3_INVALID_INPUT)
    (seqr (fail_if (\<lambda>s. dec_magic s ! 3 \<noteq> 0) XD3_INVALID_INPUT)
    (seqr (goto DEC_HDRIND)
          state_HDRIND)))"

definition xd3_decode_input :: "xd3_dstream \<Rightarrow> (xd3_ret \<times> xd3_dstream) option" where
  "xd3_decode_input s =
     (if encoding s then Some (Some XD3_INVALID_INPUT, s)
      else case dec_state s of
        DEC_VCHEAD \<Rightarrow> Some (state_VCHEAD s) | DEC_HDRIND \<Rightarrow> Some (state_HDRIND s)
      | DEC_SECONDID \<Rightarrow> Some (state_SECONDID s) | DEC_TABLEN \<Rightarrow> Some (state_TABLEN s)
      | DEC_NEAR \<Rightarrow> Some (state_NEAR s) | DEC_SAME \<Rightarrow> Some (state_SAME s)
      | DEC_TABDAT \<Rightarrow> Some (state_TABDAT s) | DEC_APPLEN \<Rightarrow> Some (state_APPLEN s)
      | DEC_APPDAT \<Rightarrow> Some (state_APPDAT s) | DEC_WININD \<Rightarrow> Some (state_WININD s)
      | DEC_CPYLEN \<Rightarrow> Some (state_CPYLEN s) | DEC_CPYOFF \<Rightarrow> Some (state_CPYOFF s)
      | DEC_ENCLEN \<Rightarrow> Some (state_ENCLEN s) | DEC_TGTLEN \<Rightarrow> Some (state_TGTLEN s)
      | DEC_DELIND \<Rightarrow> Some (state_DELIND s) | DEC_DATALEN \<Rightarrow> Some (state_DATALEN s)
      | DEC_INSTLEN \<Rightarrow> Some (state_INSTLEN s) | DEC_ADDRLEN \<Rightarrow> Some (state_ADDRLEN s)
      | DEC_CKSUM \<Rightarrow> Some (state_CKSUM s)
      | DEC_DATA \<Rightarrow> state_DATA s | DEC_INST \<Rightarrow> state_DATA s | DEC_ADDR \<Rightarrow> state_DATA s
      | DEC_EMIT \<Rightarrow> state_EMIT s
      | DEC_FINISH \<Rightarrow> Some (state_FINISH s)
      | DEC_ABORTED \<Rightarrow> Some (Some XD3_INVALID_INPUT, s))"

subsection \<open>Client functions\<close>

definition xd3_avail_input :: "bytes \<Rightarrow> xd3_dstream \<Rightarrow> xd3_dstream" where
  "xd3_avail_input idata s = s\<lparr>next_in := idata\<rparr>"

definition xd3_consume_output :: "xd3_dstream \<Rightarrow> xd3_dstream" where
  "xd3_consume_output s = s\<lparr>avail_out := 0\<rparr>"

text \<open>\<open>xd3_get_appheader\<close>: the header is available from \<open>DEC_WININD\<close> on.\<close>

definition xd3_get_appheader :: "xd3_dstream \<Rightarrow> xd3_rvalues + (bytes option \<times> usize_t)" where
  "xd3_get_appheader s =
     (if dec_state s \<in> {DEC_VCHEAD, DEC_HDRIND, DEC_SECONDID, DEC_TABLEN, DEC_NEAR, DEC_SAME, DEC_TABDAT,
          DEC_APPLEN, DEC_APPDAT}
      then Inl XD3_INTERNAL else Inr (dec_appheader s, dec_appheadsz s))"

text \<open>The stream of \<open>xd3_process_memory\<close> when decoding: \<open>xd3_config_stream\<close> clears the structure,
  then the source is attached.\<close>

definition empty_desect :: xd3_desect where
  "empty_desect = \<lparr>sbuf = [], ssize = 0, spos = 0, alloc1 = None\<rparr>"

definition empty_hinst :: xd3_hinst where
  "empty_hinst = \<lparr>htype = XD3_NOOP, hsize = 0, haddr = 0\<rparr>"

definition decoder_stream :: "xd3_mem \<Rightarrow> u32 \<Rightarrow> xd3_source option \<Rightarrow> getblk_func option \<Rightarrow> xd3_dstream" where
  "decoder_stream m fl source g =
     \<lparr>mem = m, next_in = [], total_in = 0, next_out = [], avail_out = 0, space_out = 0, total_out = 0,
      current_window = 0, src = source, getblk = g, flags = fl,
      acache = \<lparr>s_near = 0, s_same = 0, next_slot = 0, near_array = [], same_array = []\<rparr>,
      encoding = False, dec_state = DEC_VCHEAD, dec_hdr_ind = 0, dec_win_ind = 0, dec_del_ind = 0,
      dec_magic = [], dec_secondid = 0, dec_codetblsz = 0, dec_appheadsz = 0, dec_appheader = None,
      dec_cksum = [], dec_adler32 = 0, dec_cpylen = 0, dec_cpyoff = 0, dec_enclen = 0, dec_tgtlen = 0,
      dec_64part = 0, dec_winstart = 0, dec_window_count = 0, dec_winbytes = 0, dec_hdrsize = 0,
      dec_position = 0, dec_maxpos = 0, dec_current1 = empty_hinst, dec_current2 = empty_hinst,
      dec_lastlen = 0, dec_laststart = 0, inst_sect = empty_desect, addr_sect = empty_desect,
      data_sect = empty_desect, code_table = []\<rparr>"

text \<open>The loops are executable.\<close>

declare output_loop1.simps [code] output_loop2.simps [code] emit_loop.simps [code]

end
