(* ===== verification/Xd3_DecodeSafe.thy ===== *)
theory Xd3_DecodeSafe
  imports Xd3_Decode
begin

section \<open>Safety of the decoder on arbitrary input\<close>

text \<open>
  The decoder reads untrusted deltas. This theory shows that on every input the emit loop ends, never
  writes outside the window buffer, never copies from a part of the window that has not been written
  and never reads past the current source block; the sizes and positions are 64-bit words that may wrap
  around, and the invariant \<open>emit_inv\<close> survives that.
\<close>

subsection \<open>Bounds of the address cache\<close>

lemma decode_address_in_bounds:
  assumes "cache_wf c" "unat mode < 2 + unat (s_near c) + unat (s_same c)"
  shows "2 \<le> mode \<Longrightarrow> mode < 2 + s_near c \<Longrightarrow> unat (mode - 2) < length (near_array c)"
    and "\<not> mode < 2 + s_near c \<Longrightarrow>
      unat ((mode - (2 + s_near c)) * 256 + ucast (b :: u8)) < length (same_array c)"
proof -
  have ss: "unat (2 + s_near c) = 2 + unat (s_near c)" by (rule same_start_unat [OF assms(1)])
  show "unat (mode - 2) < length (near_array c)" if "2 \<le> mode" "mode < 2 + s_near c"
    using that assms(1) ss by (simp add: cache_wf_def unat_sub_le word_le_nat_alt word_less_nat_alt)
  assume "\<not> mode < 2 + s_near c"
  then have ge: "2 + unat (s_near c) \<le> unat mode" using ss by (simp add: word_less_nat_alt)
  define d where "d = unat mode - (2 + unat (s_near c))"
  have d: "unat (mode - (2 + s_near c)) = d" using ge ss by (simp add: unat_sub_le d_def)
  have dl: "d < unat (s_same c)" using assms(2) ge by (simp add: d_def)
  have b: "unat (ucast b :: u64) < 256" by (simp add: unat_ucast_up)
  have sl: "unat (s_same c) \<le> 253" using assms(1) by (simp add: cache_wf_def)
  have m256: "unat (x * 256) = unat x * 256" if "unat x < 253" for x :: u64
    using that by (simp add: unat_word_ariths)
  have m: "unat ((mode - (2 + s_near c)) * 256) = d * 256"
    unfolding d [symmetric] using dl sl by (intro m256) (simp only: d)
  have "d * 256 + unat (ucast b :: u64) < Suc d * 256" using b by simp
  also have "\<dots> \<le> unat (s_same c) * 256" using dl by simp
  finally have lt: "d * 256 + unat (ucast b :: u64) < unat (s_same c) * 256" .
  then have "unat ((mode - (2 + s_near c)) * 256 + ucast b) = d * 256 + unat (ucast b :: u64)"
    using sl by (subst unat_add_less) (simp_all only: m len_bit0 len_num1, simp)
  then show "unat ((mode - (2 + s_near c)) * 256 + ucast b) < length (same_array c)"
    using lt assms(1) by (simp add: cache_wf_def)
qed

subsection \<open>Invariant of the emit loop\<close>

definition pending :: "xd3_hinst \<Rightarrow> nat" where
  "pending inst = (if htype inst = XD3_NOOP then 0 else unat (hsize inst))"

text \<open>A pending copy starts below the position it will be written at.\<close>

definition copy_ok :: "nat \<Rightarrow> xd3_hinst \<Rightarrow> bool" where
  "copy_ok limit inst \<longleftrightarrow> (XD3_CPY \<le> htype inst \<longrightarrow> unat (haddr inst) < limit)"

definition known_type :: "xd3_hinst \<Rightarrow> bool" where
  "known_type inst \<longleftrightarrow> htype inst = XD3_NOOP \<or> valid_rtype (htype inst)"

definition bufs_ok :: "xd3_dstream \<Rightarrow> bool" where
  "bufs_ok s \<longleftrightarrow> unat (avail_out s) \<le> length (next_out s) \<and> length (next_out s) \<le> unat (space_out s)
     \<and> unat (space_out s) \<le> 2 ^ 27"

definition tables_ok :: "xd3_dstream \<Rightarrow> bool" where
  "tables_ok s \<longleftrightarrow> cache_wf (acache s) \<and> s_near (acache s) = 4 \<and> s_same (acache s) = 3
     \<and> code_table s = xd3_rfc3284_code_table"

definition sources_ok :: "xd3_dstream \<Rightarrow> bool" where
  "sources_ok s \<longleftrightarrow> (\<forall>x. src s = Some x \<longrightarrow> source_wf x) \<and> getblk_wf (getblk s)"

definition window_ok :: "xd3_dstream \<Rightarrow> bool" where
  "window_ok s \<longleftrightarrow> dec_win_ind s AND VCD_TARGET = 0 \<and> (dec_cpylen s \<noteq> 0 \<longrightarrow> src s \<noteq> None)"

definition insts_ok :: "xd3_dstream \<Rightarrow> bool" where
  "insts_ok s \<longleftrightarrow> known_type (dec_current1 s) \<and> known_type (dec_current2 s)
     \<and> copy_ok (unat (dec_cpylen s) + unat (avail_out s)) (dec_current1 s)
     \<and> copy_ok (unat (dec_cpylen s) + unat (avail_out s) + pending (dec_current1 s)) (dec_current2 s)
     \<and> unat (dec_position s) \<le> unat (dec_cpylen s) + unat (avail_out s)
         + pending (dec_current1 s) + pending (dec_current2 s)"

definition emit_inv :: "xd3_dstream \<Rightarrow> bool" where
  "emit_inv s \<longleftrightarrow> bufs_ok s \<and> tables_ok s \<and> sources_ok s \<and> window_ok s \<and> insts_ok s"

lemmas emit_inv_defs = emit_inv_def bufs_ok_def tables_ok_def sources_ok_def window_ok_def insts_ok_def

text \<open>Everything but the instructions, the output and the source block stays as it is while a
  half-instruction is written.\<close>

definition same_window :: "xd3_dstream \<Rightarrow> xd3_dstream \<Rightarrow> bool" where
  "same_window s t \<longleftrightarrow> space_out t = space_out s \<and> acache t = acache s \<and> code_table t = code_table s
     \<and> getblk t = getblk s \<and> dec_win_ind t = dec_win_ind s \<and> dec_cpylen t = dec_cpylen s
     \<and> dec_position t = dec_position s \<and> inst_sect t = inst_sect s \<and> addr_sect t = addr_sect s
     \<and> dec_current1 t = dec_current1 s \<and> dec_current2 t = dec_current2 s
     \<and> dec_tgtlen t = dec_tgtlen s \<and> dec_state t = dec_state s \<and> flags t = flags s
     \<and> (src s = None \<longleftrightarrow> src t = None)"

lemma overlap_copy_total:
  "i < length out \<Longrightarrow> \<exists>out'. overlap_copy n i out = Some out' \<and> length out' = length out + n"
proof (induction n arbitrary: i out)
  case (Suc n)
  then have "Suc i < length (out @ [out ! i])" by simp
  from Suc.IH [OF this] Suc.prems show ?case by auto
qed simp

text \<open>The outcome of one call of \<open>xd3_decode_output_halfinst\<close>: it never faults, and when it succeeds
  it has moved some bytes from the instruction to the output.\<close>

definition halfinst_step :: "xd3_hinst \<Rightarrow> xd3_dstream \<Rightarrow> xd3_hinst \<Rightarrow> xd3_dstream \<Rightarrow> bool" where
  "halfinst_step inst s inst' s' \<longleftrightarrow> same_window s s' \<and> bufs_ok s' \<and> sources_ok s'
     \<and> known_type inst' \<and> copy_ok (unat (dec_cpylen s) + unat (avail_out s')) inst'
     \<and> unat (avail_out s') + pending inst' = unat (avail_out s) + unat (hsize inst)
     \<and> (htype inst' = XD3_NOOP \<or> (htype inst' = htype inst \<and> unat (hsize inst') < unat (hsize inst)))"

text \<open>The return codes after which the client may go on; output is consumed first.\<close>

definition resumable :: "xd3_rvalues \<Rightarrow> bool" where
  "resumable r \<longleftrightarrow> r \<in> {XD3_INPUT, XD3_OUTPUT, XD3_GETSRCBLK, XD3_GOTHEADER, XD3_WINSTART, XD3_WINFINISH}"

lemma resumable_simps [simp]:
  "\<not> resumable XD3_INVALID_INPUT" "\<not> resumable XD3_UNIMPLEMENTED" "\<not> resumable ENOMEM"
  "\<not> resumable XD3_INTERNAL" "resumable XD3_INPUT" "resumable XD3_OUTPUT"
  by (simp_all add: resumable_def)

text \<open>A return code that lets the client resume leaves the instruction as it was.\<close>

definition halfinst_result :: "xd3_ret \<Rightarrow> xd3_hinst \<Rightarrow> xd3_dstream \<Rightarrow> xd3_hinst \<Rightarrow> xd3_dstream \<Rightarrow> bool" where
  "halfinst_result r inst s inst' s' \<longleftrightarrow>
     (case r of
        None \<Rightarrow> halfinst_step inst s inst' s'
      | Some e \<Rightarrow> resumable e \<longrightarrow> inst' = inst \<and> same_window s s' \<and> bufs_ok s' \<and> sources_ok s'
          \<and> avail_out s' = avail_out s \<and> e \<noteq> XD3_OUTPUT)"

lemma known_type_noop [simp]: "known_type (inst\<lparr>htype := XD3_NOOP\<rparr>)"
  "known_type (inst\<lparr>htype := XD3_NOOP, hsize := n\<rparr>)" "pending (inst\<lparr>htype := XD3_NOOP\<rparr>) = 0"
  "pending (inst\<lparr>htype := XD3_NOOP, hsize := n\<rparr>) = 0" "copy_ok l (inst\<lparr>htype := XD3_NOOP\<rparr>)"
  "copy_ok l (inst\<lparr>htype := XD3_NOOP, hsize := n\<rparr>)"
  by (simp_all add: known_type_def pending_def copy_ok_def xd3_rtype_defs word_le_nat_alt)

lemma write_out_ok:
  assumes "bufs_ok s" "unat (avail_out s) + length bs \<le> unat (space_out s)"
  shows "\<exists>s'. write_out bs s = Some s' \<and> bufs_ok s' \<and> same_window s s' \<and> src s' = src s
    \<and> data_sect s' = data_sect s \<and> unat (avail_out s') = unat (avail_out s) + length bs"
proof -
  have lt: "unat (avail_out s) + length bs < 2 ^ 64"
    using le_less_trans [OF assms(2) unat_u64_lt [of "space_out s"]] by simp
  then have l: "unat (of_nat (length bs) :: u64) = length bs" by (intro unat_of_nat_less) simp
  have "unat (avail_out s + of_nat (length bs)) = unat (avail_out s) + length bs"
    using lt by (subst unat_add_less) (simp_all only: l len_bit0 len_num1, simp)
  then show ?thesis
    using assms by (auto simp: write_out_def bufs_ok_def same_window_def)
qed

lemma blksize_add_blkoff_lt:
  assumes "k < 64" "xd3_blksize_add b off k (2 ^ k - 1) a = (b', off')"
  shows "unat off' < 2 ^ k"
proof (cases "drop_bit k (off + a) = 0")
  case True
  then have "off' = off + a" using assms(2) by (simp add: xd3_blksize_add_def Let_def)
  moreover have "unat (off + a) div 2 ^ k = 0" using True by (metis unat_0 unat_drop_bit_div)
  ultimately show ?thesis by (simp add: div_eq_0_iff)
next
  case False
  then have "off' = take_bit k (off + a)"
    using assms by (simp add: xd3_blksize_add_def Let_def and_mask_exp)
  then show ?thesis by (simp only: unat_take_bit_mod) simp
qed

lemma not_overflow: "\<not> USIZE_T_OVERFLOW a b \<longleftrightarrow> unat a + unat b < 2 ^ 64"
proof -
  have m: "unat USIZE_T_MAX = 18446744073709551615"
    by (simp add: USIZE_T_MAX_def unsigned_minus_1_eq_mask mask_eq_exp_minus_1)
  have le: "unat a \<le> unat USIZE_T_MAX" unfolding m using unat_u64_lt [of a] by linarith
  have "unat (USIZE_T_MAX - a) = 18446744073709551615 - unat a"
    by (simp only: unat_sub_le [OF le] m)
  moreover have "unat a \<le> 18446744073709551615" using le m by simp
  ultimately show ?thesis unfolding USIZE_T_OVERFLOW_def word_less_nat_alt by auto
qed

lemma output_run_step:
  assumes "bufs_ok s" "sources_ok s" "unat (avail_out s) + unat (hsize inst) \<le> unat (space_out s)"
  shows "\<exists>r inst' s'. output_run inst s = Some (r, inst', s') \<and> halfinst_result r inst s inst' s'"
proof (cases "sbuf (data_sect s)")
  case (Cons b rest)
  obtain s' where "write_out (replicate (unat (hsize inst)) b) s = Some s'" "bufs_ok s'" "same_window s s'"
    "src s' = src s" "data_sect s' = data_sect s" "unat (avail_out s') = unat (avail_out s) + unat (hsize inst)"
    using write_out_ok [OF assms(1), of "replicate (unat (hsize inst)) b"] assms(3) by auto
  then show ?thesis using Cons assms(2)
    by (auto simp: output_run_def halfinst_result_def halfinst_step_def noop_def bufs_ok_def same_window_def sources_ok_def)
qed (simp add: output_run_def halfinst_result_def)

lemma output_add_step:
  assumes "bufs_ok s" "sources_ok s" "unat (avail_out s) + unat (hsize inst) \<le> unat (space_out s)"
  shows "\<exists>r inst' s'. output_add inst s = Some (r, inst', s') \<and> halfinst_result r inst s inst' s'"
proof (cases "unat (hsize inst) > length (sbuf (data_sect s))")
  case False
  let ?bs = "take (unat (hsize inst)) (sbuf (data_sect s))"
  have l: "length ?bs = unat (hsize inst)" using False by simp
  obtain s' where "write_out ?bs s = Some s'" "bufs_ok s'" "same_window s s'" "src s' = src s"
    "data_sect s' = data_sect s" "unat (avail_out s') = unat (avail_out s) + unat (hsize inst)"
    using write_out_ok [OF assms(1), of ?bs] assms(3) unfolding l by auto
  then show ?thesis using False assms(2)
    by (auto simp: output_add_def Let_def halfinst_result_def halfinst_step_def noop_def bufs_ok_def same_window_def sources_ok_def)
qed (simp add: output_add_def halfinst_result_def)

lemma output_target_copy_step:
  assumes "bufs_ok s" "sources_ok s" "unat (avail_out s) + unat (hsize inst) \<le> unat (space_out s)"
    and "dec_cpylen s \<le> haddr inst" "unat (haddr inst) < unat (dec_cpylen s) + unat (avail_out s)"
  shows "\<exists>r inst' s'. output_target_copy inst s = Some (r, inst', s') \<and> halfinst_result r inst s inst' s'"
proof -
  have a: "unat (avail_out s) \<le> length (next_out s)" using assms(1) by (simp add: bufs_ok_def)
  have "unat (haddr inst - dec_cpylen s) < length (take (unat (avail_out s)) (next_out s))"
    using assms(4,5) a by (simp add: unat_sub_le word_le_nat_alt)
  from overlap_copy_total [OF this, of "unat (hsize inst)"]
  obtain out where o: "overlap_copy (unat (hsize inst)) (unat (haddr inst - dec_cpylen s))
      (take (unat (avail_out s)) (next_out s)) = Some out"
    "length out = unat (avail_out s) + unat (hsize inst)" using a by auto
  have lt: "unat (avail_out s) + unat (hsize inst) < 2 ^ 64"
    using le_less_trans [OF assms(3) unat_u64_lt [of "space_out s"]] by simp
  then have u: "unat (avail_out s + hsize inst) = unat (avail_out s) + unat (hsize inst)"
    by (intro unat_add_less) simp
  show ?thesis using assms(1-3) a o u
    by (auto simp: output_target_copy_def halfinst_result_def halfinst_step_def bufs_ok_def same_window_def sources_ok_def)
qed

lemma output_source_copy_step:
  assumes "bufs_ok s" "sources_ok s" "unat (avail_out s) + unat (hsize inst) \<le> unat (space_out s)"
    and "src s \<noteq> None" "haddr inst < dec_cpylen s" "known_type inst" "XD3_CPY \<le> htype inst"
  shows "\<exists>r inst' s'. output_source_copy inst s = Some (r, inst', s') \<and> halfinst_result r inst s inst' s'"
proof -
  obtain source where src: "src s = Some source" using assms(4) by blast
  have wf: "source_wf source" and g: "getblk_wf (getblk s)" using assms(2) src by (auto simp: sources_ok_def)
  define k where "k = unat (shiftby source)"
  have k: "k < 64" "blksize source = 2 ^ k" "maskby source = 2 ^ k - 1"
    using wf by (auto simp: source_wf_def k_def)
  obtain block off where ba: "xd3_blksize_add (cpyoff_blocks source) (cpyoff_blkoff source) k
      (2 ^ k - 1) (haddr inst) = (block, off)" by force
  have off: "unat off < 2 ^ k" by (rule blksize_add_blkoff_lt [OF k(1) ba])
  have bk: "unat (blksize source) = 2 ^ k" using k by (simp add: unat_exp_u64)
  have k63: "(2::nat) ^ k \<le> 2 ^ 63" using k(1) power_increasing [of k 63 "2::nat"] by simp
  have sz: "unat (hsize inst) \<le> 2 ^ 27" using assms(1,3) by (simp add: bufs_ok_def)
  have oh: "unat (off + hsize inst) = unat off + unat (hsize inst)"
    using off sz k63 by (intro unat_add_less) simp
  obtain r source' where gb: "xd3_getblk (getblk s) block source = (r, source')" by force
  note gok = getblk_ok [OF wf g gb]
  define s1 where "s1 = s\<lparr>src := Some source'\<rparr>"
  have s1: "bufs_ok s1" "avail_out s1 = avail_out s" "space_out s1 = space_out s" "same_window s s1"
    "sources_ok s1" using assms(1,2) gok src by (auto simp: s1_def bufs_ok_def same_window_def sources_ok_def)
  have e: "output_source_copy inst s = (case r of
      Some e \<Rightarrow> Some (Some (if e = XD3_TOOFARBACK then XD3_INTERNAL else e), inst, s1)
    | None \<Rightarrow>
        if onblk source' \<noteq> 2 ^ k \<and> off + hsize inst > onblk source' then Some (Some XD3_INVALID_INPUT, inst, s1)
        else let (n, inst') = (if off + hsize inst \<le> 2 ^ k then (hsize inst, inst\<lparr>htype := XD3_NOOP, hsize := 0\<rparr>)
                  else (2 ^ k - off, inst\<lparr>hsize := hsize inst - (2 ^ k - off), haddr := haddr inst + (2 ^ k - off)\<rparr>))
             in case curblk source' of None \<Rightarrow> None
                | Some blk \<Rightarrow> if unat off + unat n > length blk then None
                    else (case write_out (take (unat n) (drop (unat off) blk)) s1 of
                            None \<Rightarrow> None | Some s' \<Rightarrow> Some (None, inst', s')))"
    unfolding s1_def using src ba gb k
    by (cases r) (simp_all add: output_source_copy_def k_def [symmetric] Let_def)
  show ?thesis
  proof (cases r)
    case (Some e')
    then show ?thesis using e s1 gok by (simp add: halfinst_result_def)
  next
    case None
    then obtain blk where blk: "curblk source' = Some blk" and onb: "length blk = unat (onblk source')"
      "onblk source' \<le> 2 ^ k" using gok k by (auto simp: source_wf_def)
    show ?thesis
    proof (cases "onblk source' \<noteq> 2 ^ k \<and> off + hsize inst > onblk source'")
      case True
      then show ?thesis using e None by (simp add: halfinst_result_def)
    next
      case False
      define n where "n = (if off + hsize inst \<le> 2 ^ k then hsize inst else 2 ^ k - off)"
      have sub: "unat (2 ^ k - off) = 2 ^ k - unat off"
        using off bk k(2) by (subst unat_sub_le) simp_all
      have fit: "unat off + unat n \<le> length blk" and nle: "unat n \<le> unat (hsize inst)"
        using False onb oh off sub bk k(2) by (auto simp: n_def word_le_nat_alt not_less word_less_nat_alt)
      then have len: "length (take (unat n) (drop (unat off) blk)) = unat n" by simp
      obtain s' where s': "write_out (take (unat n) (drop (unat off) blk)) s1 = Some s'" "bufs_ok s'"
        "same_window s1 s'" "src s' = src s1" "unat (avail_out s') = unat (avail_out s1) + unat n"
        using write_out_ok [OF s1(1), of "take (unat n) (drop (unat off) blk)"] assms(3) nle s1
        unfolding len by auto
      have sw: "same_window s s'" using s' s1 by (auto simp: same_window_def)
      have so: "sources_ok s'" using s'(3,4) s1(5) by (simp add: sources_ok_def same_window_def)
      show ?thesis
      proof (cases "off + hsize inst \<le> 2 ^ k")
        case True
        then have "output_source_copy inst s = Some (None, inst\<lparr>htype := XD3_NOOP, hsize := 0\<rparr>, s')"
          using e None False blk fit s' by (simp add: n_def)
        then show ?thesis using s' sw so s1 True by (simp add: halfinst_result_def halfinst_step_def n_def)
      next
        case F: False
        define inst' where "inst' = inst\<lparr>hsize := hsize inst - n, haddr := haddr inst + n\<rparr>"
        have o: "output_source_copy inst s = Some (None, inst', s')"
          using e None False blk fit s' F by (simp add: n_def inst'_def)
        have np: "0 < unat n" "unat n < unat (hsize inst)"
          using F oh off sub bk k(2) by (auto simp: n_def word_le_nat_alt)
        have hs: "unat (hsize inst - n) = unat (hsize inst) - unat n" using np by (intro unat_sub_le) simp
        have ha: "unat (haddr inst + n) \<le> unat (haddr inst) + unat n" by (simp add: unat_word_ariths)
        have "unat (haddr inst) < unat (dec_cpylen s)" using assms(5) by (simp add: word_less_nat_alt)
        then have "copy_ok (unat (dec_cpylen s) + unat (avail_out s')) inst'"
          using ha s'(5) by (simp add: copy_ok_def inst'_def)
        moreover have "htype inst' \<noteq> XD3_NOOP" using assms(7)
          by (auto simp: inst'_def xd3_rtype_defs word_le_nat_alt)
        ultimately show ?thesis
          using o s' sw so s1 np hs assms(6) by (simp add: halfinst_result_def halfinst_step_def pending_def inst'_def known_type_def)
      qed
    qed
  qed
qed

lemma output_halfinst_step:
  assumes "bufs_ok s" "sources_ok s" "window_ok s" "known_type inst" "htype inst \<noteq> XD3_NOOP"
    and "copy_ok (unat (dec_cpylen s) + unat (avail_out s)) inst"
  shows "\<exists>r inst' s'. xd3_decode_output_halfinst inst s = Some (r, inst', s')
    \<and> halfinst_result r inst s inst' s'"
proof (cases "USIZE_T_OVERFLOW (avail_out s) (hsize inst) \<or> avail_out s + hsize inst > space_out s")
  case True
  then show ?thesis by (simp add: xd3_decode_output_halfinst_def halfinst_result_def)
next
  case False
  then have lt: "unat (avail_out s) + unat (hsize inst) < 2 ^ 64" by (simp add: not_overflow)
  have fit: "unat (avail_out s) + unat (hsize inst) \<le> unat (space_out s)"
    using False lt by (simp add: word_less_nat_alt unat_add_less)
  show ?thesis
  proof (cases "htype inst = XD3_RUN \<or> htype inst = XD3_ADD")
    case True
    then show ?thesis
      using False output_run_step [OF assms(1,2) fit] output_add_step [OF assms(1,2) fit]
      by (auto simp: xd3_decode_output_halfinst_def)
  next
    case F: False
    have cpy: "XD3_CPY \<le> htype inst" using F assms(4,5) rtype_CPY by (auto simp: known_type_def)
    show ?thesis
    proof (cases "haddr inst < dec_cpylen s")
      case True
      then have "src s \<noteq> None" using assms(3) by (auto simp: window_ok_def)
      then show ?thesis
        using False F True assms(3) output_source_copy_step [OF assms(1,2) fit _ True assms(4) cpy]
        by (auto simp: xd3_decode_output_halfinst_def window_ok_def)
    next
      case T: False
      then show ?thesis
        using False F assms(6) cpy output_target_copy_step [OF assms(1,2) fit]
        by (auto simp: xd3_decode_output_halfinst_def copy_ok_def)
    qed
  qed
qed

subsection \<open>The loops end and do not fault\<close>

lemma emit_inv_current1:
  assumes "emit_inv s" "htype (dec_current1 s) \<noteq> XD3_NOOP" "halfinst_step (dec_current1 s) s inst' s'"
  shows "emit_inv (s'\<lparr>dec_current1 := inst'\<rparr>)"
  using assms
  by (auto simp: emit_inv_def tables_ok_def window_ok_def insts_ok_def halfinst_step_def same_window_def
      bufs_ok_def sources_ok_def copy_ok_def pending_def split: if_splits)

lemma emit_inv_current2:
  assumes "emit_inv s" "htype (dec_current1 s) = XD3_NOOP" "htype (dec_current2 s) \<noteq> XD3_NOOP"
    "halfinst_step (dec_current2 s) s inst' s'"
  shows "emit_inv (s'\<lparr>dec_current2 := inst'\<rparr>)"
  using assms
  by (auto simp: emit_inv_def tables_ok_def window_ok_def insts_ok_def halfinst_step_def same_window_def
      bufs_ok_def sources_ok_def copy_ok_def pending_def xd3_rtype_defs word_le_nat_alt split: if_splits)

lemma emit_inv_stalled1:
  assumes "emit_inv s" "same_window s s'" "bufs_ok s'" "sources_ok s'" "avail_out s' = avail_out s"
  shows "emit_inv (s'\<lparr>dec_current1 := dec_current1 s\<rparr>)"
  using assms
  by (auto simp: emit_inv_def tables_ok_def window_ok_def insts_ok_def same_window_def bufs_ok_def sources_ok_def)

lemma emit_inv_stalled2:
  assumes "emit_inv s" "same_window s s'" "bufs_ok s'" "sources_ok s'" "avail_out s' = avail_out s"
  shows "emit_inv (s'\<lparr>dec_current2 := dec_current2 s\<rparr>)"
  using assms
  by (auto simp: emit_inv_def tables_ok_def window_ok_def insts_ok_def same_window_def bufs_ok_def sources_ok_def)

lemma output_loop1_total:
  "emit_inv s \<Longrightarrow> \<exists>r s'. output_loop1 s = Some (r, s') \<and>
     (r = None \<longrightarrow> emit_inv s' \<and> htype (dec_current1 s') = XD3_NOOP
        \<and> dec_current2 s' = dec_current2 s \<and> inst_sect s' = inst_sect s \<and> dec_state s' = dec_state s)
     \<and> (\<forall>e. r = Some e \<longrightarrow> resumable e \<longrightarrow> emit_inv s' \<and> dec_state s' = dec_state s \<and> e \<noteq> XD3_OUTPUT)"
proof (induction "unat (hsize (dec_current1 s))" arbitrary: s rule: less_induct)
  case less
  show ?case
  proof (cases "htype (dec_current1 s) = XD3_NOOP")
    case True
    then show ?thesis using less.prems by (subst output_loop1.simps) simp
  next
    case False
    obtain r inst' s' where o: "xd3_decode_output_halfinst (dec_current1 s) s = Some (r, inst', s')"
      "halfinst_result r (dec_current1 s) s inst' s'"
      using output_halfinst_step [of s "dec_current1 s"] less.prems False
      by (auto simp: emit_inv_def insts_ok_def)
    show ?thesis
    proof (cases r)
      case (Some e)
      then show ?thesis using o False emit_inv_stalled1 [OF less.prems(1)]
        by (subst output_loop1.simps) (auto simp: halfinst_result_def same_window_def)
    next
      case None
      let ?t = "s'\<lparr>dec_current1 := inst'\<rparr>"
      have st: "halfinst_step (dec_current1 s) s inst' s'" using o None by (simp add: halfinst_result_def)
      have inv: "emit_inv ?t" by (rule emit_inv_current1 [OF less.prems False st])
      have e: "output_loop1 s = output_loop1 ?t"
        using o None False by (subst output_loop1.simps) simp
      have sw: "dec_current2 ?t = dec_current2 s" "inst_sect ?t = inst_sect s" "dec_state ?t = dec_state s"
        using st by (simp_all add: halfinst_step_def same_window_def)
      show ?thesis
      proof (cases "htype inst' = XD3_NOOP")
        case True
        then have "output_loop1 ?t = Some (None, ?t)" by (subst output_loop1.simps) simp
        then show ?thesis using e inv sw True by simp
      next
        case F: False
        then have "unat (hsize (dec_current1 ?t)) < unat (hsize (dec_current1 s))"
          using st by (simp add: halfinst_step_def)
        from less.hyps [OF this inv] show ?thesis unfolding e sw .
      qed
    qed
  qed
qed

lemma output_loop2_total:
  "emit_inv s \<Longrightarrow> htype (dec_current1 s) = XD3_NOOP \<Longrightarrow> \<exists>r s'. output_loop2 s = Some (r, s') \<and>
     (r = None \<longrightarrow> emit_inv s' \<and> htype (dec_current1 s') = XD3_NOOP \<and> htype (dec_current2 s') = XD3_NOOP
        \<and> inst_sect s' = inst_sect s \<and> dec_state s' = dec_state s)
     \<and> (\<forall>e. r = Some e \<longrightarrow> resumable e \<longrightarrow> emit_inv s' \<and> dec_state s' = dec_state s \<and> e \<noteq> XD3_OUTPUT)"
proof (induction "unat (hsize (dec_current2 s))" arbitrary: s rule: less_induct)
  case less
  show ?case
  proof (cases "htype (dec_current2 s) = XD3_NOOP")
    case True
    then show ?thesis using less.prems by (subst output_loop2.simps) simp
  next
    case False
    have c: "copy_ok (unat (dec_cpylen s) + unat (avail_out s)) (dec_current2 s)"
      using less.prems by (simp add: emit_inv_def insts_ok_def pending_def)
    obtain r inst' s' where o: "xd3_decode_output_halfinst (dec_current2 s) s = Some (r, inst', s')"
      "halfinst_result r (dec_current2 s) s inst' s'"
      using output_halfinst_step [of s "dec_current2 s"] less.prems False c
      by (auto simp: emit_inv_def insts_ok_def)
    show ?thesis
    proof (cases r)
      case (Some e)
      then show ?thesis using o False emit_inv_stalled2 [OF less.prems(1)]
        by (subst output_loop2.simps) (auto simp: halfinst_result_def same_window_def)
    next
      case None
      let ?t = "s'\<lparr>dec_current2 := inst'\<rparr>"
      have st: "halfinst_step (dec_current2 s) s inst' s'" using o None by (simp add: halfinst_result_def)
      have inv: "emit_inv ?t" by (rule emit_inv_current2 [OF less.prems False st])
      have e: "output_loop2 s = output_loop2 ?t"
        using o None False by (subst output_loop2.simps) simp
      have sw: "inst_sect ?t = inst_sect s" "dec_current1 ?t = dec_current1 s" "dec_state ?t = dec_state s"
        using st by (simp_all add: halfinst_step_def same_window_def)
      show ?thesis
      proof (cases "htype inst' = XD3_NOOP")
        case True
        then have "output_loop2 ?t = Some (None, ?t)" by (subst output_loop2.simps) simp
        then show ?thesis using e inv sw True less.prems(2) by simp
      next
        case F: False
        then have lt: "unat (hsize (dec_current2 ?t)) < unat (hsize (dec_current2 s))"
          using st by (simp add: halfinst_step_def)
        have "htype (dec_current1 ?t) = XD3_NOOP" using sw less.prems(2) by simp
        from less.hyps [OF lt inv this] show ?thesis unfolding e sw .
      qed
    qed
  qed
qed

subsection \<open>Parsing keeps the invariant\<close>

lemma unat_plus_le: "unat (a + b :: u64) \<le> unat a + unat b"
  by (simp add: unat_word_ariths)

lemma read_uint64_shorter: "read_integer_loop v inp = Inr (n, rest) \<Longrightarrow> length rest < length inp"
  by (induction v inp rule: read_integer_loop.induct) (auto simp: Let_def split: if_splits)

text \<open>What a successful parse guarantees of the instruction and the stream.\<close>

definition parse_frame :: "xd3_dstream \<Rightarrow> xd3_dstream \<Rightarrow> bool" where
  "parse_frame s t \<longleftrightarrow> (\<exists>c i a p. t = s\<lparr>acache := c, inst_sect := i, addr_sect := a, dec_position := p\<rparr>
     \<and> length (sbuf i) \<le> length (sbuf (inst_sect s)) \<and> (tables_ok s \<longrightarrow> tables_ok t))"

lemma parse_size_ok:
  assumes "parse_size inst s = Inr (inst', s')"
  shows "\<exists>n i. inst' = inst\<lparr>hsize := n\<rparr> \<and> s' = s\<lparr>inst_sect := i\<rparr> \<and> length (sbuf i) \<le> length (sbuf (inst_sect s))"
proof (cases "hsize inst = 0")
  case True
  then obtain n rest where "xd3_read_uint64_t (sbuf (inst_sect s)) = Inr (n, rest)"
    "inst' = inst\<lparr>hsize := n\<rparr>" "s' = s\<lparr>inst_sect := (inst_sect s)\<lparr>sbuf := rest\<rparr>\<rparr>"
    using assms by (auto simp: parse_size_def split: sum.splits)
  moreover from this have "length rest < length (sbuf (inst_sect s))"
    unfolding xd3_read_uint64_t_def by (intro read_uint64_shorter)
  ultimately show ?thesis by (intro exI [of _ n] exI [of _ "(inst_sect s)\<lparr>sbuf := rest\<rparr>"]) simp
next
  case False
  then have "inst' = inst\<lparr>hsize := hsize inst\<rparr>" "s' = s\<lparr>inst_sect := inst_sect s\<rparr>"
    using assms by (simp_all add: parse_size_def)
  then show ?thesis by blast
qed

lemma parse_address_ok:
  assumes "parse_address inst s = Inr (inst', s')" "tables_ok s"
  shows "\<exists>a c as. inst' = inst\<lparr>haddr := a\<rparr> \<and> s' = s\<lparr>acache := c, addr_sect := as\<rparr>
    \<and> cache_wf c \<and> s_near c = 4 \<and> s_same c = 3 \<and> (XD3_CPY \<le> htype inst \<longrightarrow> a < dec_position s)"
proof (cases "XD3_CPY \<le> htype inst")
  case True
  then obtain a c rest where d: "xd3_decode_address (dec_position s) (ucast (htype inst - XD3_CPY)) (acache s)
      (sbuf (addr_sect s)) = Inr (a, c, rest)" and "\<not> dec_position s \<le> a"
    "inst' = inst\<lparr>haddr := a\<rparr>" "s' = s\<lparr>acache := c, addr_sect := (addr_sect s)\<lparr>sbuf := rest\<rparr>\<rparr>"
    using assms by (auto simp: parse_address_def split: sum.splits if_splits)
  moreover have "cache_wf c" "s_near c = 4" "s_same c = 3"
    using decode_address_wf [OF _ d] assms(2) by (auto simp: tables_ok_def)
  ultimately show ?thesis
    by (intro exI [of _ a] exI [of _ c] exI [of _ "(addr_sect s)\<lparr>sbuf := rest\<rparr>"]) (simp add: not_le)
next
  case False
  then have "inst' = inst\<lparr>haddr := haddr inst\<rparr>" "s' = s\<lparr>acache := acache s, addr_sect := addr_sect s\<rparr>"
    using assms by (simp_all add: parse_address_def)
  then show ?thesis using assms(2) False
    by (intro exI [of _ "haddr inst"] exI [of _ "acache s"] exI [of _ "addr_sect s"]) (simp add: tables_ok_def)
qed

lemma parse_halfinst_ok:
  assumes "xd3_decode_parse_halfinst inst s = (None, inst', s')" "tables_ok s"
  shows "parse_frame s s'" "htype inst' = htype inst" "tables_ok s'"
    "XD3_CPY \<le> htype inst \<longrightarrow> haddr inst' < dec_position s"
    "dec_position s' = dec_position s + hsize inst'"
proof -
  obtain inst1 s1 where 1: "parse_size inst s = Inr (inst1, s1)"
    using assms(1) by (auto simp: xd3_decode_parse_halfinst_def split: sum.splits)
  then obtain inst2 s2 where 2: "parse_address inst1 s1 = Inr (inst2, s2)"
    using assms(1) by (auto simp: xd3_decode_parse_halfinst_def split: sum.splits)
  have 3: "inst' = inst2" "s' = s2\<lparr>dec_position := dec_position s2 + hsize inst2\<rparr>"
    using assms(1) by (auto simp: xd3_decode_parse_halfinst_def 1 2 split: if_splits)
  obtain n i where a: "inst1 = inst\<lparr>hsize := n\<rparr>" "s1 = s\<lparr>inst_sect := i\<rparr>"
    "length (sbuf i) \<le> length (sbuf (inst_sect s))" using parse_size_ok [OF 1] by blast
  have t1: "tables_ok s1" using assms(2) a by (simp add: tables_ok_def)
  obtain ad c as where b: "inst2 = inst1\<lparr>haddr := ad\<rparr>" "s2 = s1\<lparr>acache := c, addr_sect := as\<rparr>"
    "cache_wf c" "s_near c = 4" "s_same c = 3" "XD3_CPY \<le> htype inst1 \<longrightarrow> ad < dec_position s1"
    using parse_address_ok [OF 2 t1] by blast
  show "tables_ok s'" using assms(2) a b 3 by (simp add: tables_ok_def)
  then show "parse_frame s s'"
    unfolding parse_frame_def using a b 3
    by (intro exI [of _ c] exI [of _ i] exI [of _ as] exI [of _ "dec_position s2 + hsize inst2"]) simp
  show "htype inst' = htype inst" "XD3_CPY \<le> htype inst \<longrightarrow> haddr inst' < dec_position s"
    "dec_position s' = dec_position s + hsize inst'" using a b 3 by simp_all
qed

lemma table_types_checked:
  "list_all (\<lambda>d. valid_rtype (type1 d) \<and> (type2 d = XD3_NOOP \<or> valid_rtype (type2 d))) xd3_rfc3284_code_table"
  by code_simp

lemma table_types:
  "valid_rtype (type1 (xd3_rfc3284_code_table ! unat (b :: u8)))"
  "type2 (xd3_rfc3284_code_table ! unat b) = XD3_NOOP \<or> valid_rtype (type2 (xd3_rfc3284_code_table ! unat b))"
  using table_types_checked by (simp_all add: list_all_length)

lemma valid_rtype_not_NOOP: "valid_rtype t \<Longrightarrow> t \<noteq> XD3_NOOP"
  by (auto simp: valid_rtype_unat XD3_NOOP_def)

text \<open>The half-instructions set from the table, before they are parsed.\<close>

lemma parse_current1_ok:
  assumes "parse_current1 s = (None, s')" "tables_ok s"
  shows "parse_frame (s\<lparr>dec_current1 := dec_current1 s'\<rparr>) s'" "tables_ok s'"
    "htype (dec_current1 s') = htype (dec_current1 s)" 
    "htype (dec_current1 s) \<noteq> XD3_NOOP \<longrightarrow> XD3_CPY \<le> htype (dec_current1 s) \<longrightarrow> haddr (dec_current1 s') < dec_position s"
    "unat (dec_position s') \<le> unat (dec_position s) + pending (dec_current1 s')"
proof -
  consider (noop) "htype (dec_current1 s) = XD3_NOOP" "s' = s"
    | (inst) inst t where "htype (dec_current1 s) \<noteq> XD3_NOOP"
      "xd3_decode_parse_halfinst (dec_current1 s) s = (None, inst, t)" "s' = t\<lparr>dec_current1 := inst\<rparr>"
    using assms(1) by (cases "htype (dec_current1 s) = XD3_NOOP") (auto simp: parse_current1_def split: prod.splits)
  then have "parse_frame (s\<lparr>dec_current1 := dec_current1 s'\<rparr>) s' \<and> tables_ok s' \<and>
    htype (dec_current1 s') = htype (dec_current1 s) \<and>
    (htype (dec_current1 s) \<noteq> XD3_NOOP \<longrightarrow> XD3_CPY \<le> htype (dec_current1 s) \<longrightarrow> haddr (dec_current1 s') < dec_position s) \<and>
    unat (dec_position s') \<le> unat (dec_position s) + pending (dec_current1 s')"
  proof cases
    case noop
    have "s = s\<lparr>acache := acache s, inst_sect := inst_sect s, addr_sect := addr_sect s, dec_position := dec_position s\<rparr>"
      by simp
    then have "parse_frame s s" unfolding parse_frame_def by (metis order_refl)
    then show ?thesis using noop assms(2) by simp
  next
    case inst
    note ok = parse_halfinst_ok [OF inst(2) assms(2)]
    from ok(1) obtain c i a p where f: "t = s\<lparr>acache := c, inst_sect := i, addr_sect := a, dec_position := p\<rparr>"
      "length (sbuf i) \<le> length (sbuf (inst_sect s))" unfolding parse_frame_def by blast
    have tb: "tables_ok s'" using ok(3) inst(3) by (simp add: tables_ok_def)
    have "parse_frame (s\<lparr>dec_current1 := inst\<rparr>) s'"
      unfolding parse_frame_def using f inst(3) tb
      by (intro exI [of _ c] exI [of _ i] exI [of _ a] exI [of _ p]) simp
    then show ?thesis
      using tb ok inst unat_plus_le [of "dec_position s" "hsize inst"] by (simp add: pending_def)
  qed
  then show "parse_frame (s\<lparr>dec_current1 := dec_current1 s'\<rparr>) s'" "tables_ok s'"
    "htype (dec_current1 s') = htype (dec_current1 s)" 
    "htype (dec_current1 s) \<noteq> XD3_NOOP \<longrightarrow> XD3_CPY \<le> htype (dec_current1 s) \<longrightarrow> haddr (dec_current1 s') < dec_position s"
    "unat (dec_position s') \<le> unat (dec_position s) + pending (dec_current1 s')" by blast+
qed
lemma parse_current2_ok:
  assumes "parse_current2 s = (None, s')" "tables_ok s"
  shows "parse_frame (s\<lparr>dec_current2 := dec_current2 s'\<rparr>) s'" "tables_ok s'"
    "htype (dec_current2 s') = htype (dec_current2 s)" 
    "htype (dec_current2 s) \<noteq> XD3_NOOP \<longrightarrow> XD3_CPY \<le> htype (dec_current2 s) \<longrightarrow> haddr (dec_current2 s') < dec_position s"
    "unat (dec_position s') \<le> unat (dec_position s) + pending (dec_current2 s')"
proof -
  consider (noop) "htype (dec_current2 s) = XD3_NOOP" "s' = s"
    | (inst) inst t where "htype (dec_current2 s) \<noteq> XD3_NOOP"
      "xd3_decode_parse_halfinst (dec_current2 s) s = (None, inst, t)" "s' = t\<lparr>dec_current2 := inst\<rparr>"
    using assms(1) by (cases "htype (dec_current2 s) = XD3_NOOP") (auto simp: parse_current2_def split: prod.splits)
  then have "parse_frame (s\<lparr>dec_current2 := dec_current2 s'\<rparr>) s' \<and> tables_ok s' \<and>
    htype (dec_current2 s') = htype (dec_current2 s) \<and>
    (htype (dec_current2 s) \<noteq> XD3_NOOP \<longrightarrow> XD3_CPY \<le> htype (dec_current2 s) \<longrightarrow> haddr (dec_current2 s') < dec_position s) \<and>
    unat (dec_position s') \<le> unat (dec_position s) + pending (dec_current2 s')"
  proof cases
    case noop
    have "s = s\<lparr>acache := acache s, inst_sect := inst_sect s, addr_sect := addr_sect s, dec_position := dec_position s\<rparr>"
      by simp
    then have "parse_frame s s" unfolding parse_frame_def by (metis order_refl)
    then show ?thesis using noop assms(2) by simp
  next
    case inst
    note ok = parse_halfinst_ok [OF inst(2) assms(2)]
    from ok(1) obtain c i a p where f: "t = s\<lparr>acache := c, inst_sect := i, addr_sect := a, dec_position := p\<rparr>"
      "length (sbuf i) \<le> length (sbuf (inst_sect s))" unfolding parse_frame_def by blast
    have tb: "tables_ok s'" using ok(3) inst(3) by (simp add: tables_ok_def)
    have "parse_frame (s\<lparr>dec_current2 := inst\<rparr>) s'"
      unfolding parse_frame_def using f inst(3) tb
      by (intro exI [of _ c] exI [of _ i] exI [of _ a] exI [of _ p]) simp
    then show ?thesis
      using tb ok inst unat_plus_le [of "dec_position s" "hsize inst"] by (simp add: pending_def)
  qed
  then show "parse_frame (s\<lparr>dec_current2 := dec_current2 s'\<rparr>) s'" "tables_ok s'"
    "htype (dec_current2 s') = htype (dec_current2 s)" 
    "htype (dec_current2 s) \<noteq> XD3_NOOP \<longrightarrow> XD3_CPY \<le> htype (dec_current2 s) \<longrightarrow> haddr (dec_current2 s') < dec_position s"
    "unat (dec_position s') \<le> unat (dec_position s) + pending (dec_current2 s')" by blast+
qed

lemma parse_frame_fields:
  assumes "parse_frame s t"
  shows "next_out t = next_out s" "avail_out t = avail_out s" "space_out t = space_out s" "src t = src s"
    "getblk t = getblk s" "dec_win_ind t = dec_win_ind s" "dec_cpylen t = dec_cpylen s"
    "dec_current1 t = dec_current1 s" "dec_current2 t = dec_current2 s" "dec_state t = dec_state s"
    "length (sbuf (inst_sect t)) \<le> length (sbuf (inst_sect s))"
  using assms by (auto simp: parse_frame_def)

lemma decode_instruction_inv:
  assumes inv: "emit_inv s" and noop: "htype (dec_current1 s) = XD3_NOOP" "htype (dec_current2 s) = XD3_NOOP"
    and e: "xd3_decode_instruction s = (None, s')"
  shows "emit_inv s' \<and> length (sbuf (inst_sect s')) < length (sbuf (inst_sect s)) \<and> dec_state s' = dec_state s"
proof -
  obtain b rest where b: "sbuf (inst_sect s) = b # rest"
    using e by (cases "sbuf (inst_sect s)") (auto simp: xd3_decode_instruction_def)
  have ct: "code_table s = xd3_rfc3284_code_table" using inv by (simp add: emit_inv_def tables_ok_def)
  define d where "d = xd3_rfc3284_code_table ! unat b"
  define s0 where "s0 = s\<lparr>inst_sect := (inst_sect s)\<lparr>sbuf := rest\<rparr>,
      dec_current1 := (dec_current1 s)\<lparr>htype := type1 d, hsize := ucast (size1 d)\<rparr>,
      dec_current2 := (dec_current2 s)\<lparr>htype := type2 d, hsize := ucast (size2 d)\<rparr>\<rparr>"
  have "seqr parse_current1 parse_current2 s0 = (None, s')"
    using e b ct by (simp add: xd3_decode_instruction_def d_def s0_def Let_def)
  then obtain s1 where p1: "parse_current1 s0 = (None, s1)" and p2: "parse_current2 s1 = (None, s')"
    by (auto simp: seqr_None_iff)
  have t0: "tables_ok s0" using inv by (simp add: emit_inv_def tables_ok_def s0_def)
  note o1 = parse_current1_ok [OF p1 t0]
  note o2 = parse_current2_ok [OF p2 o1(2)]
  note f1 = parse_frame_fields [OF o1(1)] and f2 = parse_frame_fields [OF o2(1)]
  have s0: "next_out s0 = next_out s" "avail_out s0 = avail_out s" "space_out s0 = space_out s"
    "src s0 = src s" "getblk s0 = getblk s" "dec_win_ind s0 = dec_win_ind s" "dec_cpylen s0 = dec_cpylen s"
    "dec_position s0 = dec_position s" "sbuf (inst_sect s0) = rest" "dec_state s0 = dec_state s"
    "htype (dec_current1 s0) = type1 d" "htype (dec_current2 s0) = type2 d"
    by (simp_all add: s0_def)
  have ty: "valid_rtype (type1 d)" "type2 d = XD3_NOOP \<or> valid_rtype (type2 d)"
    using table_types [of b] by (simp_all add: d_def)
  have pos: "unat (dec_position s) \<le> unat (dec_cpylen s) + unat (avail_out s)"
    using inv noop by (simp add: emit_inv_def insts_ok_def pending_def)
  have h: "htype (dec_current1 s') = type1 d" "htype (dec_current2 s') = type2 d"
    using o1(3) o2(3) f1(9) f2(8) s0 by simp_all
  have c1: "dec_current1 s' = dec_current1 s1" using f2(8) by simp
  have "copy_ok (unat (dec_cpylen s) + unat (avail_out s)) (dec_current1 s')"
    using o1(4) s0 pos valid_rtype_not_NOOP [OF ty(1)] c1 h
    by (auto simp: copy_ok_def word_less_nat_alt)
  moreover have "copy_ok (unat (dec_cpylen s) + unat (avail_out s) + pending (dec_current1 s')) (dec_current2 s')"
    using o2(4) o1(3,5) f1(9) s0 pos ty c1 h
    by (auto simp: copy_ok_def word_less_nat_alt xd3_rtype_defs)
  moreover have "unat (dec_position s') \<le> unat (dec_cpylen s) + unat (avail_out s)
       + pending (dec_current1 s') + pending (dec_current2 s')"
    using o1(5) o2(5) s0 pos c1 by simp
  ultimately have "insts_ok s'"
    using h ty f1 f2 s0 by (simp add: insts_ok_def known_type_def)
  then have "emit_inv s'"
    using inv o2(2) f1 f2 s0 by (simp add: emit_inv_def bufs_ok_def sources_ok_def window_ok_def)
  then show ?thesis using f1(10,11) f2(10,11) s0 b by simp
qed

lemma read_integer_error: "read_integer_loop v inp = Inl e \<Longrightarrow> e = XD3_INVALID_INPUT"
  by (induction v inp rule: read_integer_loop.induct) (auto simp: Let_def split: if_splits)

lemma parse_halfinst_error:
  "xd3_decode_parse_halfinst inst s = (Some e, inst', s') \<Longrightarrow> e = XD3_INVALID_INPUT"
  by (auto simp: xd3_decode_parse_halfinst_def parse_size_def parse_address_def xd3_decode_address_def
      xd3_read_uint64_t_def Let_def dest: read_integer_error split: sum.splits if_splits list.splits)

lemma decode_instruction_error: "xd3_decode_instruction s = (Some e, s') \<Longrightarrow> e = XD3_INVALID_INPUT"
  by (auto simp: xd3_decode_instruction_def parse_current1_def parse_current2_def seqr_def Let_def
      dest: parse_halfinst_error split: list.splits prod.splits option.splits if_splits)

lemma emit_loop_total:
  "emit_inv s \<Longrightarrow> \<exists>r s'. emit_loop s = Some (r, s') \<and> (r = None \<longrightarrow> emit_inv s' \<and> \<not> more_instructions s'
     \<and> dec_state s' = dec_state s)
     \<and> (\<forall>e. r = Some e \<longrightarrow> resumable e \<longrightarrow> emit_inv s' \<and> dec_state s' = dec_state s \<and> e \<noteq> XD3_OUTPUT)"
proof (induction "length (sbuf (inst_sect s)) + (if htype (dec_current1 s) = XD3_NOOP
    \<and> htype (dec_current2 s) = XD3_NOOP then 0 else 1)" arbitrary: s rule: less_induct)
  case less
  show ?case
  proof (cases "more_instructions s")
    case False
    then show ?thesis using less.prems by (subst emit_loop.simps) simp
  next
    case True
    let ?np = "htype (dec_current1 s) = XD3_NOOP \<and> htype (dec_current2 s) = XD3_NOOP"
    obtain r1 s1 where n: "next_instruction s = (r1, s1)" by force
    show ?thesis
    proof (cases r1)
      case (Some e)
      then have "\<not> resumable e"
        using n by (auto simp: next_instruction_def dest: decode_instruction_error split: if_splits)
      then show ?thesis using n True Some by (subst emit_loop.simps) simp
    next
      case None
      have i1: "emit_inv s1 \<and> dec_state s1 = dec_state s \<and> length (sbuf (inst_sect s1)) <
          length (sbuf (inst_sect s)) + (if ?np then 0 else 1)"
      proof (cases ?np)
        case True
        then show ?thesis using decode_instruction_inv [OF less.prems] n None by (simp add: next_instruction_def)
      next
        case False
        then show ?thesis using n None less.prems by (auto simp: next_instruction_def)
      qed
      obtain r2 s2 where L1: "output_loop1 s1 = Some (r2, s2)" and L1': "r2 = None \<longrightarrow> emit_inv s2
        \<and> htype (dec_current1 s2) = XD3_NOOP \<and> inst_sect s2 = inst_sect s1 \<and> dec_state s2 = dec_state s1"
        and E1: "\<forall>e. r2 = Some e \<longrightarrow> resumable e \<longrightarrow> emit_inv s2 \<and> dec_state s2 = dec_state s1 \<and> e \<noteq> XD3_OUTPUT"
        using output_loop1_total i1 by blast
      show ?thesis
      proof (cases r2)
        case (Some e)
        then show ?thesis using n None True L1 E1 i1 by (subst emit_loop.simps) simp
      next
        case N2: None
        obtain r3 s3 where L2: "output_loop2 s2 = Some (r3, s3)" and L2': "r3 = None \<longrightarrow> emit_inv s3
          \<and> htype (dec_current1 s3) = XD3_NOOP \<and> htype (dec_current2 s3) = XD3_NOOP
          \<and> inst_sect s3 = inst_sect s2 \<and> dec_state s3 = dec_state s2"
          and E2: "\<forall>e. r3 = Some e \<longrightarrow> resumable e \<longrightarrow> emit_inv s3 \<and> dec_state s3 = dec_state s2 \<and> e \<noteq> XD3_OUTPUT"
          using output_loop2_total [of s2] L1' N2 by blast
        show ?thesis
        proof (cases r3)
          case (Some e)
          then show ?thesis using n None True L1 N2 L2 E2 L1' i1 by (subst emit_loop.simps) simp
        next
          case N3: None
          have e: "emit_loop s = emit_loop s3" using n None True L1 N2 L2 N3 by (subst emit_loop.simps) simp
          show ?thesis
            using less.hyps [of s3] L2' N3 L1' N2 i1 unfolding e by simp
        qed
      qed
    qed
  qed
qed

subsection \<open>Invariant of the state machine\<close>

text \<open>The numbers of the enumeration \<open>xd3_decode_state\<close>.\<close>

fun dec_num :: "xd3_decode_state \<Rightarrow> nat" where
  "dec_num DEC_VCHEAD = 0" | "dec_num DEC_HDRIND = 1" | "dec_num DEC_SECONDID = 2"
| "dec_num DEC_TABLEN = 3" | "dec_num DEC_NEAR = 4" | "dec_num DEC_SAME = 5" | "dec_num DEC_TABDAT = 6"
| "dec_num DEC_APPLEN = 7" | "dec_num DEC_APPDAT = 8" | "dec_num DEC_WININD = 9"
| "dec_num DEC_CPYLEN = 10" | "dec_num DEC_CPYOFF = 11" | "dec_num DEC_ENCLEN = 12"
| "dec_num DEC_TGTLEN = 13" | "dec_num DEC_DELIND = 14" | "dec_num DEC_DATALEN = 15"
| "dec_num DEC_INSTLEN = 16" | "dec_num DEC_ADDRLEN = 17" | "dec_num DEC_CKSUM = 18"
| "dec_num DEC_DATA = 19" | "dec_num DEC_INST = 20" | "dec_num DEC_ADDR = 21" | "dec_num DEC_EMIT = 22"
| "dec_num DEC_FINISH = 23" | "dec_num DEC_ABORTED = 24"

text \<open>\<open>idle s\<close>: between windows and before the emit loop nothing is pending and the client has consumed
  the output.\<close>

definition idle :: "xd3_dstream \<Rightarrow> bool" where
  "idle s \<longleftrightarrow> htype (dec_current1 s) = XD3_NOOP \<and> htype (dec_current2 s) = XD3_NOOP \<and> avail_out s = 0"

definition copy_window_ok :: "xd3_dstream \<Rightarrow> bool" where
  "copy_window_ok s \<longleftrightarrow> (dec_cpylen s \<noteq> 0 \<longrightarrow> SRCORTGT (dec_win_ind s))"

definition wf_at :: "nat \<Rightarrow> xd3_dstream \<Rightarrow> bool" where
  "wf_at n s \<longleftrightarrow> bufs_ok s \<and> sources_ok s
     \<and> (n < 7 \<or> tables_ok s) \<and> (7 \<le> n \<or> next_slot (acache s) = 0)
     \<and> (n = 22 \<or> idle s)
     \<and> (n \<noteq> 10 \<or> dec_cpylen s = 0)
     \<and> (n \<le> 10 \<or> 22 \<le> n \<or> copy_window_ok s)
     \<and> (n \<le> 10 \<or> 22 \<le> n \<or> dec_position s = dec_cpylen s)
     \<and> (n \<le> 13 \<or> 22 \<le> n \<or> dec_tgtlen s \<le> XD3_HARDMAXWINSIZE)
     \<and> (n \<noteq> 22 \<or> dec_win_ind s AND VCD_TARGET = 0 \<and> insts_ok s
           \<and> (copy_window_ok s \<or> src s \<noteq> None))"

definition dec_wf :: "xd3_dstream \<Rightarrow> bool" where
  "dec_wf s \<longleftrightarrow> wf_at (dec_num (dec_state s)) s"

definition after_return :: "xd3_rvalues \<Rightarrow> xd3_dstream \<Rightarrow> xd3_dstream" where
  "after_return r s = (if r = XD3_OUTPUT then xd3_consume_output s else s)"

definition dec_ok :: "(xd3_dstream \<Rightarrow> bool) \<Rightarrow> dec_step \<Rightarrow> (xd3_dstream \<Rightarrow> bool) \<Rightarrow> bool" where
  "dec_ok P f Q \<longleftrightarrow> (\<forall>s. P s \<longrightarrow>
     (case f s of (None, s') \<Rightarrow> Q s' | (Some r, s') \<Rightarrow> resumable r \<longrightarrow> dec_wf (after_return r s')))"

lemma dec_ok_seqr: "dec_ok P f Q \<Longrightarrow> dec_ok Q g R \<Longrightarrow> dec_ok P (seqr f g) R"
  unfolding dec_ok_def seqr_def by (fastforce split: prod.splits option.splits)

lemma dec_ok_weaken: "dec_ok P f Q \<Longrightarrow> (\<And>s. P' s \<Longrightarrow> P s) \<Longrightarrow> (\<And>s. Q s \<Longrightarrow> Q' s) \<Longrightarrow> dec_ok P' f Q'"
  unfolding dec_ok_def by (fastforce split: prod.splits option.splits)

lemma dec_ok_fail_if: "\<not> resumable r \<Longrightarrow> (\<And>s. P s \<Longrightarrow> \<not> b s \<Longrightarrow> Q s) \<Longrightarrow> dec_ok P (fail_if b r) Q"
  by (simp add: dec_ok_def fail_if_def)

lemma dec_ok_modify: "(\<And>s. P s \<Longrightarrow> Q (f s)) \<Longrightarrow> dec_ok P (modify f) Q"
  by (simp add: dec_ok_def modify_def)

lemma dec_ok_goto: "(\<And>s. P s \<Longrightarrow> Q (s\<lparr>dec_state := st\<rparr>)) \<Longrightarrow> dec_ok P (goto st) Q"
  by (simp add: dec_ok_def goto_def)

lemma dec_ok_fail_then:
  "\<not> resumable r \<Longrightarrow> dec_ok (\<lambda>s. P s \<and> \<not> b s) g R \<Longrightarrow> dec_ok P (seqr (fail_if b r) g) R"
  by (rule dec_ok_seqr [OF dec_ok_fail_if]) auto

lemma dec_ok_modify_then: "dec_ok Q g R \<Longrightarrow> (\<And>s. P s \<Longrightarrow> Q (f s)) \<Longrightarrow> dec_ok P (seqr (modify f) g) R"
  by (rule dec_ok_seqr [OF dec_ok_modify]) auto

lemma dec_ok_goto_then:
  "dec_ok Q g R \<Longrightarrow> (\<And>s. P s \<Longrightarrow> Q (s\<lparr>dec_state := st\<rparr>)) \<Longrightarrow> dec_ok P (seqr (goto st) g) R"
  by (rule dec_ok_seqr [OF dec_ok_goto]) auto

lemma dec_ok_if:
  "dec_ok (\<lambda>s. P s \<and> b s) f Q \<Longrightarrow> (\<And>s. P s \<Longrightarrow> \<not> b s \<Longrightarrow> Q s) \<Longrightarrow>
   dec_ok P (\<lambda>s. if b s then f s else (None, s)) Q"
  unfolding dec_ok_def by simp

lemma after_return_simps [simp]: "r \<noteq> XD3_OUTPUT \<Longrightarrow> after_return r s = s"
  by (simp add: after_return_def)

text \<open>Reading input changes none of the fields the invariant speaks about.\<close>

lemma wf_at_input [simp]:
  "wf_at n (decode_input_advance k s) = wf_at n s" "wf_at n (s\<lparr>dec_64part := p\<rparr>) = wf_at n s"
  "dec_state (decode_input_advance k s) = dec_state s"
  by (simp_all add: decode_input_advance_def wf_at_def bufs_ok_def sources_ok_def tables_ok_def idle_def
      copy_window_ok_def insts_ok_def)

lemma dec_wf_input [simp]:
  "dec_wf (decode_input_advance k s) = dec_wf s" "dec_wf (s\<lparr>dec_64part := p\<rparr>) = dec_wf s"
  by (simp_all add: dec_wf_def)

lemma dec_ok_byte:
  assumes "\<And>s. P s \<Longrightarrow> dec_wf s" "\<And>s v. P s \<Longrightarrow> Q (decode_input_advance 1 (store v s))"
  shows "dec_ok P (xd3_decode_byte store) Q"
  using assms by (auto simp: dec_ok_def xd3_decode_byte_def split: list.splits)

lemma decode_uint64_ret:
  "xd3_decode_uint64_t part inp = (r, p, v, rest) \<Longrightarrow>
     (r = None \<and> v \<noteq> None) \<or> (r = Some XD3_INPUT \<and> v = None) \<or> (r = Some XD3_INVALID_INPUT \<and> v = None)"
  by (induction part inp rule: xd3_decode_uint64_t.induct) (auto simp: Let_def split: if_splits)

lemma dec_ok_size:
  assumes "\<And>s. P s \<Longrightarrow> dec_wf s"
    "\<And>s v k p. P s \<Longrightarrow> Q (store v (decode_input_advance k (s\<lparr>dec_64part := p\<rparr>)))"
  shows "dec_ok P (xd3_decode_size store) Q"
  unfolding dec_ok_def
proof (intro allI impI)
  fix s assume P: "P s"
  obtain r p v rest where d: "xd3_decode_uint64_t (dec_64part s) (next_in s) = (r, p, v, rest)"
    by (metis prod_cases4)
  show "case xd3_decode_size store s of (None, s') \<Rightarrow> Q s'
      | (Some r, s') \<Rightarrow> resumable r \<longrightarrow> dec_wf (after_return r s')"
    using decode_uint64_ret [OF d] assms P by (auto simp: xd3_decode_size_def d Let_def)
qed

lemma dec_ok_bytes:
  assumes "\<And>s. P s \<Longrightarrow> dec_wf s" "\<And>s. P s \<Longrightarrow> Q s"
    "\<And>s v k. P s \<Longrightarrow> Q (decode_input_advance k (store v s)) \<and> dec_wf (store v s)"
  shows "dec_ok P (xd3_decode_bytes get store sz) Q"
  using assms by (auto simp: dec_ok_def xd3_decode_bytes_def Let_def)

lemma dec_ok_BYTE_CASE:
  assumes "\<And>s. P s \<Longrightarrow> dec_wf s"
    "\<And>s v. P s \<Longrightarrow> cond s \<Longrightarrow> Q ((decode_input_advance 1 (store v s))\<lparr>dec_state := st\<rparr>)"
    "\<And>s. P s \<Longrightarrow> \<not> cond s \<Longrightarrow> Q (s\<lparr>dec_state := st\<rparr>)"
  shows "dec_ok P (BYTE_CASE cond store st) Q"
  unfolding BYTE_CASE_def
  by (rule dec_ok_seqr [where Q = "\<lambda>s. Q (s\<lparr>dec_state := st\<rparr>)"])
    (auto intro!: dec_ok_if dec_ok_byte dec_ok_goto simp: assms simp del: One_nat_def)

lemma dec_ok_SIZE_CASE:
  assumes "\<And>s. P s \<Longrightarrow> dec_wf s"
    "\<And>s v k p. P s \<Longrightarrow> cond s \<Longrightarrow> Q ((store v (decode_input_advance k (s\<lparr>dec_64part := p\<rparr>)))\<lparr>dec_state := st\<rparr>)"
    "\<And>s. P s \<Longrightarrow> \<not> cond s \<Longrightarrow> Q (s\<lparr>dec_state := st\<rparr>)"
  shows "dec_ok P (SIZE_CASE cond store st) Q"
  unfolding SIZE_CASE_def
  by (rule dec_ok_seqr [where Q = "\<lambda>s. Q (s\<lparr>dec_state := st\<rparr>)"])
    (auto intro!: dec_ok_if dec_ok_size dec_ok_goto simp: assms)

subsection \<open>Each state keeps the invariant\<close>

definition at_state :: "xd3_decode_state \<Rightarrow> xd3_dstream \<Rightarrow> bool" where
  "at_state st s \<longleftrightarrow> dec_state s = st \<and> wf_at (dec_num st) s"

lemma at_state_wf: "at_state st s \<Longrightarrow> dec_wf s"
  by (simp add: at_state_def dec_wf_def)

lemmas wf_simps = at_state_def dec_wf_def wf_at_def bufs_ok_def sources_ok_def tables_ok_def idle_def
  copy_window_ok_def insts_ok_def decode_input_advance_def

lemma state_CKSUM_ok: "dec_ok (at_state DEC_CKSUM) state_CKSUM (\<lambda>_. False)"
proof -
  have r: "dec_ok (at_state DEC_DATA) (\<lambda>s. (Some (if current_window s = 0 then XD3_GOTHEADER else XD3_WINSTART), s)) (\<lambda>_. False)"
    by (simp add: dec_ok_def at_state_wf)
  show ?thesis
    unfolding state_CKSUM_def
    by (rule dec_ok_seqr [where Q = "at_state DEC_CKSUM"] dec_ok_if
        dec_ok_seqr [where Q = "at_state DEC_DATA"] dec_ok_seqr [where Q = "at_state DEC_DATA"] dec_ok_goto
        dec_ok_fail_if r dec_ok_bytes dec_ok_modify | simp add: wf_simps)+
qed

lemma state_ADDRLEN_ok: "dec_ok (at_state DEC_ADDRLEN) state_ADDRLEN (\<lambda>_. False)"
  unfolding state_ADDRLEN_def
  by (rule dec_ok_seqr [OF dec_ok_SIZE_CASE state_CKSUM_ok]) (simp_all add: wf_simps)

lemma state_INSTLEN_ok: "dec_ok (at_state DEC_INSTLEN) state_INSTLEN (\<lambda>_. False)"
  unfolding state_INSTLEN_def
  by (rule dec_ok_seqr [OF dec_ok_SIZE_CASE state_ADDRLEN_ok]) (simp_all add: wf_simps)

lemma state_DATALEN_ok: "dec_ok (at_state DEC_DATALEN) state_DATALEN (\<lambda>_. False)"
  unfolding state_DATALEN_def
  by (rule dec_ok_seqr [OF dec_ok_SIZE_CASE state_INSTLEN_ok]) (simp_all add: wf_simps)

lemma state_DELIND_ok: "dec_ok (at_state DEC_DELIND) state_DELIND (\<lambda>_. False)"
  unfolding state_DELIND_def
  by (rule dec_ok_seqr [OF dec_ok_BYTE_CASE dec_ok_seqr [OF dec_ok_fail_if
        dec_ok_seqr [OF dec_ok_fail_if state_DATALEN_ok]], where Q = "at_state DEC_DATALEN"])
     (simp_all add: wf_simps)

lemma state_TGTLEN_ok: "dec_ok (at_state DEC_TGTLEN) state_TGTLEN (\<lambda>_. False)"
  unfolding state_TGTLEN_def
  by (intro dec_ok_seqr [OF dec_ok_SIZE_CASE, where Q = "\<lambda>s. dec_state s = DEC_DELIND \<and> wf_at 13 s"]
        dec_ok_fail_then dec_ok_modify_then [OF state_DELIND_ok]) (simp_all add: wf_simps not_less)

lemma state_ENCLEN_ok: "dec_ok (at_state DEC_ENCLEN) state_ENCLEN (\<lambda>_. False)"
  unfolding state_ENCLEN_def
  by (rule dec_ok_seqr [OF dec_ok_SIZE_CASE state_TGTLEN_ok]) (simp_all add: wf_simps)

lemma state_CPYOFF_ok: "dec_ok (at_state DEC_CPYOFF) state_CPYOFF (\<lambda>_. False)"
  unfolding state_CPYOFF_def
  by (intro dec_ok_seqr [OF dec_ok_SIZE_CASE, where Q = "at_state DEC_ENCLEN"]
        dec_ok_fail_then dec_ok_weaken [OF state_ENCLEN_ok]) (simp_all add: wf_simps)

lemma state_CPYLEN_ok: "dec_ok (at_state DEC_CPYLEN) state_CPYLEN (\<lambda>_. False)"
  unfolding state_CPYLEN_def
  by (intro dec_ok_seqr [OF dec_ok_SIZE_CASE, where Q = "\<lambda>s. dec_state s = DEC_CPYOFF \<and> wf_at 9 s \<and> copy_window_ok s"]
        dec_ok_modify_then [OF state_CPYOFF_ok]) (simp_all add: wf_simps)

lemma tables_ok_init_cache: "tables_ok s \<Longrightarrow> cache_wf (xd3_init_cache (acache s))"
  "s_near (xd3_init_cache c) = s_near c" "s_same (xd3_init_cache c) = s_same c"
  by (simp_all add: tables_ok_def cache_wf_init) (simp_all add: xd3_init_cache_def Let_def)

lemma state_WININD_ok: "dec_ok (at_state DEC_WININD) state_WININD (\<lambda>_. False)"
  unfolding state_WININD_def
  by (intro dec_ok_seqr [OF dec_ok_byte, where Q = "at_state DEC_WININD"] dec_ok_fail_then
       dec_ok_modify_then [where Q = "at_state DEC_WININD"]
       dec_ok_seqr [where f = xd3_decode_init_window and Q = "\<lambda>s. dec_state s = DEC_WININD \<and> wf_at 10 s"]
       dec_ok_goto_then [OF state_CPYLEN_ok])
    (auto simp: wf_simps dec_ok_def [of _ xd3_decode_init_window] xd3_decode_init_window_def
       tables_ok_init_cache cache_wf_init)

lemma alloc_appheader_ok: "dec_ok (at_state DEC_APPDAT) alloc_appheader (at_state DEC_APPDAT)"
  by (auto simp: dec_ok_def alloc_appheader_def xd3_alloc_def wf_simps split: option.splits bool.splits)

lemma read_appheader_ok: "dec_ok (at_state DEC_APPDAT) read_appheader (at_state DEC_APPDAT)"
proof -
  have "dec_ok (at_state DEC_APPDAT) (xd3_decode_bytes get (\<lambda>v. dec_appheader_update (\<lambda>_. Some v)) n)
      (at_state DEC_APPDAT)" for get n
    by (rule dec_ok_bytes) (simp_all add: wf_simps)
  note b = this [unfolded dec_ok_def, rule_format]
  show ?thesis unfolding dec_ok_def read_appheader_def by (intro allI impI b)
qed

lemma state_APPDAT_ok: "dec_ok (at_state DEC_APPDAT) state_APPDAT (\<lambda>_. False)"
  unfolding state_APPDAT_def
  by (intro dec_ok_seqr [where Q = "at_state DEC_APPDAT"] dec_ok_if dec_ok_fail_then
      dec_ok_modify_then [where Q = "at_state DEC_APPDAT"] dec_ok_goto_then [OF state_WININD_ok]
      read_appheader_ok dec_ok_weaken [OF alloc_appheader_ok])
    (simp_all add: wf_simps)

lemma state_APPLEN_ok: "dec_ok (at_state DEC_APPLEN) state_APPLEN (\<lambda>_. False)"
  unfolding state_APPLEN_def
  by (rule dec_ok_seqr [OF dec_ok_SIZE_CASE state_APPDAT_ok]) (simp_all add: wf_simps)

lemma alloc_cache_ok:
  assumes "s_near c = 4" "s_same c = 3" "next_slot c = 0" "xd3_alloc_cache m c = (None, m', c')"
  shows "cache_wf c'" "s_near c' = 4" "s_same c' = 3"
  using assms by (auto simp: xd3_alloc_cache_def Let_def xd3_alloc_def cache_wf_def split: if_splits)

lemma decode_alloc_cache_ok:
  "dec_ok (\<lambda>s. dec_state s = DEC_TABDAT \<and> wf_at 6 s \<and> s_near (acache s) = 4 \<and> s_same (acache s) = 3
       \<and> code_table s = xd3_rfc3284_code_table)
     decode_alloc_cache (\<lambda>s. wf_at 7 s)"
proof -
  have r: "fst (xd3_alloc_cache m c) \<in> {None, Some ENOMEM}" for m c
    by (auto simp: xd3_alloc_cache_def Let_def split: prod.splits)
  show ?thesis
    unfolding dec_ok_def
  proof (intro allI impI)
    fix s assume P: "dec_state s = DEC_TABDAT \<and> wf_at 6 s \<and> s_near (acache s) = 4 \<and> s_same (acache s) = 3
       \<and> code_table s = xd3_rfc3284_code_table"
    obtain q m c where a: "xd3_alloc_cache (mem s) (acache s) = (q, m, c)" by (metis prod_cases3)
    show "case decode_alloc_cache s of (None, s') \<Rightarrow> wf_at 7 s'
        | (Some r, s') \<Rightarrow> resumable r \<longrightarrow> dec_wf (after_return r s')"
      using r [of "mem s" "acache s"] a P alloc_cache_ok [of "acache s" "mem s" m c]
      by (auto simp: decode_alloc_cache_def wf_simps)
  qed
qed

lemma state_TABDAT_ok: "dec_ok (at_state DEC_TABDAT) state_TABDAT (\<lambda>_. False)"
  unfolding state_TABDAT_def
  by (intro dec_ok_fail_then dec_ok_modify_then [OF dec_ok_seqr [OF decode_alloc_cache_ok
        dec_ok_goto_then [OF state_APPLEN_ok]]])
    (simp_all add: wf_simps rfc3284_code_table_desc_def)

lemma state_SAME_ok: "dec_ok (at_state DEC_SAME) state_SAME (\<lambda>_. False)"
  unfolding state_SAME_def
  by (rule dec_ok_seqr [OF dec_ok_BYTE_CASE state_TABDAT_ok]) (simp_all add: wf_simps)

lemma state_NEAR_ok: "dec_ok (at_state DEC_NEAR) state_NEAR (\<lambda>_. False)"
  unfolding state_NEAR_def
  by (rule dec_ok_seqr [OF dec_ok_BYTE_CASE state_SAME_ok]) (simp_all add: wf_simps)

text \<open>\<open>DEC_TABLEN\<close> is also entered from \<open>DEC_SECONDID\<close> without a change of \<open>dec_state\<close>.\<close>

lemma state_TABLEN_ok:
  "dec_ok (\<lambda>s. (dec_state s = DEC_SECONDID \<or> dec_state s = DEC_TABLEN) \<and> wf_at 3 s) state_TABLEN (\<lambda>_. False)"
  unfolding state_TABLEN_def
  by (intro dec_ok_seqr [OF dec_ok_SIZE_CASE, where Q = "at_state DEC_NEAR"] dec_ok_fail_then
        dec_ok_modify_then [OF state_NEAR_ok]) (auto simp: wf_simps)

lemma state_SECONDID_ok: "dec_ok (at_state DEC_SECONDID) state_SECONDID (\<lambda>_. False)"
proof -
  let ?bad = "\<lambda>s. (Some (if dec_secondid s \<in> {16, 1, 2} then XD3_INTERNAL else XD3_INVALID_INPUT), s)"
  have bad: "dec_ok P ?bad Q" for P Q by (simp add: dec_ok_def)
  show ?thesis
    unfolding state_SECONDID_def
    by (rule dec_ok_seqr [OF _ dec_ok_weaken [OF state_TABLEN_ok]], rule dec_ok_if,
        rule dec_ok_seqr [OF dec_ok_BYTE_CASE bad, where Q = "\<lambda>_. True"]) (simp_all add: wf_simps)
qed

lemma state_HDRIND_ok: "dec_ok (at_state DEC_HDRIND) state_HDRIND (\<lambda>_. False)"
  unfolding state_HDRIND_def
  by (intro dec_ok_seqr [OF dec_ok_byte, where Q = "at_state DEC_HDRIND"] dec_ok_fail_then
      dec_ok_goto_then [OF state_SECONDID_ok]) (simp_all add: wf_simps)

lemma state_VCHEAD_ok: "dec_ok (at_state DEC_VCHEAD) state_VCHEAD (\<lambda>_. False)"
  unfolding state_VCHEAD_def
  by (intro dec_ok_seqr [OF dec_ok_bytes, where Q = "at_state DEC_VCHEAD"] dec_ok_fail_then
      dec_ok_goto_then [OF state_HDRIND_ok]) (simp_all add: wf_simps)

lemma finish_window_ok: "dec_ok (\<lambda>s. wf_at 9 (xd3_consume_output s)) xd3_decode_finish_window (\<lambda>_. False)"
  by (auto simp: dec_ok_def xd3_decode_finish_window_def after_return_def xd3_consume_output_def wf_simps)

text \<open>The section reader touches the input, the allocator and its own section only.\<close>

definition sect_lens :: "(xd3_dstream \<Rightarrow> xd3_desect) \<Rightarrow> (xd3_desect \<Rightarrow> xd3_dstream \<Rightarrow> xd3_dstream) \<Rightarrow> bool" where
  "sect_lens sect put \<longleftrightarrow> (\<forall>v s n. wf_at n (put v s) = wf_at n s \<and> dec_state (put v s) = dec_state s
     \<and> dec_win_ind (put v s) = dec_win_ind s \<and> dec_tgtlen (put v s) = dec_tgtlen s)"

lemma sect_lenses:
  "sect_lens data_sect (\<lambda>v. data_sect_update (\<lambda>_. v))" "sect_lens inst_sect (\<lambda>v. inst_sect_update (\<lambda>_. v))"
  "sect_lens addr_sect (\<lambda>v. addr_sect_update (\<lambda>_. v))"
  by (simp_all add: sect_lens_def wf_simps)

lemma wf_at_mem [simp]: "wf_at n (s\<lparr>mem := m\<rparr>) = wf_at n s" "wf_at n (s\<lparr>dec_winbytes := b\<rparr>) = wf_at n s"
  "wf_at n (s\<lparr>dec_state := st\<rparr>) = wf_at n s"
  by (simp_all add: wf_simps)

lemma wf_at_sections: "n = 20 \<or> n = 21 \<Longrightarrow> wf_at n s = wf_at 19 s"
  by (erule disjE) (simp_all add: wf_at_def)

lemma decode_section_ok:
  assumes l: "sect_lens sect put" and n: "dec_num st \<in> {19, 20, 21}"
  shows "dec_ok (\<lambda>s. dec_state s = st \<and> wf_at 19 s) (xd3_decode_section sect put nst copy)
     (\<lambda>s. dec_state s = nst \<and> wf_at 19 s)"
proof -
  let ?P = "\<lambda>s. dec_state s = st \<and> wf_at 19 s"
  have wf: "dec_state s = st \<Longrightarrow> wf_at 19 s \<Longrightarrow> dec_wf s" for s
    using n by (auto simp: dec_wf_def wf_at_sections)
  have a: "xd3_decode_allocate x m y = (r, m', y') \<Longrightarrow> r = None \<or> r = Some ENOMEM" for x m y r m' y'
    by (auto simp: xd3_decode_allocate_def Let_def split: option.splits prod.splits bool.splits)
  have 1: "dec_ok ?P (section_zerocopy sect put) ?P" "dec_ok ?P (section_append sect put) ?P"
    using l by (auto simp: dec_ok_def section_zerocopy_def section_append_def Let_def sect_lens_def)
  have 2: "dec_ok ?P (section_allocate sect put) ?P"
    using l by (auto simp: dec_ok_def section_allocate_def Let_def sect_lens_def
        split: prod.splits option.splits dest!: a)
  have 3: "dec_ok ?P (section_take sect put copy) ?P"
    using 1(1) dec_ok_seqr [OF 2 1(2)] wf
    unfolding dec_ok_def section_take_def by simp
  have 4: "dec_ok ?P (section_done sect put nst) (\<lambda>s. dec_state s = nst \<and> wf_at 19 s)"
    using l wf by (auto simp: dec_ok_def section_done_def Let_def sect_lens_def)
  show ?thesis unfolding xd3_decode_section_def by (rule dec_ok_seqr [OF 3 4])
qed

lemma read_sections_ok:
  "dec_ok (\<lambda>s. dec_num (dec_state s) \<in> {19, 20, 21} \<and> wf_at 19 s) (read_sections copy)
     (\<lambda>s. dec_state s = DEC_EMIT \<and> wf_at 19 s)"
proof -
  have a: "dec_ok (\<lambda>s. dec_state s = DEC_ADDR \<and> wf_at 19 s) (read_addr_sect copy)
      (\<lambda>s. dec_state s = DEC_EMIT \<and> wf_at 19 s)"
    unfolding read_addr_sect_def by (rule decode_section_ok) (simp_all add: sect_lenses)
  have i: "dec_ok (\<lambda>s. dec_state s = DEC_INST \<and> wf_at 19 s) (read_inst_sect copy)
      (\<lambda>s. dec_state s = DEC_EMIT \<and> wf_at 19 s)"
    unfolding read_inst_sect_def by (rule dec_ok_seqr [OF decode_section_ok a]) (simp_all add: sect_lenses)
  have d: "dec_ok (\<lambda>s. dec_state s = DEC_DATA \<and> wf_at 19 s) (read_data_sect copy)
      (\<lambda>s. dec_state s = DEC_EMIT \<and> wf_at 19 s)"
    unfolding read_data_sect_def by (rule dec_ok_seqr [OF decode_section_ok i]) (simp_all add: sect_lenses)
  show ?thesis
    using a i d unfolding dec_ok_def read_sections_def by (auto split: xd3_decode_state.splits)
qed

lemma setup_buffers_ok:
  "dec_ok (\<lambda>s. dec_state s = DEC_EMIT \<and> wf_at 19 s) xd3_decode_setup_buffers
     (\<lambda>s. dec_state s = DEC_EMIT \<and> wf_at 22 s)"
proof -
  have b: "unat (xd3_round_blksize n XD3_ALLOCSIZE) \<le> 134217728"
    if "unat n \<le> unat XD3_HARDMAXWINSIZE" for n
  proof -
    have n: "unat n \<le> 2 ^ 26" using that by (simp add: XD3_HARDMAXWINSIZE_def)
    have "XD3_ALLOCSIZE = 2 ^ 14" by (simp add: XD3_ALLOCSIZE_def)
    then show ?thesis using round_blksize_spec [of 14 XD3_ALLOCSIZE _ n] n by simp
  qed
  show ?thesis
    by (auto simp: dec_ok_def xd3_decode_setup_buffers_def Let_def xd3_alloc_def wf_simps b known_type_def
        pending_def copy_ok_def xd3_rtype_defs word_le_nat_alt split: bool.splits)
qed

lemma decode_sections_ok:
  "dec_ok (\<lambda>s. dec_num (dec_state s) \<in> {19, 20, 21} \<and> wf_at 19 s) xd3_decode_sections
     (\<lambda>s. dec_state s = DEC_EMIT \<and> wf_at 22 s)"
proof -
  let ?P = "\<lambda>s. dec_num (dec_state s) \<in> {19, 20, 21} \<and> wf_at 19 s"
  have f: "dec_ok (wf_at 19) xd3_decode_finish_window Q" for Q
    by (rule dec_ok_weaken [OF finish_window_ok]) (auto simp: wf_simps xd3_consume_output_def)
  have t: "dec_ok (\<lambda>s. dec_state s = DEC_EMIT \<and> wf_at 19 s)
      (\<lambda>s. if flags s AND XD3_SKIP_EMIT \<noteq> 0 then xd3_decode_finish_window s else xd3_decode_setup_buffers s)
      (\<lambda>s. dec_state s = DEC_EMIT \<and> wf_at 22 s)"
    using f setup_buffers_ok unfolding dec_ok_def by simp
  note m = dec_ok_seqr [OF read_sections_ok t]
  have wf: "?P s \<Longrightarrow> dec_wf s" for s by (auto simp: dec_wf_def wf_at_sections)
  show ?thesis
    using f m unfolding dec_ok_def xd3_decode_sections_def Let_def
    by (auto simp: dec_wf_def wf_at_sections)
qed

subsection \<open>The emit state and the whole machine\<close>

lemma SRCORTGT_source:
  assumes "SRCORTGT w" "w AND VCD_TARGET = 0"
  shows "w AND VCD_SOURCE \<noteq> 0"
proof -
  have "w AND (VCD_SOURCE OR VCD_TARGET) = w AND VCD_SOURCE"
    using assms(2) by (simp add: bit.conj_disj_distrib)
  moreover have "VCD_SOURCE \<noteq> 0" by (simp add: VCD_SOURCE_def)
  moreover have "VCD_TARGET \<noteq> 0" by (simp add: VCD_TARGET_def)
  ultimately show ?thesis using assms(1) by (auto simp: SRCORTGT_def)
qed

lemma emit_checks_ok:
  assumes "emit_inv s" "\<not> more_instructions s" "decode_emit_checks s = (r, s')"
  shows "\<exists>e. r = Some e \<and> (resumable e \<longrightarrow> e = XD3_OUTPUT \<and> dec_wf (xd3_consume_output s')
     \<and> avail_out s' = dec_tgtlen s' \<and> length (window_output s') = unat (dec_tgtlen s'))"
  using assms
  by (auto simp: decode_emit_checks_def seqr_def fail_if_def xd3_decode_finish_window_def more_instructions_def
      xd3_consume_output_def wf_simps emit_inv_def window_output_def split: if_splits)

lemma decode_emit_total:
  assumes "emit_inv s" "dec_state s = DEC_EMIT"
  shows "\<exists>e s'. xd3_decode_emit s = Some (Some e, s') \<and> (resumable e \<longrightarrow>
     (e = XD3_OUTPUT \<and> dec_wf (xd3_consume_output s') \<and> avail_out s' = dec_tgtlen s'
        \<and> length (window_output s') = unat (dec_tgtlen s'))
     \<or> (e \<noteq> XD3_OUTPUT \<and> emit_inv s' \<and> dec_state s' = DEC_EMIT))"
proof -
  obtain r s' where l: "emit_loop s = Some (r, s')" and
    n: "r = None \<longrightarrow> emit_inv s' \<and> \<not> more_instructions s'" and
    e: "\<forall>e. r = Some e \<longrightarrow> resumable e \<longrightarrow> emit_inv s' \<and> dec_state s' = dec_state s \<and> e \<noteq> XD3_OUTPUT"
    using emit_loop_total [OF assms(1)] by blast
  show ?thesis
  proof (cases r)
    case None
    obtain q t where c: "decode_emit_checks s' = (q, t)" by force
    have "emit_inv s'" "\<not> more_instructions s'" using n None by auto
    from emit_checks_ok [OF this c] show ?thesis
      using l None c by (auto simp: xd3_decode_emit_def)
  next
    case (Some e')
    then show ?thesis using l e assms(2) by (auto simp: xd3_decode_emit_def)
  qed
qed

lemma state_EMIT_total:
  assumes "at_state DEC_EMIT s"
  shows "\<exists>e s'. state_EMIT s = Some (Some e, s') \<and> (resumable e \<longrightarrow> dec_wf (after_return e s'))"
proof -
  have st: "dec_state s = DEC_EMIT" and w: "wf_at 22 s" using assms by (auto simp: at_state_def)
  have start: "\<exists>e s'. (case xd3_decode_emit t of None \<Rightarrow> None | Some (r, s') \<Rightarrow>
         Some (r, if r = Some XD3_OUTPUT then s'\<lparr>total_out := total_out s' + avail_out s'\<rparr> else s'))
       = Some (Some e, s') \<and> (resumable e \<longrightarrow> dec_wf (after_return e s'))"
    if t: "emit_inv t" "dec_state t = DEC_EMIT" for t
  proof -
    obtain e s' where d: "xd3_decode_emit t = Some (Some e, s')" and r: "resumable e \<longrightarrow>
       (e = XD3_OUTPUT \<and> dec_wf (xd3_consume_output s')) \<or> (e \<noteq> XD3_OUTPUT \<and> emit_inv s' \<and> dec_state s' = DEC_EMIT)"
      using decode_emit_total [OF t] by blast
    have "dec_wf (xd3_consume_output (s'\<lparr>total_out := x\<rparr>)) = dec_wf (xd3_consume_output s')" for x
      by (simp add: xd3_consume_output_def wf_simps)
    moreover have "dec_wf s'" if "emit_inv s'" "dec_state s' = DEC_EMIT"
      using that by (auto simp: emit_inv_def window_ok_def copy_window_ok_def wf_simps)
    ultimately show ?thesis using d r by (auto simp: after_return_def)
  qed
  show ?thesis
  proof (cases "dec_win_ind s AND VCD_SOURCE \<noteq> 0")
    case True
    show ?thesis
    proof (cases "src s")
      case None
      then show ?thesis using True by (simp add: state_EMIT_def seqo_def)
    next
      case (Some source)
      obtain b o' where d: "xd3_blksize_div (dec_cpyoff s) (unat (shiftby source)) (maskby source) = (b, o')"
        by force
      let ?t = "s\<lparr>src := Some (source\<lparr>cpyoff_blocks := b, cpyoff_blkoff := o'\<rparr>)\<rparr>"
      have "source_wf (source\<lparr>cpyoff_blocks := b, cpyoff_blkoff := o'\<rparr>)"
        using w Some by (auto simp: wf_at_def sources_ok_def source_wf_def)
      then have "emit_inv ?t"
        using w by (auto simp: wf_simps emit_inv_def window_ok_def)
      moreover have "dec_state ?t = DEC_EMIT" using st by simp
      ultimately show ?thesis
        using start [of ?t] True Some d by (simp add: state_EMIT_def seqo_def)
    qed
  next
    case False
    then have "emit_inv s"
      using w SRCORTGT_source [of "dec_win_ind s"]
      by (auto simp: wf_simps emit_inv_def window_ok_def)
    from start [OF this st] show ?thesis using False by (simp add: state_EMIT_def seqo_def)
  qed
qed

lemma dec_ok_total:
  assumes "dec_ok P f (\<lambda>_. False)" "P s"
  shows "\<exists>e s'. f s = (Some e, s') \<and> (resumable e \<longrightarrow> dec_wf (after_return e s'))"
proof -
  obtain r t where f: "f s = (r, t)" by (rule prod.exhaust)
  have "case f s of (None, s') \<Rightarrow> False | (Some r, s') \<Rightarrow> resumable r \<longrightarrow> dec_wf (after_return r s')"
    using assms(1) [unfolded dec_ok_def, rule_format, OF assms(2)] .
  then show ?thesis using f by (cases r) simp_all
qed

lemmas header_states_total =
  dec_ok_total [OF state_VCHEAD_ok] dec_ok_total [OF state_HDRIND_ok] dec_ok_total [OF state_SECONDID_ok]
  dec_ok_total [OF state_TABLEN_ok] dec_ok_total [OF state_NEAR_ok] dec_ok_total [OF state_SAME_ok]
  dec_ok_total [OF state_TABDAT_ok] dec_ok_total [OF state_APPLEN_ok] dec_ok_total [OF state_APPDAT_ok]
  dec_ok_total [OF state_WININD_ok] dec_ok_total [OF state_CPYLEN_ok] dec_ok_total [OF state_CPYOFF_ok]
  dec_ok_total [OF state_ENCLEN_ok] dec_ok_total [OF state_TGTLEN_ok] dec_ok_total [OF state_DELIND_ok]
  dec_ok_total [OF state_DATALEN_ok] dec_ok_total [OF state_INSTLEN_ok] dec_ok_total [OF state_ADDRLEN_ok]
  dec_ok_total [OF state_CKSUM_ok]

lemma state_DATA_total:
  assumes "dec_num (dec_state s) \<in> {19, 20, 21}" "wf_at 19 s"
  shows "\<exists>e s'. state_DATA s = Some (Some e, s') \<and> (resumable e \<longrightarrow> dec_wf (after_return e s'))"
proof -
  obtain r t where d: "xd3_decode_sections s = (r, t)" by force
  have ok: "case r of None \<Rightarrow> dec_state t = DEC_EMIT \<and> wf_at 22 t | Some e \<Rightarrow> resumable e \<longrightarrow> dec_wf (after_return e t)"
    using decode_sections_ok [unfolded dec_ok_def, rule_format, of s] assms d by (cases r) auto
  show ?thesis
  proof (cases r)
    case None
    then have "at_state DEC_EMIT t" using ok by (simp add: at_state_def)
    from state_EMIT_total [OF this] show ?thesis using d None by (simp add: state_DATA_def seqo_def)
  next
    case (Some e)
    then show ?thesis using ok d by (simp add: state_DATA_def seqo_def)
  qed
qed

lemma decode_input_total:
  assumes "dec_wf s"
  shows "\<exists>e s'. xd3_decode_input s = Some (Some e, s') \<and> (resumable e \<longrightarrow> dec_wf (after_return e s'))"
proof (cases "encoding s")
  case True
  then show ?thesis by (simp add: xd3_decode_input_def)
next
  case False
  have at: "at_state (dec_state s) s" using assms by (simp add: at_state_def dec_wf_def)
  have fin: "dec_state s = DEC_FINISH \<Longrightarrow> dec_wf (snd (state_FINISH s))"
    using assms by (simp add: state_FINISH_def wf_simps)
  have sec: "dec_num (dec_state s) \<in> {19, 20, 21} \<Longrightarrow> wf_at 19 s"
    using assms by (auto simp: dec_wf_def wf_at_sections)
  have tab: "wf_at 3 s" if "at_state DEC_SECONDID s \<or> at_state DEC_TABLEN s"
    using that by (auto simp: at_state_def wf_at_def)
  show ?thesis
    using False at fin
    by (cases "dec_state s")
      (simp_all add: xd3_decode_input_def header_states_total tab state_DATA_total sec state_EMIT_total,
       simp add: state_FINISH_def)
qed

lemma decoder_stream_wf:
  assumes "\<And>x. source = Some x \<Longrightarrow> source_wf x" "getblk_wf g"
  shows "dec_wf (xd3_avail_input inp (decoder_stream m fl source g))"
  using assms by (auto simp: xd3_avail_input_def decoder_stream_def wf_simps empty_hinst_def)

lemma getblk_wf_None [simp]: "getblk_wf None"
  by (simp add: getblk_wf_def)

lemma emit_checks_verified:
  assumes "decode_emit_checks s = (Some XD3_OUTPUT, s')"
  shows "avail_out s' = dec_tgtlen s' \<and> sbuf (data_sect s') = [] \<and> sbuf (addr_sect s') = []
    \<and> (dec_win_ind s' AND VCD_ADLER32 \<noteq> 0 \<longrightarrow> flags s' AND XD3_ADLER32_NOVER = 0 \<longrightarrow>
        adler32 1 (window_output s') = dec_adler32 s')"
  using assms
  by (auto simp: decode_emit_checks_def seqr_def fail_if_def xd3_decode_finish_window_def window_output_def
      split: if_splits)

subsection \<open>Properties\<close>



text \<open>C7. What \<open>XD3_OUTPUT\<close> promises: when the emit loop reports a window, the window has exactly the
  announced target length, both remaining sections have been used up, and the Adler-32 of the bytes
  delivered is the one stored in the delta unless verification is disabled.\<close>

theorem decode_emit_verified:
  assumes "emit_inv s" "xd3_decode_emit s = Some (Some XD3_OUTPUT, s')"
  shows "length (window_output s') = unat (dec_tgtlen s') \<and> sbuf (data_sect s') = [] \<and> sbuf (addr_sect s') = []
    \<and> (dec_win_ind s' AND VCD_ADLER32 \<noteq> 0 \<longrightarrow> flags s' AND XD3_ADLER32_NOVER = 0 \<longrightarrow>
        adler32 1 (window_output s') = dec_adler32 s')"
proof -
  obtain r t where l: "emit_loop s = Some (r, t)" and n: "r = None \<longrightarrow> emit_inv t \<and> \<not> more_instructions t"
    and e: "\<forall>e. r = Some e \<longrightarrow> resumable e \<longrightarrow> e \<noteq> XD3_OUTPUT"
    using emit_loop_total [OF assms(1)] by blast
  have "r = None" using assms(2) l e by (cases r) (auto simp: xd3_decode_emit_def)
  then have c: "decode_emit_checks t = (Some XD3_OUTPUT, s')" using assms(2) l by (simp add: xd3_decode_emit_def)
  have "length (window_output s') = unat (dec_tgtlen s')"
    using emit_checks_ok [OF _ _ c] n \<open>r = None\<close> by auto
  then show ?thesis using emit_checks_verified [OF c] by blast
qed

text \<open>A window of two literal bytes: one ADD instruction (code 3).\<close>

definition add_window :: xd3_dstream where
  "add_window = (decoder_stream \<lparr>alloc_ok = \<lambda>_. True, alloc_cnt = 0, enc_free = 0\<rparr> 0 None None)
     \<lparr>acache := rfc3284_cache, code_table := xd3_rfc3284_code_table, dec_state := DEC_EMIT, space_out := 16384,
      dec_tgtlen := 2, dec_maxpos := 2, inst_sect := empty_desect\<lparr>sbuf := [3]\<rparr>,
      data_sect := empty_desect\<lparr>sbuf := [10, 20]\<rparr>\<rparr>"

lemma add_window_inv: "emit_inv add_window"
  by (simp add: add_window_def decoder_stream_def emit_inv_defs rfc3284_cache_def xd3_init_cache_def
      cache_wf_def empty_hinst_def known_type_def copy_ok_def pending_def xd3_rtype_defs word_le_nat_alt)

lemma table_entry_3: "xd3_rfc3284_code_table ! 3 = single XD3_ADD 2"
  using code_table_nth [of 3] by (simp add: rfc3284_entry_def)

lemma add_window_emits:
  "\<exists>s'. xd3_decode_emit add_window = Some (Some XD3_OUTPUT, s') \<and> window_output s' = [10, 20]"
proof -
  have ov: "\<not> USIZE_T_OVERFLOW 0 2" by (simp add: not_overflow)
  have e: "emit_loop add_window = Some (None, add_window\<lparr>inst_sect := empty_desect, data_sect := empty_desect,
      dec_position := 2, avail_out := 2, next_out := [10, 20],
      dec_current1 := \<lparr>htype = XD3_NOOP, hsize = 2, haddr = 0\<rparr>\<rparr>)"
    by (subst emit_loop.simps, simp add: add_window_def decoder_stream_def more_instructions_def
        next_instruction_def empty_hinst_def empty_desect_def xd3_decode_instruction_def table_entry_3 single_def
        parse_current1_def parse_current2_def xd3_decode_parse_halfinst_def parse_size_def parse_address_def
        xd3_rtype_defs word_le_nat_alt seqr_def,
       subst output_loop1.simps, simp add: xd3_rtype_defs xd3_decode_output_halfinst_def ov output_add_def write_out_def
        noop_def,
       subst output_loop1.simps, simp add: xd3_rtype_defs,
       subst output_loop2.simps, simp add: xd3_rtype_defs,
       subst emit_loop.simps, simp add: more_instructions_def xd3_rtype_defs)
  show ?thesis
    unfolding xd3_decode_emit_def e
    by (simp add: decode_emit_checks_def seqr_def fail_if_def xd3_decode_finish_window_def
      add_window_def decoder_stream_def empty_desect_def window_output_def)
qed

theorem decode_emit_verified_witness:
  "\<exists>s'. xd3_decode_emit add_window = Some (Some XD3_OUTPUT, s')
     \<and> window_output s' = [10, 20] \<and> length (window_output s') = unat (dec_tgtlen s')"
proof -
  obtain s' where e: "xd3_decode_emit add_window = Some (Some XD3_OUTPUT, s')" and o: "window_output s' = [10, 20]"
    using add_window_emits by blast
  show ?thesis using decode_emit_verified [OF add_window_inv e] e o by blast
qed

end
