(* ===== verification/Xd3_Hash.thy ===== *)
theory Xd3_Hash
  imports Prelude Xd3_Output
begin

section \<open>Checksums of the string matcher (xdelta3-hash.h)\<close>

text \<open>
  The small checksum of four bytes, the large rolling checksum (a Rabin-Karp polynomial modulo
  \<open>2 ^ 64\<close>) and the sizing of the two hash tables. Four bytes are read as a little-endian word, as on
  the machines the repository builds for.

  \<open>1U << i\<close> is a 32-bit shift, undefined in C for \<open>i \<ge> 32\<close>: \<open>shl32\<close> returns \<open>None\<close> there. The
  theorems show that it stays defined for tables of fewer than \<open>2 ^ 31\<close> slots.
\<close>

definition xd3_hash_multiplier32 :: u32 where "xd3_hash_multiplier32 = 1597334677"
definition xd3_hash_multiplier64 :: u64 where "xd3_hash_multiplier64 = 1181783497276652981"

record xd3_hash_cfg =
  hsize :: usize_t
  shift :: usize_t
  hmask :: usize_t
  look :: usize_t
  multiplier :: usize_t
  powers :: "usize_t list"

text \<open>\<open>UNALIGNED_READ32\<close>\<close>

definition UNALIGNED_READ32 :: "bytes \<Rightarrow> u32" where
  "UNALIGNED_READ32 b =
     ucast (b ! 0) OR push_bit 8 (ucast (b ! 1)) OR push_bit 16 (ucast (b ! 2)) OR push_bit 24 (ucast (b ! 3))"

text \<open>\<open>xd3_scksum (&state, base, look)\<close> and \<open>xd3_small_cksum_update\<close>: the value of \<open>state\<close> is the word
  read, so only the product is kept. \<open>inp\<close> are the bytes from the pointer on.\<close>

definition xd3_scksum :: "bytes \<Rightarrow> u32" where
  "xd3_scksum inp = UNALIGNED_READ32 inp * xd3_hash_multiplier32"

definition xd3_small_cksum_update :: "bytes \<Rightarrow> u32" where
  "xd3_small_cksum_update inp = UNALIGNED_READ32 (drop 1 inp) * xd3_hash_multiplier32"

definition xd3_checksum_hash :: "xd3_hash_cfg \<Rightarrow> usize_t \<Rightarrow> usize_t" where
  "xd3_checksum_hash cfg cksum = drop_bit (unat (shift cfg)) cksum XOR (cksum AND hmask cfg)"

text \<open>The loop of \<open>xd3_large64_cksum\<close>, from index \<open>i\<close> on.\<close>

fun large_cksum_loop :: "usize_t list \<Rightarrow> bytes \<Rightarrow> u64 \<Rightarrow> u64" where
  "large_cksum_loop (p # ps) (b # bs) h = large_cksum_loop ps bs (h + ucast b * p)"
| "large_cksum_loop _ _ h = h"

definition xd3_large64_cksum :: "xd3_hash_cfg \<Rightarrow> bytes \<Rightarrow> nat \<Rightarrow> u64" where
  "xd3_large64_cksum cfg inp lk = large_cksum_loop (take lk (powers cfg)) (take lk inp) 0"

definition xd3_large64_cksum_update :: "xd3_hash_cfg \<Rightarrow> u64 \<Rightarrow> bytes \<Rightarrow> nat \<Rightarrow> u64" where
  "xd3_large64_cksum_update cfg cksum inp lk =
     xd3_hash_multiplier64 * cksum - multiplier cfg * ucast (inp ! 0) + ucast (inp ! lk)"

definition shl32 :: "nat \<Rightarrow> u32 option" where
  "shl32 i = (if i < 32 then Some (push_bit i 1) else None)"

text \<open>The search of \<open>xd3_size_hashtable_bits\<close> from \<open>i\<close> up to 63.\<close>

function size_hashtable_loop :: "usize_t \<Rightarrow> nat \<Rightarrow> nat option" where
  "size_hashtable_loop slots i =
     (if i \<le> 63 then
        case shl32 i of
          None \<Rightarrow> None
        | Some n \<Rightarrow> if slots < ucast n then Some (i - 1) else size_hashtable_loop slots (i + 1)
      else Some 63)"
  by pat_completeness auto
termination by (relation "measure (\<lambda>(slots, i). 64 - i)") auto

declare size_hashtable_loop.simps [simp del]

definition xd3_size_hashtable_bits :: "usize_t \<Rightarrow> nat option" where
  "xd3_size_hashtable_bits slots = size_hashtable_loop slots 3"

text \<open>\<open>powers[look - 1] = 1\<close> and \<open>powers[i] = powers[i + 1] * K\<close> downwards.\<close>

fun hash_powers :: "nat \<Rightarrow> usize_t list" where
  "hash_powers 0 = []"
| "hash_powers (Suc 0) = [1]"
| "hash_powers (Suc (Suc n)) = hd (hash_powers (Suc n)) * xd3_hash_multiplier64 # hash_powers (Suc n)"

text \<open>\<open>xd3_size_hashtable\<close>; the outer \<open>None\<close> is the undefined shift. An allocation failure leaves the
  sizes set and \<open>powers\<close> empty.\<close>

definition xd3_size_hashtable ::
  "usize_t \<Rightarrow> usize_t \<Rightarrow> xd3_mem \<Rightarrow> (xd3_ret \<times> xd3_mem \<times> xd3_hash_cfg) option" where
  "xd3_size_hashtable slots lk m =
     (case xd3_size_hashtable_bits slots of None \<Rightarrow> None
      | Some bits \<Rightarrow>
          (case shl32 bits of None \<Rightarrow> None
           | Some sz \<Rightarrow>
               let cfg = \<lparr>hsize = ucast sz, shift = 64 - of_nat bits, hmask = ucast sz - 1, look = lk,
                          multiplier = 0, powers = []\<rparr>
               in case xd3_alloc m of
                    (False, m') \<Rightarrow> Some (Some ENOMEM, m', cfg)
                  | (True, m') \<Rightarrow>
                      let ps = hash_powers (unat lk)
                      in Some (None, m', cfg\<lparr>powers := ps, multiplier := hd ps * xd3_hash_multiplier64\<rparr>)))"

subsection \<open>The rolling checksum\<close>

lemma length_hash_powers [simp]: "length (hash_powers n) = n"
  by (induction n rule: hash_powers.induct) simp_all

lemma hd_hash_powers: "hd (hash_powers (Suc n)) = xd3_hash_multiplier64 ^ n"
  by (induction n) (simp_all add: mult.commute)

text \<open>The polynomial a window stands for, evaluated from the left.\<close>

definition horner :: "bytes \<Rightarrow> u64" where
  "horner bs = foldl (\<lambda>h b. h * xd3_hash_multiplier64 + ucast b) 0 bs"

lemma foldl_horner:
  "foldl (\<lambda>h b. h * xd3_hash_multiplier64 + ucast b) h bs
     = h * xd3_hash_multiplier64 ^ length bs + horner bs"
  unfolding horner_def
proof (induction bs rule: rev_induct)
  case (snoc b bs)
  then show ?case by (simp add: distrib_right mult.assoc)
qed simp

lemma horner_simps [simp]:
  "horner [] = 0"
  "horner (b # bs) = ucast b * xd3_hash_multiplier64 ^ length bs + horner bs"
  using foldl_horner [of "ucast b" bs] by (simp_all add: horner_def)

lemma horner_snoc: "horner (bs @ [b]) = horner bs * xd3_hash_multiplier64 + ucast b"
  by (simp add: horner_def)

lemma large_cksum_loop_horner:
  "length bs = n \<Longrightarrow> large_cksum_loop (hash_powers n) bs h = h + horner bs"
proof (induction n arbitrary: bs h rule: hash_powers.induct)
  case 2
  then show ?case by (cases bs) auto
next
  case (3 n)
  then obtain b bs' where bs: "bs = b # bs'" "length bs' = Suc n" by (cases bs) auto
  have "hd (hash_powers (Suc n)) = xd3_hash_multiplier64 ^ n"
    by (rule hd_hash_powers)
  then show ?case using "3.IH" bs by (simp add: algebra_simps)
qed simp

lemma size_hashtable_fields:
  assumes "xd3_size_hashtable slots lk m = Some (None, m', cfg)"
  shows "powers cfg = hash_powers (unat lk)" "multiplier cfg = hd (hash_powers (unat lk)) * xd3_hash_multiplier64"
    "look cfg = lk"
  using assms by (auto simp: xd3_size_hashtable_def Let_def split: option.splits prod.splits bool.splits)

lemma large_cksum_horner:
  assumes "powers cfg = hash_powers n" "n \<le> length inp"
  shows "xd3_large64_cksum cfg inp n = horner (take n inp)"
  using assms by (simp add: xd3_large64_cksum_def large_cksum_loop_horner)

lemma large_cksum_roll:
  assumes "powers cfg = hash_powers n" "multiplier cfg = hd (hash_powers n) * xd3_hash_multiplier64"
    "0 < n" "n < length inp"
  shows "xd3_large64_cksum_update cfg (xd3_large64_cksum cfg inp n) inp n
           = xd3_large64_cksum cfg (drop 1 inp) n"
proof -
  obtain b bs where inp: "inp = b # bs" "n \<le> length bs" using assms(4) by (cases inp) auto
  obtain k where n: "n = Suc k" using assms(3) by (cases n) auto
  have hd: "hd (hash_powers n) = xd3_hash_multiplier64 ^ k" by (simp only: n hd_hash_powers)
  have "take n bs = take k bs @ [bs ! k]" using inp n by (simp add: take_Suc_conv_app_nth)
  then have "xd3_large64_cksum cfg (drop 1 inp) n = horner (take k bs) * xd3_hash_multiplier64 + ucast (bs ! k)"
    using inp assms(1) by (simp add: large_cksum_horner horner_snoc)
  moreover have "xd3_large64_cksum cfg inp n = ucast b * xd3_hash_multiplier64 ^ k + horner (take k bs)"
    using inp assms(1) n by (simp add: large_cksum_horner)
  ultimately show ?thesis
    using inp n hd by (simp add: xd3_large64_cksum_update_def assms(2) algebra_simps)
qed

subsection \<open>Table sizes\<close>

lemma size_hashtable_loop_spec:
  assumes "unat slots < 2 ^ 31"
  shows "3 \<le> i \<Longrightarrow> i \<le> 31 \<Longrightarrow> 2 ^ (i - 1) \<le> unat slots \<or> i = 3 \<Longrightarrow>
    \<exists>b. size_hashtable_loop slots i = Some b \<and> 2 \<le> b \<and> b \<le> 30
      \<and> unat slots < 2 ^ (b + 1) \<and> (2 ^ b \<le> unat slots \<or> b = 2)"
proof (induction "31 - i" arbitrary: i)
  case 0
  have "(slots < ucast (push_bit 31 (1 :: u32))) = (unat slots < 2 ^ 31)"
    by (simp add: word_less_nat_alt)
  then show ?case using 0 assms by (subst size_hashtable_loop.simps) (simp add: shl32_def)
next
  case (Suc k)
  have i: "i < 31" using Suc(2) by simp
  have "unat (ucast (push_bit i (1 :: u32)) :: u64) = 2 ^ i"
  proof -
    have "unat (push_bit i (1 :: u32)) = 2 ^ i"
    proof -
      have "(2::nat) ^ i < 2 ^ 32" using i by (intro power_strict_increasing) auto
      then show ?thesis by (subst unat_push_bit_mult) simp_all
    qed
    moreover have "unat (ucast x :: u64) = unat x" for x :: u32
    proof -
      have "unat x < 2 ^ 32" using unsigned_less [of x, where 'a = nat] by simp
      then show ?thesis by (simp add: unsigned_ucast_eq take_bit_nat_eq_self)
    qed
    ultimately show ?thesis by simp
  qed
  then have c: "slots < ucast (push_bit i (1 :: u32)) \<longleftrightarrow> unat slots < 2 ^ i"
    by (simp only: word_less_nat_alt)
  show ?case
  proof (cases "unat slots < 2 ^ i")
    case True
    moreover have "2 * 2 ^ (i - 1) = (2 :: nat) ^ i" using Suc.prems(1) by (cases i) auto
    ultimately show ?thesis using Suc.prems i c
      by (subst size_hashtable_loop.simps) (auto simp: shl32_def)
  next
    case False
    have "\<exists>b. size_hashtable_loop slots (i + 1) = Some b \<and> 2 \<le> b \<and> b \<le> 30
      \<and> unat slots < 2 ^ (b + 1) \<and> (2 ^ b \<le> unat slots \<or> b = 2)"
      by (rule Suc.hyps(1)) (use Suc.hyps(2) Suc.prems i False in auto)
    then show ?thesis using i c False
      by (subst size_hashtable_loop.simps) (simp add: shl32_def)
  qed
qed

lemma hashtable_bits_spec:
  "unat slots < 2 ^ 31 \<Longrightarrow> \<exists>b. xd3_size_hashtable_bits slots = Some b \<and> 2 \<le> b \<and> b \<le> 30
     \<and> unat slots < 2 ^ (b + 1) \<and> (2 ^ b \<le> unat slots \<or> b = 2)"
  using size_hashtable_loop_spec [of slots 3] by (simp add: xd3_size_hashtable_bits_def)

lemma hash_index_bound:
  assumes b: "bits \<le> 30" and s: "shift cfg = 64 - of_nat bits" and m: "hmask cfg = 2 ^ bits - 1"
  shows "unat (xd3_checksum_hash cfg cksum) < 2 ^ bits"
proof -
  have sh: "unat (shift cfg) = 64 - bits"
    using b by (simp add: s) (subst unat_sub_le, simp_all add: unat_of_nat_less)
  have mk: "hmask cfg = mask bits" by (simp add: m mask_eq_exp_minus_1)
  have t: "take_bit bits (xd3_checksum_hash cfg cksum) = xd3_checksum_hash cfg cksum"
    using b by (intro bit_word_eqI)
      (auto simp: xd3_checksum_hash_def sh mk bit_simps dest: bit_imp_le_length)
  have "unat (xd3_checksum_hash cfg cksum) = unat (xd3_checksum_hash cfg cksum) mod 2 ^ bits"
    using arg_cong [OF t, of unat] by (simp only: unat_take_bit_mod)
  then show ?thesis by (metis mod_less_divisor zero_less_numeral zero_less_power)
qed

lemma shl32_le30:
  assumes "bits \<le> 30"
  shows "shl32 bits = Some (2 ^ bits)" "(ucast (2 ^ bits :: u32) :: u64) = 2 ^ bits"
proof -
  show "shl32 bits = Some (2 ^ bits)" using assms by (simp add: shl32_def)
  have "(2::nat) ^ bits < 2 ^ 32" using assms by (intro power_strict_increasing) auto
  moreover have "(2::nat) ^ bits < 2 ^ 64" using assms by (intro power_strict_increasing) auto
  ultimately show "(ucast (2 ^ bits :: u32) :: u64) = 2 ^ bits"
    using assms by (intro bit_word_eqI) (auto simp: bit_simps)
qed

text \<open>The table a successful \<open>xd3_size_hashtable\<close> prepares: its size and the range of its indices.\<close>

lemma size_hashtable_ok:
  assumes "unat slots < 2 ^ 31" "xd3_size_hashtable slots lk m = Some (r, m', cfg)"
  obtains bits where "2 \<le> bits" "bits \<le> 30" "hsize cfg = 2 ^ bits"
    "unat slots < 2 ^ (bits + 1)" "\<And>c. unat (xd3_checksum_hash cfg c) < unat (hsize cfg)"
proof -
  obtain b where b: "xd3_size_hashtable_bits slots = Some b" "2 \<le> b" "b \<le> 30" "unat slots < 2 ^ (b + 1)"
    using hashtable_bits_spec [OF assms(1)] by auto
  have cfg: "hsize cfg = 2 ^ b" "shift cfg = 64 - of_nat b" "hmask cfg = 2 ^ b - 1"
    using assms(2) b(1) shl32_le30 [OF b(3)]
    by (auto simp: xd3_size_hashtable_def Let_def split: prod.splits bool.splits)
  have p: "(2::nat) ^ b < 2 ^ 64" using b(3) by (intro power_strict_increasing) auto
  then have "unat (2 ^ b :: u64) = 2 ^ b" using unat_of_nat_less [of "2 ^ b", where 'a = 64] by simp
  then have "\<And>c. unat (xd3_checksum_hash cfg c) < unat (hsize cfg)"
    using hash_index_bound [OF b(3) cfg(2,3)] cfg(1) by simp
  then show thesis using that [OF b(2,3) cfg(1) b(4)] by blast
qed

lemma size_hashtable_total:
  assumes "unat slots < 2 ^ 31"
  shows "\<exists>r m' cfg. xd3_size_hashtable slots lk m = Some (r, m', cfg)"
proof -
  obtain b where b: "xd3_size_hashtable_bits slots = Some b" "b \<le> 30"
    using hashtable_bits_spec [OF assms(1)] by auto
  then show ?thesis using shl32_le30 [OF b(2)]
    by (cases "xd3_alloc m") (auto simp: xd3_size_hashtable_def Let_def split: bool.splits)
qed

subsection \<open>Properties\<close>

text \<open>C30. The incremental update of the large checksum is the checksum of the next window: with the
  powers that \<open>xd3_size_hashtable\<close> prepares for \<open>look\<close> bytes, updating the checksum of the bytes at
  \<open>inp\<close> gives what \<open>xd3_large64_cksum\<close> computes from scratch one byte further.\<close>

theorem large_cksum_update_rolls:
  assumes "xd3_size_hashtable slots lk m = Some (None, m', cfg)" "0 < unat lk" "unat lk < length inp"
  shows "xd3_large64_cksum_update cfg (xd3_large64_cksum cfg inp (unat lk)) inp (unat lk)
           = xd3_large64_cksum cfg (drop 1 inp) (unat lk)"
  using large_cksum_roll size_hashtable_fields [OF assms(1)] assms(2,3) by metis

theorem large_cksum_update_rolls_witness:
  "\<exists>cfg. xd3_size_hashtable 100 9 \<lparr>alloc_ok = \<lambda>_. True, alloc_cnt = 0, enc_free = 0\<rparr>
       = Some (None, \<lparr>alloc_ok = \<lambda>_. True, alloc_cnt = 1, enc_free = 0\<rparr>, cfg)
     \<and> xd3_large64_cksum_update cfg (xd3_large64_cksum cfg [1,2,3,4,5,6,7,8,9,10] (unat (9 :: u64)))
         [1,2,3,4,5,6,7,8,9,10] (unat (9 :: u64))
       = xd3_large64_cksum cfg (drop 1 [1,2,3,4,5,6,7,8,9,10]) (unat (9 :: u64))"
proof -
  define m0 where "m0 = \<lparr>alloc_ok = \<lambda>_. True, alloc_cnt = 0, enc_free = 0\<rparr>"
  obtain cfg where c: "xd3_size_hashtable 100 9 m0 = Some (None, m0\<lparr>alloc_cnt := 1\<rparr>, cfg)"
    using size_hashtable_total [of 100 9 m0]
    by (auto simp: m0_def xd3_size_hashtable_def xd3_alloc_def Let_def split: option.splits)
  show ?thesis
    using c large_cksum_update_rolls [OF c, of "[1,2,3,4,5,6,7,8,9,10]"] by (auto simp: m0_def)
qed

text \<open>For fewer than \<open>2 ^ 31\<close> slots the sizing of a hash table uses no undefined shift, asks for at
  least four buckets and more than half the number of slots, and every value of
  \<open>xd3_checksum_hash\<close> is the index of a bucket.\<close>

theorem hashtable_index_in_range:
  assumes "unat slots < 2 ^ 31"
  shows "\<exists>r m' cfg. xd3_size_hashtable slots lk m = Some (r, m', cfg) \<and> 4 \<le> unat (hsize cfg)
     \<and> unat slots < 2 * unat (hsize cfg) \<and> (\<forall>c. unat (xd3_checksum_hash cfg c) < unat (hsize cfg))"
proof -
  obtain r m' cfg where e: "xd3_size_hashtable slots lk m = Some (r, m', cfg)"
    using size_hashtable_total [OF assms] by blast
  obtain bits where b: "2 \<le> bits" "bits \<le> 30" "hsize cfg = 2 ^ bits"
    "unat slots < 2 ^ (bits + 1)" "\<And>c. unat (xd3_checksum_hash cfg c) < unat (hsize cfg)"
    using size_hashtable_ok [OF assms e] by blast
  have "(2::nat) ^ bits < 2 ^ 64" using b(2) by (intro power_strict_increasing) auto
  then have u: "unat (hsize cfg) = 2 ^ bits" using unat_of_nat_less [of "2 ^ bits", where 'a = 64] b(3) by simp
  have "(2::nat) ^ 2 \<le> 2 ^ bits" using b(1) by (intro power_increasing) auto
  then show ?thesis using e b(4,5) u by auto
qed

theorem hashtable_index_in_range_witness:
  "\<exists>r m' cfg. xd3_size_hashtable 1000 4 \<lparr>alloc_ok = \<lambda>_. False, alloc_cnt = 0, enc_free = 0\<rparr> = Some (r, m', cfg)
     \<and> 4 \<le> unat (hsize cfg) \<and> unat (1000 :: u64) < 2 * unat (hsize cfg)
     \<and> (\<forall>c. unat (xd3_checksum_hash cfg c) < unat (hsize cfg))"
  by (rule hashtable_index_in_range) simp

end
