(* ===== verification/Xd3_Iopt.thy ===== *)
theory Xd3_Iopt
  imports Prelude Xd3_CodeTable Xd3_Output Xd3_AddrCache Xd3_Source Xd3_Hash Xd3_Decode
begin

section \<open>The encoder's stream and its instruction buffer (xdelta3.c, "Encoder stuff")\<close>

text \<open>
  The encoder's fields of \<open>struct _xd3_stream\<close>, the buffer of pending instructions (\<open>iopt_used\<close>), its
  optimisation (\<open>xd3_iopt_flush_instructions\<close>), and the emission of instructions into the four output
  sections.

  Lists of instructions: \<open>iopt_used\<close> is the list of the instructions in the order of the intrusive
  list; the elements of \<open>iopt_free\<close> carry no information, the field counts them. An instruction is
  passed by value: the pointer \<open>stream->iout\<close> may point to a local variable of
  \<open>xd3_iopt_add_encoding\<close>, but only until the call of \<open>xd3_iopt_finish_encoding\<close> that follows, so the
  value is all that matters. A slot taken from the free list starts with zero in the fields its user
  does not set; none of them is read before it is written.

  \<open>ein\<close> are the \<open>avail_in\<close> bytes at \<open>next_in\<close>, \<open>ein_set\<close> says that \<open>next_in\<close> is not \<open>NULL\<close>. The assertions
  \<open>XD3_ASSERT\<close> are no code in this build (\<open>XD3_DEBUG\<close> is 0). The elements of \<open>small_prev\<close> are \<open>None\<close>
  until they are written: \<open>xd3_alloc\<close> does not clear the memory.
\<close>

definition MAX_MATCH_SPLIT :: usize_t where "MAX_MATCH_SPLIT = 18"
definition LEAST_MATCH_INCR :: usize_t where "LEAST_MATCH_INCR = 0"
definition MIN_RUN :: usize_t where "MIN_RUN = 8"
definition HASH_CKOFFSET :: usize_t where "HASH_CKOFFSET = 1"

datatype xd3_encode_state =
    ENC_INIT | ENC_INPUT | ENC_SEARCH | ENC_INSTR | ENC_FLUSH | ENC_POSTOUT | ENC_POSTWIN | ENC_ABORTED

datatype xd3_match_state = MATCH_TARGET | MATCH_BACKWARD | MATCH_FORWARD | MATCH_SEARCHING

record xd3_smatcher =
  large_look :: usize_t
  large_step :: usize_t
  small_look :: usize_t
  small_chain :: usize_t
  small_lchain :: usize_t
  max_lazy :: usize_t
  long_enough :: usize_t

record xd3_estream =
  emem :: xd3_mem
  ein :: bytes
  ein_set :: bool
  etotal_in :: xoff_t
  eout :: bytes
  eavail_out :: usize_t
  etotal_out :: xoff_t
  ewindow :: xoff_t
  esrc :: "xd3_source option"
  winsize :: usize_t
  sprevsz :: usize_t
  sprevmask :: usize_t
  iopt_size :: usize_t
  iopt_unlimited :: bool
  egetblk :: "getblk_func option"
  eflags :: u32
  smatcher :: xd3_smatcher
  large_table :: "usize_t list option"
  large_hash :: xd3_hash_cfg
  small_table :: "usize_t list option"
  small_prev :: "usize_t option list option"
  small_reset :: bool
  small_hash :: xd3_hash_cfg
  eacache :: xd3_addr_cache
  enc_state :: xd3_encode_state
  taroff :: usize_t
  input_position :: usize_t
  min_match :: usize_t
  unencoded_offset :: usize_t
  srcwin_decided :: bool
  srcwin_decided_early :: bool
  srcwin_cksum_pos :: xoff_t
  match_state :: xd3_match_state
  match_srcpos :: xoff_t
  match_last_srcpos :: xoff_t
  match_minaddr :: xoff_t
  match_maxaddr :: xoff_t
  match_back :: usize_t
  match_maxback :: usize_t
  match_fwd :: usize_t
  match_maxfwd :: usize_t
  maxsrcaddr :: xoff_t
  buf_in :: bool
  buf :: bytes
  buf_leftover :: "bytes option"
  enc_current :: "xd3_output list"
  hdr_chain :: xd3_chain
  inst_chain :: xd3_chain
  data_chain :: xd3_chain
  addr_chain :: xd3_chain
  recode_adler32 :: u32
  iopt_used :: "xd3_rinst list"
  iopt_free :: nat
  iout :: "xd3_rinst option"
  enc_appheader :: "bytes option"
  ecode_table :: "xd3_dinst list"
  decoding :: bool
  n_scpy :: usize_t
  n_tcpy :: usize_t
  n_add :: usize_t
  n_run :: usize_t
  l_scpy :: xoff_t
  l_tcpy :: xoff_t
  l_add :: xoff_t
  l_run :: xoff_t
  i_slots_used :: usize_t

type_synonym enc_step = "xd3_estream \<Rightarrow> xd3_ret \<times> xd3_estream"

definition avail_in :: "xd3_estream \<Rightarrow> usize_t" where
  "avail_in s = of_nat (length (ein s))"

subsection \<open>Writing to a section\<close>

text \<open>An operation on the tail of a section: \<open>& HDR_TAIL (stream)\<close>, \<open>& INST_TAIL (stream)\<close> and
  \<open>& DATA_TAIL (stream)\<close>.\<close>

type_synonym sect_op = "xd3_mem \<times> xd3_chain \<Rightarrow> xd3_ret \<times> xd3_mem \<times> xd3_chain"

definition on_hdr :: "sect_op \<Rightarrow> enc_step" where
  "on_hdr f s = (case f (emem s, hdr_chain s) of (r, m, ch) \<Rightarrow> (r, s\<lparr>emem := m, hdr_chain := ch\<rparr>))"

definition on_inst :: "sect_op \<Rightarrow> enc_step" where
  "on_inst f s = (case f (emem s, inst_chain s) of (r, m, ch) \<Rightarrow> (r, s\<lparr>emem := m, inst_chain := ch\<rparr>))"

definition on_data :: "sect_op \<Rightarrow> enc_step" where
  "on_data f s = (case f (emem s, data_chain s) of (r, m, ch) \<Rightarrow> (r, s\<lparr>emem := m, data_chain := ch\<rparr>))"

definition xd3_emit_single :: "xd3_rinst \<Rightarrow> u8 \<Rightarrow> enc_step" where
  "xd3_emit_single inst code s =
     seqr (on_inst (xd3_emit_byte code))
       (\<lambda>s. if size1 (ecode_table s ! unat code) = 0 then on_inst (xd3_emit_size (rsize inst)) s else (None, s)) s"

definition xd3_emit_double :: "xd3_rinst \<Rightarrow> xd3_rinst \<Rightarrow> u8 \<Rightarrow> enc_step" where
  "xd3_emit_double first second code = on_inst (xd3_emit_byte code)"

subsection \<open>The source window\<close>

definition on_source :: "(xd3_source \<Rightarrow> xd3_source) \<Rightarrow> xd3_estream \<Rightarrow> xd3_estream" where
  "on_source f s = s\<lparr>esrc := map_option f (esrc s)\<rparr>"

text \<open>\<open>xd3_srcwin_setup\<close> for the source \<open>source\<close>, \<open>stream->src\<close>. The test of the length against
  \<open>USIZE_T_MAX\<close> can only fail when \<open>usize_t\<close> is narrower than \<open>xoff_t\<close>.\<close>

definition srcwin_done :: "xd3_source \<Rightarrow> enc_step" where
  "srcwin_done source s = (None, s\<lparr>esrc := Some source, taroff := srclen source\<rparr>)"

definition xd3_srcwin_setup :: "xd3_source \<Rightarrow> enc_step" where
  "xd3_srcwin_setup source s0 =
     (let s = s0\<lparr>srcwin_decided := True\<rparr>;
          len = match_maxaddr s - match_minaddr s
      in if enc_state s = ENC_INSTR \<and> match_maxaddr s = 0 then srcwin_done source s
         else if len > - 1 then (Some XD3_INTERNAL, s)
         else if enc_state s = ENC_INSTR then
           srcwin_done (source\<lparr>srcbase := match_minaddr s, srclen := len\<rparr>) s
         else
           let guess = max len (avail_in s + drop_bit 2 (avail_in s));
               l = (if eof_known source then min guess (xd3_source_eof source - match_minaddr s) else guess)
           in srcwin_done (source\<lparr>srcbase := match_minaddr s, srclen := l\<rparr>) s)"

subsection \<open>Finishing an instruction\<close>

definition xd3_iopt_free_nonadd :: "xd3_rinst \<Rightarrow> xd3_estream \<Rightarrow> xd3_estream" where
  "xd3_iopt_free_nonadd i s = (if rtype i \<noteq> XD3_ADD then s\<lparr>iopt_free := Suc (iopt_free s)\<rparr> else s)"

text \<open>The case \<open>XD3_CPY\<close> of \<open>xd3_iopt_finish_encoding\<close>: the source window is decided at the first copy,
  then the address is taken relative to it.\<close>

definition copy_window :: "enc_step" where
  "copy_window s =
     (case esrc s of
        None \<Rightarrow> (None, s)
      | Some source \<Rightarrow>
          if \<not> srcwin_decided s then xd3_srcwin_setup source s
          else (None, s\<lparr>srcwin_decided_early :=
                          (\<not> eof_known source \<or> srcwin_cksum_pos s < xd3_source_eof source)\<rparr>))"

definition copy_address :: "xd3_rinst \<Rightarrow> xd3_estream \<Rightarrow> usize_t" where
  "copy_address inst s =
     (case esrc s of
        None \<Rightarrow> raddr inst
      | Some source \<Rightarrow> if xtra inst \<noteq> 0 then raddr inst - srcbase source else taroff s + raddr inst)"

definition copy_stats :: "xd3_rinst \<Rightarrow> xd3_estream \<Rightarrow> xd3_estream" where
  "copy_stats inst s =
     (if esrc s \<noteq> None \<and> xtra inst \<noteq> 0
      then s\<lparr>n_scpy := n_scpy s + 1, l_scpy := l_scpy s + rsize inst\<rparr>
      else s\<lparr>n_tcpy := n_tcpy s + 1, l_tcpy := l_tcpy s + rsize inst\<rparr>)"

definition encode_copy :: "xd3_rinst \<Rightarrow> xd3_estream \<Rightarrow> xd3_ret \<times> xd3_rinst \<times> xd3_estream" where
  "encode_copy inst s =
     (case copy_window s of
        (Some r, s1) \<Rightarrow> (Some r, inst, s1)
      | (None, s1) \<Rightarrow>
          let s2 = copy_stats inst s1
          in case xd3_encode_address (copy_address inst s1) (rpos inst + taroff s2) (eacache s2)
                    (emem s2, addr_chain s2) of
               (r, c, (m, ch), mode) \<Rightarrow>
                 (r, inst\<lparr>rtype := rtype inst + mode\<rparr>, s2\<lparr>eacache := c, emem := m, addr_chain := ch\<rparr>))"

definition encode_run :: "xd3_rinst \<Rightarrow> enc_step" where
  "encode_run inst =
     seqr (on_data (xd3_emit_byte (xtra inst)))
       (\<lambda>s. (None, s\<lparr>n_run := n_run s + 1, l_run := l_run s + rsize inst\<rparr>))"

definition encode_add :: "xd3_rinst \<Rightarrow> enc_step" where
  "encode_add inst s =
     seqr (on_data (xd3_emit_bytes (take (unat (rsize inst)) (drop (unat (rpos inst)) (ein s)))))
       (\<lambda>s. (None, s\<lparr>n_add := n_add s + 1, l_add := l_add s + rsize inst\<rparr>)) s"

definition encode_operands :: "xd3_rinst \<Rightarrow> xd3_estream \<Rightarrow> xd3_ret \<times> xd3_rinst \<times> xd3_estream" where
  "encode_operands inst s =
     (if rtype inst = XD3_CPY then encode_copy inst s
      else if rtype inst = XD3_RUN then (case encode_run inst s of (r, s') \<Rightarrow> (r, inst, s'))
      else if rtype inst = XD3_ADD then (case encode_add inst s of (r, s') \<Rightarrow> (r, inst, s'))
      else (None, inst, s))"

text \<open>The second half: the code is chosen, and the instruction before this one, \<open>iout\<close>, is emitted,
  alone or together with this one.\<close>

definition emit_previous :: "xd3_rinst \<Rightarrow> enc_step" where
  "emit_previous inst s =
     (case xd3_choose_instruction (iout s) inst of
        (None, inst') \<Rightarrow> (None, s\<lparr>iout := Some inst'\<rparr>)
      | (Some p, inst') \<Rightarrow>
          let s1 = s\<lparr>iout := Some p\<rparr>
          in if code2 p \<noteq> 0 then
               seqr (xd3_emit_double p inst' (code2 p))
                 (\<lambda>s. (None, (xd3_iopt_free_nonadd inst' (xd3_iopt_free_nonadd p s))\<lparr>iout := None\<rparr>)) s1
             else
               seqr (xd3_emit_single p (code1 p))
                 (\<lambda>s. (None, (xd3_iopt_free_nonadd p s)\<lparr>iout := Some inst'\<rparr>)) s1)"

definition xd3_iopt_finish_encoding :: "xd3_rinst \<Rightarrow> enc_step" where
  "xd3_iopt_finish_encoding inst s =
     (case encode_operands inst s of
        (Some r, _, s1) \<Rightarrow> (Some r, s1)
      | (None, inst1, s1) \<Rightarrow>
          emit_previous (inst1\<lparr>code2 := 0\<rparr>) (s1\<lparr>unencoded_offset := unencoded_offset s1 + rsize inst1\<rparr>))"

definition add_inst :: "usize_t \<Rightarrow> usize_t \<Rightarrow> xd3_rinst" where
  "add_inst off pos = \<lparr>rtype = XD3_ADD, xtra = 0, code1 = 0, code2 = 0, rpos = off, rsize = pos - off, raddr = 0\<rparr>"

definition xd3_iopt_add :: "usize_t \<Rightarrow> enc_step" where
  "xd3_iopt_add pos s =
     (let off = unencoded_offset s
      in if pos > off then xd3_iopt_finish_encoding (add_inst off pos) s else (None, s))"

definition xd3_iopt_add_encoding :: "xd3_rinst \<Rightarrow> enc_step" where
  "xd3_iopt_add_encoding inst = seqr (xd3_iopt_add (rpos inst)) (xd3_iopt_finish_encoding inst)"

definition xd3_iopt_add_finalize :: enc_step where
  "xd3_iopt_add_finalize s =
     seqr (xd3_iopt_add (avail_in s))
       (\<lambda>s. case iout s of
              None \<Rightarrow> (None, s)
            | Some p \<Rightarrow>
                seqr (xd3_emit_single p (code1 p))
                  (\<lambda>s. (None, (xd3_iopt_free_nonadd p s)\<lparr>iout := None\<rparr>)) s) s"

subsection \<open>Choosing among overlapping instructions\<close>

text \<open>The two instructions after "Shorten one of the instructions".\<close>

definition rend :: "xd3_rinst \<Rightarrow> usize_t" where
  "rend r = rpos r + rsize r"

definition shorten_tail :: "usize_t \<Rightarrow> xd3_rinst \<Rightarrow> xd3_rinst" where
  "shorten_tail n r = r\<lparr>rsize := rsize r - n\<rparr>"

definition shorten_head :: "usize_t \<Rightarrow> xd3_rinst \<Rightarrow> xd3_rinst" where
  "shorten_head n r = r\<lparr>rsize := rsize r - n, rpos := rpos r + n, raddr := raddr r + n\<rparr>"

definition shorten_pair :: "xd3_rinst \<Rightarrow> xd3_rinst \<Rightarrow> xd3_rinst \<times> xd3_rinst" where
  "shorten_pair r1 r2 =
     (let r1end = rend r1; gap = rend r2 - rpos r1; average = gap div 2;
          newsize = min MAX_MATCH_SPLIT (gap - average)
      in if newsize > rsize r1 then (r1, shorten_head (r1end - rpos r2) r2)
         else if newsize > rsize r2 then (shorten_tail (r1end - rpos r2) r1, shorten_head 0 r2)
         else
           let adjust1 = rsize r1 - newsize;
               adjust2 = (if rpos r2 > r1end - adjust1 then adjust1 - (rpos r2 - (r1end - adjust1)) else adjust1);
               r1' = shorten_tail adjust2 r1
           in (r1', shorten_head (rend r1' - rpos r2) r2))"

definition overlap_almost :: "xd3_rinst \<Rightarrow> xd3_rinst \<Rightarrow> bool" where
  "overlap_almost r1 r2 \<longleftrightarrow>
     rend r2 - rpos r1 < 2 * MIN_MATCH \<or> rend r2 - rend r1 \<le> 2 \<or> rpos r2 - rpos r1 \<le> 2"

text \<open>The first loop of \<open>xd3_iopt_flush_instructions\<close>, from \<open>r1\<close> on.\<close>

function iopt_optimize :: "bool \<Rightarrow> xd3_rinst list \<Rightarrow> xd3_rinst list" where
  "iopt_optimize force [] = []"
| "iopt_optimize force [r1] = [r1]"
| "iopt_optimize force (r1 # r2 # rest) =
     (if rend r1 \<le> rpos r2 then r1 # iopt_optimize force (r2 # rest)
      else if rest \<noteq> [] \<and> rpos (hd rest) \<le> rend r1 + 1 then iopt_optimize force (r1 # rest)
      else if rest = [] \<and> \<not> force then r1 # r2 # rest
      else if overlap_almost r1 r2 then
        if rsize r1 < rsize r2 then iopt_optimize force (r2 # rest) else r1 # iopt_optimize force rest
      else case shorten_pair r1 r2 of (r1', r2') \<Rightarrow> r1' # iopt_optimize force (r2' # rest))"
  by pat_completeness auto
termination by (relation "measure (\<lambda>(force, rs). length rs)") auto

text \<open>The second loop: instructions are popped and encoded, all of them when forced, otherwise until
  half of the buffer is flushed or two instructions remain.\<close>

fun flush_loop :: "bool \<Rightarrow> usize_t \<Rightarrow> xd3_rinst list \<Rightarrow> enc_step" where
  "flush_loop force flushed [] s = (None, s\<lparr>iopt_used := []\<rparr>)"
| "flush_loop force flushed (renc # rest) s =
     seqr (xd3_iopt_add_encoding renc)
       (\<lambda>s. if force then flush_loop force flushed rest s
            else if flushed + 1 > iopt_size s div 2 \<or> length rest < 3 then (None, s)
            else flush_loop force (flushed + 1) rest s) (s\<lparr>iopt_used := rest\<rparr>)"

definition xd3_iopt_flush_instructions :: "bool \<Rightarrow> enc_step" where
  "xd3_iopt_flush_instructions force s =
     (let rs = iopt_optimize force (iopt_used s)
      in flush_loop force 0 rs
           (s\<lparr>iopt_used := rs, iopt_free := iopt_free s + (length (iopt_used s) - length rs)\<rparr>))"

subsection \<open>Entering instructions\<close>

text \<open>\<open>xd3_alloc_iopt\<close>: one request for the list node, one for the array.\<close>

definition xd3_alloc_iopt :: "usize_t \<Rightarrow> enc_step" where
  "xd3_alloc_iopt elts s =
     (case xd3_alloc (emem s) of
        (False, m) \<Rightarrow> (Some ENOMEM, s\<lparr>emem := m\<rparr>)
      | (True, m) \<Rightarrow> (case xd3_alloc m of
            (False, m') \<Rightarrow> (Some ENOMEM, s\<lparr>emem := m'\<rparr>)
          | (True, m') \<Rightarrow> (None, s\<lparr>emem := m', iopt_free := iopt_free s + unat elts\<rparr>)))"

text \<open>\<open>sizeof (xd3_rinst)\<close> is 48: four bytes of codes, padding, three 64-bit words and two pointers.\<close>

definition iopt_elts :: usize_t where
  "iopt_elts = XD3_ALLOCSIZE div 48"

definition iopt_make_room :: enc_step where
  "iopt_make_room s =
     (if iopt_free s = 0 then
        if iopt_unlimited s then
          seqr (xd3_alloc_iopt iopt_elts) (\<lambda>s. (None, s\<lparr>iopt_size := iopt_size s + iopt_elts\<rparr>)) s
        else xd3_iopt_flush_instructions False s
      else (None, s))"

text \<open>\<open>xd3_iopt_get_slot\<close> followed by the assignments of its caller: the slot is pushed with the
  contents \<open>i\<close>. \<open>None\<close> is a pop from an empty free list.\<close>

definition xd3_iopt_get_slot :: "xd3_rinst \<Rightarrow> xd3_estream \<Rightarrow> (xd3_ret \<times> xd3_estream) option" where
  "xd3_iopt_get_slot i s =
     (case iopt_make_room s of
        (Some r, s') \<Rightarrow> Some (Some r, s')
      | (None, s') \<Rightarrow>
          if iopt_free s' = 0 then None
          else Some (None, s'\<lparr>iopt_free := iopt_free s' - 1, iopt_used := iopt_used s' @ [i],
                             i_slots_used := i_slots_used s' + 1\<rparr>))"

definition xd3_emit_run :: "usize_t \<Rightarrow> usize_t \<Rightarrow> u8 \<Rightarrow> xd3_estream \<Rightarrow> (xd3_ret \<times> xd3_estream) option" where
  "xd3_emit_run pos sz run_c =
     xd3_iopt_get_slot \<lparr>rtype = XD3_RUN, xtra = run_c, code1 = 0, code2 = 0, rpos = pos, rsize = sz, raddr = 0\<rparr>"

definition xd3_found_match ::
  "usize_t \<Rightarrow> usize_t \<Rightarrow> xoff_t \<Rightarrow> bool \<Rightarrow> xd3_estream \<Rightarrow> (xd3_ret \<times> xd3_estream) option" where
  "xd3_found_match pos sz addr is_source =
     xd3_iopt_get_slot \<lparr>rtype = XD3_CPY, xtra = of_bool is_source, code1 = 0, code2 = 0,
                        rpos = pos, rsize = sz, raddr = addr\<rparr>"

text \<open>\<open>xd3_iopt_erase\<close>: from the back of the list, drop the instructions that start at \<open>pos\<close> or later.\<close>

definition xd3_iopt_erase :: "usize_t \<Rightarrow> xd3_estream \<Rightarrow> xd3_estream" where
  "xd3_iopt_erase pos s =
     (let gone = takeWhile (\<lambda>r. \<not> rpos r < pos) (rev (iopt_used s))
      in s\<lparr>iopt_used := rev (dropWhile (\<lambda>r. \<not> rpos r < pos) (rev (iopt_used s))),
           iopt_free := iopt_free s + length gone,
           i_slots_used := i_slots_used s - of_nat (length gone)\<rparr>)"

definition xd3_iopt_last_matched :: "xd3_estream \<Rightarrow> usize_t" where
  "xd3_iopt_last_matched s = (if iopt_used s = [] then 0 else rend (last (iopt_used s)))"

end
