(* ===== verification/Vcdiff_Spec.thy ===== *)
theory Vcdiff_Spec
  imports Prelude Xd3_Integer Xd3_CodeTable Xd3_AddrCache
begin

section \<open>Reference semantics of a VCDIFF window (RFC 3284, sections 3 to 6)\<close>

text \<open>
  What the three sections of a window mean, as a function on lists: an instruction code is looked up in
  the code table and its one or two instructions are executed on the output so far. The source window
  \<open>sw\<close> and the output form one address space; a copy that starts in the source window stays in it.
  Sizes come from the code table, or from the instruction section when the table has 0. The decoder is
  shown to refine this semantics, and the encoder to produce sections that mean the input.
\<close>

record vc_state =
  vinst :: bytes
  vdata :: bytes
  vaddr :: bytes
  vcache :: xd3_addr_cache
  vout :: bytes

definition vc_size :: "usize_t \<Rightarrow> bytes \<Rightarrow> (usize_t \<times> bytes) option" where
  "vc_size n inst =
     (if n = 0 then (case xd3_read_uint64_t inst of Inl _ \<Rightarrow> None | Inr x \<Rightarrow> Some x) else Some (n, inst))"

definition vc_addr :: "u8 \<Rightarrow> nat \<Rightarrow> xd3_addr_cache \<Rightarrow> bytes \<Rightarrow> (usize_t \<times> xd3_addr_cache \<times> bytes) option" where
  "vc_addr t here c addr =
     (if XD3_CPY \<le> t then
        (case xd3_decode_address (of_nat here) (ucast (t - XD3_CPY)) c addr of Inl _ \<Rightarrow> None | Inr x \<Rightarrow> Some x)
      else Some (0, c, addr))"

text \<open>A copy inside the output, byte by byte, so that it may read what it writes.\<close>

fun vc_copy :: "nat \<Rightarrow> nat \<Rightarrow> bytes \<Rightarrow> bytes" where
  "vc_copy 0 i out = out"
| "vc_copy (Suc n) i out = vc_copy n (Suc i) (out @ [out ! i])"

definition vc_emit :: "bytes \<Rightarrow> u8 \<Rightarrow> nat \<Rightarrow> nat \<Rightarrow> bytes \<Rightarrow> bytes \<Rightarrow> (bytes \<times> bytes) option" where
  "vc_emit sw t n a data out =
     (if t = XD3_RUN then (case data of [] \<Rightarrow> None | b # rest \<Rightarrow> Some (rest, out @ replicate n b))
      else if t = XD3_ADD then (if n \<le> length data then Some (drop n data, out @ take n data) else None)
      else if a < length sw then
        (if a + n \<le> length sw then Some (data, out @ take n (drop a sw)) else None)
      else if a < length sw + length out then Some (data, vc_copy n (a - length sw) out)
      else None)"

definition vc_half :: "bytes \<Rightarrow> u8 \<Rightarrow> usize_t \<Rightarrow> vc_state \<Rightarrow> vc_state option" where
  "vc_half sw t n v =
     (if t = XD3_NOOP then Some v
      else case vc_size n (vinst v) of None \<Rightarrow> None | Some (k, i) \<Rightarrow>
        (case vc_addr t (length sw + length (vout v)) (vcache v) (vaddr v) of None \<Rightarrow> None | Some (a, c, r) \<Rightarrow>
          (case vc_emit sw t (unat k) (unat a) (vdata v) (vout v) of None \<Rightarrow> None | Some (d, out) \<Rightarrow>
             Some \<lparr>vinst = i, vdata = d, vaddr = r, vcache = c, vout = out\<rparr>)))"

definition vc_step :: "bytes \<Rightarrow> vc_state \<Rightarrow> vc_state option" where
  "vc_step sw v =
     (case vinst v of [] \<Rightarrow> None
      | b # rest \<Rightarrow>
          let d = xd3_rfc3284_code_table ! unat b
          in Option.bind (vc_half sw (type1 d) (ucast (size1 d)) (v\<lparr>vinst := rest\<rparr>))
               (vc_half sw (type2 d) (ucast (size2 d))))"

inductive vc_steps :: "bytes \<Rightarrow> vc_state \<Rightarrow> vc_state \<Rightarrow> bool" for sw where
  vc_refl: "vc_steps sw v v"
| vc_next: "vc_step sw v = Some v' \<Longrightarrow> vc_steps sw v' v'' \<Longrightarrow> vc_steps sw v v''"

inductive_cases vc_stepsE: "vc_steps sw v v''"

subsection \<open>The whole window\<close>

lemma read_integer_loop_shorter: "read_integer_loop v inp = Inr (n, rest) \<Longrightarrow> length rest < length inp"
  by (induction v inp rule: read_integer_loop.induct) (auto simp: Let_def split: if_splits)

lemma vc_size_shorter: "vc_size n inst = Some (k, i) \<Longrightarrow> length i \<le> length inst"
  using read_integer_loop_shorter [of 0 inst k i]
  by (auto simp: vc_size_def xd3_read_uint64_t_def split: if_splits sum.splits)

text \<open>The parts of an executed instruction.\<close>

lemma vc_halfE:
  assumes "vc_half sw t n v = Some v'"
  obtains "t = XD3_NOOP" "v' = v"
  | k i a c r d out where "t \<noteq> XD3_NOOP" "vc_size n (vinst v) = Some (k, i)"
    "vc_addr t (length sw + length (vout v)) (vcache v) (vaddr v) = Some (a, c, r)"
    "vc_emit sw t (unat k) (unat a) (vdata v) (vout v) = Some (d, out)"
    "v' = \<lparr>vinst = i, vdata = d, vaddr = r, vcache = c, vout = out\<rparr>"
  using assms by (auto simp: vc_half_def split: if_splits option.splits)

lemma vc_halfI:
  assumes "t \<noteq> XD3_NOOP" "vc_size n (vinst v) = Some (k, i)"
    "vc_addr t (length sw + length (vout v)) (vcache v) (vaddr v) = Some (a, c, r)"
    "vc_emit sw t (unat k) (unat a) (vdata v) (vout v) = Some (d, out)"
  shows "vc_half sw t n v = Some \<lparr>vinst = i, vdata = d, vaddr = r, vcache = c, vout = out\<rparr>"
  using assms by (simp add: vc_half_def)

lemma vc_half_shorter: "vc_half sw t n v = Some v' \<Longrightarrow> length (vinst v') \<le> length (vinst v)"
  by (elim vc_halfE) (simp_all add: vc_size_shorter)

lemma vc_step_shorter: "vc_step sw v = Some v' \<Longrightarrow> length (vinst v') < length (vinst v)"
  by (auto simp: vc_step_def Let_def bind_eq_Some_conv split: list.splits)
    (metis le_imp_less_Suc le_trans vc_half_shorter vc_state.select_convs(1) vc_state.surjective
      vc_state.update_convs(1))

function vc_run :: "bytes \<Rightarrow> vc_state \<Rightarrow> vc_state option" where
  "vc_run sw v =
     (if vinst v = [] then Some v
      else case vc_step sw v of None \<Rightarrow> None | Some v' \<Rightarrow> vc_run sw v')"
  by pat_completeness auto
termination by (relation "measure (\<lambda>(sw, v). length (vinst v))") (auto dest: vc_step_shorter)

declare vc_run.simps [simp del]

lemma vc_run_steps: "vc_run sw v = Some w \<longleftrightarrow> vc_steps sw v w \<and> vinst w = []"
proof
  show "vc_run sw v = Some w \<Longrightarrow> vc_steps sw v w \<and> vinst w = []"
  proof (induction sw v rule: vc_run.induct)
    case (1 sw v)
    then show ?case
      by (subst (asm) vc_run.simps) (auto split: if_splits option.splits intro: vc_steps.intros)
  qed
  show "vc_steps sw v w \<and> vinst w = [] \<Longrightarrow> vc_run sw v = Some w"
  proof (elim conjE, induction rule: vc_steps.induct)
    case (vc_next v v' v'')
    have "vinst v \<noteq> []" using vc_next(1) by (auto simp: vc_step_def)
    then show ?case using vc_next by (subst vc_run.simps) simp
  qed (simp add: vc_run.simps)
qed

text \<open>The meaning of a window: the output when all three sections are used up.\<close>

definition vc_window :: "bytes \<Rightarrow> xd3_addr_cache \<Rightarrow> bytes \<Rightarrow> bytes \<Rightarrow> bytes \<Rightarrow> bytes option" where
  "vc_window sw c inst data addr =
     (case vc_run sw \<lparr>vinst = inst, vdata = data, vaddr = addr, vcache = c, vout = []\<rparr> of
        None \<Rightarrow> None
      | Some v \<Rightarrow> if vdata v = [] \<and> vaddr v = [] then Some (vout v) else None)"

subsection \<open>Execution does not look ahead\<close>

text \<open>A run that works on some sections works on longer ones and leaves the extra bytes alone.\<close>

definition vc_ext :: "bytes \<Rightarrow> bytes \<Rightarrow> bytes \<Rightarrow> vc_state \<Rightarrow> vc_state" where
  "vc_ext i d a v = v\<lparr>vinst := vinst v @ i, vdata := vdata v @ d, vaddr := vaddr v @ a\<rparr>"

lemma vc_ext_simps [simp]:
  "vinst (vc_ext i d a v) = vinst v @ i" "vdata (vc_ext i d a v) = vdata v @ d"
  "vaddr (vc_ext i d a v) = vaddr v @ a" "vcache (vc_ext i d a v) = vcache v" "vout (vc_ext i d a v) = vout v"
  "vc_ext [] [] [] v = v" "vc_ext i d a (vc_ext i' d' a' v) = vc_ext (i' @ i) (d' @ d) (a' @ a) v"
  by (simp_all add: vc_ext_def)

lemma read_integer_loop_ext:
  "read_integer_loop v inp = Inr (n, rest) \<Longrightarrow> read_integer_loop v (inp @ x) = Inr (n, rest @ x)"
  by (induction v inp rule: read_integer_loop.induct) (auto simp: Let_def split: if_splits)

lemma vc_size_ext: "vc_size n inst = Some (k, i) \<Longrightarrow> vc_size n (inst @ x) = Some (k, i @ x)"
  using read_integer_loop_ext [of 0 inst k i x]
  by (auto simp: vc_size_def xd3_read_uint64_t_def split: if_splits sum.splits)

lemma decode_address_ext:
  assumes "xd3_decode_address here mode c addr = Inr (a, c', r)"
  shows "xd3_decode_address here mode c (addr @ x) = Inr (a, c', r @ x)"
proof (cases "mode < 2 + s_near c")
  case True
  then obtain v where "read_integer_loop 0 addr = Inr (v, r)"
    using assms by (auto simp: xd3_decode_address_def xd3_read_uint64_t_def Let_def split: sum.splits)
  then show ?thesis using True assms read_integer_loop_ext [of 0 addr v r x]
    by (auto simp: xd3_decode_address_def xd3_read_uint64_t_def Let_def)
qed (use assms in \<open>auto simp: xd3_decode_address_def Let_def split: list.splits\<close>)

lemma vc_addr_ext: "vc_addr t here c addr = Some (a, c', r) \<Longrightarrow> vc_addr t here c (addr @ x) = Some (a, c', r @ x)"
  using decode_address_ext [of "of_nat here" "ucast (t - XD3_CPY)" c addr a c' r x]
  by (auto simp: vc_addr_def split: if_splits sum.splits)

lemma vc_emit_ext: "vc_emit sw t n a data out = Some (d, out') \<Longrightarrow> vc_emit sw t n a (data @ x) out = Some (d @ x, out')"
  by (auto simp: vc_emit_def split: if_splits list.splits)

lemma vc_half_ext:
  assumes "vc_half sw t n v = Some v'"
  shows "vc_half sw t n (vc_ext i d a v) = Some (vc_ext i d a v')"
  using assms
proof (cases rule: vc_halfE)
  case (2 k i' ad c r d' out)
  show ?thesis unfolding 2(5)
    using vc_halfI [of t n "vc_ext i d a v" k "i' @ i" sw ad c "r @ a" "d' @ d" out] 2
    by (simp add: vc_size_ext vc_addr_ext vc_emit_ext vc_ext_def)
qed (simp add: vc_half_def)

lemma vc_step_ext: "vc_step sw v = Some v' \<Longrightarrow> vc_step sw (vc_ext i d a v) = Some (vc_ext i d a v')"
proof -
  assume s: "vc_step sw v = Some v'"
  then obtain b rest where b: "vinst v = b # rest" by (auto simp: vc_step_def split: list.splits)
  let ?d = "xd3_rfc3284_code_table ! unat b"
  obtain w where w: "vc_half sw (type1 ?d) (ucast (size1 ?d)) (v\<lparr>vinst := rest\<rparr>) = Some w"
    "vc_half sw (type2 ?d) (ucast (size2 ?d)) w = Some v'"
    using s b by (auto simp: vc_step_def Let_def bind_eq_Some_conv)
  have e: "(vc_ext i d a v)\<lparr>vinst := rest @ i\<rparr> = vc_ext i d a (v\<lparr>vinst := rest\<rparr>)" by (simp add: vc_ext_def)
  show ?thesis using b vc_half_ext [OF w(1), of i d a] vc_half_ext [OF w(2), of i d a]
    by (simp add: vc_step_def Let_def e)
qed

lemma vc_steps_ext: "vc_steps sw v w \<Longrightarrow> vc_steps sw (vc_ext i d a v) (vc_ext i d a w)"
  by (induction rule: vc_steps.induct) (auto intro: vc_steps.intros vc_step_ext)

lemma vc_steps_trans: "vc_steps sw u v \<Longrightarrow> vc_steps sw v w \<Longrightarrow> vc_steps sw u w"
  by (induction rule: vc_steps.induct) (auto intro: vc_steps.intros)

lemma vc_steps_snoc: "vc_steps sw u v \<Longrightarrow> vc_step sw v = Some w \<Longrightarrow> vc_steps sw u w"
  by (blast intro: vc_steps_trans vc_steps.intros)

subsection \<open>The output only grows\<close>

lemma length_vc_copy [simp]: "length (vc_copy n i out) = length out + n"
  by (induction n i out rule: vc_copy.induct) simp_all

lemma vc_emit_length: "vc_emit sw t n a data out = Some (d, out') \<Longrightarrow> length out' = length out + n"
  by (auto simp: vc_emit_def split: if_splits list.splits)

lemma vc_half_length: "vc_half sw t n v = Some v' \<Longrightarrow> length (vout v) \<le> length (vout v')"
  by (elim vc_halfE) (simp_all add: vc_emit_length)

lemma vc_step_length: "vc_step sw v = Some v' \<Longrightarrow> length (vout v) \<le> length (vout v')"
  by (auto simp: vc_step_def Let_def bind_eq_Some_conv split: list.splits dest!: vc_half_length)

lemma vc_steps_length: "vc_steps sw v w \<Longrightarrow> length (vout v) \<le> length (vout w)"
  by (induction rule: vc_steps.induct) (auto dest: vc_step_length)

text \<open>A copy whose bytes agree with the input extends the output along the input.\<close>

lemma vc_copy_take:
  assumes "i < p" "p + n \<le> length xs" "\<And>k. k < n \<Longrightarrow> xs ! (i + k) = xs ! (p + k)"
  shows "vc_copy n i (take p xs) = take (p + n) xs"
  using assms
proof (induction n arbitrary: i p)
  case (Suc n)
  have "take p xs @ [take p xs ! i] = take (Suc p) xs"
    using Suc.prems(1,2) Suc.prems(3) [of 0] by (simp add: take_Suc_conv_app_nth)
  moreover have "vc_copy n (Suc i) (take (Suc p) xs) = take (Suc p + n) xs"
    using Suc.prems(1,2) Suc.prems(3) [of "Suc k" for k] by (intro Suc.IH) auto
  ultimately show ?case by simp
qed simp

end
