(* ===== verification/Xd3_EncodeWindow.thy ===== *)
theory Xd3_EncodeWindow
  imports Xd3_Iopt Vcdiff_Spec
begin

section \<open>A window is encoded correctly\<close>

text \<open>
  The instructions that string matching enters in the buffer describe parts of the input; whichever of
  them the optimisation keeps, shortened or not, and with the literal bytes between them added, the
  three sections written mean the input. The meaning is the reference semantics of \<open>Vcdiff_Spec\<close>.
\<close>

subsection \<open>Instructions that describe the input\<close>

text \<open>\<open>inst_ok S lo hi inp r\<close>: executing \<open>r\<close> at its position gives the bytes of the input \<open>inp\<close> there. A
  source copy stays between the addresses \<open>lo\<close> and \<open>hi\<close> of the source \<open>S\<close>.\<close>

definition inst_ok :: "bytes \<Rightarrow> nat \<Rightarrow> nat \<Rightarrow> bytes \<Rightarrow> xd3_rinst \<Rightarrow> bool" where
  "inst_ok S lo hi inp r \<longleftrightarrow>
     0 < unat (rsize r) \<and> unat (rpos r) + unat (rsize r) \<le> length inp \<and>
     (rtype r = XD3_RUN \<and> (\<forall>k < unat (rsize r). inp ! (unat (rpos r) + k) = xtra r)
      \<or> rtype r = XD3_CPY \<and> xtra r = 0 \<and> raddr r < rpos r
          \<and> (\<forall>k < unat (rsize r). inp ! (unat (raddr r) + k) = inp ! (unat (rpos r) + k))
      \<or> rtype r = XD3_CPY \<and> xtra r \<noteq> 0 \<and> lo \<le> unat (raddr r) \<and> unat (raddr r) + unat (rsize r) \<le> hi
          \<and> (\<forall>k < unat (rsize r). S ! (unat (raddr r) + k) = inp ! (unat (rpos r) + k)))"

definition nend :: "xd3_rinst \<Rightarrow> nat" where
  "nend r = unat (rpos r) + unat (rsize r)"

text \<open>The order in which lazy matching enters instructions: both ends increase. After the optimisation
  they are apart.\<close>

definition ordered :: "xd3_rinst \<Rightarrow> xd3_rinst \<Rightarrow> bool" where
  "ordered r1 r2 \<longleftrightarrow> unat (rpos r1) < unat (rpos r2) \<and> nend r1 < nend r2"

definition apart :: "xd3_rinst \<Rightarrow> xd3_rinst \<Rightarrow> bool" where
  "apart r1 r2 \<longleftrightarrow> nend r1 \<le> unat (rpos r2)"

lemma unat_rend:
  "inst_ok S lo hi inp r \<Longrightarrow> length inp < 2 ^ 64 \<Longrightarrow> unat (rend r) = nend r"
  unfolding rend_def nend_def inst_ok_def by (subst unat_add_less) simp_all

lemma inst_ok_tail:
  assumes "inst_ok S lo hi inp r" "unat n < unat (rsize r)"
  shows "inst_ok S lo hi inp (shorten_tail n r)" "unat (rsize (shorten_tail n r)) = unat (rsize r) - unat n"
proof -
  show "unat (rsize (shorten_tail n r)) = unat (rsize r) - unat n"
    using assms by (simp add: shorten_tail_def unat_sub_le)
  then show "inst_ok S lo hi inp (shorten_tail n r)"
    using assms by (auto simp: inst_ok_def shorten_tail_def)
qed

lemma inst_ok_head:
  assumes ok: "inst_ok S lo hi inp r" and n: "unat n < unat (rsize r)" and l: "length inp < 2 ^ 64" "hi < 2 ^ 64"
  shows "inst_ok S lo hi inp (shorten_head n r)" "unat (rpos (shorten_head n r)) = unat (rpos r) + unat n"
    "unat (rsize (shorten_head n r)) = unat (rsize r) - unat n"
proof -
  show s: "unat (rsize (shorten_head n r)) = unat (rsize r) - unat n"
    using n by (simp add: shorten_head_def unat_sub_le)
  show p: "unat (rpos (shorten_head n r)) = unat (rpos r) + unat n"
    using ok n l by (simp add: shorten_head_def inst_ok_def unat_add_less)
  have idx: "unat n + k < unat (rsize r)" if "k < unat (rsize r) - unat n" for k using that by simp
  consider (run) "rtype r = XD3_RUN" "\<And>k. k < unat (rsize r) \<Longrightarrow> inp ! (unat (rpos r) + k) = xtra r"
    | (tgt) "rtype r = XD3_CPY" "xtra r = 0" "raddr r < rpos r"
      "\<And>k. k < unat (rsize r) \<Longrightarrow> inp ! (unat (raddr r) + k) = inp ! (unat (rpos r) + k)"
    | (src) "rtype r = XD3_CPY" "xtra r \<noteq> 0" "lo \<le> unat (raddr r)" "unat (raddr r) + unat (rsize r) \<le> hi"
      "\<And>k. k < unat (rsize r) \<Longrightarrow> S ! (unat (raddr r) + k) = inp ! (unat (rpos r) + k)"
    using ok by (auto simp: inst_ok_def)
  then show "inst_ok S lo hi inp (shorten_head n r)"
  proof cases
    case run
    then show ?thesis unfolding inst_ok_def p s using ok n run(2) [OF idx]
      by (auto simp: inst_ok_def shorten_head_def add.assoc)
  next
    case tgt
    have lt: "unat (raddr r) < unat (rpos r)" using tgt(3) by (simp add: word_less_nat_alt)
    then have a: "unat (raddr (shorten_head n r)) = unat (raddr r) + unat n"
      using ok n l by (simp add: shorten_head_def inst_ok_def unat_add_less)
    have "raddr (shorten_head n r) < rpos (shorten_head n r)"
      unfolding word_less_nat_alt a p using lt by simp
    then show ?thesis unfolding inst_ok_def p s a using ok n tgt(1,2) tgt(4) [OF idx]
      by (auto simp: inst_ok_def shorten_head_def add.assoc)
  next
    case src
    then have a: "unat (raddr (shorten_head n r)) = unat (raddr r) + unat n"
      using n l by (simp add: shorten_head_def unat_add_less)
    show ?thesis unfolding inst_ok_def p s a using ok n src(1-4) src(5) [OF idx]
      by (auto simp: inst_ok_def shorten_head_def add.assoc)
  qed
qed

subsection \<open>The optimisation\<close>

lemma shorten_pair_ok:
  assumes ok: "inst_ok S lo hi inp r1" "inst_ok S lo hi inp r2" and l: "length inp < 2 ^ 64" "hi < 2 ^ 64"
    and o: "ordered r1 r2" and ov: "unat (rpos r2) < nend r1" and sp: "shorten_pair r1 r2 = (r1', r2')"
  shows "inst_ok S lo hi inp r1' \<and> inst_ok S lo hi inp r2' \<and> apart r1' r2' \<and> nend r2' = nend r2
     \<and> rpos r1' = rpos r1 \<and> unat (rpos r2) \<le> unat (rpos r2') \<and> unat (rpos r2') \<le> nend r1"
proof -
  define gap where "gap = rend r2 - rpos r1"
  define newsize where "newsize = min MAX_MATCH_SPLIT (gap - gap div 2)"
  have e1: "unat (rend r1) = nend r1" and e2: "unat (rend r2) = nend r2"
    using unat_rend ok l by auto
  have p: "unat (rpos r1) < unat (rpos r2)" "nend r1 < nend r2" using o by (auto simp: ordered_def)
  have cut: "unat (rend r1 - rpos r2) = nend r1 - unat (rpos r2)"
    using ov by (subst unat_sub_le) (simp_all add: e1)
  have cut2: "nend r1 - unat (rpos r2) < unat (rsize r2)" and cut1: "nend r1 - unat (rpos r2) < unat (rsize r1)"
    using p ov by (auto simp: nend_def)
  have nz: "0 < unat newsize"
  proof -
    have g: "0 < unat gap" unfolding gap_def using p by (subst unat_sub_le) (simp_all add: e2 nend_def)
    have "unat (gap - gap div 2) = unat gap - unat gap div 2"
      by (subst unat_sub_le) (simp_all add: unat_div)
    then have "0 < unat (gap - gap div 2)" using g by linarith
    then show ?thesis by (simp add: newsize_def min_def MAX_MATCH_SPLIT_def)
  qed
  have d: "shorten_pair r1 r2 =
     (if newsize > rsize r1 then (r1, shorten_head (rend r1 - rpos r2) r2)
      else if newsize > rsize r2 then (shorten_tail (rend r1 - rpos r2) r1, shorten_head 0 r2)
      else
        let adjust1 = rsize r1 - newsize;
            adjust2 = (if rpos r2 > rend r1 - adjust1 then adjust1 - (rpos r2 - (rend r1 - adjust1)) else adjust1);
            r1' = shorten_tail adjust2 r1
        in (r1', shorten_head (rend r1' - rpos r2) r2))"
    by (simp add: shorten_pair_def Let_def newsize_def gap_def)
  consider (a) "newsize > rsize r1" | (b) "\<not> newsize > rsize r1" "newsize > rsize r2"
    | (c) "newsize \<le> rsize r1" "\<not> newsize > rsize r2" by (meson not_less)
  then show ?thesis
  proof cases
    case a
    then have r: "r1' = r1" "r2' = shorten_head (rend r1 - rpos r2) r2" using sp d by auto
    note h = inst_ok_head [OF ok(2) cut2 [folded cut] l]
    show ?thesis using ok(1) h p ov cut cut2 unfolding r by (auto simp: apart_def nend_def)
  next
    case b
    then have r: "r1' = shorten_tail (rend r1 - rpos r2) r1" "r2' = shorten_head 0 r2" using sp d by auto
    have z: "shorten_head 0 r2 = r2" by (simp add: shorten_head_def)
    note t = inst_ok_tail [OF ok(1) cut1 [folded cut]]
    have "rpos (shorten_tail n r1) = rpos r1" for n by (simp add: shorten_tail_def)
    then show ?thesis using ok(2) t p ov cut cut1 unfolding r z by (auto simp: apart_def nend_def)
  next
    case c
    define adj where "adj = (if rpos r2 > rend r1 - (rsize r1 - newsize)
      then (rsize r1 - newsize) - (rpos r2 - (rend r1 - (rsize r1 - newsize))) else rsize r1 - newsize)"
    have "shorten_pair r1 r2 = (shorten_tail adj r1, shorten_head (rend (shorten_tail adj r1) - rpos r2) r2)"
      unfolding d using c by (simp add: Let_def adj_def not_less [symmetric])
    then have r: "r1' = shorten_tail adj r1" "r2' = shorten_head (rend r1' - rpos r2) r2"
      using sp by auto
    have n: "unat newsize \<le> unat (rsize r1)" using c(1) by (simp add: word_le_nat_alt)
    have a1: "unat (rsize r1 - newsize) = unat (rsize r1) - unat newsize" using n by (rule unat_sub_le)
    have m1: "unat (rend r1 - (rsize r1 - newsize)) = unat (rpos r1) + unat newsize"
      using n by (subst unat_sub_le) (simp_all add: a1 e1 nend_def)
    have adj: "unat adj < unat (rsize r1)" "unat (rpos r2) \<le> unat (rpos r1) + (unat (rsize r1) - unat adj)"
    proof -
      have "unat adj < unat (rsize r1) \<and> unat (rpos r2) \<le> unat (rpos r1) + (unat (rsize r1) - unat adj)"
      proof (cases "rpos r2 > rend r1 - (rsize r1 - newsize)")
        case True
        then have lt: "unat (rpos r1) + unat newsize < unat (rpos r2)" by (simp add: word_less_nat_alt m1)
        have s: "unat (rpos r2 - (rend r1 - (rsize r1 - newsize))) = unat (rpos r2) - (unat (rpos r1) + unat newsize)"
          using lt by (subst unat_sub_le) (simp_all add: m1)
        have "unat adj = unat (rsize r1) - unat newsize - (unat (rpos r2) - (unat (rpos r1) + unat newsize))"
          unfolding adj_def using True ov lt cut by (simp add: nend_def)
        then show ?thesis using lt ov p nz n by (auto simp: nend_def)
      next
        case False
        then have "unat (rpos r2) \<le> unat (rpos r1) + unat newsize" by (simp add: word_less_nat_alt m1 not_less)
        moreover have "unat adj = unat (rsize r1) - unat newsize" using False a1 by (simp add: adj_def)
        ultimately show ?thesis using n nz by auto
      qed
      then show "unat adj < unat (rsize r1)" "unat (rpos r2) \<le> unat (rpos r1) + (unat (rsize r1) - unat adj)" by auto
    qed
    note t = inst_ok_tail [OF ok(1) adj(1)]
    have pr: "rpos r1' = rpos r1" by (simp add: r shorten_tail_def)
    have en: "unat (rend r1') = unat (rpos r1) + (unat (rsize r1) - unat adj)"
      using unat_rend [OF t(1) l(1)] t(2) r pr by (simp add: nend_def)
    have le: "unat (rend r1') \<le> nend r1" by (simp add: en nend_def)
    have c2: "unat (rend r1' - rpos r2) = unat (rend r1') - unat (rpos r2)"
      using adj(2) by (subst unat_sub_le) (simp_all add: en)
    have c3: "unat (rend r1' - rpos r2) < unat (rsize r2)" using c2 le p ok(2) unfolding nend_def inst_ok_def by arith
    note h = inst_ok_head [OF ok(2) c3 l]
    have n1: "nend r1' = unat (rend r1')" using en t(2) r pr by (simp add: nend_def)
    have p2: "unat (rpos r2') = unat (rend r1')" using h(2) c2 adj(2) en unfolding r(2) by simp
    have "nend r2' = nend r2" using h(2,3) c3 unfolding nend_def r(2) by simp
    then show ?thesis using t(1) h(1) n1 p2 pr le adj(2) en by (simp add: apart_def r)
  qed
qed

definition starts_from :: "nat \<Rightarrow> xd3_rinst list \<Rightarrow> bool" where
  "starts_from p rs \<longleftrightarrow> (\<forall>r \<in> set rs. p \<le> unat (rpos r))"

lemma starts_from_mono: "starts_from p rs \<Longrightarrow> q \<le> p \<Longrightarrow> starts_from q rs"
  by (auto simp: starts_from_def)

lemma starts_from_Cons: "starts_from p (r # rs) \<longleftrightarrow> p \<le> unat (rpos r) \<and> starts_from p rs"
  by (simp add: starts_from_def)

lemma apart_Cons: "starts_from q rs \<Longrightarrow> nend r \<le> q \<Longrightarrow> \<forall>x \<in> set rs. apart r x"
  by (auto simp: starts_from_def apart_def)

lemma iopt_optimize_ok:
  assumes l: "length inp < 2 ^ 63" "hi < 2 ^ 64"
  shows "list_all (inst_ok S lo hi inp) rs \<Longrightarrow> sorted_wrt ordered rs \<Longrightarrow> starts_from p rs \<Longrightarrow> force \<Longrightarrow>
    list_all (inst_ok S lo hi inp) (iopt_optimize force rs) \<and> sorted_wrt apart (iopt_optimize force rs)
    \<and> starts_from p (iopt_optimize force rs)"
proof (induction force rs arbitrary: p rule: iopt_optimize.induct)
  case (3 force r1 r2 rest)
  have ok: "inst_ok S lo hi inp r1" "inst_ok S lo hi inp r2" "list_all (inst_ok S lo hi inp) rest"
    using 3 by auto
  have srt: "ordered r1 r2" "sorted_wrt ordered rest" "\<forall>r \<in> set rest. ordered r1 r" "\<forall>r \<in> set rest. ordered r2 r"
    using 3 by auto
  have l': "length inp < 2 ^ 64" using l(1) by simp
  have e1: "unat (rend r1) = nend r1" using unat_rend ok(1) l' by auto
  have p1: "p \<le> unat (rpos r1)" "p \<le> unat (rpos r2)" "starts_from p rest"
    using 3 by (simp_all add: starts_from_def)
  note oa = inst_ok_def [of S lo hi inp r1]
  have b1: "nend r1 < 2 ^ 63" using ok(1) l(1) by (simp add: inst_ok_def nend_def)
  consider (far) "rend r1 \<le> rpos r2"
    | (drop) "rpos r2 < rend r1" "rest \<noteq> []" "rpos (hd rest) \<le> rend r1 + 1"
    | (rest) "rpos r2 < rend r1" "\<not> (rest \<noteq> [] \<and> rpos (hd rest) \<le> rend r1 + 1)"
    by (meson not_less)
  then show ?case
  proof cases
    case far
    then have g: "nend r1 \<le> unat (rpos r2)" by (simp add: word_le_nat_alt e1)
    have st: "starts_from (unat (rpos r2)) (r2 # rest)" using srt(4) by (auto simp: starts_from_def ordered_def)
    have e: "iopt_optimize force (r1 # r2 # rest) = r1 # iopt_optimize force (r2 # rest)" using far by simp
    have IH: "list_all (inst_ok S lo hi inp) (iopt_optimize force (r2 # rest))"
      "sorted_wrt apart (iopt_optimize force (r2 # rest))"
      "starts_from (unat (rpos r2)) (iopt_optimize force (r2 # rest))"
      using "3.IH"(1) [OF far _ _ st] 3(6,7,9) by simp_all
    have "starts_from p (iopt_optimize force (r2 # rest))" using starts_from_mono [OF IH(3) p1(2)] .
    then show ?thesis unfolding e using IH(1,2) ok(1) p1(1) apart_Cons [OF IH(3) g] starts_from_Cons by simp
  next
    case drop
    have c: "\<not> rend r1 \<le> rpos r2" using drop by simp
    have st: "starts_from p (r1 # rest)" using p1 by (simp add: starts_from_def)
    have e: "iopt_optimize force (r1 # r2 # rest) = iopt_optimize force (r1 # rest)" using drop c by simp
    from "3.IH"(2) [OF c _ _ _ st] drop(2,3) 3(6,7,9) show ?thesis unfolding e by simp
  next
    case rest
    have c: "\<not> rend r1 \<le> rpos r2" using rest by simp
    have ov: "unat (rpos r2) < nend r1" using rest(1) by (simp add: word_less_nat_alt e1)
    have gap: "nend r1 + 1 < unat (rpos r)" if "r \<in> set rest" for r
    proof -
      have "unat (rend r1 + 1) = nend r1 + 1" using b1 by (subst unat_add_less) (simp_all add: e1)
      then have "nend r1 + 1 < unat (rpos (hd rest))"
        using rest(2) that by (cases rest) (auto simp: word_le_nat_alt not_le)
      moreover have "unat (rpos (hd rest)) \<le> unat (rpos r)"
        using that srt(2) by (cases rest) (auto simp: ordered_def)
      ultimately show ?thesis by simp
    qed
    show ?thesis
    proof (cases "overlap_almost r1 r2")
      case True
      show ?thesis
      proof (cases "rsize r1 < rsize r2")
        case lt: True
        have st: "starts_from p (r2 # rest)" using p1 by (simp add: starts_from_def)
        have e: "iopt_optimize force (r1 # r2 # rest) = iopt_optimize force (r2 # rest)"
          using rest c True lt 3(9) by auto
        from "3.IH"(3) [OF c rest(2) _ True lt _ _ st] 3(6,7,9) show ?thesis unfolding e by simp
      next
        case ge: False
        have st: "starts_from (nend r1) rest" using gap by (force simp: starts_from_def)
        have e: "iopt_optimize force (r1 # r2 # rest) = r1 # iopt_optimize force rest"
          using rest c True ge 3(9) by auto
        have IH: "list_all (inst_ok S lo hi inp) (iopt_optimize force rest)"
          "sorted_wrt apart (iopt_optimize force rest)" "starts_from (nend r1) (iopt_optimize force rest)"
          using "3.IH"(4) [OF c rest(2) _ True ge _ _ st] 3(6,7,9) by simp_all
        have "p \<le> nend r1" using p1(1) by (simp add: nend_def)
        then show ?thesis unfolding e
          using IH(1,2) ok(1) p1(1) apart_Cons [OF IH(3) le_refl] starts_from_mono [OF IH(3)] starts_from_Cons by simp
      qed
    next
      case F: False
      obtain r1' r2' where sp: "shorten_pair r1 r2 = (r1', r2')" by force
      note k = shorten_pair_ok [OF ok(1,2) l' l(2) srt(1) ov sp]
      have st: "starts_from (unat (rpos r2')) (r2' # rest)" using k gap by (force simp: starts_from_def)
      have so: "sorted_wrt ordered (r2' # rest)" using k gap srt(2,4) by (force simp: ordered_def)
      have al: "list_all (inst_ok S lo hi inp) (r2' # rest)" using k ok by simp
      have e: "iopt_optimize force (r1 # r2 # rest) = r1' # iopt_optimize force (r2' # rest)"
        using rest c F sp 3(9) by auto
      have IH: "list_all (inst_ok S lo hi inp) (iopt_optimize force (r2' # rest))"
        "sorted_wrt apart (iopt_optimize force (r2' # rest))"
        "starts_from (unat (rpos r2')) (iopt_optimize force (r2' # rest))"
        using "3.IH"(5) [OF c rest(2) _ F sp [symmetric] al so st] 3(9) by simp_all
      have "starts_from p (iopt_optimize force (r2' # rest))"
        by (rule starts_from_mono [OF IH(3)]) (use k p1 in auto)
      moreover have "nend r1' \<le> unat (rpos r2')" using k by (simp add: apart_def)
      ultimately show ?thesis unfolding e
        using IH(1,2) k p1(1) apart_Cons [OF IH(3)] starts_from_Cons by simp
    qed
  qed
qed auto

subsection \<open>What has been written so far\<close>

text \<open>The source windows the emitted part is right for: any one until the window is decided, then that
  one.\<close>

definition sw_ok :: "bytes \<Rightarrow> xd3_estream \<Rightarrow> bytes \<Rightarrow> bool" where
  "sw_ok S s sw \<longleftrightarrow> (esrc s = None \<longrightarrow> sw = [])
     \<and> (\<forall>source. esrc s = Some source \<longrightarrow> srcwin_decided s \<longrightarrow>
          sw = take (unat (srclen source)) (drop (unat (srcbase source)) S))"

text \<open>The source window fields while the buffer is being flushed: the window is undecided, or spans the
  addresses of the source matches.\<close>

definition srcwin_ok :: "bytes \<Rightarrow> xd3_estream \<Rightarrow> bool" where
  "srcwin_ok S s \<longleftrightarrow> (esrc s = None \<longrightarrow> taroff s = 0)
     \<and> (\<forall>source. esrc s = Some source \<longrightarrow>
          match_minaddr s \<le> match_maxaddr s \<and> unat (match_maxaddr s) \<le> length S
          \<and> taroff s = srclen source
          \<and> (if srcwin_decided s \<and> match_maxaddr s \<noteq> 0
             then srcbase source = match_minaddr s \<and> srclen source = match_maxaddr s - match_minaddr s
             else srclen source = 0))"

definition enc_frame :: "bytes \<Rightarrow> xd3_estream \<Rightarrow> bool" where
  "enc_frame S s \<longleftrightarrow> chain_wf (inst_chain s) \<and> chain_wf (data_chain s) \<and> chain_wf (addr_chain s)
     \<and> cache_wf (eacache s) \<and> s_near (eacache s) = 4 \<and> s_same (eacache s) = 3
     \<and> ecode_table s = xd3_rfc3284_code_table \<and> length (ein s) < 2 ^ 63 \<and> length S < 2 ^ 63
     \<and> enc_state s = ENC_INSTR \<and> unat (unencoded_offset s) \<le> length (ein s) \<and> srcwin_ok S s"

definition done_state :: "xd3_estream \<Rightarrow> vc_state" where
  "done_state s = \<lparr>vinst = [], vdata = [], vaddr = [], vcache = eacache s,
                   vout = take (unat (unencoded_offset s)) (ein s)\<rparr>"

text \<open>\<open>pending_ok sw s v\<close>: from \<open>v\<close>, the instruction held back in \<open>iout\<close>, if any, leads to the state
  that the input encoded so far stands for.\<close>

definition iout_ok :: "xd3_estream \<Rightarrow> bool" where
  "iout_ok s \<longleftrightarrow> (\<forall>r. iout s = Some r \<longrightarrow> valid_rtype (rtype r) \<and> rsize r \<noteq> 0 \<and> code2 r = 0
     \<and> code1 r = single_code (rtype r) (rsize r))"

definition pending_ok :: "bytes \<Rightarrow> xd3_estream \<Rightarrow> vc_state \<Rightarrow> bool" where
  "pending_ok sw s v \<longleftrightarrow> vinst v = [] \<and>
     (case iout s of None \<Rightarrow> v = done_state s | Some r \<Rightarrow> vc_half sw (rtype r) (rsize r) v = Some (done_state s))"

definition start_state :: "xd3_addr_cache \<Rightarrow> xd3_estream \<Rightarrow> vc_state" where
  "start_state c0 s = \<lparr>vinst = chain_bytes (inst_chain s), vdata = chain_bytes (data_chain s),
                       vaddr = chain_bytes (addr_chain s), vcache = c0, vout = []\<rparr>"

definition enc_inv :: "bytes \<Rightarrow> xd3_addr_cache \<Rightarrow> xd3_estream \<Rightarrow> bool" where
  "enc_inv S c0 s \<longleftrightarrow> enc_frame S s \<and> iout_ok s
     \<and> (\<forall>sw. sw_ok S s sw \<longrightarrow> (\<exists>v. vc_steps sw (start_state c0 s) v \<and> pending_ok sw s v))"

text \<open>Neither predicate depends on the sections.\<close>

lemma sw_ok_update [simp]:
  "sw_ok S (s\<lparr>emem := m\<rparr>) = sw_ok S s" "sw_ok S (s\<lparr>inst_chain := ch\<rparr>) = sw_ok S s"
  "sw_ok S (s\<lparr>data_chain := ch\<rparr>) = sw_ok S s" "sw_ok S (s\<lparr>addr_chain := ch\<rparr>) = sw_ok S s"
  "sw_ok S (s\<lparr>eacache := c\<rparr>) = sw_ok S s" "sw_ok S (s\<lparr>iout := r\<rparr>) = sw_ok S s"
  "sw_ok S (s\<lparr>iopt_free := n\<rparr>) = sw_ok S s" "sw_ok S (s\<lparr>iopt_used := rs\<rparr>) = sw_ok S s"
  "sw_ok S (s\<lparr>unencoded_offset := x\<rparr>) = sw_ok S s" "sw_ok S (s\<lparr>n_add := x\<rparr>) = sw_ok S s"
  "sw_ok S (s\<lparr>l_add := x\<rparr>) = sw_ok S s" "sw_ok S (s\<lparr>n_run := x\<rparr>) = sw_ok S s" "sw_ok S (s\<lparr>l_run := x\<rparr>) = sw_ok S s"
  "sw_ok S (s\<lparr>n_scpy := x\<rparr>) = sw_ok S s" "sw_ok S (s\<lparr>l_scpy := x\<rparr>) = sw_ok S s"
  "sw_ok S (s\<lparr>n_tcpy := x\<rparr>) = sw_ok S s" "sw_ok S (s\<lparr>l_tcpy := x\<rparr>) = sw_ok S s"
  by (simp_all add: sw_ok_def fun_eq_iff)

lemma srcwin_ok_update [simp]:
  "srcwin_ok S (s\<lparr>emem := m\<rparr>) = srcwin_ok S s" "srcwin_ok S (s\<lparr>inst_chain := ch\<rparr>) = srcwin_ok S s"
  "srcwin_ok S (s\<lparr>data_chain := ch\<rparr>) = srcwin_ok S s" "srcwin_ok S (s\<lparr>addr_chain := ch\<rparr>) = srcwin_ok S s"
  "srcwin_ok S (s\<lparr>eacache := c\<rparr>) = srcwin_ok S s" "srcwin_ok S (s\<lparr>iout := r\<rparr>) = srcwin_ok S s"
  "srcwin_ok S (s\<lparr>iopt_free := n\<rparr>) = srcwin_ok S s" "srcwin_ok S (s\<lparr>iopt_used := rs\<rparr>) = srcwin_ok S s"
  "srcwin_ok S (s\<lparr>unencoded_offset := x\<rparr>) = srcwin_ok S s" "srcwin_ok S (s\<lparr>n_add := x\<rparr>) = srcwin_ok S s"
  "srcwin_ok S (s\<lparr>l_add := x\<rparr>) = srcwin_ok S s" "srcwin_ok S (s\<lparr>n_run := x\<rparr>) = srcwin_ok S s"
  "srcwin_ok S (s\<lparr>l_run := x\<rparr>) = srcwin_ok S s" "srcwin_ok S (s\<lparr>n_scpy := x\<rparr>) = srcwin_ok S s"
  "srcwin_ok S (s\<lparr>l_scpy := x\<rparr>) = srcwin_ok S s" "srcwin_ok S (s\<lparr>n_tcpy := x\<rparr>) = srcwin_ok S s"
  "srcwin_ok S (s\<lparr>l_tcpy := x\<rparr>) = srcwin_ok S s"
  by (simp_all add: srcwin_ok_def)

subsection \<open>Operands\<close>

text \<open>What encoding the operands of an instruction changes: the sections grow, the source window may be
  decided.\<close>

definition op_frame :: "bytes \<Rightarrow> xd3_estream \<Rightarrow> bytes \<Rightarrow> bytes \<Rightarrow> xd3_estream \<Rightarrow> bool" where
  "op_frame S s d a t \<longleftrightarrow> ein t = ein s \<and> inst_chain t = inst_chain s \<and> iout t = iout s
     \<and> unencoded_offset t = unencoded_offset s \<and> iopt_used t = iopt_used s
     \<and> match_minaddr t = match_minaddr s \<and> match_maxaddr t = match_maxaddr s
     \<and> (esrc t = None \<longleftrightarrow> esrc s = None) \<and> (\<forall>sw. sw_ok S t sw \<longrightarrow> sw_ok S s sw)
     \<and> chain_bytes (data_chain t) = chain_bytes (data_chain s) @ d
     \<and> chain_bytes (addr_chain t) = chain_bytes (addr_chain s) @ a"

lemma on_data_ok:
  assumes "on_data f s = (None, t)" "chain_wf (data_chain s)"
    and "f = xd3_emit_byte b \<and> d = [b] \<or> f = xd3_emit_bytes d"
  shows "\<exists>m ch. t = s\<lparr>emem := m, data_chain := ch\<rparr> \<and> chain_wf ch \<and> chain_bytes ch = chain_bytes (data_chain s) @ d"
proof -
  obtain m ch where e: "f (emem s, data_chain s) = (None, m, ch)" "t = s\<lparr>emem := m, data_chain := ch\<rparr>"
    using assms(1) by (auto simp: on_data_def split: prod.splits)
  then show ?thesis
    using sect.put_byte_ok [of "(emem s, data_chain s)" b "(m, ch)"] sect.put_bytes_ok [of "(emem s, data_chain s)" d "(m, ch)"]
      assms(2,3) by (auto simp: sect_valid_def sect_bytes_def)
qed

lemma on_inst_ok:
  assumes "on_inst f s = (None, t)" "chain_wf (inst_chain s)"
    and "f = xd3_emit_byte b \<and> d = [b] \<or> f = xd3_emit_bytes d"
  shows "\<exists>m ch. t = s\<lparr>emem := m, inst_chain := ch\<rparr> \<and> chain_wf ch \<and> chain_bytes ch = chain_bytes (inst_chain s) @ d"
proof -
  obtain m ch where e: "f (emem s, inst_chain s) = (None, m, ch)" "t = s\<lparr>emem := m, inst_chain := ch\<rparr>"
    using assms(1) by (auto simp: on_inst_def split: prod.splits)
  then show ?thesis
    using sect.put_byte_ok [of "(emem s, inst_chain s)" b "(m, ch)"] sect.put_bytes_ok [of "(emem s, inst_chain s)" d "(m, ch)"]
      assms(2,3) by (auto simp: sect_valid_def sect_bytes_def)
qed

lemma copy_window_ok:
  assumes f: "enc_frame S s" and w: "copy_window s = (r, t)"
  shows "r = None" "enc_frame S t" "op_frame S s [] [] t" "\<And>sw. sw_ok S t sw \<Longrightarrow> length sw = unat (taroff t)"
    "eacache t = eacache s" "addr_chain t = addr_chain s" "data_chain t = data_chain s" "emem t = emem s"
    "esrc t \<noteq> None \<Longrightarrow> srcwin_decided t"
proof -
  have len: "length (take (unat (srclen x)) (drop (unat (srcbase x)) S)) = unat (srclen x)"
    if "srcwin_ok S u" "esrc u = Some x" "srcwin_decided u" for u x
  proof (cases "match_maxaddr u = 0")
    case False
    have m: "unat (match_minaddr u) \<le> unat (match_maxaddr u)" "unat (match_maxaddr u) \<le> length S"
      using that by (simp_all add: srcwin_ok_def word_le_nat_alt)
    have x: "srcbase x = match_minaddr u" "srclen x = match_maxaddr u - match_minaddr u"
      using False that by (simp_all add: srcwin_ok_def)
    show ?thesis using m by (simp add: x unat_sub_le)
  qed (use that in \<open>simp add: srcwin_ok_def\<close>)
  have "r = None \<and> enc_frame S t \<and> op_frame S s [] [] t \<and> (esrc t \<noteq> None \<longrightarrow> srcwin_decided t)
    \<and> eacache t = eacache s \<and> addr_chain t = addr_chain s \<and> data_chain t = data_chain s \<and> emem t = emem s"
  proof (cases "esrc s")
    case None
    then show ?thesis using w f by (auto simp: copy_window_def op_frame_def)
  next
    case (Some x)
    note x = Some
    show ?thesis
    proof (cases "srcwin_decided s")
      case True
      then show ?thesis using w f x
        by (auto simp: copy_window_def op_frame_def enc_frame_def srcwin_ok_def sw_ok_def)
    next
      case False
      have nm: "\<not> match_maxaddr s - match_minaddr s > - 1" using word_n1_ge not_less by blast
      define x' where "x' = (if match_maxaddr s = 0 then x
        else x\<lparr>srcbase := match_minaddr s, srclen := match_maxaddr s - match_minaddr s\<rparr>)"
      have t: "r = None" "t = s\<lparr>srcwin_decided := True, esrc := Some x', taroff := srclen x'\<rparr>"
        using w f x False nm
        by (auto simp: copy_window_def xd3_srcwin_setup_def srcwin_done_def Let_def enc_frame_def x'_def split: if_splits)
      show ?thesis using f x False unfolding t
        by (auto simp: enc_frame_def srcwin_ok_def op_frame_def sw_ok_def x'_def)
    qed
  qed
  then show "r = None" "enc_frame S t" "op_frame S s [] [] t" "eacache t = eacache s" "addr_chain t = addr_chain s"
    "data_chain t = data_chain s" "emem t = emem s" "esrc t \<noteq> None \<Longrightarrow> srcwin_decided t" by auto
  then show "length sw = unat (taroff t)" if "sw_ok S t sw" for sw
    using that len [of t] by (cases "esrc t") (auto simp: sw_ok_def enc_frame_def srcwin_ok_def)
qed

definition item_ok :: "bytes \<Rightarrow> xd3_estream \<Rightarrow> xd3_rinst \<Rightarrow> bool" where
  "item_ok S s r \<longleftrightarrow> rpos r = unencoded_offset s \<and>
     (rtype r = XD3_ADD \<and> 0 < unat (rsize r) \<and> unat (rpos r) + unat (rsize r) \<le> length (ein s)
      \<or> inst_ok S (unat (match_minaddr s)) (unat (match_maxaddr s)) (ein s) r
         \<and> (rtype r = XD3_CPY \<and> xtra r \<noteq> 0 \<longrightarrow> esrc s \<noteq> None))"

text \<open>The operands written for \<open>r\<close> make \<open>r\<close>, with the type \<open>ty\<close> it now has, advance the output by its
  part of the input.\<close>

definition half_ok :: "bytes \<Rightarrow> xd3_estream \<Rightarrow> xd3_rinst \<Rightarrow> u8 \<Rightarrow> bytes \<Rightarrow> bytes \<Rightarrow> xd3_estream \<Rightarrow> bool" where
  "half_ok S s r ty d a t \<longleftrightarrow> valid_rtype ty \<and> (\<forall>sw. sw_ok S t sw \<longrightarrow>
     vc_half sw ty (rsize r) \<lparr>vinst = [], vdata = d, vaddr = a, vcache = eacache s,
                              vout = take (unat (rpos r)) (ein s)\<rparr>
       = Some \<lparr>vinst = [], vdata = [], vaddr = [], vcache = eacache t,
               vout = take (unat (rpos r) + unat (rsize r)) (ein s)\<rparr>)"

lemma take_run:
  assumes "p + n \<le> length xs" "\<And>k. k < n \<Longrightarrow> xs ! (p + k) = b"
  shows "take p xs @ replicate n b = take (p + n) xs"
proof (rule nth_equalityI)
  fix i assume "i < length (take p xs @ replicate n b)"
  then show "(take p xs @ replicate n b) ! i = take (p + n) xs ! i"
    using assms(1) assms(2) [of "i - p"] by (auto simp: nth_append min_def)
qed (use assms(1) in simp)

lemma take_slice:
  assumes "p + n \<le> length xs" "a + n \<le> length ys" "\<And>k. k < n \<Longrightarrow> ys ! (a + k) = xs ! (p + k)"
  shows "take p xs @ take n (drop a ys) = take (p + n) xs"
proof -
  have "take n (drop a ys) = take n (drop p xs)" using assms by (intro slice_eqI) auto
  then show ?thesis by (simp add: take_add)
qed

lemma encode_run_ok:
  assumes "enc_frame S s" "encode_run r s = (None, t)" "inst_ok S lo hi (ein s) r" "rtype r = XD3_RUN"
  shows "\<exists>d. op_frame S s d [] t \<and> enc_frame S t \<and> half_ok S s r XD3_RUN d [] t"
proof -
  obtain s1 where 1: "on_data (xd3_emit_byte (xtra r)) s = (None, s1)"
    "t = s1\<lparr>n_run := n_run s1 + 1, l_run := l_run s1 + rsize r\<rparr>"
    using assms(2) by (auto simp: encode_run_def seqr_None_iff)
  obtain m ch where 2: "s1 = s\<lparr>emem := m, data_chain := ch\<rparr>" "chain_wf ch"
    "chain_bytes ch = chain_bytes (data_chain s) @ [xtra r]"
    using on_data_ok [OF 1(1), of "xtra r" "[xtra r]"] assms(1) by (auto simp: enc_frame_def)
  have k: "unat (rpos r) + unat (rsize r) \<le> length (ein s)" "rsize r \<noteq> 0"
    "\<And>k. k < unat (rsize r) \<Longrightarrow> ein s ! (unat (rpos r) + k) = xtra r"
    using assms(3,4) by (auto simp: inst_ok_def xd3_rtype_defs)
  have h: "half_ok S s r XD3_RUN [xtra r] [] t"
    unfolding half_ok_def
    by (auto simp: 1(2) 2(1) k(2) vc_half_def vc_size_def vc_addr_def vc_emit_def valid_rtype_def
        take_run [OF k(1,3)]) (simp_all add: xd3_rtype_defs word_le_nat_alt)
  show ?thesis using h assms(1) 1 2
    by (intro exI [of _ "[xtra r]"]) (simp add: op_frame_def enc_frame_def)
qed

lemma encode_add_ok:
  assumes "enc_frame S s" "encode_add r s = (None, t)" "rsize r \<noteq> 0"
    "unat (rpos r) + unat (rsize r) \<le> length (ein s)"
  shows "\<exists>d. op_frame S s d [] t \<and> enc_frame S t \<and> half_ok S s r XD3_ADD d [] t"
proof -
  define d where "d = take (unat (rsize r)) (drop (unat (rpos r)) (ein s))"
  obtain s1 where 1: "on_data (xd3_emit_bytes d) s = (None, s1)"
    "t = s1\<lparr>n_add := n_add s1 + 1, l_add := l_add s1 + rsize r\<rparr>"
    using assms(2) by (auto simp: encode_add_def seqr_None_iff d_def)
  obtain m ch where 2: "s1 = s\<lparr>emem := m, data_chain := ch\<rparr>" "chain_wf ch"
    "chain_bytes ch = chain_bytes (data_chain s) @ d"
    using on_data_ok [OF 1(1), of 0 d] assms(1) by (auto simp: enc_frame_def)
  have len: "length d = unat (rsize r)" using assms(4) by (simp add: d_def)
  have ap: "take (unat (rpos r)) (ein s) @ d = take (unat (rpos r) + unat (rsize r)) (ein s)"
    by (simp add: d_def take_add)
  have h: "half_ok S s r XD3_ADD d [] t"
    unfolding half_ok_def
    by (auto simp: 1(2) 2(1) assms(3) vc_half_def vc_size_def vc_addr_def vc_emit_def valid_rtype_def ap len)
      (simp_all add: xd3_rtype_defs word_le_nat_alt)
  show ?thesis using h assms(1) 1 2
    by (intro exI [of _ d]) (simp add: op_frame_def enc_frame_def)
qed

lemma copy_type:
  assumes "unat m < 9"
  shows "valid_rtype (XD3_CPY + m)" "XD3_CPY + m \<noteq> XD3_NOOP" "XD3_CPY + m \<noteq> XD3_RUN" "XD3_CPY + m \<noteq> XD3_ADD"
    "XD3_CPY \<le> XD3_CPY + m"
proof -
  have u: "unat (XD3_CPY + m) = 3 + unat m" using assms by (subst unat_add_less) (simp_all add: XD3_CPY_def)
  then show "valid_rtype (XD3_CPY + m)" using assms by (simp add: valid_rtype_unat)
  show "XD3_CPY \<le> XD3_CPY + m" using u by (simp add: word_le_nat_alt XD3_CPY_def)
  show "XD3_CPY + m \<noteq> XD3_NOOP" "XD3_CPY + m \<noteq> XD3_RUN" "XD3_CPY + m \<noteq> XD3_ADD"
    using u by (auto simp: word_unat_eq_iff XD3_NOOP_def XD3_RUN_def XD3_ADD_def)
qed

text \<open>The copy a valid instruction stands for, at its address in the window.\<close>

lemma copy_emit:
  assumes ok: "inst_ok S (unat (match_minaddr t)) (unat (match_maxaddr t)) (ein t) r" "rtype r = XD3_CPY"
    and f: "enc_frame S t" and sw: "sw_ok S t sw" "length sw = unat (taroff t)"
    and dec: "esrc t \<noteq> None \<Longrightarrow> srcwin_decided t" and x: "xtra r \<noteq> 0 \<longrightarrow> esrc t \<noteq> None"
    and m: "unat m < 9"
  shows "vc_emit sw (XD3_CPY + m) (unat (rsize r)) (unat (copy_address r t)) data (take (unat (rpos r)) (ein t))
     = Some (data, take (unat (rpos r) + unat (rsize r)) (ein t))"
proof -
  have b: "length (ein t) < 2 ^ 63" "length S < 2 ^ 63" "srcwin_ok S t" using f by (auto simp: enc_frame_def)
  have p: "unat (rpos r) + unat (rsize r) \<le> length (ein t)" "0 < unat (rsize r)" using ok by (auto simp: inst_ok_def)
  show ?thesis
  proof (cases "xtra r = 0")
    case True
    have a: "unat (raddr r) < unat (rpos r)"
      "\<And>k. k < unat (rsize r) \<Longrightarrow> ein t ! (unat (raddr r) + k) = ein t ! (unat (rpos r) + k)"
      using ok True by (auto simp: inst_ok_def xd3_rtype_defs word_less_nat_alt)
    have swl: "length sw \<le> length S"
      using sw b(3) dec by (cases "esrc t") (auto simp: sw_ok_def srcwin_ok_def)
    have "copy_address r t = taroff t + raddr r"
      using True b(3) by (auto simp: copy_address_def srcwin_ok_def split: option.splits)
    then have u: "unat (copy_address r t) = length sw + unat (raddr r)"
      using a(1) p(1) b(1,2) sw(2) swl by (simp add: unat_add_less)
    have "vc_copy (unat (rsize r)) (unat (raddr r)) (take (unat (rpos r)) (ein t))
        = take (unat (rpos r) + unat (rsize r)) (ein t)"
      by (rule vc_copy_take) (use a p in auto)
    then show ?thesis using copy_type [OF m] a(1) p by (simp add: vc_emit_def u)
  next
    case False
    then obtain source where src: "esrc t = Some source" using x by auto
    have a: "unat (match_minaddr t) \<le> unat (raddr r)" "unat (raddr r) + unat (rsize r) \<le> unat (match_maxaddr t)"
      "\<And>k. k < unat (rsize r) \<Longrightarrow> S ! (unat (raddr r) + k) = ein t ! (unat (rpos r) + k)"
      using ok False by (auto simp: inst_ok_def xd3_rtype_defs)
    then have "match_maxaddr t \<noteq> 0" using p(2) by auto
    then have w: "srcbase source = match_minaddr t" "srclen source = match_maxaddr t - match_minaddr t"
      "unat (match_minaddr t) \<le> unat (match_maxaddr t)" "unat (match_maxaddr t) \<le> length S"
      using src dec b(3) by (auto simp: srcwin_ok_def word_le_nat_alt)
    have sw': "sw = take (unat (match_maxaddr t) - unat (match_minaddr t)) (drop (unat (match_minaddr t)) S)"
      using sw(1) src dec w by (simp add: sw_ok_def unat_sub_le)
    have u: "unat (copy_address r t) = unat (raddr r) - unat (match_minaddr t)"
      using False src a(1) by (simp add: copy_address_def w unat_sub_le)
    have sl: "length sw = unat (match_maxaddr t) - unat (match_minaddr t)" using sw' w by simp
    have "take (unat (rpos r)) (ein t) @ take (unat (rsize r)) (drop (unat (copy_address r t)) sw)
        = take (unat (rpos r) + unat (rsize r)) (ein t)"
    proof (rule take_slice [OF p(1)])
      show "unat (copy_address r t) + unat (rsize r) \<le> length sw" using u a sl by simp
      fix k assume k: "k < unat (rsize r)"
      have "sw ! (unat (copy_address r t) + k) = S ! (unat (match_minaddr t) + (unat (copy_address r t) + k))"
        unfolding sw' using k a u w by (subst nth_take) auto
      also have "\<dots> = S ! (unat (raddr r) + k)" using u a(1) by simp
      finally show "sw ! (unat (copy_address r t) + k) = ein t ! (unat (rpos r) + k)" using a(3) [OF k] by simp
    qed
    moreover have "unat (copy_address r t) < length sw" "unat (copy_address r t) + unat (rsize r) \<le> length sw"
      using u a(1,2) sl p(2) by simp_all
    ultimately show ?thesis using copy_type [OF m] by (simp add: vc_emit_def)
  qed
qed

lemma frames_stats [simp]:
  "enc_frame S (s\<lparr>n_scpy := n1, l_scpy := l1, n_tcpy := n2, l_tcpy := l2\<rparr>) = enc_frame S s"
  "op_frame S u d a (s\<lparr>n_scpy := n1, l_scpy := l1, n_tcpy := n2, l_tcpy := l2\<rparr>) = op_frame S u d a s"
  by (simp_all add: enc_frame_def op_frame_def)

lemma encode_copy_ok:
  assumes f: "enc_frame S s" and e: "encode_copy r s = (None, r', t)" and i: "item_ok S s r" "rtype r = XD3_CPY"
  shows "\<exists>a ty. r' = r\<lparr>rtype := ty\<rparr> \<and> op_frame S s [] a t \<and> enc_frame S t \<and> half_ok S s r ty [] a t"
proof -
  obtain s1 where w: "copy_window s = (None, s1)"
    using e by (auto simp: encode_copy_def split: prod.splits option.splits)
  note cw = copy_window_ok [OF f w]
  define s2 where "s2 = copy_stats r s1"
  have "s2 = s1\<lparr>n_scpy := n_scpy s2, l_scpy := l_scpy s2, n_tcpy := n_tcpy s2, l_tcpy := l_tcpy s2\<rparr>"
    by (simp add: s2_def copy_stats_def)
  then obtain n1 l1 n2 l2 where se: "s2 = s1\<lparr>n_scpy := n1, l_scpy := l1, n_tcpy := n2, l_tcpy := l2\<rparr>"
    by blast
  have s2: "enc_frame S s2" "op_frame S s [] [] s2" "eacache s2 = eacache s" "addr_chain s2 = addr_chain s"
    "taroff s2 = taroff s1" "esrc s2 = esrc s1" "srcwin_decided s2 = srcwin_decided s1" "ein s2 = ein s1"
    "match_minaddr s2 = match_minaddr s1" "match_maxaddr s2 = match_maxaddr s1"
    using cw(2,3,5,6) unfolding se by simp_all
  obtain c m ch mode where ea: "xd3_encode_address (copy_address r s1) (rpos r + taroff s2) (eacache s2)
      (emem s2, addr_chain s2) = (None, c, (m, ch), mode)"
    and r': "r' = r\<lparr>rtype := rtype r + mode\<rparr>" and t: "t = s2\<lparr>eacache := c, emem := m, addr_chain := ch\<rparr>"
    using e w by (auto simp: encode_copy_def Let_def s2_def split: prod.splits)
  have wf: "cache_wf (eacache s2)" "sect_valid (emem s2, addr_chain s2)"
    using s2(1) by (auto simp: enc_frame_def sect_valid_def)
  obtain bs where bs: "chain_wf ch" "chain_bytes ch = chain_bytes (addr_chain s2) @ bs"
    "c = xd3_update_cache (copy_address r s1) (eacache s2)" "unat mode < 9"
    "\<And>rest. xd3_decode_address (rpos r + taroff s2) (ucast mode) (eacache s2) (bs @ rest) = Inr (copy_address r s1, c, rest)"
    using encode_address_decodes [OF wf ea] s2(1) by (auto simp: sect_valid_def sect_bytes_def enc_frame_def)
  have tf: "enc_frame S t" using s2(1) bs(1,3) by (simp add: t enc_frame_def cache_wf_update)
  have to: "op_frame S s [] bs t" using s2(2,4) bs(2) by (simp add: t op_frame_def)
  have ok: "inst_ok S (unat (match_minaddr s)) (unat (match_maxaddr s)) (ein s) r" "xtra r \<noteq> 0 \<longrightarrow> esrc s \<noteq> None"
    using i by (auto simp: item_ok_def xd3_rtype_defs)
  have pos: "unat (rpos r) \<le> length (ein s)" "rsize r \<noteq> 0" using ok(1) by (auto simp: inst_ok_def)
  have "half_ok S s r (XD3_CPY + mode) [] bs t"
    unfolding half_ok_def
  proof (intro conjI allI impI)
    fix sw assume sw: "sw_ok S t sw"
    then have sw1: "sw_ok S s1 sw" by (simp add: t se)
    have len: "length sw = unat (taroff s1)" using cw(4) [OF sw1] .
    have here: "of_nat (length sw + min (length (ein s)) (unat (rpos r))) = rpos r + taroff s2"
      using pos s2(5) by (simp add: len min_absorb2)
    have em: "vc_emit sw (XD3_CPY + mode) (unat (rsize r)) (unat (copy_address r s1)) [] (take (unat (rpos r)) (ein s))
      = Some ([], take (unat (rpos r) + unat (rsize r)) (ein s))"
    proof -
      have "ein s1 = ein s" "match_minaddr s1 = match_minaddr s" "match_maxaddr s1 = match_maxaddr s"
        "esrc s1 = None \<longleftrightarrow> esrc s = None" using cw(3) by (simp_all add: op_frame_def)
      then show ?thesis using copy_emit [OF _ i(2) cw(2) sw1 len cw(9) _ bs(4)] ok by (metis (no_types))
    qed
    have "xd3_decode_address (rpos r + taroff s2) (ucast mode) (eacache s) bs = Inr (copy_address r s1, c, [])"
      using bs(5) [of "[]"] s2(3) by simp
    then show "vc_half sw (XD3_CPY + mode) (rsize r) \<lparr>vinst = [], vdata = [], vaddr = bs, vcache = eacache s,
        vout = take (unat (rpos r)) (ein s)\<rparr> = Some \<lparr>vinst = [], vdata = [], vaddr = [], vcache = eacache t,
        vout = take (unat (rpos r) + unat (rsize r)) (ein s)\<rparr>"
      using copy_type [OF bs(4)] pos em here
      by (simp add: vc_half_def vc_size_def vc_addr_def t add.commute [of "rpos r"])
  qed (rule copy_type [OF bs(4)])
  then show ?thesis using r' i(2) to tf by (intro exI [of _ bs] exI [of _ "XD3_CPY + mode"]) simp
qed

lemma encode_operands_ok:
  assumes f: "enc_frame S s" and e: "encode_operands r s = (None, r', t)" and i: "item_ok S s r"
  shows "\<exists>d a ty. r' = r\<lparr>rtype := ty\<rparr> \<and> op_frame S s d a t \<and> enc_frame S t \<and> half_ok S s r ty d a t"
proof -
  consider (cpy) "rtype r = XD3_CPY" | (run) "rtype r = XD3_RUN" | (add) "rtype r = XD3_ADD"
    using i by (auto simp: item_ok_def inst_ok_def)
  then show ?thesis
  proof cases
    case cpy
    then show ?thesis using encode_copy_ok [OF f _ i cpy] e by (fastforce simp: encode_operands_def)
  next
    case run
    then have 1: "encode_run r s = (None, t)" "r' = r" and 2: "inst_ok S (unat (match_minaddr s)) (unat (match_maxaddr s)) (ein s) r"
      using e i by (auto simp: encode_operands_def item_ok_def xd3_rtype_defs split: prod.splits)
    obtain d where "op_frame S s d [] t" "enc_frame S t" "half_ok S s r XD3_RUN d [] t"
      using encode_run_ok [OF f 1(1) 2 run] by blast
    then show ?thesis using run 1(2) by (intro exI [of _ d] exI [of _ "[]"] exI [of _ XD3_RUN]) simp
  next
    case add
    then have 1: "encode_add r s = (None, t)" "r' = r" and 2: "rsize r \<noteq> 0" "unat (rpos r) + unat (rsize r) \<le> length (ein s)"
      using e i by (auto simp: encode_operands_def item_ok_def inst_ok_def xd3_rtype_defs split: prod.splits)
    obtain d where "op_frame S s d [] t" "enc_frame S t" "half_ok S s r XD3_ADD d [] t"
      using encode_add_ok [OF f 1(1) 2] by blast
    then show ?thesis using add 1(2) by (intro exI [of _ d] exI [of _ "[]"] exI [of _ XD3_ADD]) simp
  qed
qed

subsection \<open>Codes\<close>

lemma emit_single_ok:
  assumes "xd3_emit_single p code s = (None, t)" "chain_wf (inst_chain s)" "ecode_table s = xd3_rfc3284_code_table"
  shows "\<exists>m ch. t = s\<lparr>emem := m, inst_chain := ch\<rparr> \<and> chain_wf ch \<and> chain_bytes ch = chain_bytes (inst_chain s)
     @ code # (if size1 (xd3_rfc3284_code_table ! unat code) = 0 then emit_uint64 (rsize p) else [])"
proof -
  obtain s1 where 1: "on_inst (xd3_emit_byte code) s = (None, s1)"
    and 2: "(if size1 (ecode_table s1 ! unat code) = 0 then on_inst (xd3_emit_size (rsize p)) s1 else (None, s1)) = (None, t)"
    using assms(1) by (auto simp: xd3_emit_single_def seqr_None_iff)
  obtain m1 ch1 where s1: "s1 = s\<lparr>emem := m1, inst_chain := ch1\<rparr>" "chain_wf ch1"
    "chain_bytes ch1 = chain_bytes (inst_chain s) @ [code]"
    using on_inst_ok [OF 1 assms(2), of code "[code]"] by auto
  show ?thesis
  proof (cases "size1 (xd3_rfc3284_code_table ! unat code) = 0")
    case True
    then have 3: "on_inst (xd3_emit_bytes (emit_uint64 (rsize p))) s1 = (None, t)"
      using 2 s1(1) assms(3) by (simp add: xd3_emit_size_def [abs_def])
    then obtain m2 ch2 where "t = s1\<lparr>emem := m2, inst_chain := ch2\<rparr>" "chain_wf ch2"
      "chain_bytes ch2 = chain_bytes (inst_chain s1) @ emit_uint64 (rsize p)"
      using on_inst_ok [OF 3, of 0 "emit_uint64 (rsize p)"] s1(1,2) by auto
    then show ?thesis using True s1 by (intro exI [of _ m2] exI [of _ ch2]) simp
  next
    case False
    then show ?thesis using 2 s1 assms(3) by (intro exI [of _ m1] exI [of _ ch1]) simp
  qed
qed

lemma vc_half_read:
  assumes "t \<noteq> XD3_NOOP" "n \<noteq> 0"
  shows "vc_half sw t 0 (v\<lparr>vinst := emit_uint64 n @ rest\<rparr>) = vc_half sw t n (v\<lparr>vinst := rest\<rparr>)"
  using assms by (simp add: vc_half_def vc_size_def read_uint64_emit split: option.splits)

lemma valid_rtype_noop: "valid_rtype t \<Longrightarrow> t \<noteq> XD3_NOOP"
  by (auto simp: valid_rtype_unat XD3_NOOP_def)

text \<open>Executing a code that was written for one instruction, or for two.\<close>

lemma step_single:
  fixes p :: xd3_rinst
  assumes "valid_rtype (rtype p)" "rsize p \<noteq> 0" "vinst v = []" "vc_half sw (rtype p) (rsize p) v = Some w"
    and "code = single_code (rtype p) (rsize p)"
  shows "vc_step sw (vc_ext (code # (if size1 (xd3_rfc3284_code_table ! unat code) = 0 then emit_uint64 (rsize p) else []))
      d a v) = Some (vc_ext [] d a w)"
proof -
  let ?e = "xd3_rfc3284_code_table ! unat code"
  have e: "codes_single ?e p" using single_code_correct [OF assms(1)] assms(5) by simp
  then have t: "type1 ?e = rtype p" "type2 ?e = XD3_NOOP" "size1 ?e = 0 \<or> ucast (size1 ?e) = rsize p"
    by (auto simp: codes_single_def)
  have h: "vc_half sw (rtype p) (rsize p) (vc_ext [] d a v) = Some (vc_ext [] d a w)"
    by (rule vc_half_ext [OF assms(4)])
  have v0: "(vc_ext [] d a v)\<lparr>vinst := []\<rparr> = vc_ext [] d a v" using assms(3) by (simp add: vc_ext_def)
  have ex: "(vc_ext (code # i) d a v)\<lparr>vinst := j\<rparr> = (vc_ext [] d a v)\<lparr>vinst := j\<rparr>" for i j by (simp add: vc_ext_def)
  show ?thesis
  proof (cases "size1 ?e = 0")
    case True
    have "vc_half sw (rtype p) 0 ((vc_ext [] d a v)\<lparr>vinst := emit_uint64 (rsize p)\<rparr>) = Some (vc_ext [] d a w)"
      using vc_half_read [of "rtype p" "rsize p" sw "[]" "vc_ext [] d a v"] valid_rtype_noop [OF assms(1)] assms(2) h v0
      by simp
    then show ?thesis using True t assms(3) by (simp add: vc_step_def ex vc_half_def [of sw XD3_NOOP])
  next
    case False
    then show ?thesis using t assms(3) h by (simp add: vc_step_def ex v0 vc_half_def [of sw XD3_NOOP])
  qed
qed

lemma step_double:
  assumes "codes_double (xd3_rfc3284_code_table ! unat code) p inst" "vinst v = []"
    "vc_half sw (rtype p) (rsize p) v = Some w" "vc_half sw (rtype inst) (rsize inst) (vc_ext [] d a w) = Some x"
  shows "vc_step sw (vc_ext [code] d a v) = Some x"
proof -
  have ex: "(vc_ext [code] d a v)\<lparr>vinst := []\<rparr> = vc_ext [] d a v" using assms(2) by (simp add: vc_ext_def)
  have h: "vc_half sw (rtype p) (rsize p) (vc_ext [] d a v) = Some (vc_ext [] d a w)"
    by (rule vc_half_ext [OF assms(3)])
  show ?thesis using assms(1,2,4) h by (simp add: vc_step_def codes_double_def ex)
qed

subsection \<open>The instruction held back\<close>

text \<open>The state between the two halves of \<open>xd3_iopt_finish_encoding\<close>: the operands of \<open>inst\<close> are written,
  its code is not, nor that of \<open>iout\<close>.\<close>

definition both_pending :: "bytes \<Rightarrow> xd3_addr_cache \<Rightarrow> xd3_rinst \<Rightarrow> xd3_estream \<Rightarrow> bytes \<Rightarrow> bool" where
  "both_pending S c0 inst t sw \<longleftrightarrow> (\<exists>v w d a. vc_steps sw (start_state c0 t) (vc_ext [] d a v)
     \<and> vinst v = [] \<and> vinst w = [] \<and> vdata w = [] \<and> vaddr w = []
     \<and> (case iout t of None \<Rightarrow> v = w | Some p \<Rightarrow> vc_half sw (rtype p) (rsize p) v = Some w)
     \<and> vc_half sw (rtype inst) (rsize inst) (vc_ext [] d a w) = Some (done_state t))"

definition kept :: "xd3_estream \<Rightarrow> xd3_estream \<Rightarrow> bool" where
  "kept s t \<longleftrightarrow> ein t = ein s \<and> iopt_used t = iopt_used s \<and> match_minaddr t = match_minaddr s
     \<and> match_maxaddr t = match_maxaddr s \<and> (esrc t = None \<longleftrightarrow> esrc s = None)"

lemma start_state_inst:
  "chain_bytes ch = chain_bytes (inst_chain t) @ i \<Longrightarrow>
     start_state c0 (t\<lparr>emem := m, inst_chain := ch, iout := r\<rparr>) = vc_ext i [] [] (start_state c0 t)"
  by (simp add: start_state_def vc_ext_def)

lemma free_nonadd_eq: "xd3_iopt_free_nonadd p s = s\<lparr>iopt_free := iopt_free s + (if rtype p \<noteq> XD3_ADD then 1 else 0)\<rparr>"
  by (simp add: xd3_iopt_free_nonadd_def)

text \<open>The state after a code has been written: what it has of interest.\<close>

definition wrote :: "xd3_estream \<Rightarrow> bytes \<Rightarrow> xd3_rinst option \<Rightarrow> xd3_estream \<Rightarrow> bool" where
  "wrote t i r u \<longleftrightarrow> (\<exists>m ch n. u = t\<lparr>emem := m, inst_chain := ch, iopt_free := n, iout := r\<rparr> \<and> chain_wf ch
     \<and> chain_bytes ch = chain_bytes (inst_chain t) @ i)"

lemma wroteD:
  assumes "wrote t i r u" "enc_frame S t"
  shows "enc_frame S u" "kept t u" "iout u = r" "done_state u = done_state t" "sw_ok S u = sw_ok S t"
    "start_state c0 u = vc_ext i [] [] (start_state c0 t)" "unencoded_offset u = unencoded_offset t"
  using assms by (auto simp: wrote_def enc_frame_def kept_def done_state_def start_state_def vc_ext_def)

lemma emit_previous_cases:
  assumes f: "enc_frame S t" "iout_ok t" and e: "emit_previous inst t = (None, u)"
    and v: "valid_rtype (rtype inst)"
  defines "inst' \<equiv> inst\<lparr>code1 := single_code (rtype inst) (rsize inst)\<rparr>"
  obtains (first) "iout t = None" "wrote t [] (Some inst') u"
  | (single) p where "iout t = Some p" "wrote t (code1 p # (if size1 (xd3_rfc3284_code_table ! unat (code1 p)) = 0
      then emit_uint64 (rsize p) else [])) (Some inst') u"
  | (double) p c where "iout t = Some p" "codes_double (xd3_rfc3284_code_table ! unat c) p inst" "wrote t [c] None u"
proof (cases "iout t")
  case None
  then have "u = t\<lparr>emem := emem t, inst_chain := inst_chain t, iopt_free := iopt_free t, iout := Some inst'\<rparr>"
    using e v by (simp add: emit_previous_def choose_instruction_eq inst'_def)
  then have "wrote t [] (Some inst') u" unfolding wrote_def using f
    by (intro exI [of _ "emem t"] exI [of _ "inst_chain t"] exI [of _ "iopt_free t"]) (simp add: enc_frame_def)
  then show ?thesis using first None by blast
next
  case (Some p)
  have p: "valid_rtype (rtype p)" "rsize p \<noteq> 0" "code2 p = 0" using f(2) Some by (auto simp: iout_ok_def)
  obtain q where q: "xd3_choose_instruction (Some p) inst = (Some q, inst')"
    "rtype q = rtype p" "rsize q = rsize p" "code1 q = code1 p"
    using v by (auto simp: choose_instruction_eq inst'_def split: option.splits)
  show ?thesis
  proof (cases "code2 q = 0")
    case False
    then obtain s1 where 1: "xd3_emit_double q inst' (code2 q) (t\<lparr>iout := Some q\<rparr>) = (None, s1)"
      "u = (xd3_iopt_free_nonadd inst' (xd3_iopt_free_nonadd q s1))\<lparr>iout := None\<rparr>"
      using e Some q(1) by (auto simp: emit_previous_def Let_def seqr_None_iff)
    obtain m ch where 2: "s1 = t\<lparr>iout := Some q, emem := m, inst_chain := ch\<rparr>" "chain_wf ch"
      "chain_bytes ch = chain_bytes (inst_chain t) @ [code2 q]"
      using on_inst_ok [of "xd3_emit_byte (code2 q)" "t\<lparr>iout := Some q\<rparr>" s1 "code2 q" "[code2 q]"] 1(1) f(1)
      by (auto simp: xd3_emit_double_def enc_frame_def)
    have "wrote t [code2 q] None u"
      unfolding wrote_def 1(2) 2(1) free_nonadd_eq using 2(2,3)
      by (intro exI [of _ m] exI [of _ ch] exI [of _ "iopt_free t + (if rtype q \<noteq> XD3_ADD then 1 else 0)
          + (if rtype inst' \<noteq> XD3_ADD then 1 else 0)"]) simp
    then show ?thesis using double [OF Some choose_prev_codes [OF p(1) v p(2,3) q(1) False]] by blast
  next
    case True
    then obtain s1 where 1: "xd3_emit_single q (code1 q) (t\<lparr>iout := Some q\<rparr>) = (None, s1)"
      "u = (xd3_iopt_free_nonadd q s1)\<lparr>iout := Some inst'\<rparr>"
      using e Some q(1) by (auto simp: emit_previous_def Let_def seqr_None_iff)
    obtain m ch where 2: "s1 = t\<lparr>iout := Some q, emem := m, inst_chain := ch\<rparr>" "chain_wf ch"
      "chain_bytes ch = chain_bytes (inst_chain t) @ code1 q # (if size1 (xd3_rfc3284_code_table ! unat (code1 q)) = 0
         then emit_uint64 (rsize q) else [])"
      using emit_single_ok [OF 1(1)] f(1) by (auto simp: enc_frame_def)
    have "wrote t (code1 p # (if size1 (xd3_rfc3284_code_table ! unat (code1 p)) = 0 then emit_uint64 (rsize p) else []))
      (Some inst') u"
      unfolding wrote_def 1(2) 2(1) free_nonadd_eq using 2(2,3) q(2-4)
      by (intro exI [of _ m] exI [of _ ch] exI [of _ "iopt_free t + (if rtype q \<noteq> XD3_ADD then 1 else 0)"]) simp
    then show ?thesis using single [OF Some] by blast
  qed
qed

lemma emit_previous_ok:
  assumes f: "enc_frame S t" "iout_ok t" and e: "emit_previous inst t = (None, u)"
    and v: "valid_rtype (rtype inst)" "rsize inst \<noteq> 0" "code2 inst = 0"
    and run: "\<And>sw. sw_ok S t sw \<Longrightarrow> both_pending S c0 inst t sw"
  shows "enc_inv S c0 u \<and> kept t u \<and> unencoded_offset u = unencoded_offset t"
proof -
  let ?inst = "inst\<lparr>code1 := single_code (rtype inst) (rsize inst)\<rparr>"
  have io: "iout_ok u" if "iout u = Some ?inst" using that v by (simp add: iout_ok_def)
  show ?thesis
    using f e v(1)
  proof (cases rule: emit_previous_cases)
    case first
    note w = wroteD [OF first(2) f(1)]
    have "\<exists>x. vc_steps sw (start_state c0 u) x \<and> pending_ok sw u x" if sw: "sw_ok S u sw" for sw
    proof -
      obtain y w' d a where y: "vc_steps sw (start_state c0 t) (vc_ext [] d a y)" "vinst y = []" "y = w'"
        "vc_half sw (rtype inst) (rsize inst) (vc_ext [] d a w') = Some (done_state t)"
        using run [of sw] sw w(5) first(1) unfolding both_pending_def by auto
      show ?thesis using y w by (intro exI [of _ "vc_ext [] d a y"]) (simp add: pending_ok_def)
    qed
    then show ?thesis using w io by (simp add: enc_inv_def)
  next
    case (single p)
    note w = wroteD [OF single(2) f(1)]
    have p: "valid_rtype (rtype p)" "rsize p \<noteq> 0" "code1 p = single_code (rtype p) (rsize p)"
      using f(2) single(1) by (auto simp: iout_ok_def)
    have "\<exists>x. vc_steps sw (start_state c0 u) x \<and> pending_ok sw u x" if sw: "sw_ok S u sw" for sw
    proof -
      obtain y w' d a where y: "vc_steps sw (start_state c0 t) (vc_ext [] d a y)" "vinst y = []" "vinst w' = []"
        "vc_half sw (rtype p) (rsize p) y = Some w'"
        "vc_half sw (rtype inst) (rsize inst) (vc_ext [] d a w') = Some (done_state t)"
        using run [of sw] sw w(5) single(1) unfolding both_pending_def by auto
      define i where "i = code1 p # (if size1 (xd3_rfc3284_code_table ! unat (code1 p)) = 0 then emit_uint64 (rsize p) else [])"
      have "vc_steps sw (start_state c0 u) (vc_ext i d a y)"
        using vc_steps_ext [OF y(1), of i "[]" "[]"] w(6) [folded i_def] by simp
      then have "vc_steps sw (start_state c0 u) (vc_ext [] d a w')"
        using step_single [OF p(1,2) y(2,4) p(3), of d a] by (auto simp: i_def intro: vc_steps_snoc)
      then show ?thesis using y w by (intro exI [of _ "vc_ext [] d a w'"]) (simp add: pending_ok_def)
    qed
    then show ?thesis using w io by (simp add: enc_inv_def)
  next
    case (double p c)
    note w = wroteD [OF double(3) f(1)]
    have "\<exists>x. vc_steps sw (start_state c0 u) x \<and> pending_ok sw u x" if sw: "sw_ok S u sw" for sw
    proof -
      obtain y w' d a where y: "vc_steps sw (start_state c0 t) (vc_ext [] d a y)" "vinst y = []"
        "vc_half sw (rtype p) (rsize p) y = Some w'"
        "vc_half sw (rtype inst) (rsize inst) (vc_ext [] d a w') = Some (done_state t)"
        using run [of sw] sw w(5) double(1) unfolding both_pending_def by auto
      have "vc_steps sw (start_state c0 u) (vc_ext [c] d a y)"
        using vc_steps_ext [OF y(1), of "[c]" "[]" "[]"] w(6) by simp
      then have "vc_steps sw (start_state c0 u) (done_state u)"
        using step_double [OF double(2) y(2,3,4)] w(4) by (auto intro: vc_steps_snoc)
      then show ?thesis using w(3) by (intro exI [of _ "done_state u"]) (simp add: pending_ok_def done_state_def)
    qed
    moreover have "iout_ok u" using w(3) by (simp add: iout_ok_def)
    ultimately show ?thesis using w by (simp add: enc_inv_def)
  qed
qed

subsection \<open>One instruction\<close>

lemma finish_encoding_ok:
  assumes inv: "enc_inv S c0 s" and i: "item_ok S s r" and e: "xd3_iopt_finish_encoding r s = (None, u)"
  shows "enc_inv S c0 u \<and> kept s u \<and> unat (unencoded_offset u) = nend r"
proof -
  have f: "enc_frame S s" "iout_ok s" using inv by (auto simp: enc_inv_def)
  obtain r1 t where o: "encode_operands r s = (None, r1, t)"
    using e by (auto simp: xd3_iopt_finish_encoding_def split: prod.splits option.splits)
  obtain d a ty where t: "r1 = r\<lparr>rtype := ty\<rparr>" "op_frame S s d a t" "enc_frame S t" "half_ok S s r ty d a t"
    using encode_operands_ok [OF f(1) o i] by blast
  define t' where "t' = t\<lparr>unencoded_offset := unencoded_offset t + rsize r\<rparr>"
  define inst where "inst = r\<lparr>rtype := ty, code2 := 0\<rparr>"
  have ep: "emit_previous inst t' = (None, u)"
    using e o t(1) by (simp add: xd3_iopt_finish_encoding_def t'_def inst_def)
  have pos: "rpos r = unencoded_offset s" "0 < unat (rsize r)" "unat (rpos r) + unat (rsize r) \<le> length (ein s)"
    using i by (auto simp: item_ok_def inst_ok_def)
  have len: "length (ein s) < 2 ^ 63" using f(1) by (simp add: enc_frame_def)
  have un: "unat (unencoded_offset t') = nend r"
    using pos t(2) len by (simp add: t'_def op_frame_def nend_def unat_add_less)
  have fr: "enc_frame S t'" using t(3) un pos(3) t(2) by (simp add: t'_def enc_frame_def op_frame_def nend_def)
  have io: "iout_ok t'" using f(2) t(2) by (simp add: iout_ok_def t'_def op_frame_def)
  have k: "kept s t'" using t(2) by (simp add: kept_def t'_def op_frame_def)
  have "both_pending S c0 inst t' sw" if sw: "sw_ok S t' sw" for sw
  proof -
    have swt: "sw_ok S t sw" and sws: "sw_ok S s sw" using sw t(2) by (simp_all add: t'_def op_frame_def)
    obtain v where v: "vc_steps sw (start_state c0 s) v" "pending_ok sw s v"
      using inv sws by (auto simp: enc_inv_def)
    have st: "start_state c0 t' = vc_ext [] d a (start_state c0 s)"
      using t(2) by (simp add: start_state_def vc_ext_def t'_def op_frame_def)
    have ds: "done_state t' = \<lparr>vinst = [], vdata = [], vaddr = [], vcache = eacache t,
        vout = take (unat (rpos r) + unat (rsize r)) (ein s)\<rparr>"
      using un t(2) by (simp add: done_state_def nend_def t'_def op_frame_def)
    have w: "vc_ext [] d a (done_state s) = \<lparr>vinst = [], vdata = d, vaddr = a, vcache = eacache s,
        vout = take (unat (rpos r)) (ein s)\<rparr>" by (simp add: vc_ext_def done_state_def pos(1))
    have h: "vc_half sw ty (rsize r) (vc_ext [] d a (done_state s)) = Some (done_state t')"
      unfolding w ds using t(4) swt by (simp add: half_ok_def)
    have iot: "iout t' = iout s" using t(2) by (simp add: t'_def op_frame_def)
    have r: "vc_steps sw (start_state c0 t') (vc_ext [] d a v)" unfolding st by (rule vc_steps_ext [OF v(1)])
    have p: "vinst v = []" "case iout t' of None \<Rightarrow> v = done_state s
        | Some p \<Rightarrow> vc_half sw (rtype p) (rsize p) v = Some (done_state s)"
      using v(2) iot by (auto simp: pending_ok_def split: option.splits)
    have z: "vinst (done_state s) = []" "vdata (done_state s) = []" "vaddr (done_state s) = []"
      by (simp_all add: done_state_def)
    have "vc_half sw (rtype inst) (rsize inst) (vc_ext [] d a (done_state s)) = Some (done_state t')"
      using h by (simp add: inst_def)
    then show ?thesis unfolding both_pending_def using r p z by blast
  qed
  then have "enc_inv S c0 u \<and> kept t' u \<and> unencoded_offset u = unencoded_offset t'"
    using t(4) pos(2) by (intro emit_previous_ok [OF fr io ep]) (auto simp: inst_def half_ok_def)
  then show ?thesis using k un by (auto simp: kept_def)
qed

lemma iopt_add_ok:
  assumes inv: "enc_inv S c0 s" and e: "xd3_iopt_add pos s = (None, u)"
    and p: "unat (unencoded_offset s) \<le> unat pos" "unat pos \<le> length (ein s)"
  shows "enc_inv S c0 u \<and> kept s u \<and> unencoded_offset u = pos"
proof (cases "pos > unencoded_offset s")
  case True
  define r where "r = add_inst (unencoded_offset s) pos"
  have sz: "unat (rsize r) = unat pos - unat (unencoded_offset s)"
    using p(1) by (simp add: r_def add_inst_def unat_sub_le)
  have lt: "unat (unencoded_offset s) < unat pos" using True by (simp add: word_less_nat_alt)
  have i: "item_ok S s r" using sz lt p by (simp add: item_ok_def r_def add_inst_def)
  have "xd3_iopt_finish_encoding r s = (None, u)" using e True by (simp add: xd3_iopt_add_def r_def)
  from finish_encoding_ok [OF inv i this] have "enc_inv S c0 u" "kept s u" "unat (unencoded_offset u) = nend r" by auto
  moreover have "nend r = unat pos" using sz p(1) by (simp add: nend_def r_def add_inst_def)
  ultimately show ?thesis by (simp add: word_unat_eq_iff)
next
  case False
  then have "unencoded_offset s = pos" using p(1) by (simp add: word_unat_eq_iff word_less_nat_alt)
  then show ?thesis using e False inv by (simp add: xd3_iopt_add_def kept_def)
qed

lemma iopt_add_encoding_ok:
  assumes inv: "enc_inv S c0 s" and e: "xd3_iopt_add_encoding r s = (None, u)"
    and ok: "inst_ok S (unat (match_minaddr s)) (unat (match_maxaddr s)) (ein s) r"
      "rtype r = XD3_CPY \<and> xtra r \<noteq> 0 \<longrightarrow> esrc s \<noteq> None"
    and p: "unat (unencoded_offset s) \<le> unat (rpos r)"
  shows "enc_inv S c0 u \<and> kept s u \<and> unat (unencoded_offset u) = nend r"
proof -
  obtain t where t: "xd3_iopt_add (rpos r) s = (None, t)" "xd3_iopt_finish_encoding r t = (None, u)"
    using e by (auto simp: xd3_iopt_add_encoding_def seqr_None_iff)
  have "unat (rpos r) \<le> length (ein s)" using ok(1) by (simp add: inst_ok_def)
  from iopt_add_ok [OF inv t(1) p this]
  have 1: "enc_inv S c0 t" "kept s t" "unencoded_offset t = rpos r" by auto
  have "item_ok S t r" using ok 1 by (simp add: item_ok_def kept_def)
  from finish_encoding_ok [OF 1(1) this t(2)] 1(2) show ?thesis by (auto simp: kept_def)
qed

subsection \<open>The whole buffer\<close>

definition used_ok :: "bytes \<Rightarrow> xd3_estream \<Rightarrow> xd3_rinst list \<Rightarrow> bool" where
  "used_ok S s rs \<longleftrightarrow>
     list_all (\<lambda>r. inst_ok S (unat (match_minaddr s)) (unat (match_maxaddr s)) (ein s) r
       \<and> (rtype r = XD3_CPY \<and> xtra r \<noteq> 0 \<longrightarrow> esrc s \<noteq> None)) rs"

lemma enc_inv_used [simp]:
  "enc_inv S c0 (s\<lparr>iopt_used := rs\<rparr>) = enc_inv S c0 s" "enc_inv S c0 (s\<lparr>iopt_free := n\<rparr>) = enc_inv S c0 s"
proof -
  have d: "done_state (s\<lparr>iopt_used := rs\<rparr>) = done_state s" "done_state (s\<lparr>iopt_free := n\<rparr>) = done_state s"
    by (simp_all add: done_state_def)
  have "pending_ok sw (s\<lparr>iopt_used := rs\<rparr>) v = pending_ok sw s v" "pending_ok sw (s\<lparr>iopt_free := n\<rparr>) v = pending_ok sw s v"
    for sw v by (simp_all add: pending_ok_def d split: option.splits)
  then show "enc_inv S c0 (s\<lparr>iopt_used := rs\<rparr>) = enc_inv S c0 s" "enc_inv S c0 (s\<lparr>iopt_free := n\<rparr>) = enc_inv S c0 s"
    by (simp_all add: enc_inv_def enc_frame_def iout_ok_def start_state_def)
qed

lemma flush_loop_ok:
  "enc_inv S c0 s \<Longrightarrow> used_ok S s rs \<Longrightarrow> sorted_wrt apart rs \<Longrightarrow> starts_from (unat (unencoded_offset s)) rs \<Longrightarrow>
   flush_loop True n rs s = (None, u) \<Longrightarrow>
   enc_inv S c0 u \<and> ein u = ein s \<and> iopt_used u = [] \<and> match_maxaddr u = match_maxaddr s
   \<and> match_minaddr u = match_minaddr s \<and> (esrc u = None \<longleftrightarrow> esrc s = None)"
proof (induction rs arbitrary: s)
  case Nil
  then show ?case by (auto simp: kept_def)
next
  case (Cons r rs)
  let ?s = "s\<lparr>iopt_used := rs\<rparr>"
  obtain t where t: "xd3_iopt_add_encoding r ?s = (None, t)" "flush_loop True n rs t = (None, u)"
    using Cons.prems(5) by (auto simp: seqr_None_iff)
  have ok: "inst_ok S (unat (match_minaddr ?s)) (unat (match_maxaddr ?s)) (ein ?s) r"
    "rtype r = XD3_CPY \<and> xtra r \<noteq> 0 \<longrightarrow> esrc ?s \<noteq> None" using Cons.prems(2) by (auto simp: used_ok_def)
  have "enc_inv S c0 t \<and> kept ?s t \<and> unat (unencoded_offset t) = nend r"
    by (rule iopt_add_encoding_ok [OF _ t(1) ok]) (use Cons.prems in \<open>auto simp: starts_from_def\<close>)
  then have 1: "enc_inv S c0 t" "kept ?s t" "unat (unencoded_offset t) = nend r" by auto
  have "used_ok S t rs" using Cons.prems(2) 1(2) by (simp add: used_ok_def kept_def)
  moreover have "starts_from (unat (unencoded_offset t)) rs"
    using Cons.prems(3) 1(3) by (auto simp: starts_from_def apart_def)
  ultimately show ?case using Cons.IH [OF 1(1) _ _ _ t(2)] Cons.prems(3) 1(2) by (simp add: kept_def)
qed

text \<open>The optimisation keeps what \<open>used_ok\<close> says.\<close>

lemma used_ok_esrc:
  "used_ok S s rs \<longleftrightarrow> list_all (inst_ok S (unat (match_minaddr s)) (unat (match_maxaddr s)) (ein s)) rs
     \<and> (esrc s = None \<longrightarrow> list_all (inst_ok S 1 0 (ein s)) rs)"
  by (auto simp: used_ok_def list_all_iff inst_ok_def xd3_rtype_defs)

lemma used_ok_optimize:
  assumes "used_ok S s rs" "sorted_wrt ordered rs" "starts_from p rs" "length (ein s) < 2 ^ 63"
  shows "used_ok S s (iopt_optimize True rs)" "sorted_wrt apart (iopt_optimize True rs)"
    "starts_from p (iopt_optimize True rs)"
proof -
  note o = iopt_optimize_ok [OF assms(4), of _ S _ rs p True]
  have "unat (match_maxaddr s) < 2 ^ 64" using unat_u64_lt [of "match_maxaddr s"] by simp
  then show "used_ok S s (iopt_optimize True rs)" "sorted_wrt apart (iopt_optimize True rs)"
    "starts_from p (iopt_optimize True rs)"
    using assms(1-3) o [of "unat (match_maxaddr s)"] o [of 0 1] by (auto simp: used_ok_esrc)
qed

lemma add_finalize_ok:
  assumes inv: "enc_inv S c0 s" and e: "xd3_iopt_add_finalize s = (None, u)"
  shows "enc_frame S u" "ein u = ein s" "unat (unencoded_offset u) = length (ein s)" "iopt_used u = iopt_used s"
    "\<And>sw. sw_ok S u sw \<Longrightarrow> vc_steps sw (start_state c0 u) (done_state u)"
proof -
  have len: "length (ein s) < 2 ^ 63" "unat (unencoded_offset s) \<le> length (ein s)"
    using inv by (auto simp: enc_inv_def enc_frame_def)
  have av: "unat (avail_in s) = length (ein s)" using len by (simp add: avail_in_def unat_of_nat_less)
  obtain t where t: "xd3_iopt_add (avail_in s) s = (None, t)" and
    u: "(case iout t of None \<Rightarrow> (None, t) | Some p \<Rightarrow> seqr (xd3_emit_single p (code1 p))
                  (\<lambda>s. (None, (xd3_iopt_free_nonadd p s)\<lparr>iout := None\<rparr>)) t) = (None, u)"
    using e by (auto simp: xd3_iopt_add_finalize_def seqr_None_iff)
  have 1: "enc_inv S c0 t" "kept s t" "unencoded_offset t = avail_in s"
    using iopt_add_ok [OF inv t] av len by auto
  have f: "enc_frame S t" "iout_ok t" using 1(1) by (auto simp: enc_inv_def)
  have "enc_frame S u \<and> kept t u \<and> unencoded_offset u = unencoded_offset t
    \<and> (\<forall>sw. sw_ok S u sw \<longrightarrow> vc_steps sw (start_state c0 u) (done_state u))"
  proof (cases "iout t")
    case None
    then have ut: "u = t" using u by simp
    have "vc_steps sw (start_state c0 t) (done_state t)" if sw: "sw_ok S t sw" for sw
      using 1(1) sw None by (auto simp: enc_inv_def pending_ok_def)
    then show ?thesis using f ut by (simp add: kept_def)
  next
    case (Some p)
    have p: "valid_rtype (rtype p)" "rsize p \<noteq> 0" "code1 p = single_code (rtype p) (rsize p)"
      using f(2) Some by (auto simp: iout_ok_def)
    define i where "i = code1 p # (if size1 (xd3_rfc3284_code_table ! unat (code1 p)) = 0 then emit_uint64 (rsize p) else [])"
    obtain s1 where s1: "xd3_emit_single p (code1 p) t = (None, s1)" "u = (xd3_iopt_free_nonadd p s1)\<lparr>iout := None\<rparr>"
      using u Some by (auto simp: seqr_None_iff)
    obtain m ch where 2: "s1 = t\<lparr>emem := m, inst_chain := ch\<rparr>" "chain_wf ch"
      "chain_bytes ch = chain_bytes (inst_chain t) @ i"
      using emit_single_ok [OF s1(1)] f(1) by (auto simp: enc_frame_def i_def)
    have "wrote t i None u" unfolding wrote_def s1(2) 2(1) free_nonadd_eq using 2(2,3)
      by (intro exI [of _ m] exI [of _ ch] exI [of _ "iopt_free t + (if rtype p \<noteq> XD3_ADD then 1 else 0)"]) simp
    note w = wroteD [OF this f(1)]
    have "vc_steps sw (start_state c0 u) (done_state u)" if sw: "sw_ok S u sw" for sw
    proof -
      obtain v where v: "vc_steps sw (start_state c0 t) v" "vinst v = []" "vc_half sw (rtype p) (rsize p) v = Some (done_state t)"
        using 1(1) sw w(5) Some by (auto simp: enc_inv_def pending_ok_def)
      have "vc_steps sw (start_state c0 u) (vc_ext i [] [] v)" using vc_steps_ext [OF v(1)] w(6) by simp
      moreover have "vc_step sw (vc_ext i [] [] v) = Some (done_state u)"
        using step_single [OF p(1,2) v(2,3) p(3), of "[]" "[]"] w(4) by (simp add: i_def)
      ultimately show ?thesis by (rule vc_steps_snoc)
    qed
    then show ?thesis using w by simp
  qed
  then show "enc_frame S u" "ein u = ein s" "unat (unencoded_offset u) = length (ein s)" "iopt_used u = iopt_used s"
    "\<And>sw. sw_ok S u sw \<Longrightarrow> vc_steps sw (start_state c0 u) (done_state u)"
    using 1 av by (auto simp: kept_def)
qed

text \<open>State at the start of \<open>case ENC_INSTR\<close>: nothing is written yet and the buffer describes the input.\<close>

definition window_start :: "bytes \<Rightarrow> xd3_addr_cache \<Rightarrow> xd3_estream \<Rightarrow> bool" where
  "window_start S c0 s \<longleftrightarrow> enc_frame S s \<and> eacache s = c0 \<and> unencoded_offset s = 0 \<and> iout s = None
     \<and> chain_bytes (inst_chain s) = [] \<and> chain_bytes (data_chain s) = [] \<and> chain_bytes (addr_chain s) = []
     \<and> used_ok S s (iopt_used s) \<and> sorted_wrt ordered (iopt_used s)"

lemma window_start_inv: "window_start S c0 s \<Longrightarrow> enc_inv S c0 s"
  by (auto simp: window_start_def enc_inv_def iout_ok_def start_state_def pending_ok_def done_state_def intro: vc_refl)

lemma encode_window_ok:
  assumes s: "window_start S c0 s"
    and e: "seqr (xd3_iopt_flush_instructions True) xd3_iopt_add_finalize s = (None, u)"
  shows "ein u = ein s" "enc_frame S u"
    "\<And>sw. sw_ok S u sw \<Longrightarrow> vc_window sw c0 (chain_bytes (inst_chain u)) (chain_bytes (data_chain u))
       (chain_bytes (addr_chain u)) = Some (ein s)"
proof -
  let ?rs = "iopt_optimize True (iopt_used s)"
  obtain t where t: "xd3_iopt_flush_instructions True s = (None, t)" "xd3_iopt_add_finalize t = (None, u)"
    using e by (auto simp: seqr_None_iff)
  have len: "length (ein s) < 2 ^ 63" using s by (simp add: window_start_def enc_frame_def)
  have "starts_from 0 (iopt_used s)" by (simp add: starts_from_def)
  note o = used_ok_optimize [OF _ _ this len, of S]
  define s1 where "s1 = s\<lparr>iopt_used := ?rs, iopt_free := iopt_free s + (length (iopt_used s) - length ?rs)\<rparr>"
  have fl: "flush_loop True 0 ?rs s1 = (None, t)"
    using t(1) by (simp add: xd3_iopt_flush_instructions_def Let_def s1_def)
  have "enc_inv S c0 t \<and> ein t = ein s1 \<and> iopt_used t = [] \<and> match_maxaddr t = match_maxaddr s1
   \<and> match_minaddr t = match_minaddr s1 \<and> (esrc t = None \<longleftrightarrow> esrc s1 = None)"
  proof (rule flush_loop_ok [OF _ _ _ _ fl])
    show "enc_inv S c0 s1" using window_start_inv [OF s] by (simp add: s1_def)
    show "used_ok S s1 ?rs" using o(1) s by (simp add: window_start_def s1_def used_ok_def)
    show "sorted_wrt apart ?rs" "starts_from (unat (unencoded_offset s1)) ?rs"
      using o(2,3) s by (simp_all add: window_start_def s1_def)
  qed
  then have 1: "enc_inv S c0 t" "ein t = ein s" by (simp_all add: s1_def)
  note fin = add_finalize_ok [OF 1(1) t(2)]
  show "ein u = ein s" "enc_frame S u" using fin 1 by simp_all
  fix sw assume "sw_ok S u sw"
  then have "vc_steps sw (start_state c0 u) (done_state u)" by (rule fin(5))
  then have "vc_run sw (start_state c0 u) = Some (done_state u)" by (simp add: vc_run_steps done_state_def)
  then show "vc_window sw c0 (chain_bytes (inst_chain u)) (chain_bytes (data_chain u))
       (chain_bytes (addr_chain u)) = Some (ein s)"
    using fin 1 by (simp add: vc_window_def start_state_def done_state_def)
qed

subsection \<open>With memory the flush succeeds\<close>

definition total_step :: "enc_step \<Rightarrow> bool" where
  "total_step f \<longleftrightarrow> (\<forall>s. mem_ok (emem s) \<longrightarrow> (\<exists>t. f s = (None, t) \<and> mem_ok (emem t)))"

lemma total_stepD: "total_step f \<Longrightarrow> mem_ok (emem s) \<Longrightarrow> \<exists>t. f s = (None, t) \<and> mem_ok (emem t)"
  by (simp add: total_step_def)

lemma total_seqr: "total_step f \<Longrightarrow> total_step g \<Longrightarrow> total_step (seqr f g)"
  unfolding total_step_def seqr_def by fastforce

lemma total_ret: "(\<And>s. emem (f s) = emem s) \<Longrightarrow> total_step (\<lambda>s. (None, f s))"
  by (simp add: total_step_def)

lemma total_on_sect:
  assumes "\<And>m ch. mem_ok m \<Longrightarrow> \<exists>m' ch'. f (m, ch) = (None, m', ch') \<and> mem_ok m'"
  shows "total_step (on_inst f)" "total_step (on_data f)" "total_step (on_hdr f)"
proof -
  have "\<exists>t. on_inst f s = (None, t) \<and> mem_ok (emem t)" "\<exists>t. on_data f s = (None, t) \<and> mem_ok (emem t)"
    "\<exists>t. on_hdr f s = (None, t) \<and> mem_ok (emem t)" if "mem_ok (emem s)" for s
    using assms [OF that, of "inst_chain s"] assms [OF that, of "data_chain s"] assms [OF that, of "hdr_chain s"]
    by (auto simp: on_inst_def on_data_def on_hdr_def)
  then show "total_step (on_inst f)" "total_step (on_data f)" "total_step (on_hdr f)"
    by (simp_all add: total_step_def)
qed

lemma total_on_inst: "total_step (on_inst (xd3_emit_byte b))" "total_step (on_inst (xd3_emit_bytes bs))"
  "total_step (on_data (xd3_emit_byte b))" "total_step (on_data (xd3_emit_bytes bs))"
  "total_step (on_hdr (xd3_emit_byte b))" "total_step (on_hdr (xd3_emit_bytes bs))"
  by (rule total_on_sect, erule emit_byte_mem_ok | rule total_on_sect, rule emit_bytes_mem_ok, simp)+

lemma total_emit_single: "total_step (xd3_emit_single p c)"
proof -
  have "total_step (\<lambda>s. if size1 (ecode_table s ! unat c) = 0 then on_inst (xd3_emit_size (rsize p)) s else (None, s))"
    using total_on_inst(2) unfolding total_step_def xd3_emit_size_def [abs_def] by auto
  then have "total_step (seqr (on_inst (xd3_emit_byte c))
     (\<lambda>s. if size1 (ecode_table s ! unat c) = 0 then on_inst (xd3_emit_size (rsize p)) s else (None, s)))"
    by (rule total_seqr [OF total_on_inst(1)])
  then show ?thesis by (simp add: xd3_emit_single_def [abs_def] total_step_def)
qed

lemma total_copy_window: "total_step copy_window"
proof -
  have "\<not> x > (- 1 :: u64)" for x using word_n1_ge not_less by blast
  then show ?thesis
    by (auto simp: total_step_def copy_window_def xd3_srcwin_setup_def srcwin_done_def Let_def split: option.splits)
qed

lemma encode_address_mem_ok:
  assumes "mem_ok m"
  shows "\<exists>c' m' ch' md. xd3_encode_address addr here c (m, ch) = (None, c', (m', ch'), md) \<and> mem_ok m'"
proof -
  obtain g d b where a: "address_search addr here c = (g, d, b)" by (metis prod_cases3)
  define hit where "hit \<longleftrightarrow> \<not> g \<and> 0 < s_same c \<and> same_array c ! unat (addr mod (s_same c * 256)) = addr"
  obtain m' ch' where e: "(if hit then xd3_emit_byte (ucast (addr mod (s_same c * 256) mod 256)) (m, ch)
      else xd3_emit_size d (m, ch)) = (None, m', ch')" "mem_ok m'"
    using emit_byte_mem_ok [OF assms, of "ucast (addr mod (s_same c * 256) mod 256)" ch]
      emit_bytes_mem_ok [of "(m, ch)" "emit_uint64 d"] assms by (cases hit) (auto simp: xd3_emit_size_def)
  then show ?thesis unfolding xd3_encode_address_def a Let_def by (simp add: hit_def [symmetric])
qed

lemma encode_operands_total:
  assumes "mem_ok (emem s)"
  shows "\<exists>r' t. encode_operands r s = (None, r', t) \<and> mem_ok (emem t)"
proof -
  have "\<exists>r' t. encode_copy r s = (None, r', t) \<and> mem_ok (emem t)"
  proof -
    obtain s1 where 1: "copy_window s = (None, s1)" "mem_ok (emem s1)"
      using total_stepD [OF total_copy_window assms] by blast
    have "mem_ok (emem (copy_stats r s1))" using 1(2) by (simp add: copy_stats_def)
    from encode_address_mem_ok [OF this, of "copy_address r s1" "rpos r + taroff (copy_stats r s1)"
        "eacache (copy_stats r s1)" "addr_chain (copy_stats r s1)"] 1(1)
    show ?thesis by (auto simp: encode_copy_def Let_def)
  qed
  moreover have "total_step (encode_run r)" unfolding encode_run_def
    by (intro total_seqr total_on_inst total_ret) simp
  moreover have "\<exists>t. encode_add r s = (None, t) \<and> mem_ok (emem t)"
  proof -
    have "total_step (seqr (on_data (xd3_emit_bytes (take (unat (rsize r)) (drop (unat (rpos r)) (ein s)))))
       (\<lambda>s. (None, s\<lparr>n_add := n_add s + 1, l_add := l_add s + rsize r\<rparr>)))"
      by (intro total_seqr total_on_inst total_ret) simp
    then show ?thesis using assms by (simp add: total_step_def encode_add_def)
  qed
  ultimately show ?thesis using assms
    by (auto simp: encode_operands_def total_step_def split: prod.splits)
qed

lemma total_emit_previous: "total_step (emit_previous inst)"
  unfolding total_step_def
proof (intro allI impI)
  fix s :: xd3_estream assume m: "mem_ok (emem s)"
  obtain p' inst' where c: "xd3_choose_instruction (iout s) inst = (p', inst')" by force
  show "\<exists>t. emit_previous inst s = (None, t) \<and> mem_ok (emem t)"
  proof (cases p')
    case None
    then show ?thesis using c m by (simp add: emit_previous_def)
  next
    case (Some p)
    have 1: "total_step (seqr (xd3_emit_double p inst' (code2 p))
       (\<lambda>s. (None, (xd3_iopt_free_nonadd inst' (xd3_iopt_free_nonadd p s))\<lparr>iout := None\<rparr>)))"
      unfolding xd3_emit_double_def by (intro total_seqr total_on_inst total_ret) (simp add: xd3_iopt_free_nonadd_def)
    have 2: "total_step (seqr (xd3_emit_single p (code1 p)) (\<lambda>s. (None, (xd3_iopt_free_nonadd p s)\<lparr>iout := Some inst'\<rparr>)))"
      by (intro total_seqr total_emit_single total_ret) (simp add: xd3_iopt_free_nonadd_def)
    show ?thesis using c Some m total_stepD [OF 1] total_stepD [OF 2] by (simp add: emit_previous_def Let_def)
  qed
qed

lemma total_finish_encoding: "total_step (xd3_iopt_finish_encoding r)"
  unfolding total_step_def
proof (intro allI impI)
  fix s :: xd3_estream assume m: "mem_ok (emem s)"
  obtain r' t where 1: "encode_operands r s = (None, r', t)" "mem_ok (emem t)" using encode_operands_total [OF m] by blast
  then show "\<exists>t. xd3_iopt_finish_encoding r s = (None, t) \<and> mem_ok (emem t)"
    using total_stepD [OF total_emit_previous] by (simp add: xd3_iopt_finish_encoding_def)
qed

lemma total_add: "total_step (xd3_iopt_add pos)"
  using total_finish_encoding by (auto simp: total_step_def xd3_iopt_add_def Let_def)

lemma total_flush_loop: "total_step (flush_loop True n rs)"
proof (induction rs)
  case (Cons r rs)
  have "total_step (seqr (xd3_iopt_add_encoding r) (flush_loop True n rs))"
    unfolding xd3_iopt_add_encoding_def by (intro total_seqr total_add total_finish_encoding Cons)
  then show ?case by (simp add: total_step_def)
qed (simp add: total_step_def)

lemma total_flush: "total_step (seqr (xd3_iopt_flush_instructions True) xd3_iopt_add_finalize)"
proof (rule total_seqr)
  show "total_step (xd3_iopt_flush_instructions True)"
    using total_flush_loop by (simp add: total_step_def xd3_iopt_flush_instructions_def Let_def)
  have single: "total_step (seqr (xd3_emit_single p (code1 p)) (\<lambda>s. (None, (xd3_iopt_free_nonadd p s)\<lparr>iout := None\<rparr>)))" for p
    by (intro total_seqr total_emit_single total_ret) (simp add: xd3_iopt_free_nonadd_def)
  have "total_step (seqr (xd3_iopt_add n) (\<lambda>s. case iout s of None \<Rightarrow> (None, s) | Some p \<Rightarrow>
      seqr (xd3_emit_single p (code1 p)) (\<lambda>s. (None, (xd3_iopt_free_nonadd p s)\<lparr>iout := None\<rparr>)) s))" for n
  proof (rule total_seqr [OF total_add])
    show "total_step (\<lambda>s. case iout s of None \<Rightarrow> (None, s) | Some p \<Rightarrow>
      seqr (xd3_emit_single p (code1 p)) (\<lambda>s. (None, (xd3_iopt_free_nonadd p s)\<lparr>iout := None\<rparr>)) s)"
      unfolding total_step_def using total_stepD [OF single] by (simp split: option.split)
  qed
  then show "total_step xd3_iopt_add_finalize" by (simp add: total_step_def xd3_iopt_add_finalize_def)
qed

end
