(* ===== verification/Xd3_DecodeRefines.thy ===== *)
theory Xd3_DecodeRefines
  imports Xd3_DecodeSafe Vcdiff_Spec
begin

section \<open>The decoder implements the reference semantics\<close>

text \<open>
  The emit loop of the decoder, with its two pending half-instructions, its copies by source block and
  its byte-by-byte copies in the window, computes what \<open>Vcdiff_Spec\<close> says the sections mean: whenever
  the reference semantics gives an output of the announced length, the loop writes that output.
\<close>

subsection \<open>Sources that hold a given file\<close>

definition src_block :: "bytes \<Rightarrow> usize_t \<Rightarrow> xoff_t \<Rightarrow> bytes" where
  "src_block S bsz blkno = take (unat bsz) (drop (unat blkno * unat bsz) S)"

text \<open>What the library asks of a \<open>getblk\<close> callback: for a block of the file it sets \<open>curblkno\<close>,
  \<open>curblk\<close> and \<open>onblk\<close>, and nothing else.\<close>

definition getblk_serves :: "bytes \<Rightarrow> getblk_func \<Rightarrow> bool" where
  "getblk_serves S f \<longleftrightarrow> (\<forall>x blkno. source_wf x \<longrightarrow> unat blkno * unat (blksize x) < length S \<longrightarrow>
     f x blkno = (None, x\<lparr>curblkno := blkno, curblk := Some (src_block S (blksize x) blkno),
                          onblk := of_nat (length (src_block S (blksize x) blkno))\<rparr>))"

text \<open>Without a callback the whole file is the one block.\<close>

definition serves :: "bytes \<Rightarrow> getblk_func option \<Rightarrow> xd3_source \<Rightarrow> bool" where
  "serves S g x \<longleftrightarrow> source_wf x
     \<and> (\<forall>b. curblk x = Some b \<longrightarrow> b = src_block S (blksize x) (curblkno x))
     \<and> (g = None \<longrightarrow> curblk x \<noteq> None \<and> curblkno x = 0 \<and> length S \<le> unat (blksize x))
     \<and> (\<forall>f. g = Some f \<longrightarrow> getblk_serves S f)"

lemma serves_getblk:
  assumes s: "serves S g x" and b: "unat blkno * unat (blksize x) < length S"
  obtains x' where "xd3_getblk g blkno x = (None, x')" "serves S g x'"
    "curblk x' = Some (src_block S (blksize x) blkno)" "blksize x' = blksize x" "shiftby x' = shiftby x"
    "maskby x' = maskby x" "cpyoff_blocks x' = cpyoff_blocks x" "cpyoff_blkoff x' = cpyoff_blkoff x"
    "unat (onblk x') = length (src_block S (blksize x) blkno)"
proof (cases "curblk x = None \<or> blkno \<noteq> curblkno x")
  case False
  then obtain c where c: "curblk x = Some c" "blkno = curblkno x" by auto
  have e: "xd3_getblk g blkno x = (None, getblk_account blkno x)" using c by (simp add: xd3_getblk_def)
  have "c = src_block S (blksize x) blkno" "length c = unat (onblk x)"
    using s c by (auto simp: serves_def source_wf_def)
  moreover have "serves S g (getblk_account blkno x)" using s by (simp add: serves_def)
  ultimately show thesis using that [OF e] c by simp
next
  case True
  show thesis
  proof (cases g)
    case None
    then have n: "curblk x \<noteq> None" "curblkno x = 0" "length S \<le> unat (blksize x)" using s by (auto simp: serves_def)
    have "unat blkno = 0"
    proof (rule ccontr)
      assume "unat blkno \<noteq> 0"
      then have "unat (blksize x) \<le> unat blkno * unat (blksize x)" by simp
      then show False using b n(3) by linarith
    qed
    then show thesis using True n by (simp add: unat_eq_zero)
  next
    case (Some f)
    define x1 where "x1 = x\<lparr>getblkno := blkno\<rparr>"
    define blk where "blk = src_block S (blksize x) blkno"
    define x2 where "x2 = x1\<lparr>curblkno := blkno, curblk := Some blk, onblk := of_nat (length blk)\<rparr>"
    have w: "source_wf x1" using s by (auto simp: serves_def source_wf_def x1_def)
    have f: "f x1 blkno = (None, x2)"
      using s Some w b by (simp add: serves_def getblk_serves_def x2_def blk_def x1_def)
    have e: "xd3_getblk g blkno x = (None, getblk_account blkno x2)"
      using True Some f by (simp add: xd3_getblk_def x1_def)
    have l: "length blk \<le> unat (blksize x)" by (simp add: blk_def src_block_def)
    have "length blk < 2 ^ 64" using le_less_trans [OF l unat_u64_lt [of "blksize x"]] by simp
    then have u: "unat (of_nat (length blk) :: u64) = length blk" by (intro unat_of_nat_less) simp
    have "source_wf x2" using w l u by (auto simp: source_wf_def x2_def x1_def word_le_nat_alt)
    then have "serves S g (getblk_account blkno x2)"
      using s Some by (auto simp: serves_def x2_def blk_def x1_def)
    then show thesis using that [OF e] u by (simp add: x2_def x1_def blk_def)
  qed
qed

subsection \<open>The window being decoded\<close>

definition src_offset :: "xd3_source \<Rightarrow> nat" where
  "src_offset x = unat (cpyoff_blocks x) * unat (blksize x) + unat (cpyoff_blkoff x)"

definition dec_win :: "bytes \<Rightarrow> bytes \<Rightarrow> nat \<Rightarrow> xd3_dstream \<Rightarrow> bool" where
  "dec_win S sw T d \<longleftrightarrow> bufs_ok d \<and> T \<le> unat (space_out d) \<and> dec_win_ind d AND VCD_TARGET = 0
     \<and> unat (dec_cpylen d) = length sw \<and> length sw + T < 2 ^ 64 \<and> unat (dec_maxpos d) = length sw + T
     \<and> length S < 2 ^ 63
     \<and> (sw \<noteq> [] \<longrightarrow> (\<exists>x. src d = Some x \<and> serves S (getblk d) x \<and> src_offset x + length sw \<le> length S
          \<and> sw = take (length sw) (drop (src_offset x) S)))"

definition dec_out :: "xd3_dstream \<Rightarrow> bytes \<Rightarrow> bool" where
  "dec_out d out \<longleftrightarrow> window_output d = out \<and> unat (avail_out d) = length out"

definition moved :: "xd3_dstream \<Rightarrow> xd3_dstream \<Rightarrow> bool" where
  "moved d t \<longleftrightarrow> t = d\<lparr>next_out := next_out t, avail_out := avail_out t, data_sect := data_sect t, src := src t\<rparr>"

lemma write_out_refines:
  assumes w: "dec_win S sw T d" "dec_out d out" "length out + length bs \<le> T"
  obtains no ao where "write_out bs d = Some (d\<lparr>next_out := no, avail_out := ao\<rparr>)"
    "dec_win S sw T (d\<lparr>next_out := no, avail_out := ao\<rparr>)" "dec_out (d\<lparr>next_out := no, avail_out := ao\<rparr>) (out @ bs)"
proof -
  define t where "t = d\<lparr>next_out := out @ bs, avail_out := avail_out d + of_nat (length bs)\<rparr>"
  have sp: "length out + length bs \<le> unat (space_out d)" "unat (avail_out d) = length out"
    using w by (auto simp: dec_win_def dec_out_def)
  have lt: "length out + length bs < 2 ^ 64" using le_less_trans [OF sp(1) unat_u64_lt [of "space_out d"]] by simp
  then have l: "unat (of_nat (length bs) :: u64) = length bs" by (intro unat_of_nat_less) simp
  have av: "unat (avail_out t) = length out + length bs"
    unfolding t_def using lt sp(2) l by (simp add: unat_add_less)
  have "write_out bs d = Some t"
    using w sp by (auto simp: write_out_def t_def dec_win_def bufs_ok_def dec_out_def window_output_def)
  moreover have "dec_win S sw T t" using w(1) sp av by (simp add: dec_win_def bufs_ok_def t_def)
  moreover have "dec_out t (out @ bs)" using av by (simp add: dec_out_def window_output_def t_def)
  ultimately show thesis using that unfolding t_def by blast
qed

text \<open>The predicates do not look at the data section.\<close>

lemma dec_win_data [simp]:
  "dec_win S sw T (d\<lparr>data_sect := x\<rparr>) = dec_win S sw T d" "dec_out (d\<lparr>data_sect := x\<rparr>) out = dec_out d out"
  by (simp_all add: dec_win_def dec_out_def bufs_ok_def window_output_def)

lemma overlap_copy_vc: "i < length out \<Longrightarrow> overlap_copy n i out = Some (vc_copy n i out)"
  by (induction n arbitrary: i out) simp_all

text \<open>One call of \<open>xd3_decode_output_halfinst\<close>: the instruction is done, or its rest still means what is
  missing.\<close>

definition advances :: "bytes \<Rightarrow> bytes \<Rightarrow> nat \<Rightarrow> xd3_hinst \<Rightarrow> xd3_dstream \<Rightarrow> bytes \<Rightarrow> bytes \<Rightarrow> xd3_hinst \<Rightarrow> xd3_dstream \<Rightarrow> bool" where
  "advances S sw T inst d dat out' inst' t \<longleftrightarrow> moved d t \<and> dec_win S sw T t \<and>
     (htype inst' = XD3_NOOP \<and> dec_out t out' \<and> sbuf (data_sect t) = dat
      \<or> htype inst' = htype inst \<and> unat (hsize inst') < unat (hsize inst) \<and> (\<exists>mid. dec_out t mid \<and>
          vc_emit sw (htype inst') (unat (hsize inst')) (unat (haddr inst')) (sbuf (data_sect t)) mid = Some (dat, out')))"

lemma output_run_refines:
  assumes w: "dec_win S sw T d" "dec_out d out" and t: "htype inst = XD3_RUN"
    and e: "vc_emit sw (htype inst) (unat (hsize inst)) a (sbuf (data_sect d)) out = Some (dat, out')" "length out' \<le> T"
  shows "\<exists>inst' t. output_run inst d = Some (None, inst', t) \<and> advances S sw T inst d dat out' inst' t"
proof -
  obtain b where b: "sbuf (data_sect d) = b # dat" "out' = out @ replicate (unat (hsize inst)) b"
    using e(1) t by (auto simp: vc_emit_def split: list.splits)
  have "length out + length (replicate (unat (hsize inst)) b) \<le> T" using e(2) b(2) by simp
  from write_out_refines [OF w this] obtain no ao where u: "write_out (replicate (unat (hsize inst)) b) d
      = Some (d\<lparr>next_out := no, avail_out := ao\<rparr>)" "dec_win S sw T (d\<lparr>next_out := no, avail_out := ao\<rparr>)"
    "dec_out (d\<lparr>next_out := no, avail_out := ao\<rparr>) out'" unfolding b(2) by blast
  show ?thesis using b(1) u by (simp add: output_run_def advances_def noop_def moved_def)
qed

lemma output_add_refines:
  assumes w: "dec_win S sw T d" "dec_out d out" and t: "htype inst = XD3_ADD"
    and e: "vc_emit sw (htype inst) (unat (hsize inst)) a (sbuf (data_sect d)) out = Some (dat, out')" "length out' \<le> T"
  shows "\<exists>inst' t. output_add inst d = Some (None, inst', t) \<and> advances S sw T inst d dat out' inst' t"
proof -
  let ?n = "unat (hsize inst)" and ?buf = "sbuf (data_sect d)"
  have b: "?n \<le> length ?buf" "dat = drop ?n ?buf" "out' = out @ take ?n ?buf"
    using e(1) t by (auto simp: vc_emit_def xd3_rtype_defs split: if_splits)
  have "length out + length (take ?n ?buf) \<le> T" using e(2) b(3) by simp
  from write_out_refines [OF w this] obtain no ao where u: "write_out (take ?n ?buf) d
      = Some (d\<lparr>next_out := no, avail_out := ao\<rparr>)" "dec_win S sw T (d\<lparr>next_out := no, avail_out := ao\<rparr>)"
    "dec_out (d\<lparr>next_out := no, avail_out := ao\<rparr>) out'" unfolding b(3) by blast
  show ?thesis using b(1,2) u by (simp add: output_add_def Let_def advances_def noop_def moved_def)
qed

lemma output_target_refines:
  assumes w: "dec_win S sw T d" "dec_out d out" and t: "XD3_CPY \<le> htype inst" "\<not> haddr inst < dec_cpylen d"
    and e: "vc_emit sw (htype inst) (unat (hsize inst)) (unat (haddr inst)) (sbuf (data_sect d)) out = Some (dat, out')"
      "length out' \<le> T"
  shows "\<exists>inst' t. output_target_copy inst d = Some (None, inst', t) \<and> advances S sw T inst d dat out' inst' t"
proof -
  have cl: "unat (dec_cpylen d) = length sw" "unat (avail_out d) = length out" "window_output d = out" "bufs_ok d"
    "T \<le> unat (space_out d)" using w by (auto simp: dec_win_def dec_out_def)
  have ge: "length sw \<le> unat (haddr inst)" using t(2) cl(1) by (simp add: word_less_nat_alt)
  define i where "i = unat (haddr inst) - length sw"
  have i: "i < length out" "dat = sbuf (data_sect d)" "out' = vc_copy (unat (hsize inst)) i out"
    using e(1) t(1) ge by (auto simp: vc_emit_def i_def split: if_splits)
  have ui: "unat (haddr inst - dec_cpylen d) = i" using ge cl(1) by (simp add: i_def unat_sub_le)
  have l: "length out + unat (hsize inst) \<le> T" using e(2) i(3) by simp
  have sp: "length out + unat (hsize inst) \<le> unat (space_out d)" using l cl(5) by simp
  have "length out + unat (hsize inst) < 2 ^ 64" using le_less_trans [OF sp unat_u64_lt [of "space_out d"]] by simp
  then have ua: "unat (avail_out d + hsize inst) = length out + unat (hsize inst)" using cl(2) by (simp add: unat_add_less)
  define t where "t = d\<lparr>next_out := out', avail_out := avail_out d + hsize inst\<rparr>"
  have "output_target_copy inst d = Some (None, inst\<lparr>htype := XD3_NOOP, hsize := 0\<rparr>, t)"
    using cl sp i overlap_copy_vc [OF i(1)] ui
    by (simp add: output_target_copy_def bufs_ok_def window_output_def t_def)
  moreover have "dec_win S sw T t" using w(1) ua sp i(3) by (simp add: dec_win_def bufs_ok_def t_def)
  moreover have "dec_out t out'" using ua i(3) by (simp add: dec_out_def window_output_def t_def)
  ultimately show ?thesis using i(2) by (auto simp: advances_def moved_def t_def)
qed

lemma nth_take_drop_window:
  assumes "sw = take m (drop p S)" "a + n \<le> m" "p + m \<le> length S"
  shows "take n (drop a sw) = take n (drop (p + a) S)"
  using assms by (intro nth_equalityI) (auto simp: add.assoc)

lemma src_block_slice:
  assumes "off + n \<le> unat bsz" "unat blkno * unat bsz + off + n \<le> length S"
  shows "off + n \<le> length (src_block S bsz blkno)"
    "take n (drop off (src_block S bsz blkno)) = take n (drop (unat blkno * unat bsz + off) S)"
proof -
  show l: "off + n \<le> length (src_block S bsz blkno)" using assms by (auto simp: src_block_def min_def)
  show "take n (drop off (src_block S bsz blkno)) = take n (drop (unat blkno * unat bsz + off) S)"
  proof (rule slice_eqI [OF l])
    fix k assume "k < n"
    then show "src_block S bsz blkno ! (off + k) = S ! (unat blkno * unat bsz + off + k)"
      using assms by (simp add: src_block_def add.assoc)
  qed (use assms in simp)
qed

lemma output_source_refines:
  assumes w: "dec_win S sw T d" "dec_out d out" and t: "XD3_CPY \<le> htype inst" "haddr inst < dec_cpylen d"
    and e: "vc_emit sw (htype inst) (unat (hsize inst)) (unat (haddr inst)) (sbuf (data_sect d)) out = Some (dat, out')"
      "length out' \<le> T"
  shows "\<exists>inst' t. output_source_copy inst d = Some (None, inst', t) \<and> advances S sw T inst d dat out' inst' t"
proof -
  let ?a = "unat (haddr inst)" and ?n = "unat (hsize inst)"
  have a: "?a < length sw" using t(2) w(1) by (simp add: dec_win_def word_less_nat_alt)
  have v: "?a + ?n \<le> length sw" "dat = sbuf (data_sect d)" "out' = out @ take ?n (drop ?a sw)"
    using e(1) t(1) a by (auto simp: vc_emit_def split: if_splits)
  have "sw \<noteq> []" using a by auto
  then obtain x where x: "src d = Some x" "serves S (getblk d) x" "src_offset x + length sw \<le> length S"
    "sw = take (length sw) (drop (src_offset x) S)" using w(1) by (auto simp: dec_win_def)
  have S63: "length S < 2 ^ 63" using w(1) by (simp add: dec_win_def)
  define k where "k = unat (shiftby x)"
  have k: "k < 64" "blksize x = 2 ^ k" "maskby x = 2 ^ k - 1" using x(2) by (auto simp: serves_def source_wf_def k_def)
  have bs: "unat (blksize x) = 2 ^ k" using k by (simp add: unat_exp_u64)
  obtain block off where ba: "xd3_blksize_add (cpyoff_blocks x) (cpyoff_blkoff x) k (2 ^ k - 1) (haddr inst) = (block, off)"
    by force
  have so: "src_offset x = unat (cpyoff_blocks x) * 2 ^ k + unat (cpyoff_blkoff x)" by (simp add: src_offset_def bs)
  have "unat (cpyoff_blocks x) * 2 ^ k + unat (cpyoff_blkoff x) + ?a < 2 ^ 64" using so x(3) a S63 by simp
  note bo = blksize_add_spec [OF k(1) ba this]
  have pos: "unat block * 2 ^ k + unat off = src_offset x + ?a" "unat off < 2 ^ k" using bo so by auto
  have inr: "unat block * unat (blksize x) < length S" using pos(1) x(3) a bs by simp
  obtain x' where g: "xd3_getblk (getblk d) block x = (None, x')" "serves S (getblk d) x'"
    "curblk x' = Some (src_block S (blksize x) block)" "blksize x' = blksize x" "shiftby x' = shiftby x"
    "maskby x' = maskby x" "cpyoff_blocks x' = cpyoff_blocks x" "cpyoff_blkoff x' = cpyoff_blkoff x"
    "unat (onblk x') = length (src_block S (blksize x) block)" by (rule serves_getblk [OF x(2) inr])
  define blk where "blk = src_block S (blksize x) block"
  define d1 where "d1 = d\<lparr>src := Some x'\<rparr>"
  have so': "src_offset x' = src_offset x" using g by (simp add: src_offset_def)
  have w1: "dec_win S sw T d1" "dec_out d1 out" using w x g so'
    by (auto simp: dec_win_def d1_def dec_out_def bufs_ok_def window_output_def)
  have nT: "?n \<le> T" using e(2) v(1,3) by simp
  have Tb: "T \<le> 2 ^ 27" using w(1) by (simp add: dec_win_def bufs_ok_def)
  have k63: "(2::nat) ^ k \<le> 2 ^ 63" using k(1) power_increasing [of k 63 "2::nat"] by simp
  have oh: "unat (off + hsize inst) = unat off + ?n" using pos(2) nT Tb k63 by (intro unat_add_less) simp
  have tot: "unat block * 2 ^ k + unat off + ?n \<le> length S" using pos(1) v(1) x(3) by simp
  have fits: "\<not> (onblk x' \<noteq> 2 ^ k \<and> off + hsize inst > onblk x')"
  proof
    assume c: "onblk x' \<noteq> 2 ^ k \<and> off + hsize inst > onblk x'"
    have l: "unat (onblk x') = min (2 ^ k) (length S - unat block * 2 ^ k)" using g(9) by (simp add: src_block_def bs min.commute)
    have "unat (onblk x') \<noteq> 2 ^ k" using c k(1) by (metis unat_exp_u64 word_unat_eq_iff)
    then have "unat (onblk x') = length S - unat block * 2 ^ k" using l by (simp add: min_def split: if_splits)
    moreover have "unat off + ?n > unat (onblk x')" using c oh by (simp add: word_less_nat_alt)
    ultimately show False using tot by simp
  qed
  define n where "n = (if off + hsize inst \<le> 2 ^ k then hsize inst else 2 ^ k - off)"
  define inst' where "inst' = (if off + hsize inst \<le> 2 ^ k then inst\<lparr>htype := XD3_NOOP, hsize := 0\<rparr>
    else inst\<lparr>hsize := hsize inst - (2 ^ k - off), haddr := haddr inst + (2 ^ k - off)\<rparr>)"
  have sub: "unat (2 ^ k - off) = 2 ^ k - unat off" using pos(2) k(1) by (subst unat_sub_le) (simp_all add: unat_exp_u64)
  have c: "off + hsize inst \<le> 2 ^ k \<longleftrightarrow> unat off + ?n \<le> 2 ^ k" using k(1) by (simp add: word_le_nat_alt oh unat_exp_u64)
  have un: "unat n = (if unat off + ?n \<le> 2 ^ k then ?n else 2 ^ k - unat off)" by (simp add: n_def c sub)
  have nn: "unat off + unat n \<le> unat (blksize x)" "unat n \<le> ?n" using un pos(2) bs by auto
  have nn': "unat block * unat (blksize x) + unat off + unat n \<le> length S" using tot nn(2) bs by simp
  note sl = src_block_slice [OF nn(1) nn']
  have slice: "take (unat n) (drop (unat off) blk) = take (unat n) (drop ?a sw)"
    unfolding blk_def sl(2) bs pos(1) by (rule nth_take_drop_window [OF x(4), symmetric]) (use nn(2) v(1) x(3) in auto)
  have len: "length out + length (take (unat n) (drop ?a sw)) \<le> T" using e(2) v nn(2) by simp
  obtain no ao where u: "write_out (take (unat n) (drop ?a sw)) d1 = Some (d1\<lparr>next_out := no, avail_out := ao\<rparr>)"
    "dec_win S sw T (d1\<lparr>next_out := no, avail_out := ao\<rparr>)"
    "dec_out (d1\<lparr>next_out := no, avail_out := ao\<rparr>) (out @ take (unat n) (drop ?a sw))"
    using write_out_refines [OF w1 len] by blast
  define t where "t = d1\<lparr>next_out := no, avail_out := ao\<rparr>"
  have o: "output_source_copy inst d = Some (None, inst', t)"
  proof -
    have "output_source_copy inst d = (let (n, inst') =
              (if off + hsize inst \<le> 2 ^ k then (hsize inst, inst\<lparr>htype := XD3_NOOP, hsize := 0\<rparr>)
               else (2 ^ k - off, inst\<lparr>hsize := hsize inst - (2 ^ k - off), haddr := haddr inst + (2 ^ k - off)\<rparr>))
            in if unat off + unat n > length blk then None
               else (case write_out (take (unat n) (drop (unat off) blk)) d1 of None \<Rightarrow> None | Some s' \<Rightarrow> Some (None, inst', s')))"
      using x(1) ba g(1,3) fits k unfolding output_source_copy_def
      by (cases "onblk x' = 2 ^ k") (simp_all add: k_def [symmetric] d1_def blk_def Let_def del: not_less)
    then show ?thesis using sl(1) slice u(1) by (auto simp: n_def inst'_def t_def blk_def split: if_splits)
  qed
  have mv: "moved d t" by (simp add: moved_def t_def d1_def)
  have "advances S sw T inst d dat out' inst' t"
  proof (cases "unat off + ?n \<le> 2 ^ k")
    case True
    then have "htype inst' = XD3_NOOP" "unat n = ?n" using c un by (simp_all add: inst'_def)
    then show ?thesis using mv u(2,3) v by (simp add: advances_def t_def d1_def)
  next
    case False
    then have i: "htype inst' = htype inst" "hsize inst' = hsize inst - n" "haddr inst' = haddr inst + n" "n = 2 ^ k - off"
      using c by (simp_all add: inst'_def n_def)
    have np: "0 < unat n" "unat n < ?n" using False un pos(2) by auto
    have hs: "unat (hsize inst') = ?n - unat n" using np(2) i(2) by (simp add: unat_sub_le)
    have ha: "unat (haddr inst') = ?a + unat n"
      unfolding i(3) using v(1) np(2) x(3) S63 by (intro unat_add_less) simp
    have "take ?n (drop ?a sw) = take (unat n) (drop ?a sw) @ take (?n - unat n) (drop (?a + unat n) sw)"
      using np(2) take_add [of "unat n" "?n - unat n" "drop ?a sw"] by (simp add: add.commute)
    then have "vc_emit sw (htype inst') (unat (hsize inst')) (unat (haddr inst')) (sbuf (data_sect t))
        (out @ take (unat n) (drop ?a sw)) = Some (dat, out')"
      using t(1) i(1) hs ha v np a by (auto simp: vc_emit_def t_def d1_def)
    then show ?thesis using mv u(2,3) hs np i(1) unfolding advances_def t_def by auto
  qed
  then show ?thesis using o by blast
qed

lemma output_halfinst_refines:
  assumes w: "dec_win S sw T d" "dec_out d out" and t: "valid_rtype (htype inst)"
    and e: "vc_emit sw (htype inst) (unat (hsize inst)) (unat (haddr inst)) (sbuf (data_sect d)) out = Some (dat, out')"
      "length out' \<le> T"
  shows "\<exists>inst' t. xd3_decode_output_halfinst inst d = Some (None, inst', t) \<and> advances S sw T inst d dat out' inst' t"
proof -
  have av: "unat (avail_out d) = length out" "T \<le> unat (space_out d)" "dec_win_ind d AND VCD_TARGET = 0"
    using w by (auto simp: dec_win_def dec_out_def)
  have l: "length out + unat (hsize inst) \<le> T" using vc_emit_length [OF e(1)] e(2) by simp
  then have sp: "length out + unat (hsize inst) \<le> unat (space_out d)" using av(2) by simp
  have lt: "length out + unat (hsize inst) < 2 ^ 64" using le_less_trans [OF sp unat_u64_lt [of "space_out d"]] by simp
  then have ov: "\<not> USIZE_T_OVERFLOW (avail_out d) (hsize inst)" by (simp add: not_overflow av)
  have "unat (avail_out d + hsize inst) = length out + unat (hsize inst)" using lt av by (simp add: unat_add_less)
  then have sp': "\<not> avail_out d + hsize inst > space_out d" using sp by (simp add: word_less_nat_alt)
  consider (run) "htype inst = XD3_RUN" | (add) "htype inst = XD3_ADD"
    | (cpy) "XD3_CPY \<le> htype inst" "htype inst \<noteq> XD3_RUN" "htype inst \<noteq> XD3_ADD"
    using rtype_CPY [OF t] by blast
  then show ?thesis
  proof cases
    case run
    then show ?thesis using ov sp' output_run_refines [OF w run e] by (simp add: xd3_decode_output_halfinst_def)
  next
    case add
    then show ?thesis using ov sp' output_add_refines [OF w add e]
      by (simp add: xd3_decode_output_halfinst_def xd3_rtype_defs)
  next
    case cpy
    then show ?thesis
      using ov sp' av output_source_refines [OF w cpy(1) _ e] output_target_refines [OF w cpy(1) _ e]
      by (cases "haddr inst < dec_cpylen d") (simp_all add: xd3_decode_output_halfinst_def)
  qed
qed

subsection \<open>The loops over a half-instruction\<close>

definition emit_frame :: "xd3_dstream \<Rightarrow> xd3_dstream \<Rightarrow> bool" where
  "emit_frame d t \<longleftrightarrow> (\<exists>no ao ds x c1 c2 ins ads ca po. t = d\<lparr>next_out := no, avail_out := ao, data_sect := ds,
     src := x, dec_current1 := c1, dec_current2 := c2, inst_sect := ins, addr_sect := ads, acache := ca, dec_position := po\<rparr>)"

lemma emit_frame_refl [simp]: "emit_frame d d"
proof -
  have "d = d\<lparr>next_out := next_out d, avail_out := avail_out d, data_sect := data_sect d, src := src d,
     dec_current1 := dec_current1 d, dec_current2 := dec_current2 d, inst_sect := inst_sect d,
     addr_sect := addr_sect d, acache := acache d, dec_position := dec_position d\<rparr>" by simp
  then show ?thesis unfolding emit_frame_def by metis
qed

lemma emit_frame_trans: "emit_frame d t \<Longrightarrow> emit_frame t u \<Longrightarrow> emit_frame d u"
  unfolding emit_frame_def by (elim exE) (simp, blast)

lemma dec_win_currents [simp]:
  "dec_win S sw T (d\<lparr>dec_current1 := x\<rparr>) = dec_win S sw T d" "dec_win S sw T (d\<lparr>dec_current2 := x\<rparr>) = dec_win S sw T d"
  "dec_out (d\<lparr>dec_current1 := x\<rparr>) out = dec_out d out" "dec_out (d\<lparr>dec_current2 := x\<rparr>) out = dec_out d out"
  "dec_win S sw T (d\<lparr>inst_sect := i\<rparr>) = dec_win S sw T d" "dec_win S sw T (d\<lparr>addr_sect := i\<rparr>) = dec_win S sw T d"
  "dec_win S sw T (d\<lparr>acache := c\<rparr>) = dec_win S sw T d" "dec_win S sw T (d\<lparr>dec_position := p\<rparr>) = dec_win S sw T d"
  "dec_out (d\<lparr>inst_sect := i\<rparr>) out = dec_out d out" "dec_out (d\<lparr>addr_sect := i\<rparr>) out = dec_out d out"
  "dec_out (d\<lparr>acache := c\<rparr>) out = dec_out d out" "dec_out (d\<lparr>dec_position := p\<rparr>) out = dec_out d out"
  by (simp_all add: dec_win_def dec_out_def bufs_ok_def window_output_def)

text \<open>What running \<open>inst\<close> to its end leaves behind.\<close>

definition ran :: "bytes \<Rightarrow> bytes \<Rightarrow> nat \<Rightarrow> xd3_dstream \<Rightarrow> bytes \<Rightarrow> bytes \<Rightarrow> xd3_dstream \<Rightarrow> bool" where
  "ran S sw T d dat out t \<longleftrightarrow> dec_win S sw T t \<and> dec_out t out \<and> sbuf (data_sect t) = dat
     \<and> (\<exists>no ao ds x c1 c2. t = d\<lparr>next_out := no, avail_out := ao, data_sect := ds, src := x,
          dec_current1 := c1, dec_current2 := c2\<rparr>)"

lemma ran_trans:
  assumes t: "t = d\<lparr>next_out := no, avail_out := ao, data_sect := ds, src := x, dec_current1 := c1, dec_current2 := c2\<rparr>"
    and "ran S sw T t dat out u"
  shows "ran S sw T d dat out u"
  using assms(2) unfolding ran_def t by auto

lemma movedD: "moved d t \<Longrightarrow> \<exists>no ao ds x. t = d\<lparr>next_out := no, avail_out := ao, data_sect := ds, src := x\<rparr>"
  unfolding moved_def by blast

lemma loop1_refines:
  assumes "dec_win S sw T d" "dec_out d out" "valid_rtype (htype (dec_current1 d))" "length out' \<le> T"
    "vc_emit sw (htype (dec_current1 d)) (unat (hsize (dec_current1 d))) (unat (haddr (dec_current1 d)))
       (sbuf (data_sect d)) out = Some (dat, out')"
  shows "\<exists>t. output_loop1 d = Some (None, t) \<and> ran S sw T d dat out' t
     \<and> htype (dec_current1 t) = XD3_NOOP \<and> dec_current2 t = dec_current2 d"
  using assms
proof (induction "unat (hsize (dec_current1 d))" arbitrary: d out rule: less_induct)
  case less
  let ?i = "dec_current1 d"
  have nn: "htype ?i \<noteq> XD3_NOOP" using less.prems(3) by (rule valid_rtype_not_NOOP)
  obtain inst' t where o: "xd3_decode_output_halfinst ?i d = Some (None, inst', t)"
    and ad: "advances S sw T ?i d dat out' inst' t"
    using output_halfinst_refines [OF less.prems(1-3) less.prems(5,4)] by blast
  define t' where "t' = t\<lparr>dec_current1 := inst'\<rparr>"
  have e: "output_loop1 d = output_loop1 t'" using nn o by (subst output_loop1.simps) (simp add: t'_def)
  obtain no ao ds x where m: "t = d\<lparr>next_out := no, avail_out := ao, data_sect := ds, src := x\<rparr>"
    using movedD [of d t] ad unfolding advances_def by blast
  have wt: "dec_win S sw T t'" using ad by (simp add: advances_def t'_def)
  have t': "t' = d\<lparr>next_out := no, avail_out := ao, data_sect := ds, src := x, dec_current1 := inst', dec_current2 := dec_current2 d\<rparr>"
    by (simp add: t'_def m)
  consider (stop) "htype inst' = XD3_NOOP" "dec_out t out'" "sbuf (data_sect t) = dat"
    | (more) mid where "htype inst' = htype ?i" "unat (hsize inst') < unat (hsize ?i)" "dec_out t mid"
      "vc_emit sw (htype inst') (unat (hsize inst')) (unat (haddr inst')) (sbuf (data_sect t)) mid = Some (dat, out')"
    using ad by (auto simp: advances_def)
  then show ?case
  proof cases
    case stop
    have "output_loop1 t' = Some (None, t')" using stop by (subst output_loop1.simps) (simp add: t'_def)
    moreover have "dec_out t' out'" "sbuf (data_sect t') = dat" using stop by (simp_all add: t'_def)
    then have "ran S sw T d dat out' t'" unfolding ran_def using wt t' by blast
    ultimately show ?thesis using e stop t' by (simp add: t'_def)
  next
    case more
    have IH: "\<exists>u. output_loop1 t' = Some (None, u) \<and> ran S sw T t' dat out' u
      \<and> htype (dec_current1 u) = XD3_NOOP \<and> dec_current2 u = dec_current2 t'"
      by (rule less.hyps [OF _ wt]) (use more less.prems in \<open>auto simp: t'_def\<close>)
    then obtain u where u: "output_loop1 t' = Some (None, u)" "ran S sw T t' dat out' u"
      "htype (dec_current1 u) = XD3_NOOP" "dec_current2 u = dec_current2 t'" by blast
    have "ran S sw T d dat out' u" using ran_trans [OF t' u(2)] .
    then show ?thesis using e u t' by simp
  qed
qed

lemma loop2_refines:
  assumes "dec_win S sw T d" "dec_out d out" "valid_rtype (htype (dec_current2 d))" "length out' \<le> T"
    "vc_emit sw (htype (dec_current2 d)) (unat (hsize (dec_current2 d))) (unat (haddr (dec_current2 d)))
       (sbuf (data_sect d)) out = Some (dat, out')"
  shows "\<exists>t. output_loop2 d = Some (None, t) \<and> ran S sw T d dat out' t
     \<and> htype (dec_current2 t) = XD3_NOOP \<and> dec_current1 t = dec_current1 d"
  using assms
proof (induction "unat (hsize (dec_current2 d))" arbitrary: d out rule: less_induct)
  case less
  let ?i = "dec_current2 d"
  have nn: "htype ?i \<noteq> XD3_NOOP" using less.prems(3) by (rule valid_rtype_not_NOOP)
  obtain inst' t where o: "xd3_decode_output_halfinst ?i d = Some (None, inst', t)"
    and ad: "advances S sw T ?i d dat out' inst' t"
    using output_halfinst_refines [OF less.prems(1-3) less.prems(5,4)] by blast
  define t' where "t' = t\<lparr>dec_current2 := inst'\<rparr>"
  have e: "output_loop2 d = output_loop2 t'" using nn o by (subst output_loop2.simps) (simp add: t'_def)
  obtain no ao ds x where m: "t = d\<lparr>next_out := no, avail_out := ao, data_sect := ds, src := x\<rparr>"
    using movedD [of d t] ad unfolding advances_def by blast
  have wt: "dec_win S sw T t'" using ad by (simp add: advances_def t'_def)
  have t': "t' = d\<lparr>next_out := no, avail_out := ao, data_sect := ds, src := x, dec_current1 := dec_current1 d, dec_current2 := inst'\<rparr>"
    by (simp add: t'_def m)
  consider (stop) "htype inst' = XD3_NOOP" "dec_out t out'" "sbuf (data_sect t) = dat"
    | (more) mid where "htype inst' = htype ?i" "unat (hsize inst') < unat (hsize ?i)" "dec_out t mid"
      "vc_emit sw (htype inst') (unat (hsize inst')) (unat (haddr inst')) (sbuf (data_sect t)) mid = Some (dat, out')"
    using ad by (auto simp: advances_def)
  then show ?case
  proof cases
    case stop
    have "output_loop2 t' = Some (None, t')" using stop by (subst output_loop2.simps) (simp add: t'_def)
    moreover have "dec_out t' out'" "sbuf (data_sect t') = dat" using stop by (simp_all add: t'_def)
    then have "ran S sw T d dat out' t'" unfolding ran_def using wt t' by blast
    ultimately show ?thesis using e stop t' by (simp add: t'_def)
  next
    case more
    have IH: "\<exists>u. output_loop2 t' = Some (None, u) \<and> ran S sw T t' dat out' u
      \<and> htype (dec_current2 u) = XD3_NOOP \<and> dec_current1 u = dec_current1 t'"
      by (rule less.hyps [OF _ wt]) (use more less.prems in \<open>auto simp: t'_def\<close>)
    then obtain u where u: "output_loop2 t' = Some (None, u)" "ran S sw T t' dat out' u"
      "htype (dec_current2 u) = XD3_NOOP" "dec_current1 u = dec_current1 t'" by blast
    have "ran S sw T d dat out' u" using ran_trans [OF t' u(2)] .
    then show ?thesis using e u t' by simp
  qed
qed

subsection \<open>Parsing\<close>

lemma parse_half_refines:
  assumes w: "dec_win S sw T d" and t: "valid_rtype (htype inst)"
    and sz: "vc_size (hsize inst) (sbuf (inst_sect d)) = Some (k, i)"
    and ad: "vc_addr (htype inst) here (acache d) (sbuf (addr_sect d)) = Some (a, c, r)"
    and here: "unat (dec_position d) = here" "here = length sw + length out" "length out + unat k \<le> T"
    and em: "vc_emit sw (htype inst) (unat k) (unat a) data out \<noteq> None"
  shows "\<exists>b. xd3_decode_parse_halfinst inst d = (None, inst\<lparr>hsize := k, haddr := b\<rparr>,
       d\<lparr>inst_sect := (inst_sect d)\<lparr>sbuf := i\<rparr>, addr_sect := (addr_sect d)\<lparr>sbuf := r\<rparr>, acache := c,
         dec_position := dec_position d + k\<rparr>)
     \<and> vc_emit sw (htype inst) (unat k) (unat b) = vc_emit sw (htype inst) (unat k) (unat a)
     \<and> unat (dec_position d + k) = here + unat k"
proof -
  have b: "length sw + T < 2 ^ 64" "unat (dec_maxpos d) = length sw + T" "unat (dec_cpylen d) = length sw"
    using w by (auto simp: dec_win_def)
  have up: "unat (dec_position d + k) = here + unat k" using b(1) here by (simp add: unat_add_less)
  have mx: "\<not> dec_position d + k > dec_maxpos d" using up here b(2) by (simp add: word_less_nat_alt)
  define d1 where "d1 = d\<lparr>inst_sect := (inst_sect d)\<lparr>sbuf := i\<rparr>\<rparr>"
  have p1: "parse_size inst d = Inr (inst\<lparr>hsize := k\<rparr>, d1)"
    using sz by (auto simp: parse_size_def vc_size_def d1_def split: if_splits sum.splits)
  show ?thesis
  proof (cases "XD3_CPY \<le> htype inst")
    case False
    then have "c = acache d" "r = sbuf (addr_sect d)" using ad by (auto simp: vc_addr_def)
    moreover have "parse_address (inst\<lparr>hsize := k\<rparr>) d1 = Inr (inst\<lparr>hsize := k\<rparr>, d1)"
      using False by (simp add: parse_address_def)
    moreover have "vc_emit sw (htype inst) (unat k) x = vc_emit sw (htype inst) (unat k) y" for x y
      using False t rtype_CPY by (auto simp: vc_emit_def fun_eq_iff)
    ultimately show ?thesis using p1 mx up
      by (intro exI [of _ "haddr inst"]) (auto simp: xd3_decode_parse_halfinst_def d1_def)
  next
    case True
    have hp: "(of_nat here :: u64) = dec_position d" using here(1) by auto
    have dd: "xd3_decode_address (dec_position d) (ucast (htype inst - XD3_CPY)) (acache d) (sbuf (addr_sect d)) = Inr (a, c, r)"
      using ad True hp by (auto simp: vc_addr_def split: sum.splits)
    have lt: "unat a < here" "unat a < length sw \<longrightarrow> unat a + unat k \<le> length sw"
      using em True here(2) by (auto simp: vc_emit_def split: if_splits)
    have c1: "\<not> dec_position d \<le> a" using lt(1) here(1) by (simp add: word_le_nat_alt)
    have c2: "\<not> (a < dec_cpylen d \<and> a + k > dec_cpylen d)"
    proof
      assume x: "a < dec_cpylen d \<and> a + k > dec_cpylen d"
      then have "unat a + unat k \<le> length sw" using lt(2) b(3) by (simp add: word_less_nat_alt)
      moreover have "unat (a + k) = unat a + unat k" using calculation b(1) by (intro unat_add_less) simp
      ultimately show False using x b(3) by (simp add: word_less_nat_alt)
    qed
    have "parse_address (inst\<lparr>hsize := k\<rparr>) d1 = Inr (inst\<lparr>hsize := k, haddr := a\<rparr>,
        d1\<lparr>acache := c, addr_sect := (addr_sect d)\<lparr>sbuf := r\<rparr>\<rparr>)"
      using True dd c1 c2 by (auto simp: parse_address_def d1_def)
    then show ?thesis using p1 mx up
      by (intro exI [of _ a]) (auto simp: xd3_decode_parse_halfinst_def d1_def)
  qed
qed

text \<open>What the stream has parsed, and what a parsed half-instruction has still to do.\<close>

definition parsed :: "bytes \<Rightarrow> xd3_dstream \<Rightarrow> vc_state \<Rightarrow> bool" where
  "parsed sw d v \<longleftrightarrow> sbuf (inst_sect d) = vinst v \<and> sbuf (addr_sect d) = vaddr v \<and> acache d = vcache v
     \<and> unat (dec_position d) = length sw + length (vout v)"

definition promises :: "bytes \<Rightarrow> xd3_hinst \<Rightarrow> vc_state \<Rightarrow> vc_state \<Rightarrow> bool" where
  "promises sw inst v v' \<longleftrightarrow>
     (if htype inst = XD3_NOOP then vdata v' = vdata v \<and> vout v' = vout v
      else valid_rtype (htype inst)
        \<and> vc_emit sw (htype inst) (unat (hsize inst)) (unat (haddr inst)) (vdata v) (vout v) = Some (vdata v', vout v'))"

lemma promises_inst [simp]: "promises sw inst (v\<lparr>vinst := i\<rparr>) v' = promises sw inst v v'"
  by (simp add: promises_def)

lemma parse_refines:
  assumes w: "dec_win S sw T d" and p: "parsed sw d v" and t: "known_type inst" "htype inst \<noteq> XD3_NOOP"
    and h: "vc_half sw (htype inst) (hsize inst) v = Some v'" and l: "length (vout v') \<le> T"
  shows "\<exists>inst' t. xd3_decode_parse_halfinst inst d = (None, inst', t) \<and> parsed sw t v' \<and> promises sw inst' v v'
     \<and> (\<exists>i a c po. t = d\<lparr>inst_sect := i, addr_sect := a, acache := c, dec_position := po\<rparr>)"
  using h
proof (cases rule: vc_halfE)
  case 1
  then show ?thesis using t(2) by simp
next
  case (2 k i a c r dat out)
  have ty: "valid_rtype (htype inst)" using t by (simp add: known_type_def)
  have lo: "length out = length (vout v) + unat k" using vc_emit_length [OF 2(4)] by simp
  obtain b where b: "xd3_decode_parse_halfinst inst d = (None, inst\<lparr>hsize := k, haddr := b\<rparr>,
       d\<lparr>inst_sect := (inst_sect d)\<lparr>sbuf := i\<rparr>, addr_sect := (addr_sect d)\<lparr>sbuf := r\<rparr>, acache := c,
         dec_position := dec_position d + k\<rparr>)"
     "vc_emit sw (htype inst) (unat k) (unat b) = vc_emit sw (htype inst) (unat k) (unat a)"
     "unat (dec_position d + k) = length sw + length (vout v) + unat k"
    using parse_half_refines [OF w ty, of k i "length sw + length (vout v)" a c r "vout v" "vdata v"] 2 p l lo
    by (auto simp: parsed_def)
  have "promises sw (inst\<lparr>hsize := k, haddr := b\<rparr>) v v'" using 2 b(2) ty by (simp add: promises_def)
  moreover have "parsed sw (d\<lparr>inst_sect := (inst_sect d)\<lparr>sbuf := i\<rparr>, addr_sect := (addr_sect d)\<lparr>sbuf := r\<rparr>, acache := c,
         dec_position := dec_position d + k\<rparr>) v'" using 2(5) b(3) lo by (simp add: parsed_def)
  ultimately show ?thesis using b(1) by blast
qed

lemma parse_current1_refines:
  assumes w: "dec_win S sw T d" and p: "parsed sw d v" and t: "known_type (dec_current1 d)"
    and h: "vc_half sw (htype (dec_current1 d)) (hsize (dec_current1 d)) v = Some v'" and l: "length (vout v') \<le> T"
  shows "\<exists>inst' t i a c po. parse_current1 d = (None, t) \<and> parsed sw t v' \<and> promises sw inst' v v'
     \<and> t = d\<lparr>inst_sect := i, addr_sect := a, acache := c, dec_position := po, dec_current1 := inst'\<rparr>"
proof (cases "htype (dec_current1 d) = XD3_NOOP")
  case True
  have "d = d\<lparr>inst_sect := inst_sect d, addr_sect := addr_sect d, acache := acache d, dec_position := dec_position d,
     dec_current1 := dec_current1 d\<rparr>" by simp
  moreover have "parse_current1 d = (None, d)" "v' = v" "promises sw (dec_current1 d) v v'"
    using True h by (simp_all add: parse_current1_def vc_half_def promises_def)
  ultimately show ?thesis using p by metis
next
  case False
  from parse_refines [OF w p t False h l] obtain inst' t i a c po where
    r: "xd3_decode_parse_halfinst (dec_current1 d) d = (None, inst', t)" "parsed sw t v'" "promises sw inst' v v'"
      "t = d\<lparr>inst_sect := i, addr_sect := a, acache := c, dec_position := po\<rparr>" by blast
  have "parse_current1 d = (None, t\<lparr>dec_current1 := inst'\<rparr>)" using False r(1) by (simp add: parse_current1_def)
  moreover have "parsed sw (t\<lparr>dec_current1 := inst'\<rparr>) v'" using r(2) by (simp add: parsed_def)
  moreover have "t\<lparr>dec_current1 := inst'\<rparr> = d\<lparr>inst_sect := i, addr_sect := a, acache := c, dec_position := po, dec_current1 := inst'\<rparr>"
    using r(4) by simp
  ultimately show ?thesis using r(3) by blast
qed

lemma parse_current2_refines:
  assumes w: "dec_win S sw T d" and p: "parsed sw d v" and t: "known_type (dec_current2 d)"
    and h: "vc_half sw (htype (dec_current2 d)) (hsize (dec_current2 d)) v = Some v'" and l: "length (vout v') \<le> T"
  shows "\<exists>inst' t i a c po. parse_current2 d = (None, t) \<and> parsed sw t v' \<and> promises sw inst' v v'
     \<and> t = d\<lparr>inst_sect := i, addr_sect := a, acache := c, dec_position := po, dec_current2 := inst'\<rparr>"
proof (cases "htype (dec_current2 d) = XD3_NOOP")
  case True
  have "d = d\<lparr>inst_sect := inst_sect d, addr_sect := addr_sect d, acache := acache d, dec_position := dec_position d,
     dec_current2 := dec_current2 d\<rparr>" by simp
  moreover have "parse_current2 d = (None, d)" "v' = v" "promises sw (dec_current2 d) v v'"
    using True h by (simp_all add: parse_current2_def vc_half_def promises_def)
  ultimately show ?thesis using p by metis
next
  case False
  from parse_refines [OF w p t False h l] obtain inst' t i a c po where
    r: "xd3_decode_parse_halfinst (dec_current2 d) d = (None, inst', t)" "parsed sw t v'" "promises sw inst' v v'"
      "t = d\<lparr>inst_sect := i, addr_sect := a, acache := c, dec_position := po\<rparr>" by blast
  have "parse_current2 d = (None, t\<lparr>dec_current2 := inst'\<rparr>)" using False r(1) by (simp add: parse_current2_def)
  moreover have "parsed sw (t\<lparr>dec_current2 := inst'\<rparr>) v'" using r(2) by (simp add: parsed_def)
  moreover have "t\<lparr>dec_current2 := inst'\<rparr> = d\<lparr>inst_sect := i, addr_sect := a, acache := c, dec_position := po, dec_current2 := inst'\<rparr>"
    using r(4) by simp
  ultimately show ?thesis using r(3) by blast
qed

subsection \<open>A whole instruction\<close>

definition dec_rel :: "bytes \<Rightarrow> bytes \<Rightarrow> nat \<Rightarrow> xd3_dstream \<Rightarrow> vc_state \<Rightarrow> bool" where
  "dec_rel S sw T d v \<longleftrightarrow> dec_win S sw T d \<and> dec_out d (vout v) \<and> parsed sw d v \<and> sbuf (data_sect d) = vdata v
     \<and> code_table d = xd3_rfc3284_code_table \<and> htype (dec_current1 d) = XD3_NOOP \<and> htype (dec_current2 d) = XD3_NOOP"

lemma parsed_sections [simp]:
  "parsed sw (d\<lparr>dec_current1 := x\<rparr>) v = parsed sw d v" "parsed sw (d\<lparr>dec_current2 := x\<rparr>) v = parsed sw d v"
  by (simp_all add: parsed_def)

lemma emit_frameI: "t = d\<lparr>next_out := no, avail_out := ao, data_sect := ds,
     src := x, dec_current1 := cx, dec_current2 := cy, inst_sect := ins, addr_sect := ads, acache := ca, dec_position := po\<rparr>
  \<Longrightarrow> emit_frame d t"
  unfolding emit_frame_def by blast

lemma decode_instruction_refines:
  assumes r: "dec_rel S sw T d v" and st: "vc_step sw v = Some v'" and l: "length (vout v') \<le> T"
  obtains t m where "xd3_decode_instruction d = (None, t)" "dec_win S sw T t" "dec_out t (vout v)" "parsed sw t v'"
    "sbuf (data_sect t) = vdata v" "code_table t = xd3_rfc3284_code_table"
    "promises sw (dec_current1 t) v m" "promises sw (dec_current2 t) m v'" "length (vout m) \<le> T" "emit_frame d t"
proof -
  obtain b rest where b: "vinst v = b # rest" using st by (auto simp: vc_step_def split: list.splits)
  define e where "e = xd3_rfc3284_code_table ! unat b"
  obtain m where m: "vc_half sw (type1 e) (ucast (size1 e)) (v\<lparr>vinst := rest\<rparr>) = Some m"
    "vc_half sw (type2 e) (ucast (size2 e)) m = Some v'"
    using st b by (auto simp: vc_step_def Let_def bind_eq_Some_conv e_def)
  have lm: "length (vout m) \<le> T" using vc_half_length [OF m(2)] l by simp
  define d0 where "d0 = d\<lparr>inst_sect := (inst_sect d)\<lparr>sbuf := rest\<rparr>,
      dec_current1 := (dec_current1 d)\<lparr>htype := type1 e, hsize := ucast (size1 e)\<rparr>,
      dec_current2 := (dec_current2 d)\<lparr>htype := type2 e, hsize := ucast (size2 e)\<rparr>\<rparr>"
  have di: "xd3_decode_instruction d = seqr parse_current1 parse_current2 d0"
    using r b by (simp add: xd3_decode_instruction_def dec_rel_def parsed_def Let_def e_def d0_def)
  have p0: "dec_win S sw T d0" "parsed sw d0 (v\<lparr>vinst := rest\<rparr>)" "dec_out d0 (vout v)" "sbuf (data_sect d0) = vdata v"
    using r by (simp_all add: d0_def dec_rel_def parsed_def)
  have k0: "known_type (dec_current1 d0)" "known_type (dec_current2 d0)"
    using table_types [of b] by (simp_all add: d0_def known_type_def e_def)
  obtain c1 t1 i a c po where t1: "parse_current1 d0 = (None, t1)" "parsed sw t1 m" "promises sw c1 (v\<lparr>vinst := rest\<rparr>) m"
    "t1 = d0\<lparr>inst_sect := i, addr_sect := a, acache := c, dec_position := po, dec_current1 := c1\<rparr>"
    using parse_current1_refines [OF p0(1,2) k0(1) _ lm] m(1) by (auto simp: d0_def)
  have w1: "dec_win S sw T t1" "dec_current2 t1 = dec_current2 d0" using p0(1) t1(4) by simp_all
  obtain c2 t2 i2 a2 c' po2 where t2: "parse_current2 t1 = (None, t2)" "parsed sw t2 v'" "promises sw c2 m v'"
    "t2 = t1\<lparr>inst_sect := i2, addr_sect := a2, acache := c', dec_position := po2, dec_current2 := c2\<rparr>"
    using parse_current2_refines [OF w1(1) t1(2) _ _ l] m(2) k0(2) w1(2) by (auto simp: d0_def)
  have f: "t2 = d0\<lparr>inst_sect := i2, addr_sect := a2, acache := c', dec_position := po2, dec_current1 := c1, dec_current2 := c2\<rparr>"
    using t1(4) t2(4) by simp
  have "emit_frame d t2" unfolding f
    by (rule emit_frameI [where no = "next_out d" and ao = "avail_out d" and ds = "data_sect d" and x = "src d"
        and cx = c1 and cy = c2 and ins = i2 and ads = a2 and ca = c' and po = po2]) (simp add: d0_def)
  moreover have "xd3_decode_instruction d = (None, t2)" using di t1(1) t2(1) by (simp add: seqr_def)
  moreover have "promises sw (dec_current1 t2) v m" "promises sw (dec_current2 t2) m v'"
    using t1(3) t2(3) f by simp_all
  ultimately show thesis using that t2(2) lm p0 r f by (simp add: d0_def dec_rel_def)
qed

lemma ran_promises:
  assumes "ran S sw T d (vdata m) (vout m) t" "parsed sw d v'" "code_table d = c"
  shows "dec_win S sw T t" "dec_out t (vout m)" "sbuf (data_sect t) = vdata m" "parsed sw t v'" "code_table t = c" "emit_frame d t"
proof -
  from assms(1) obtain no ao ds x cx cy where t: "t = d\<lparr>next_out := no, avail_out := ao, data_sect := ds, src := x,
          dec_current1 := cx, dec_current2 := cy\<rparr>" unfolding ran_def by blast
  show "emit_frame d t" by (rule emit_frameI [where no = no and ao = ao and ds = ds and x = x and cx = cx and cy = cy
        and ins = "inst_sect d" and ads = "addr_sect d" and ca = "acache d" and po = "dec_position d"]) (simp add: t)
  show "parsed sw t v'" "code_table t = c" using assms(2,3) unfolding parsed_def by (simp_all add: t)
qed (use assms(1) in \<open>simp_all add: ran_def\<close>)

lemma ran_refl:
  assumes "dec_win S sw T d" "dec_out d out" "sbuf (data_sect d) = dat"
  shows "ran S sw T d dat out d"
proof -
  have "d = d\<lparr>next_out := next_out d, avail_out := avail_out d, data_sect := data_sect d, src := src d,
     dec_current1 := dec_current1 d, dec_current2 := dec_current2 d\<rparr>" by simp
  then show ?thesis unfolding ran_def using assms by metis
qed

lemma loop1_promises:
  assumes "dec_win S sw T d" "dec_out d (vout v)" "sbuf (data_sect d) = vdata v" "promises sw (dec_current1 d) v m"
    "length (vout m) \<le> T"
  shows "\<exists>t. output_loop1 d = Some (None, t) \<and> ran S sw T d (vdata m) (vout m) t
     \<and> htype (dec_current1 t) = XD3_NOOP \<and> dec_current2 t = dec_current2 d"
proof (cases "htype (dec_current1 d) = XD3_NOOP")
  case True
  have "ran S sw T d (vdata m) (vout m) d" using assms True by (intro ran_refl) (simp_all add: promises_def)
  moreover have "output_loop1 d = Some (None, d)" using True by (subst output_loop1.simps) simp
  ultimately show ?thesis using True by simp
qed (use loop1_refines [OF assms(1,2) _ assms(5)] assms in \<open>auto simp: promises_def\<close>)

lemma loop2_promises:
  assumes "dec_win S sw T d" "dec_out d (vout v)" "sbuf (data_sect d) = vdata v" "promises sw (dec_current2 d) v m"
    "length (vout m) \<le> T"
  shows "\<exists>t. output_loop2 d = Some (None, t) \<and> ran S sw T d (vdata m) (vout m) t
     \<and> htype (dec_current2 t) = XD3_NOOP \<and> dec_current1 t = dec_current1 d"
proof (cases "htype (dec_current2 d) = XD3_NOOP")
  case True
  have "ran S sw T d (vdata m) (vout m) d" using assms True by (intro ran_refl) (simp_all add: promises_def)
  moreover have "output_loop2 d = Some (None, d)" using True by (subst output_loop2.simps) simp
  ultimately show ?thesis using True by simp
qed (use loop2_refines [OF assms(1,2) _ assms(5)] assms in \<open>auto simp: promises_def\<close>)

lemma emit_loop_step:
  assumes r: "dec_rel S sw T d v" and st: "vc_step sw v = Some v'" and l: "length (vout v') \<le> T"
  obtains t where "emit_loop d = emit_loop t" "dec_rel S sw T t v'" "emit_frame d t"
proof -
  have more: "more_instructions d" using r st by (auto simp: more_instructions_def dec_rel_def parsed_def vc_step_def split: list.splits)
  obtain t m where t: "xd3_decode_instruction d = (None, t)" "dec_win S sw T t" "dec_out t (vout v)" "parsed sw t v'"
    "sbuf (data_sect t) = vdata v" "code_table t = xd3_rfc3284_code_table"
    "promises sw (dec_current1 t) v m" "promises sw (dec_current2 t) m v'" "length (vout m) \<le> T" "emit_frame d t"
    using decode_instruction_refines [OF r st l] .
  have ni: "next_instruction d = (None, t)" using r t(1) by (simp add: next_instruction_def dec_rel_def)
  obtain t1 where t1: "output_loop1 t = Some (None, t1)" "ran S sw T t (vdata m) (vout m) t1"
    "htype (dec_current1 t1) = XD3_NOOP" "dec_current2 t1 = dec_current2 t"
    using loop1_promises [OF t(2,3,5,7,9)] by blast
  note r1 = ran_promises [OF t1(2) t(4,6)]
  obtain t2 where t2: "output_loop2 t1 = Some (None, t2)" "ran S sw T t1 (vdata v') (vout v') t2"
    "htype (dec_current2 t2) = XD3_NOOP" "dec_current1 t2 = dec_current1 t1"
    using loop2_promises [OF r1(1,2,3) _ l] t(8) t1(4) by auto
  note r2 = ran_promises [OF t2(2) r1(4,5)]
  have "emit_loop d = emit_loop t2" using more ni t1(1) t2(1) by (subst emit_loop.simps) simp
  moreover have "dec_rel S sw T t2 v'" using r2 t1(3) t2(3,4) by (simp add: dec_rel_def)
  moreover have "emit_frame d t2" using t(10) r1(6) r2(6) emit_frame_trans by blast
  ultimately show thesis using that by blast
qed

lemma emit_loop_steps:
  assumes "vc_steps sw v w" "dec_rel S sw T d v" "length (vout w) \<le> T"
  shows "\<exists>t. emit_loop d = emit_loop t \<and> dec_rel S sw T t w \<and> emit_frame d t"
  using assms
proof (induction arbitrary: d rule: vc_steps.induct)
  case (vc_next v v' v'')
  have "length (vout v') \<le> T" using vc_steps_length [OF vc_next(2)] vc_next(5) by simp
  then obtain t where t: "emit_loop d = emit_loop t" "dec_rel S sw T t v'" "emit_frame d t"
    using emit_loop_step [OF vc_next(4,1)] by blast
  show ?case using vc_next.IH [OF t(2) vc_next(5)] t emit_frame_trans by metis
qed (use emit_frame_refl in blast)

text \<open>The whole window, with the checks at its end.\<close>

lemma decode_emit_refines:
  assumes r: "dec_rel S sw T d \<lparr>vinst = inst, vdata = data, vaddr = addr, vcache = c, vout = []\<rparr>"
    and v: "vc_window sw c inst data addr = Some out"
    and l: "unat (dec_tgtlen d) = length out" "T = length out"
    and ad: "dec_win_ind d AND VCD_ADLER32 \<noteq> 0 \<longrightarrow> flags d AND XD3_ADLER32_NOVER = 0 \<longrightarrow> dec_adler32 d = adler32 1 out"
  obtains t where "xd3_decode_emit d = Some (Some XD3_OUTPUT, t)" "window_output t = out" "dec_state t = DEC_FINISH"
    "\<exists>t'. emit_frame d t' \<and> t = snd (xd3_decode_finish_window t')"
proof -
  obtain w where w: "vc_steps sw \<lparr>vinst = inst, vdata = data, vaddr = addr, vcache = c, vout = []\<rparr> w"
    "vinst w = []" "vdata w = []" "vaddr w = []" "vout w = out"
    using v by (auto simp: vc_window_def vc_run_steps split: option.splits if_splits)
  obtain t where t: "emit_loop d = emit_loop t" "dec_rel S sw T t w" "emit_frame d t"
    using emit_loop_steps [OF w(1) r] w(5) l(2) by auto
  have e: "emit_loop t = Some (None, t)" using t(2) w(2)
    by (subst emit_loop.simps) (simp add: more_instructions_def dec_rel_def parsed_def)
  have f: "dec_tgtlen t = dec_tgtlen d" "dec_win_ind t = dec_win_ind d" "flags t = flags d" "dec_adler32 t = dec_adler32 d"
    using t(3) by (auto simp: emit_frame_def)
  have o: "window_output t = out" "unat (avail_out t) = length out" "sbuf (data_sect t) = []" "sbuf (addr_sect t) = []"
    using t(2) w by (simp_all add: dec_rel_def dec_out_def parsed_def)
  have "avail_out t = dec_tgtlen t" using o(2) l(1) f(1) by (simp add: word_unat_eq_iff)
  then have "decode_emit_checks t = xd3_decode_finish_window t"
    using o f ad by (auto simp: decode_emit_checks_def seqr_def fail_if_def)
  then have "xd3_decode_emit d = Some (Some XD3_OUTPUT, snd (xd3_decode_finish_window t))"
    using t(1) e by (simp add: xd3_decode_emit_def xd3_decode_finish_window_def)
  then show thesis using that t(3) o(1) by (auto simp: xd3_decode_finish_window_def window_output_def)
qed

subsection \<open>Property\<close>

lemma add_window_meaning: "vc_window [] rfc3284_cache [3] [10, 20] [] = Some [10, 20]"
  by (simp add: vc_window_def vc_run.simps vc_step_def table_entry_3 single_def vc_half_def vc_size_def vc_addr_def vc_emit_def xd3_rtype_defs word_le_nat_alt)

lemma add_window_rel:
  "dec_rel [] [] (length [10 :: u8, 20]) add_window \<lparr>vinst = [3], vdata = [10, 20], vaddr = [], vcache = rfc3284_cache, vout = []\<rparr>"
  by (simp add: dec_rel_def add_window_def decoder_stream_def dec_win_def bufs_ok_def dec_out_def parsed_def empty_hinst_def empty_desect_def window_output_def)

text \<open>C9. The decoder implements the reference semantics: when the three sections of a window mean \<open>out\<close> over the source
  window, the header announces the length of \<open>out\<close> and the checksum, if it is verified, is that of \<open>out\<close>,
  \<open>xd3_decode_emit\<close> delivers exactly \<open>out\<close> with \<open>XD3_OUTPUT\<close>. The source is read by blocks of any size, through a
  callback or from the current block.\<close>

theorem decode_emit_implements:
  assumes "dec_rel S sw (length out) d \<lparr>vinst = inst, vdata = data, vaddr = addr, vcache = c, vout = []\<rparr>"
    "vc_window sw c inst data addr = Some out" "unat (dec_tgtlen d) = length out"
    "dec_win_ind d AND VCD_ADLER32 \<noteq> 0 \<longrightarrow> flags d AND XD3_ADLER32_NOVER = 0 \<longrightarrow> dec_adler32 d = adler32 1 out"
  shows "\<exists>t. xd3_decode_emit d = Some (Some XD3_OUTPUT, t) \<and> window_output t = out \<and> dec_state t = DEC_FINISH"
  using decode_emit_refines [OF assms(1-3) refl assms(4)] by blast

theorem decode_emit_implements_witness:
  "\<exists>t. xd3_decode_emit add_window = Some (Some XD3_OUTPUT, t) \<and> window_output t = [10, 20] \<and> dec_state t = DEC_FINISH"
  by (rule decode_emit_implements [OF add_window_rel add_window_meaning]) (simp_all add: add_window_def decoder_stream_def)

end
