(* ===== verification/Xd3_Match.thy ===== *)
theory Xd3_Match
  imports Prelude Xd3_Util Xd3_Source Xd3_Hash Xd3_Iopt
begin

section \<open>The string matcher (xdelta3.c, "String matching helpers" and the template)\<close>

text \<open>
  The search for runs, source matches and target matches in a window. Every operation that reads the
  input, a source block or a hash table by index has an option result: \<open>None\<close> is a read or write
  outside the object, a read of memory that was never written, or a loop that does not end.

  The five pre-compiled matchers differ from \<open>soft\<close> only in that \<open>LLOOK\<close>, \<open>SLOOK\<close> and \<open>MAXLAZY\<close> are
  constants; they are the values of \<open>stream->smatcher\<close> that \<open>xd3_config_stream\<close> copies with the
  function, so one model reads them from there. \<open>next_in\<close> does not move during the search, and the
  pointer \<open>inp\<close> of the template is always \<open>next_in + input_position\<close>.
\<close>

subsection \<open>Table setup\<close>

definition init_large :: "enc_step" where
  "init_large s =
     (if esrc s \<noteq> None \<and> large_table s = None then
        case xd3_alloc (emem s) of
          (False, m) \<Rightarrow> (Some ENOMEM, s\<lparr>emem := m\<rparr>)
        | (True, m) \<Rightarrow> (None, s\<lparr>emem := m, large_table := Some (replicate (unat (xd3_hash_cfg.hsize (large_hash s))) 0)\<rparr>)
      else (None, s))"

definition init_small_prev :: "enc_step" where
  "init_small_prev s =
     (if small_lchain (smatcher s) > 1 \<or> small_chain (smatcher s) > 1 then
        case xd3_alloc (emem s) of
          (False, m) \<Rightarrow> (Some ENOMEM, s\<lparr>emem := m\<rparr>)
        | (True, m) \<Rightarrow> (None, s\<lparr>emem := m, small_prev := Some (replicate (unat (sprevsz s)) None)\<rparr>)
      else (None, s))"

definition init_small :: "enc_step" where
  "init_small s =
     (if eflags s AND XD3_NOCOMPRESS = 0 then
        if small_table s \<noteq> None then
          (None, if small_reset s
                 then s\<lparr>small_reset := False, small_table := Some (replicate (unat (xd3_hash_cfg.hsize (small_hash s))) 0)\<rparr>
                 else s)
        else
          case xd3_alloc (emem s) of
            (False, m) \<Rightarrow> (Some ENOMEM, s\<lparr>emem := m\<rparr>)
          | (True, m) \<Rightarrow>
              init_small_prev (s\<lparr>emem := m, small_table := Some (replicate (unat (xd3_hash_cfg.hsize (small_hash s))) 0)\<rparr>)
      else (None, s))"

definition xd3_string_match_init :: "enc_step" where
  "xd3_string_match_init = seqr init_large init_small"

subsection \<open>Source matches\<close>

text \<open>\<open>xd3_source_match_setup\<close>, with \<open>source\<close> for \<open>stream->src\<close>; \<open>True\<close> is the return value 0.\<close>

definition match_setup_good :: "xoff_t \<Rightarrow> xd3_estream \<Rightarrow> bool \<times> xd3_estream" where
  "match_setup_good srcpos s =
     (True, s\<lparr>match_state := MATCH_BACKWARD, match_srcpos := srcpos, match_last_srcpos := srcpos\<rparr>)"

definition match_setup_bad :: "xoff_t \<Rightarrow> xd3_estream \<Rightarrow> bool \<times> xd3_estream" where
  "match_setup_bad srcpos s = (False, s\<lparr>match_state := MATCH_SEARCHING, match_last_srcpos := srcpos\<rparr>)"

definition greedy_or_not :: "xd3_estream \<Rightarrow> usize_t" where
  "greedy_or_not s = (if eflags s AND XD3_BEGREEDY \<noteq> 0 then xd3_iopt_last_matched s else unencoded_offset s)"

definition xd3_source_match_setup :: "xd3_source \<Rightarrow> xoff_t \<Rightarrow> xd3_estream \<Rightarrow> bool \<times> xd3_estream" where
  "xd3_source_match_setup source srcpos s0 =
     (let s = s0\<lparr>match_maxback := 0, match_maxfwd := 0, match_back := 0, match_fwd := 0\<rparr>
      in if srcpos \<noteq> 0 \<and> srcpos = match_last_srcpos s then match_setup_bad srcpos s
         else if srcpos < srcwin_cksum_pos s \<and> srcwin_cksum_pos s - srcpos > max_winsize source
         then match_setup_bad srcpos s
         else
           let maxback = input_position s - greedy_or_not s;
               maxfwd = avail_in s - input_position s
           in if \<not> srcwin_decided s then
                let fwd = (if eof_known source then min (xd3_source_eof source - srcpos) maxfwd else maxfwd)
                in match_setup_good srcpos (s\<lparr>match_maxback := min srcpos maxback, match_maxfwd := fwd\<rparr>)
              else if srcpos < srcbase source \<or> srcpos > srcbase source + srclen source
              then match_setup_bad srcpos (s\<lparr>match_maxback := maxback, match_maxfwd := maxfwd\<rparr>)
              else match_setup_good srcpos
                     (s\<lparr>match_maxback := min (srcpos - srcbase source) maxback,
                        match_maxfwd := min (srcbase source + srclen source - srcpos) maxfwd\<rparr>))"

text \<open>\<open>xd3_forward_match\<close>: eight comparisons of 4-byte words per round, then single bytes. \<open>words_eq8 k\<close>
  is the chain of \<open>k\<close> conditions \<open>s1[i++] == s2[j++]\<close>; \<open>i\<close> and \<open>j\<close> are always equal. No index exceeds \<open>n\<close>,
  so the arithmetic of \<open>usize_t\<close> does not wrap and natural numbers are used.\<close>

definition int_at :: "bytes \<Rightarrow> nat \<Rightarrow> bytes" where
  "int_at xs i = take 4 (drop (4 * i) xs)"

fun words_eq8 :: "bytes \<Rightarrow> bytes \<Rightarrow> nat \<Rightarrow> nat \<Rightarrow> bool \<times> nat" where
  "words_eq8 s1 s2 0 i = (True, i)"
| "words_eq8 s1 s2 (Suc k) i = (if int_at s1 i = int_at s2 i then words_eq8 s1 s2 k (i + 1) else (False, i + 1))"

lemma words_eq8_progress: "words_eq8 s1 s2 k i = (b, j) \<Longrightarrow> 0 < k \<Longrightarrow> i < j"
proof (induction k arbitrary: i)
  case (Suc k)
  then show ?case by (cases "k = 0") (fastforce split: if_splits)+
qed simp

function words_loop :: "bytes \<Rightarrow> bytes \<Rightarrow> nat \<Rightarrow> nat \<Rightarrow> nat" where
  "words_loop s1 s2 nint_8 i =
     (if i \<le> nint_8 then
        (case words_eq8 s1 s2 8 i of (True, j) \<Rightarrow> words_loop s1 s2 nint_8 j | (False, j) \<Rightarrow> j)
      else i)"
  by pat_completeness auto
termination
  by (relation "measure (\<lambda>(s1, s2, n, i). Suc n - i)") (auto dest!: words_eq8_progress [OF sym])

declare words_loop.simps [simp del]

function bytes_loop :: "bytes \<Rightarrow> bytes \<Rightarrow> nat \<Rightarrow> nat \<Rightarrow> nat" where
  "bytes_loop s1 s2 n i = (if i < n \<and> s1 ! i = s2 ! i then bytes_loop s1 s2 n (i + 1) else i)"
  by pat_completeness auto
termination by (relation "measure (\<lambda>(s1, s2, n, i). n - i)") auto

declare bytes_loop.simps [simp del]

definition xd3_forward_match :: "bytes \<Rightarrow> bytes \<Rightarrow> nat \<Rightarrow> nat" where
  "xd3_forward_match s1 s2 n =
     (let nint = n div 4;
          i = (if nint div 8 \<noteq> 0 then (words_loop s1 s2 (nint - 8) 0 - 1) * 4 else 0)
      in bytes_loop s1 s2 n i)"

text \<open>\<open>xd3_source_extend_match\<close>. How its two searches end: a return code, or one of the two labels.\<close>

datatype extend_end = EXT_RETURN xd3_rvalues | DONEBACK | DONEFWD

text \<open>The inner loop of the backward search: \<open>n\<close> is \<open>tryrem\<close>; the result says whether all bytes were
  equal and how many were.\<close>

fun back_bytes :: "bytes \<Rightarrow> bytes \<Rightarrow> nat \<Rightarrow> nat \<Rightarrow> nat \<Rightarrow> (bool \<times> nat) option" where
  "back_bytes blk inp 0 tryoff streamoff = Some (True, 0)"
| "back_bytes blk inp (Suc n) tryoff streamoff =
     (if tryoff = 0 \<or> streamoff = 0 \<or> length blk < tryoff \<or> length inp < streamoff then None
      else if blk ! (tryoff - 1) \<noteq> inp ! (streamoff - 1) then Some (False, 0)
      else map_option (\<lambda>(eq, k). (eq, Suc k)) (back_bytes blk inp n (tryoff - 1) (streamoff - 1)))"

partial_function (option) extend_back ::
  "xoff_t \<Rightarrow> usize_t \<Rightarrow> usize_t \<Rightarrow> xd3_estream \<Rightarrow> (extend_end \<times> xd3_estream) option" where
  "extend_back tryblk0 tryoff0 streamoff s =
     (if match_back s < match_maxback s then
        case esrc s of
          None \<Rightarrow> None
        | Some source \<Rightarrow>
          (case (if tryoff0 = 0 then (tryblk0 - 1, blksize source) else (tryblk0, tryoff0)) of (tryblk, tryoff) \<Rightarrow>
            (case xd3_getblk (egetblk s) tryblk source of
               (Some r, source') \<Rightarrow>
                 Some (if r = XD3_TOOFARBACK then (if match_back s = 0 then DONEFWD else DONEBACK) else EXT_RETURN r,
                       s\<lparr>esrc := Some source'\<rparr>)
             | (None, source') \<Rightarrow>
                 (case curblk source' of
                    None \<Rightarrow> None
                  | Some blk \<Rightarrow>
                      Option.bind (back_bytes blk (ein s) (unat (min tryoff (match_maxback s - match_back s)))
                                     (unat tryoff) (unat streamoff)) (\<lambda>(eq, k).
                        if eq then
                          extend_back tryblk (tryoff - of_nat k) (streamoff - of_nat k)
                            (s\<lparr>esrc := Some source', match_back := match_back s + of_nat k\<rparr>)
                        else Some (DONEBACK, s\<lparr>esrc := Some source', match_back := match_back s + of_nat k\<rparr>)))))
      else Some (DONEBACK, s))"

partial_function (option) extend_fwd ::
  "xoff_t \<Rightarrow> usize_t \<Rightarrow> usize_t \<Rightarrow> xd3_estream \<Rightarrow> (extend_end \<times> xd3_estream) option" where
  "extend_fwd tryblk0 tryoff0 streamoff s =
     (if match_fwd s < match_maxfwd s then
        case esrc s of
          None \<Rightarrow> None
        | Some source \<Rightarrow>
          (case (if tryoff0 = blksize source then (tryblk0 + 1, 0) else (tryblk0, tryoff0)) of (tryblk, tryoff) \<Rightarrow>
            (case xd3_getblk (egetblk s) tryblk source of
               (Some r, source') \<Rightarrow>
                 Some (if r = XD3_TOOFARBACK then DONEFWD else EXT_RETURN r, s\<lparr>esrc := Some source'\<rparr>)
             | (None, source') \<Rightarrow>
                 let tryrem = min (match_maxfwd s - match_fwd s) (onblk source' - tryoff)
                 in if tryrem = 0 then Some (DONEFWD, s\<lparr>esrc := Some source'\<rparr>)
                    else case curblk source' of
                      None \<Rightarrow> None
                    | Some blk \<Rightarrow>
                        if unat tryoff + unat tryrem > length blk \<or> unat streamoff + unat tryrem > length (ein s) then None
                        else
                          let matched = of_nat (xd3_forward_match (drop (unat tryoff) blk)
                                                  (drop (unat streamoff) (ein s)) (unat tryrem));
                              s' = s\<lparr>esrc := Some source', match_fwd := match_fwd s + matched\<rparr>
                          in if tryrem \<noteq> matched then Some (DONEFWD, s')
                             else extend_fwd tryblk (tryoff + matched) (streamoff + matched) s'))
      else Some (DONEFWD, s))"

text \<open>From the label \<open>donefwd\<close> on.\<close>

definition extend_take :: "xd3_estream \<Rightarrow> (xd3_ret \<times> xd3_estream) option" where
  "extend_take s =
     (let target_position = input_position s - match_back s;
          match_length = match_back s + match_fwd s;
          match_position = match_srcpos s - match_back s;
          match_end = match_srcpos s + match_fwd s;
          s1 = (if match_back s > 0 then xd3_iopt_erase target_position s else s);
          s2 = s1\<lparr>match_back := 0,
                  match_minaddr := (if match_maxaddr s1 = 0 \<or> match_position < match_minaddr s1
                                    then match_position else match_minaddr s1),
                  match_maxaddr := max match_end (match_maxaddr s1),
                  maxsrcaddr := max match_end (maxsrcaddr s1)\<rparr>
      in case xd3_found_match target_position match_length match_position True s2 of
           None \<Rightarrow> None
         | Some (Some r, s3) \<Rightarrow> Some (Some r, s3)
         | Some (None, s3) \<Rightarrow>
             Some (None, if target_position + match_length = avail_in s3
                         then s3\<lparr>match_state := MATCH_TARGET, match_srcpos := match_end\<rparr> else s3))"

definition extend_done :: "xd3_estream \<Rightarrow> (xd3_ret \<times> xd3_estream) option" where
  "extend_done s0 =
     (let s = s0\<lparr>match_state := MATCH_SEARCHING\<rparr>
      in if match_fwd s < min_match s then Some (None, s\<lparr>match_fwd := 0\<rparr>) else extend_take s)"

definition extend_backward :: "xd3_source \<Rightarrow> xd3_estream \<Rightarrow> (extend_end \<times> xd3_estream) option" where
  "extend_backward source s =
     (if match_state s = MATCH_BACKWARD then
        case xd3_blksize_div (match_srcpos s - match_back s) (unat (shiftby source)) (maskby source) of
          (tryblk, tryoff) \<Rightarrow>
            Option.bind (extend_back tryblk tryoff (input_position s - match_back s) s) (\<lambda>(e, s').
              Some (e, if e = DONEBACK then s'\<lparr>match_state := MATCH_FORWARD\<rparr> else s'))
      else Some (DONEBACK, s))"

definition extend_forward :: "xd3_source \<Rightarrow> xd3_estream \<Rightarrow> (extend_end \<times> xd3_estream) option" where
  "extend_forward source s =
     (case xd3_blksize_div (match_srcpos s + match_fwd s) (unat (shiftby source)) (maskby source) of
        (tryblk, tryoff) \<Rightarrow> extend_fwd tryblk tryoff (input_position s + match_fwd s) s)"

definition xd3_source_extend_match :: "xd3_estream \<Rightarrow> (xd3_ret \<times> xd3_estream) option" where
  "xd3_source_extend_match s =
     (case esrc s of
        None \<Rightarrow> None
      | Some source \<Rightarrow>
          Option.bind (extend_backward source s) (\<lambda>(e, s1).
            case e of
              EXT_RETURN r \<Rightarrow> Some (Some r, s1)
            | DONEFWD \<Rightarrow> extend_done s1
            | DONEBACK \<Rightarrow>
                Option.bind (extend_forward source s1) (\<lambda>(e', s2).
                  case e' of EXT_RETURN r \<Rightarrow> Some (Some r, s2) | _ \<Rightarrow> extend_done s2)))"

subsection \<open>Target matches\<close>

definition xd3_scksum_insert :: "usize_t \<Rightarrow> usize_t \<Rightarrow> xd3_estream \<Rightarrow> xd3_estream option" where
  "xd3_scksum_insert inx pos s =
     (case small_table s of
        None \<Rightarrow> None
      | Some tab \<Rightarrow>
          if unat inx < length tab then
            let s' = s\<lparr>small_table := Some (tab[unat inx := pos + HASH_CKOFFSET])\<rparr>
            in case small_prev s of
                 None \<Rightarrow> Some s'
               | Some prev \<Rightarrow>
                   let k = unat (pos AND sprevmask s)
                   in if k < length prev then Some (s'\<lparr>small_prev := Some (prev[k := Some (tab ! unat inx)])\<rparr>)
                      else None
          else None)"

text \<open>\<open>while (inp < inp_max && *inp == *ref)\<close> of \<open>xd3_smatch\<close>; the result is the final \<open>inp\<close>.\<close>

function expand_match :: "bytes \<Rightarrow> nat \<Rightarrow> nat \<Rightarrow> nat option" where
  "expand_match xs inp ref =
     (if inp < length xs then
        if ref < length xs then
          if xs ! inp = xs ! ref then expand_match xs (inp + 1) (ref + 1) else Some inp
        else None
      else Some inp)"
  by pat_completeness auto
termination by (relation "measure (\<lambda>(xs, inp, ref). length xs - inp)") auto

declare expand_match.simps [simp del]

text \<open>The next position of the chain: \<open>Some None\<close> leaves the loop.\<close>

definition chain_prev :: "usize_t \<Rightarrow> xd3_estream \<Rightarrow> usize_t option option" where
  "chain_prev pos s =
     (case small_prev s of
        None \<Rightarrow> None
      | Some prev \<Rightarrow>
          let k = unat (pos AND sprevmask s)
          in if k < length prev then
               (case prev ! k of
                  None \<Rightarrow> None
                | Some prev_pos \<Rightarrow>
                    if prev_pos = 0 \<or> prev_pos - HASH_CKOFFSET > pos
                       \<or> (input_position s - (prev_pos - HASH_CKOFFSET)) AND NOT (sprevmask s) \<noteq> 0
                    then Some None else Some (Some (prev_pos - HASH_CKOFFSET)))
             else None)"

text \<open>From the label \<open>again\<close> to the label \<open>done\<close>; the result is the best length and its offset.\<close>

function smatch_chain :: "xd3_estream \<Rightarrow> usize_t \<Rightarrow> usize_t \<Rightarrow> usize_t \<times> usize_t \<Rightarrow> (usize_t \<times> usize_t) option" where
  "smatch_chain s chain pos best =
     (case expand_match (ein s) (unat (input_position s)) (unat pos) of
        None \<Rightarrow> None
      | Some inp \<Rightarrow>
          let cmp_len = of_nat (inp - unat (input_position s));
              best' = (if cmp_len > fst best then (cmp_len, pos) else best)
          in if cmp_len > fst best \<and> (inp = length (ein s) \<or> cmp_len \<ge> long_enough (smatcher s)) then Some best'
             else if chain - 1 \<noteq> 0 then
               (case chain_prev pos s of
                  None \<Rightarrow> None
                | Some None \<Rightarrow> Some best'
                | Some (Some p) \<Rightarrow> smatch_chain s (chain - 1) p best')
             else Some best')"
  by pat_completeness auto
termination
proof (relation "measure (\<lambda>(s, chain, pos, best). unat (chain - 1))", simp)
  fix chain :: usize_t assume "chain - 1 \<noteq> 0"
  then have "unat (chain - 1 - 1) < unat (chain - 1)" by (metis measure_unat)
  then show "((s, chain - 1, p, b), s, chain, pos, best) \<in> measure (\<lambda>(s, chain, pos, best). unat (chain - 1))"
    for s :: xd3_estream and p pos :: usize_t and b best :: "usize_t \<times> usize_t" by simp
qed

declare smatch_chain.simps [simp del]

definition xd3_smatch :: "usize_t \<Rightarrow> usize_t \<Rightarrow> xd3_estream \<Rightarrow> (usize_t \<times> usize_t) option" where
  "xd3_smatch start match_offset s =
     (let chain = (if min_match s = MIN_MATCH then small_chain (smatcher s) else small_lchain (smatcher s))
      in case smatch_chain s chain (start - HASH_CKOFFSET) (0, match_offset) of
           None \<Rightarrow> None
         | Some (len, off) \<Rightarrow>
             if len = 4 \<and> input_position s - off \<ge> push_bit 14 1 \<or> len = 5 \<and> input_position s - off \<ge> push_bit 21 1
             then Some (0, off) else Some (len, off))"

subsection \<open>Source checksums\<close>

text \<open>The \<open>do ... while\<close> loop of \<open>xd3_srcwin_move_point\<close> over one block. \<open>blkpos\<close> and \<open>oldpos\<close> are
  \<open>ssize_t\<close>: words compared as signed numbers.\<close>

partial_function (option) cksum_block ::
  "bytes \<Rightarrow> xoff_t \<Rightarrow> usize_t \<Rightarrow> usize_t \<Rightarrow> xd3_estream \<Rightarrow> xd3_estream option" where
  "cksum_block blk blkbaseoffset oldpos blkpos s =
     (if sint blkpos < 0 \<or> unat blkpos + unat (large_look (smatcher s)) > length blk then None
      else
        case large_table s of
          None \<Rightarrow> None
        | Some tab \<Rightarrow>
            let hval = xd3_checksum_hash (large_hash s)
                         (xd3_large64_cksum (large_hash s) (drop (unat blkpos) blk) (unat (large_look (smatcher s))))
            in if unat hval < length tab then
                 let s' = s\<lparr>large_table := Some (tab[unat hval := blkbaseoffset + (blkpos + HASH_CKOFFSET)])\<rparr>;
                     blkpos' = blkpos - large_step (smatcher s)
                 in if sint blkpos' \<ge> sint oldpos then cksum_block blk blkbaseoffset oldpos blkpos' s' else Some s'
               else None)"

partial_function (option) move_point_loop :: "xoff_t \<Rightarrow> xd3_estream \<Rightarrow> (xd3_ret \<times> xd3_estream) option" where
  "move_point_loop target_cksum_pos s =
     (case esrc s of
        None \<Rightarrow> None
      | Some source \<Rightarrow>
          if srcwin_cksum_pos s < target_cksum_pos
             \<and> (\<not> eof_known source \<or> srcwin_cksum_pos s < xd3_source_eof source) then
            (case xd3_blksize_div (srcwin_cksum_pos s) (unat (shiftby source)) (maskby source) of (blkno, oldpos) \<Rightarrow>
              (case xd3_getblk (egetblk s) blkno source of
                 (Some r, source') \<Rightarrow>
                   Some (Some (if r = XD3_TOOFARBACK then XD3_INTERNAL else r), s\<lparr>esrc := Some source'\<rparr>)
               | (None, source') \<Rightarrow>
                   let s1 = s\<lparr>esrc := Some source'\<rparr>;
                       blkpos = xd3_bytes_on_srcblk source' blkno;
                       next_block = (blkno + 1) * blksize source'
                   in if sint blkpos < sint (large_look (smatcher s))
                      then move_point_loop target_cksum_pos (s1\<lparr>srcwin_cksum_pos := next_block\<rparr>)
                      else case curblk source' of
                        None \<Rightarrow> None
                      | Some blk \<Rightarrow>
                          Option.bind (cksum_block blk (blksize source' * blkno) oldpos
                                         (blkpos - large_look (smatcher s)) s1) (\<lambda>s2.
                            move_point_loop target_cksum_pos (s2\<lparr>srcwin_cksum_pos := next_block\<rparr>))))
          else Some (None, s))"

definition move_point_target :: "xd3_source \<Rightarrow> xd3_estream \<Rightarrow> xoff_t" where
  "move_point_target source s =
     (let absolute_input_pos = etotal_in s + input_position s
      in if absolute_input_pos < max_winsize source div 2 then max_winsize source
         else (absolute_input_pos + max_winsize source div 2 + blksize source * 2) AND NOT (maskby source))"

text \<open>The result is the return code, \<open>*next_move_point\<close> and the stream.\<close>

definition move_point_done :: "xoff_t \<Rightarrow> usize_t \<Rightarrow> xd3_estream \<Rightarrow> (xd3_ret \<times> usize_t \<times> xd3_estream) option" where
  "move_point_done target_cksum_pos next_move_point s =
     (case esrc s of
        None \<Rightarrow> None
      | Some source \<Rightarrow>
          if eof_known source \<and> srcwin_cksum_pos s \<ge> xd3_source_eof source
          then Some (None, USIZE_T_MAX, s\<lparr>srcwin_cksum_pos := xd3_source_eof source\<rparr>)
          else Some (None, input_position s + blksize source
                             - ((srcwin_cksum_pos s - target_cksum_pos) AND maskby source), s))"

definition xd3_srcwin_move_point :: "usize_t \<Rightarrow> xd3_estream \<Rightarrow> (xd3_ret \<times> usize_t \<times> xd3_estream) option" where
  "xd3_srcwin_move_point next_move_point s =
     (case esrc s of
        None \<Rightarrow> None
      | Some source \<Rightarrow>
          if eof_known source \<and> srcwin_cksum_pos s = xd3_source_eof source then Some (None, USIZE_T_MAX, s)
          else
            let s1 = s\<lparr>srcwin_cksum_pos := max (maxsrcaddr s) (srcwin_cksum_pos s)\<rparr>;
                target = max (srcwin_cksum_pos s1) (move_point_target source s)
            in Option.bind (move_point_loop target s1) (\<lambda>(r, s2).
                 case r of
                   Some e \<Rightarrow> Some (Some e, next_move_point, s2)
                 | None \<Rightarrow> move_point_done target next_move_point s2))"

subsection \<open>The search loop\<close>

text \<open>The local variables of the template, and where the control is: at the label \<open>restartloop\<close>, at the
  head of the loop, or at a \<open>return\<close>.\<close>

record match_vars =
  scksum :: u32
  lcksum :: usize_t
  run_l :: usize_t
  run_c :: u8
  next_move_point :: usize_t
  match_offset :: usize_t

datatype match_pc = RESTARTLOOP | LOOP | RETURN xd3_ret

text \<open>The bytes from \<open>inp\<close> on, when there are at least \<open>n\<close>.\<close>

definition inp_bytes :: "nat \<Rightarrow> xd3_estream \<Rightarrow> bytes option" where
  "inp_bytes n s =
     (if unat (input_position s) + n \<le> length (ein s) then Some (drop (unat (input_position s)) (ein s)) else None)"

definition DO_SMALL :: "xd3_estream \<Rightarrow> bool" where
  "DO_SMALL s \<longleftrightarrow> eflags s AND XD3_NOCOMPRESS = 0"

definition DO_LARGE :: "xd3_estream \<Rightarrow> bool" where
  "DO_LARGE s \<longleftrightarrow> esrc s \<noteq> None"

definition TRYLAZYLEN :: "usize_t \<Rightarrow> xd3_estream \<Rightarrow> bool" where
  "TRYLAZYLEN len s \<longleftrightarrow> max_lazy (smatcher s) > 0 \<and> len < max_lazy (smatcher s)
     \<and> input_position s + len \<le> avail_in s - 2"

text \<open>From the label \<open>updateone\<close> to the next round.\<close>

definition update_small :: "match_vars \<Rightarrow> xd3_estream \<Rightarrow> match_vars option" where
  "update_small l s =
     (if DO_SMALL s then
        Option.bind (inp_bytes 5 s) (\<lambda>inp. Some (l\<lparr>scksum := xd3_small_cksum_update inp\<rparr>))
      else Some l)"

definition update_large :: "match_vars \<Rightarrow> xd3_estream \<Rightarrow> match_vars option" where
  "update_large l s =
     (if DO_LARGE s \<and> input_position s + large_look (smatcher s) < avail_in s then
        Option.bind (inp_bytes (unat (large_look (smatcher s)) + 1) s) (\<lambda>inp.
          Some (l\<lparr>lcksum := xd3_large64_cksum_update (large_hash s) (lcksum l) inp (unat (large_look (smatcher s)))\<rparr>))
      else Some l)"

definition updateone :: "match_vars \<Rightarrow> xd3_estream \<Rightarrow> (match_pc \<times> match_vars \<times> xd3_estream) option" where
  "updateone l s =
     (if input_position s + small_look (smatcher s) = avail_in s then Some (RETURN None, l, s)
      else
        Option.bind (inp_bytes (unat (small_look (smatcher s)) + 1) s) (\<lambda>inp.
          case NEXTRUN (inp ! unat (small_look (smatcher s))) (run_l l, run_c l) of (rl, rc) \<Rightarrow>
            Option.bind (update_small (l\<lparr>run_l := rl, run_c := rc\<rparr>) s) (\<lambda>l1.
              Option.bind (update_large l1 s) (\<lambda>l2.
                Some (LOOP, l2, s\<lparr>input_position := input_position s + 1\<rparr>)))))"

definition HANDLELAZY :: "usize_t \<Rightarrow> match_vars \<Rightarrow> xd3_estream \<Rightarrow> (match_pc \<times> match_vars \<times> xd3_estream) option" where
  "HANDLELAZY mlen l s =
     (if TRYLAZYLEN mlen s then updateone l (s\<lparr>min_match := mlen + LEAST_MATCH_INCR\<rparr>)
      else Some (RESTARTLOOP, l, s\<lparr>input_position := input_position s + mlen\<rparr>))"

text \<open>The three kinds of match. Each ends with an error, with a match of some length, or without a
  match.\<close>

datatype match_found = FAILED xd3_rvalues | FOUND usize_t | NOTFOUND

function expand_run :: "bytes \<Rightarrow> u8 \<Rightarrow> nat \<Rightarrow> nat" where
  "expand_run inp c n = (if n < length inp \<and> inp ! n = c then expand_run inp c (n + 1) else n)"
  by pat_completeness auto
termination by (relation "measure (\<lambda>(inp, c, n). length inp - n)") auto

declare expand_run.simps [simp del]

definition try_run :: "match_vars \<Rightarrow> xd3_estream \<Rightarrow> (match_found \<times> match_vars \<times> xd3_estream) option" where
  "try_run l s =
     (if run_l l = small_look (smatcher s) then
        Option.bind (inp_bytes 0 s) (\<lambda>inp.
          let n = of_nat (expand_run inp (run_c l) (unat (run_l l))); l' = l\<lparr>run_l := n\<rparr>
          in if n \<ge> min_match s \<and> n \<ge> MIN_RUN then
               Option.bind (xd3_emit_run (input_position s) n (run_c l) s) (\<lambda>(r, s').
                 Some (case r of Some e \<Rightarrow> FAILED e | None \<Rightarrow> FOUND n, l', s'))
             else Some (NOTFOUND, l', s))
      else Some (NOTFOUND, l, s))"

definition move_point_due :: "match_vars \<Rightarrow> xd3_estream \<Rightarrow> (xd3_ret \<times> usize_t \<times> xd3_estream) option" where
  "move_point_due l s =
     (if input_position s \<ge> next_move_point l then xd3_srcwin_move_point (next_move_point l) s
      else Some (None, next_move_point l, s))"

definition large_lookup :: "usize_t \<Rightarrow> xd3_estream \<Rightarrow> (match_found \<times> xd3_estream) option" where
  "large_lookup cksum s =
     (case (large_table s, esrc s) of
        (Some tab, Some source) \<Rightarrow>
          let linx = xd3_checksum_hash (large_hash s) cksum
          in if unat linx < length tab then
               if tab ! unat linx \<noteq> 0 then
                 (case xd3_source_match_setup source (tab ! unat linx - HASH_CKOFFSET) s of
                    (False, s1) \<Rightarrow> Some (NOTFOUND, s1)
                  | (True, s1) \<Rightarrow>
                      Option.bind (xd3_source_extend_match s1) (\<lambda>(r, s2).
                        Some (case r of Some e \<Rightarrow> FAILED e
                              | None \<Rightarrow> if match_fwd s2 > 0 then FOUND (match_fwd s2) else NOTFOUND, s2)))
               else Some (NOTFOUND, s)
             else None
      | _ \<Rightarrow> None)"

definition try_large :: "match_vars \<Rightarrow> xd3_estream \<Rightarrow> (match_found \<times> match_vars \<times> xd3_estream) option" where
  "try_large l s =
     (if DO_LARGE s \<and> input_position s + large_look (smatcher s) \<le> avail_in s then
        Option.bind (move_point_due l s) (\<lambda>(r, nmp, s1).
          let l' = l\<lparr>next_move_point := nmp\<rparr>
          in case r of
               Some e \<Rightarrow> Some (FAILED e, l', s1)
             | None \<Rightarrow> Option.bind (large_lookup (lcksum l) s1) (\<lambda>(f, s2). Some (f, l', s2)))
      else Some (NOTFOUND, l, s))"

definition small_lookup :: "usize_t \<Rightarrow> usize_t \<Rightarrow> xd3_estream \<Rightarrow> (usize_t \<times> usize_t) option" where
  "small_lookup sinx off s =
     (case small_table s of
        None \<Rightarrow> None
      | Some tab \<Rightarrow>
          if unat sinx < length tab then
            if tab ! unat sinx \<noteq> 0 then xd3_smatch (tab ! unat sinx) off s else Some (0, off)
          else None)"

definition try_small :: "match_vars \<Rightarrow> xd3_estream \<Rightarrow> (match_found \<times> match_vars \<times> xd3_estream) option" where
  "try_small l s =
     (if DO_SMALL s then
        let sinx = xd3_checksum_hash (small_hash s) (ucast (scksum l))
        in Option.bind (small_lookup sinx (match_offset l) s) (\<lambda>(len, off).
             Option.bind (xd3_scksum_insert sinx (input_position s) s) (\<lambda>s1.
               let l' = l\<lparr>match_offset := off\<rparr>
               in if len \<ge> min_match s1 then
                    Option.bind (xd3_found_match (input_position s1) len off False s1) (\<lambda>(r, s2).
                      Some (case r of Some e \<Rightarrow> FAILED e | None \<Rightarrow> FOUND len, l', s2))
                  else Some (NOTFOUND, l', s1)))
      else Some (NOTFOUND, l, s))"

text \<open>One round of the loop.\<close>

definition after_try ::
  "(match_found \<times> match_vars \<times> xd3_estream) option
   \<Rightarrow> (match_vars \<Rightarrow> xd3_estream \<Rightarrow> (match_pc \<times> match_vars \<times> xd3_estream) option)
   \<Rightarrow> (match_pc \<times> match_vars \<times> xd3_estream) option" where
  "after_try t k = Option.bind t (\<lambda>(f, l, s).
     case f of FAILED e \<Rightarrow> Some (RETURN (Some e), l, s) | FOUND n \<Rightarrow> HANDLELAZY n l s | NOTFOUND \<Rightarrow> k l s)"

definition shrink_min_match :: "xd3_estream \<Rightarrow> xd3_estream" where
  "shrink_min_match s = (if min_match s > MIN_MATCH then s\<lparr>min_match := min_match s - 1\<rparr> else s)"

definition loop_round :: "match_vars \<Rightarrow> xd3_estream \<Rightarrow> (match_pc \<times> match_vars \<times> xd3_estream) option" where
  "loop_round l s =
     after_try (try_run l s) (\<lambda>l s. after_try (try_large l s) (\<lambda>l s. after_try (try_small l s)
       (\<lambda>l s. updateone l (shrink_min_match s))))"

text \<open>From the label \<open>restartloop\<close> to the loop.\<close>

definition restart_min_match :: "xd3_estream \<Rightarrow> usize_t" where
  "restart_min_match s =
     (if xd3_iopt_last_matched s > input_position s
      then max MIN_MATCH (1 + xd3_iopt_last_matched s - input_position s) else MIN_MATCH)"

definition restart_small :: "match_vars \<Rightarrow> xd3_estream \<Rightarrow> match_vars option" where
  "restart_small l s =
     (if DO_SMALL s then Option.bind (inp_bytes 4 s) (\<lambda>inp. Some (l\<lparr>scksum := xd3_scksum inp\<rparr>)) else Some l)"

definition restart_run :: "match_vars \<Rightarrow> xd3_estream \<Rightarrow> match_vars option" where
  "restart_run l s =
     Option.bind (inp_bytes (unat (small_look (smatcher s))) s) (\<lambda>inp.
       case xd3_comprun (take (unat (small_look (smatcher s))) inp) of (rl, rc) \<Rightarrow> Some (l\<lparr>run_l := rl, run_c := rc\<rparr>))"

definition restart_large :: "match_vars \<Rightarrow> xd3_estream \<Rightarrow> (match_pc \<times> match_vars \<times> xd3_estream) option" where
  "restart_large l s =
     (if DO_LARGE s \<and> input_position s + large_look (smatcher s) \<le> avail_in s then
        Option.bind (xd3_srcwin_move_point (next_move_point l) s) (\<lambda>(r, nmp, s1).
          let l' = l\<lparr>next_move_point := nmp\<rparr>
          in case r of
               Some e \<Rightarrow> Some (RETURN (Some e), l', s1)
             | None \<Rightarrow>
                 Option.bind (inp_bytes (unat (large_look (smatcher s1))) s1) (\<lambda>inp.
                   Some (LOOP, l'\<lparr>lcksum := xd3_large64_cksum (large_hash s1) inp (unat (large_look (smatcher s1)))\<rparr>, s1)))
      else Some (LOOP, l, s))"

definition restartloop :: "match_vars \<Rightarrow> xd3_estream \<Rightarrow> (match_pc \<times> match_vars \<times> xd3_estream) option" where
  "restartloop l s =
     (if input_position s + small_look (smatcher s) > avail_in s then Some (RETURN None, l, s)
      else
        let s1 = s\<lparr>min_match := restart_min_match s\<rparr>
        in Option.bind (restart_small l s1) (\<lambda>l1.
             Option.bind (restart_run l1 s1) (\<lambda>l2. restart_large l2 s1)))"

partial_function (option) string_match_loop ::
  "match_pc \<Rightarrow> match_vars \<Rightarrow> xd3_estream \<Rightarrow> (xd3_ret \<times> xd3_estream) option" where
  "string_match_loop pc l s =
     (case pc of
        RETURN r \<Rightarrow> Some (r, s)
      | RESTARTLOOP \<Rightarrow> Option.bind (restartloop l s) (\<lambda>(pc', l', s'). string_match_loop pc' l' s')
      | LOOP \<Rightarrow> Option.bind (loop_round l s) (\<lambda>(pc', l', s'). string_match_loop pc' l' s'))"

definition xd3_string_match :: "xd3_estream \<Rightarrow> (xd3_ret \<times> xd3_estream) option" where
  "xd3_string_match s =
     (if input_position s + small_look (smatcher s) > avail_in s then Some (None, s)
      else case xd3_string_match_init s of
             (Some r, s1) \<Rightarrow> Some (Some r, s1)
           | (None, s1) \<Rightarrow>
               string_match_loop RESTARTLOOP
                 \<lparr>scksum = 0, lcksum = 0, run_l = 0, run_c = 0, next_move_point = 0, match_offset = 0\<rparr> s1)"

text \<open>The loops are executable.\<close>

declare extend_back.simps [code] extend_fwd.simps [code] cksum_block.simps [code] move_point_loop.simps [code] string_match_loop.simps [code]

end
