(* ===== verification/Xd3_MatchSafe.thy ===== *)
theory Xd3_MatchSafe
  imports Xd3_Match Xd3_EncodeWindow
begin

section \<open>The string matcher finds true matches and stays in bounds\<close>

text \<open>
  For a source in memory (one block, no callback) and an unlimited instruction buffer, the
  configuration of \<open>xd3_encode_memory\<close>: the search ends, never leaves the input, the source or the hash
  tables, and fills the instruction buffer with true matches in the order that the flush needs.
\<close>

subsection \<open>The optimised comparison\<close>

definition agree :: "bytes \<Rightarrow> bytes \<Rightarrow> nat \<Rightarrow> bool" where
  "agree s1 s2 k \<longleftrightarrow> (\<forall>j < k. s1 ! j = s2 ! j)"

lemma bytes_loop_spec:
  assumes "agree s1 s2 i" "i \<le> n"
  shows "agree s1 s2 (bytes_loop s1 s2 n i) \<and> bytes_loop s1 s2 n i \<le> n
     \<and> (bytes_loop s1 s2 n i < n \<longrightarrow> s1 ! bytes_loop s1 s2 n i \<noteq> s2 ! bytes_loop s1 s2 n i)"
  using assms
proof (induction s1 s2 n i rule: bytes_loop.induct)
  case (1 s1 s2 n i)
  show ?case
  proof (cases "i < n \<and> s1 ! i = s2 ! i")
    case True
    then have "agree s1 s2 (i + 1)" using 1(2) by (auto simp: agree_def less_Suc_eq)
    then show ?thesis using 1(1) [OF True] True by (subst (1 2 3 4 5) bytes_loop.simps) simp
  next
    case False
    then show ?thesis using 1(2,3) by (subst (1 2 3 4 5) bytes_loop.simps) auto
  qed
qed

lemma int_at_agree:
  assumes "int_at s1 i = int_at s2 i" "4 * i + 4 \<le> length s1" "4 * i + 4 \<le> length s2" "agree s1 s2 (4 * i)"
  shows "agree s1 s2 (4 * (i + 1))"
  unfolding agree_def
proof (intro allI impI)
  fix j assume j: "j < 4 * (i + 1)"
  show "s1 ! j = s2 ! j"
  proof (cases "j < 4 * i")
    case False
    then have "int_at s1 i ! (j - 4 * i) = int_at s2 i ! (j - 4 * i)" using assms(1) by simp
    then show ?thesis using False j assms(2,3) by (simp add: int_at_def)
  qed (use assms(4) in \<open>simp add: agree_def\<close>)
qed

lemma words_eq8_spec:
  assumes "words_eq8 s1 s2 k i = (b, j)" "agree s1 s2 (4 * i)"
    "4 * (i + k) \<le> length s1" "4 * (i + k) \<le> length s2"
  shows "j \<le> i + k \<and> i \<le> j \<and> (b \<longrightarrow> j = i + k \<and> agree s1 s2 (4 * j)) \<and> (\<not> b \<longrightarrow> i < j \<and> agree s1 s2 (4 * (j - 1)))"
  using assms
proof (induction k arbitrary: i)
  case (Suc k)
  show ?case
  proof (cases "int_at s1 i = int_at s2 i")
    case True
    then have a: "agree s1 s2 (4 * (i + 1))" using Suc.prems by (intro int_at_agree) auto
    show ?thesis using Suc.IH [OF _ a] Suc.prems True by auto
  next
    case False
    then show ?thesis using Suc.prems by auto
  qed
qed simp

lemma words_loop_spec:
  assumes "agree s1 s2 (4 * i)" "4 * (m + 8) \<le> length s1" "4 * (m + 8) \<le> length s2" "0 < i \<or> i \<le> m" "i \<le> m + 8"
  shows "0 < words_loop s1 s2 m i \<and> words_loop s1 s2 m i \<le> m + 8 \<and> agree s1 s2 (4 * (words_loop s1 s2 m i - 1))"
  using assms
proof (induction s1 s2 m i rule: words_loop.induct)
  case (1 s1 s2 m i)
  show ?case
  proof (cases "i \<le> m")
    case True
    obtain b j where w: "words_eq8 s1 s2 8 i = (b, j)" by force
    have sp: "j \<le> i + 8 \<and> i \<le> j \<and> (b \<longrightarrow> j = i + 8 \<and> agree s1 s2 (4 * j)) \<and> (\<not> b \<longrightarrow> i < j \<and> agree s1 s2 (4 * (j - 1)))"
      by (rule words_eq8_spec [OF w 1(2)]) (use 1(3,4) True in auto)
    show ?thesis
    proof (cases b)
      case b: True
      have "0 < words_loop s1 s2 m j \<and> words_loop s1 s2 m j \<le> m + 8 \<and> agree s1 s2 (4 * (words_loop s1 s2 m j - 1))"
        by (rule 1(1) [OF True w [symmetric]]) (use sp b True 1(3,4) in auto)
      then show ?thesis using True w b by (subst (1 2 3) words_loop.simps) simp
    next
      case False
      then show ?thesis using True w sp by (subst (1 2 3) words_loop.simps) simp
    qed
  next
    case False
    then have "agree s1 s2 (4 * (i - 1))" using 1(2) by (auto simp: agree_def)
    then show ?thesis using False 1(5,6) by (subst (1 2 3) words_loop.simps) simp
  qed
qed

lemma forward_match_spec:
  assumes "n \<le> length s1" "n \<le> length s2"
  shows "agree s1 s2 (xd3_forward_match s1 s2 n)" "xd3_forward_match s1 s2 n \<le> n"
    "xd3_forward_match s1 s2 n < n \<Longrightarrow> s1 ! xd3_forward_match s1 s2 n \<noteq> s2 ! xd3_forward_match s1 s2 n"
proof -
  define i where "i = (if n div 4 div 8 \<noteq> 0 then (words_loop s1 s2 (n div 4 - 8) 0 - 1) * 4 else 0)"
  have "agree s1 s2 i \<and> i \<le> n"
  proof (cases "n div 4 div 8 \<noteq> 0")
    case True
    then have m: "8 \<le> n div 4" by (simp add: div_eq_0_iff)
    have l: "4 * (n div 4) \<le> n" by simp
    define w where "w = words_loop s1 s2 (n div 4 - 8) 0"
    have "0 < w \<and> w \<le> n div 4 - 8 + 8 \<and> agree s1 s2 (4 * (w - 1))"
      unfolding w_def by (rule words_loop_spec) (use m l assms in \<open>auto simp: agree_def\<close>)
    then have "agree s1 s2 (4 * (w - 1))" "w \<le> n div 4" using m by simp_all
    moreover from this(2) have "4 * (w - 1) \<le> 4 * (n div 4)" by (intro mult_le_mono2) (metis diff_le_self le_trans)
    moreover have "i = 4 * (w - 1)" using True by (simp add: i_def w_def mult.commute)
    ultimately show ?thesis using l le_trans by blast
  qed (simp add: i_def agree_def)
  from bytes_loop_spec [of s1 s2 i n] this
  show "agree s1 s2 (xd3_forward_match s1 s2 n)" "xd3_forward_match s1 s2 n \<le> n"
    "xd3_forward_match s1 s2 n < n \<Longrightarrow> s1 ! xd3_forward_match s1 s2 n \<noteq> s2 ! xd3_forward_match s1 s2 n"
    by (simp_all add: xd3_forward_match_def Let_def i_def)
qed

lemma expand_match_spec:
  assumes "\<forall>k < j. xs ! (p + k) = xs ! (q + k)" "q < p" "p + j \<le> length xs"
  shows "\<exists>e. expand_match xs (p + j) (q + j) = Some (p + e) \<and> j \<le> e \<and> p + e \<le> length xs
     \<and> (\<forall>k < e. xs ! (p + k) = xs ! (q + k))"
  using assms
proof (induction "length xs - (p + j)" arbitrary: j)
  case 0
  then show ?case by (subst expand_match.simps) (intro exI [of _ j], auto)
next
  case (Suc n)
  have b: "p + j < length xs" "q + j < length xs" using Suc.hyps(2) Suc.prems(2) by auto
  show ?case
  proof (cases "xs ! (p + j) = xs ! (q + j)")
    case True
    have "\<exists>e. expand_match xs (p + Suc j) (q + Suc j) = Some (p + e) \<and> Suc j \<le> e \<and> p + e \<le> length xs
       \<and> (\<forall>k < e. xs ! (p + k) = xs ! (q + k))"
      by (rule Suc.hyps(1)) (use Suc.hyps(2) Suc.prems True b in \<open>auto simp: less_Suc_eq\<close>)
    then show ?thesis using True b by (subst expand_match.simps) auto
  next
    case False
    then show ?thesis using b Suc.prems by (subst expand_match.simps) (intro exI [of _ j], auto)
  qed
qed

subsection \<open>What the search leaves alone\<close>

text \<open>\<open>core s\<close> is \<open>s\<close> with the fields that the search writes cleared: two streams with the same core
  differ only in those.\<close>

definition core :: "xd3_estream \<Rightarrow> xd3_estream" where
  "core s = s\<lparr>emem := \<lparr>alloc_ok = \<lambda>_. False, alloc_cnt = 0, enc_free = 0\<rparr>, large_table := None, small_table := None,
     small_prev := None, small_reset := False, input_position := 0, min_match := 0, match_state := MATCH_TARGET,
     match_srcpos := 0, match_last_srcpos := 0, match_minaddr := 0, match_maxaddr := 0, match_back := 0,
     match_maxback := 0, match_fwd := 0, match_maxfwd := 0, maxsrcaddr := 0, srcwin_cksum_pos := 0,
     iopt_used := [], iopt_free := 0, iopt_size := 0, i_slots_used := 0\<rparr>"

lemma core_upd [simp]:
  "core (s\<lparr>emem := x1\<rparr>) = core s" "core (s\<lparr>large_table := x2\<rparr>) = core s" "core (s\<lparr>small_table := x3\<rparr>) = core s"
  "core (s\<lparr>small_prev := x4\<rparr>) = core s" "core (s\<lparr>small_reset := x5\<rparr>) = core s" "core (s\<lparr>input_position := x6\<rparr>) = core s"
  "core (s\<lparr>min_match := x7\<rparr>) = core s" "core (s\<lparr>match_state := x8\<rparr>) = core s" "core (s\<lparr>match_srcpos := x9\<rparr>) = core s"
  "core (s\<lparr>match_last_srcpos := y1\<rparr>) = core s" "core (s\<lparr>match_minaddr := y2\<rparr>) = core s" "core (s\<lparr>match_maxaddr := y3\<rparr>) = core s"
  "core (s\<lparr>match_back := y4\<rparr>) = core s" "core (s\<lparr>match_maxback := y5\<rparr>) = core s" "core (s\<lparr>match_fwd := y6\<rparr>) = core s"
  "core (s\<lparr>match_maxfwd := y7\<rparr>) = core s" "core (s\<lparr>maxsrcaddr := y8\<rparr>) = core s" "core (s\<lparr>srcwin_cksum_pos := y9\<rparr>) = core s"
  "core (s\<lparr>iopt_used := z1\<rparr>) = core s" "core (s\<lparr>iopt_free := z2\<rparr>) = core s" "core (s\<lparr>iopt_size := z3\<rparr>) = core s"
  "core (s\<lparr>i_slots_used := z4\<rparr>) = core s"
  by (simp_all add: core_def)

lemma core_fields:
  assumes "core t = core s"
  shows "ein t = ein s" "esrc t = esrc s" "egetblk t = egetblk s" "eflags t = eflags s" "smatcher t = smatcher s"
    "large_hash t = large_hash s" "small_hash t = small_hash s" "sprevmask t = sprevmask s" "sprevsz t = sprevsz s"
    "iopt_unlimited t = iopt_unlimited s" "unencoded_offset t = unencoded_offset s" "srcwin_decided t = srcwin_decided s"
    "taroff t = taroff s" "etotal_in t = etotal_in s" "avail_in t = avail_in s" "enc_state t = enc_state s"
    "hdr_chain t = hdr_chain s" "inst_chain t = inst_chain s" "data_chain t = data_chain s" "addr_chain t = addr_chain s"
    "eacache t = eacache s" "ecode_table t = ecode_table s" "iout t = iout s" "ewindow t = ewindow s"
    "buf_leftover t = buf_leftover s" "enc_appheader t = enc_appheader s" "decoding t = decoding s"
    "winsize t = winsize s" "buf t = buf s" "ein_set t = ein_set s"
proof -
  have f: "f (core t) = f (core s)" for f :: "xd3_estream \<Rightarrow> 'a" using assms by simp
  show "ein t = ein s" using f [of ein] by (simp add: core_def)
  show "esrc t = esrc s" using arg_cong [OF assms, of esrc] by (simp add: core_def)
  show "egetblk t = egetblk s" using arg_cong [OF assms, of egetblk] by (simp add: core_def)
  show "eflags t = eflags s" using arg_cong [OF assms, of eflags] by (simp add: core_def)
  show "smatcher t = smatcher s" using arg_cong [OF assms, of smatcher] by (simp add: core_def)
  show "large_hash t = large_hash s" using arg_cong [OF assms, of large_hash] by (simp add: core_def)
  show "small_hash t = small_hash s" using arg_cong [OF assms, of small_hash] by (simp add: core_def)
  show "sprevmask t = sprevmask s" using arg_cong [OF assms, of sprevmask] by (simp add: core_def)
  show "sprevsz t = sprevsz s" using arg_cong [OF assms, of sprevsz] by (simp add: core_def)
  show "iopt_unlimited t = iopt_unlimited s" using arg_cong [OF assms, of iopt_unlimited] by (simp add: core_def)
  show "unencoded_offset t = unencoded_offset s" using arg_cong [OF assms, of unencoded_offset] by (simp add: core_def)
  show "srcwin_decided t = srcwin_decided s" using arg_cong [OF assms, of srcwin_decided] by (simp add: core_def)
  show "taroff t = taroff s" using arg_cong [OF assms, of taroff] by (simp add: core_def)
  show "etotal_in t = etotal_in s" using arg_cong [OF assms, of etotal_in] by (simp add: core_def)
  show "avail_in t = avail_in s" using arg_cong [OF assms, of ein] by (simp add: core_def avail_in_def)
  show "enc_state t = enc_state s" using arg_cong [OF assms, of enc_state] by (simp add: core_def)
  show "hdr_chain t = hdr_chain s" using arg_cong [OF assms, of hdr_chain] by (simp add: core_def)
  show "inst_chain t = inst_chain s" using arg_cong [OF assms, of inst_chain] by (simp add: core_def)
  show "data_chain t = data_chain s" using arg_cong [OF assms, of data_chain] by (simp add: core_def)
  show "addr_chain t = addr_chain s" using arg_cong [OF assms, of addr_chain] by (simp add: core_def)
  show "eacache t = eacache s" using arg_cong [OF assms, of eacache] by (simp add: core_def)
  show "ecode_table t = ecode_table s" using arg_cong [OF assms, of ecode_table] by (simp add: core_def)
  show "iout t = iout s" using arg_cong [OF assms, of iout] by (simp add: core_def)
  show "ewindow t = ewindow s" using arg_cong [OF assms, of ewindow] by (simp add: core_def)
  show "buf_leftover t = buf_leftover s" using arg_cong [OF assms, of buf_leftover] by (simp add: core_def)
  show "enc_appheader t = enc_appheader s" using arg_cong [OF assms, of enc_appheader] by (simp add: core_def)
  show "decoding t = decoding s" using arg_cong [OF assms, of decoding] by (simp add: core_def)
  show "winsize t = winsize s" using arg_cong [OF assms, of winsize] by (simp add: core_def)
  show "buf t = buf s" using arg_cong [OF assms, of buf] by (simp add: core_def)
  show "ein_set t = ein_set s" using arg_cong [OF assms, of ein_set] by (simp add: core_def)
qed

subsection \<open>Target matches\<close>

definition inited :: "xd3_estream \<Rightarrow> usize_t \<Rightarrow> bool" where
  "inited s p \<longleftrightarrow> (\<forall>prev. small_prev s = Some prev \<longrightarrow> prev ! unat (p AND sprevmask s) \<noteq> None)"

text \<open>The small hash table while the search is at position \<open>n\<close>: it holds earlier positions, and every
  position that can be reached through \<open>small_prev\<close> has an initialised slot.\<close>

definition small_ok :: "nat \<Rightarrow> xd3_estream \<Rightarrow> bool" where
  "small_ok n s \<longleftrightarrow>
     (\<exists>tab. small_table s = Some tab \<and> length tab = unat (xd3_hash_cfg.hsize (small_hash s))
        \<and> (\<forall>e \<in> set tab. unat e \<le> n \<and> (e \<noteq> 0 \<longrightarrow> inited s (e - 1))))
     \<and> (\<forall>prev. small_prev s = Some prev \<longrightarrow> unat (sprevmask s) < length prev
        \<and> (\<forall>v. Some v \<in> set prev \<longrightarrow> v \<noteq> 0 \<longrightarrow> inited s (v - 1)))
     \<and> (small_prev s = None \<longrightarrow> small_chain (smatcher s) = 1 \<and> small_lchain (smatcher s) = 1)"

definition tmatch :: "xd3_estream \<Rightarrow> usize_t \<times> usize_t \<Rightarrow> bool" where
  "tmatch s m \<longleftrightarrow> (case m of (len, off) \<Rightarrow> len = 0 \<or> off < input_position s
     \<and> unat (input_position s) + unat len \<le> length (ein s)
     \<and> (\<forall>k < unat len. ein s ! (unat off + k) = ein s ! (unat (input_position s) + k)))"

lemma slot_bound: "unat (m :: u64) < n \<Longrightarrow> unat (p AND m) < n"
  by (meson word_and_le1 word_le_nat_alt le_less_trans)

lemma unat_minus_1: "(e :: u64) \<noteq> 0 \<Longrightarrow> unat (e - 1) = unat e - 1"
  by (simp add: unat_sub_le unat_gt_0 Suc_leI)

lemma HASH_CKOFFSET_1 [simp]: "HASH_CKOFFSET = 1"
  by (simp add: HASH_CKOFFSET_def)

lemma chain_prev_ok:
  assumes s: "small_ok n s" and p: "inited s p" "small_prev s \<noteq> None"
  shows "\<exists>q. chain_prev p s = Some q \<and> (\<forall>p'. q = Some p' \<longrightarrow> p' \<le> p \<and> inited s p')"
proof -
  obtain prev where prev: "small_prev s = Some prev" using p(2) by blast
  have k: "unat (p AND sprevmask s) < length prev" using s prev slot_bound by (simp add: small_ok_def)
  obtain v where v: "prev ! unat (p AND sprevmask s) = Some v" using p(1) prev by (auto simp: inited_def)
  then have "Some v \<in> set prev" using k by (metis nth_mem)
  then have "v \<noteq> 0 \<longrightarrow> inited s (v - 1)" using s prev by (simp add: small_ok_def)
  then show ?thesis using prev k v by (auto simp: chain_prev_def Let_def not_less)
qed

lemma smatch_chain_ok:
  assumes "small_ok n s" "inited s p" "p < input_position s" "tmatch s best" "small_prev s = None \<longrightarrow> chain = 1"
    "unat (input_position s) \<le> length (ein s)" "length (ein s) < 2 ^ 63"
  shows "\<exists>b. smatch_chain s chain p best = Some b \<and> tmatch s b"
  using assms
proof (induction s chain p best rule: smatch_chain.induct)
  case (1 s chain p best)
  let ?pos = "unat (input_position s)"
  have lt: "unat p < ?pos" using 1(4) by (simp add: word_less_nat_alt)
  obtain e where e: "expand_match (ein s) ?pos (unat p) = Some (?pos + e)" "?pos + e \<le> length (ein s)"
    "\<forall>k < e. ein s ! (?pos + k) = ein s ! (unat p + k)"
    using expand_match_spec [of 0 "ein s" ?pos "unat p"] lt 1(7) by auto
  define len :: usize_t where "len = of_nat e"
  have ul: "unat len = e" unfolding len_def using e(2) 1(8) by (intro unat_of_nat_less) simp
  define b' where "b' = (if len > fst best then (len, p) else best)"
  have tb: "tmatch s b'" using 1(4,5) e ul by (auto simp: b'_def tmatch_def)
  have eq: "smatch_chain s chain p best =
      (if len > fst best \<and> (?pos + e = length (ein s) \<or> len \<ge> long_enough (smatcher s)) then Some b'
       else if chain - 1 \<noteq> 0 then (case chain_prev p s of None \<Rightarrow> None | Some None \<Rightarrow> Some b'
          | Some (Some q) \<Rightarrow> smatch_chain s (chain - 1) q b') else Some b')"
    by (subst smatch_chain.simps) (cases "len > fst best"; simp add: e(1) Let_def len_def b'_def split: option.split)
  show ?case
  proof (cases "\<not> (len > fst best \<and> (?pos + e = length (ein s) \<or> len \<ge> long_enough (smatcher s))) \<and> chain - 1 \<noteq> 0")
    case False
    then have "smatch_chain s chain p best = Some b'" using eq by auto
    then show ?thesis using tb by blast
  next
    case True
    then have np: "small_prev s \<noteq> None" using 1(6) by auto
    obtain q where q: "chain_prev p s = Some q" "\<forall>p'. q = Some p' \<longrightarrow> p' \<le> p \<and> inited s p'"
      using chain_prev_ok [OF 1(2,3) np] by blast
    show ?thesis
    proof (cases q)
      case None
      then have "smatch_chain s chain p best = Some b'" using True eq q(1) by auto
      then show ?thesis using tb by blast
    next
      case (Some p')
      have "\<exists>b. smatch_chain s (chain - 1) p' b' = Some b \<and> tmatch s b"
      proof (rule 1(1) [OF e(1), where x = len and xa = b'])
        show "p' < input_position s" using q(2) Some 1(4) by auto
      qed (use True q Some tb np 1(2,7,8) in \<open>auto simp: len_def b'_def\<close>)
      moreover have "smatch_chain s chain p best = smatch_chain s (chain - 1) p' b'" using True eq q(1) Some by auto
      ultimately show ?thesis by simp
    qed
  qed
qed

lemma smatch_ok:
  assumes "small_ok n s" "start \<noteq> 0" "inited s (start - 1)" "start \<le> input_position s"
    "unat (input_position s) \<le> length (ein s)" "length (ein s) < 2 ^ 63"
  shows "\<exists>m. xd3_smatch start off s = Some m \<and> tmatch s m"
proof -
  have lt: "start - 1 < input_position s"
  proof -
    have "unat start \<noteq> 0" using assms(2) by (simp add: unat_eq_zero)
    then show ?thesis using assms(4) unat_minus_1 [OF assms(2)] unfolding word_less_nat_alt word_le_nat_alt by linarith
  qed
  define chain where "chain = (if min_match s = MIN_MATCH then small_chain (smatcher s) else small_lchain (smatcher s))"
  have ch: "small_prev s = None \<longrightarrow> chain = 1" using assms(1) by (auto simp: small_ok_def chain_def)
  have tm: "tmatch s (0, off)" by (simp add: tmatch_def)
  from smatch_chain_ok [OF assms(1,3) lt tm ch assms(5,6)]
  obtain b where b: "smatch_chain s chain (start - 1) (0, off) = Some b" "tmatch s b" by blast
  obtain len o' where l: "b = (len, o')" by force
  have "tmatch s (0, o')" by (simp add: tmatch_def)
  then show ?thesis using b l by (auto simp: xd3_smatch_def Let_def chain_def)
qed

lemma small_lookup_ok:
  assumes "small_ok n s" "n \<le> unat (input_position s)" "unat sinx < unat (xd3_hash_cfg.hsize (small_hash s))"
    "unat (input_position s) \<le> length (ein s)" "length (ein s) < 2 ^ 63"
  shows "\<exists>m. small_lookup sinx off s = Some m \<and> tmatch s m"
proof -
  obtain tab where tab: "small_table s = Some tab" "unat sinx < length tab"
    "\<forall>e \<in> set tab. unat e \<le> n \<and> (e \<noteq> 0 \<longrightarrow> inited s (e - 1))"
    using assms(1,3) by (auto simp: small_ok_def)
  define e where "e = tab ! unat sinx"
  have "e \<in> set tab" using tab(2) by (simp add: e_def)
  then have e: "e \<noteq> 0 \<longrightarrow> inited s (e - 1)" "e \<le> input_position s"
    using tab(3) assms(2) by (auto simp: word_le_nat_alt)
  have "tmatch s (0, off)" by (simp add: tmatch_def)
  then show ?thesis using smatch_ok [OF assms(1) _ _ e(2) assms(4,5), of off] e(1) tab(1,2)
    by (cases "e = 0") (auto simp: small_lookup_def e_def)
qed

lemma scksum_insert_ok:
  assumes s: "small_ok n s" and n: "unat pos \<le> n" "unat pos < 2 ^ 63"
    and i: "unat inx < unat (xd3_hash_cfg.hsize (small_hash s))"
  shows "\<exists>tab prev. xd3_scksum_insert inx pos s = Some (s\<lparr>small_table := tab, small_prev := prev\<rparr>)
     \<and> small_ok (Suc n) (s\<lparr>small_table := tab, small_prev := prev\<rparr>)"
proof -
  obtain tab where tab: "small_table s = Some tab" "length tab = unat (xd3_hash_cfg.hsize (small_hash s))"
    "\<forall>e \<in> set tab. unat e \<le> n \<and> (e \<noteq> 0 \<longrightarrow> inited s (e - 1))"
    using s by (auto simp: small_ok_def)
  let ?tab = "tab[unat inx := pos + 1]"
  have up: "unat (pos + 1) = unat pos + 1" using n(2) by (subst unat_add_less) simp_all
  have last: "tab ! unat inx \<in> set tab" using i tab(2) by simp
  show ?thesis
  proof (cases "small_prev s")
    case None
    have "\<forall>e \<in> set ?tab. unat e \<le> Suc n" using tab(3) up n(1) set_update_subset_insert [of tab "unat inx" "pos + 1"] by fastforce
    then show ?thesis using None tab i s
      by (intro exI [of _ "Some ?tab"] exI [of _ None]) (auto simp: xd3_scksum_insert_def small_ok_def inited_def)
  next
    case (Some prev)
    let ?k = "unat (pos AND sprevmask s)" and ?v = "tab ! unat inx"
    let ?prev = "prev[?k := Some ?v]"
    let ?t = "s\<lparr>small_table := Some ?tab, small_prev := Some ?prev\<rparr>"
    have k: "?k < length prev" using s Some slot_bound by (simp add: small_ok_def)
    have old: "inited ?t p" if "inited s p" for p
      using that Some k by (auto simp: inited_def nth_list_update)
    have new: "inited ?t pos" using k by (simp add: inited_def)
    have "\<forall>e \<in> set ?tab. unat e \<le> Suc n \<and> (e \<noteq> 0 \<longrightarrow> inited ?t (e - 1))"
    proof
      fix e assume "e \<in> set ?tab"
      then consider "e = pos + 1" | "e \<in> set tab" using set_update_subset_insert by fastforce
      then show "unat e \<le> Suc n \<and> (e \<noteq> 0 \<longrightarrow> inited ?t (e - 1))"
        using tab(3) old new up n(1) by cases fastforce+
    qed
    moreover have "\<forall>v. Some v \<in> set ?prev \<longrightarrow> v \<noteq> 0 \<longrightarrow> inited ?t (v - 1)"
    proof (intro allI impI)
      fix v assume "Some v \<in> set ?prev" "v \<noteq> 0"
      then consider "v = ?v" | "Some v \<in> set prev" using set_update_subset_insert by fastforce
      then have "inited s (v - 1)" using s Some \<open>v \<noteq> 0\<close> tab(3) last by cases (auto simp: small_ok_def)
      then show "inited ?t (v - 1)" by (rule old)
    qed
    ultimately have "small_ok (Suc n) ?t" using s Some tab(2) unfolding small_ok_def by simp
    moreover have "xd3_scksum_insert inx pos s = Some ?t"
      using tab i Some k by (simp add: xd3_scksum_insert_def Let_def)
    ultimately show ?thesis by blast
  qed
qed

subsection \<open>A source in memory\<close>

definition memory_src :: "bytes \<Rightarrow> xd3_source \<Rightarrow> bool" where
  "memory_src S x \<longleftrightarrow> source_wf x \<and> curblk x = Some S \<and> curblkno x = 0 \<and> length S \<le> unat (blksize x)
     \<and> eof_known x \<and> xd3_source_eof x = of_nat (length S) \<and> length S < 2 ^ 63
     \<and> xd3_bytes_on_srcblk x 0 = of_nat (length S) \<and> (max_blkno x = 0 \<longrightarrow> onlastblk x = onblk x)"

lemma memory_src_getblk:
  assumes "memory_src S x"
  shows "xd3_getblk g 0 x = (None, x)"
proof -
  have "x\<lparr>onlastblk := onblk x\<rparr> = x" if "onlastblk x = onblk x" using that by (cases x) simp
  then show ?thesis using assms by (auto simp: memory_src_def xd3_getblk_def getblk_account_def)
qed

lemma memory_src_onblk: "memory_src S x \<Longrightarrow> unat (onblk x) = length S"
  by (auto simp: memory_src_def source_wf_def)

lemma memory_src_div:
  assumes "memory_src S x" "unat p \<le> length S"
  shows "xd3_blksize_div p (unat (shiftby x)) (maskby x) = (0, p) \<and> p < blksize x
     \<or> xd3_blksize_div p (unat (shiftby x)) (maskby x) = (1, 0) \<and> p = blksize x"
proof -
  define k where "k = unat (shiftby x)"
  have k: "k < 64" "blksize x = 2 ^ k" "maskby x = 2 ^ k - 1" using assms by (auto simp: memory_src_def source_wf_def k_def)
  have bs: "unat (blksize x) = 2 ^ k" using k by (simp add: unat_exp_u64)
  obtain b off where d: "xd3_blksize_div p k (2 ^ k - 1) = (b, off)" by force
  note sp = blksize_div_spec [OF k(1) d]
  have q: "unat b = unat p div 2 ^ k" "unat off = unat p mod 2 ^ k" using sp by (simp_all add: div_mult2_eq)
  have le: "unat p \<le> 2 ^ k" using assms bs by (simp add: memory_src_def)
  show ?thesis
  proof (cases "unat p < 2 ^ k")
    case True
    then have "unat b = 0" "unat off = unat p" using q by simp_all
    then have "b = 0" "off = p" by (simp_all add: word_unat_eq_iff)
    then show ?thesis using d True bs k by (simp add: k_def word_less_nat_alt)
  next
    case False
    then have "unat p = 2 ^ k" using le by simp
    then have "unat b = 1" "unat off = 0" using q by simp_all
    then have "b = 1" "off = 0" "p = blksize x" using \<open>unat p = 2 ^ k\<close> bs by (simp_all add: word_unat_eq_iff)
    then show ?thesis using d k by (simp add: k_def)
  qed
qed

lemma back_bytes_spec:
  assumes "n \<le> a" "a \<le> length blk" "n \<le> b" "b \<le> length inp"
  shows "\<exists>eq k. back_bytes blk inp n a b = Some (eq, k) \<and> k \<le> n \<and> (eq \<longrightarrow> k = n)
     \<and> (\<forall>j < k. blk ! (a - 1 - j) = inp ! (b - 1 - j))"
  using assms
proof (induction n arbitrary: a b)
  case (Suc n)
  show ?case
  proof (cases "blk ! (a - 1) = inp ! (b - 1)")
    case True
    have pre: "n \<le> a - 1" "a - 1 \<le> length blk" "n \<le> b - 1" "b - 1 \<le> length inp" using Suc.prems by auto
    from Suc.IH [OF pre] obtain eq k where r: "back_bytes blk inp n (a - 1) (b - 1) = Some (eq, k)" "k \<le> n" "eq \<longrightarrow> k = n"
      "\<forall>j < k. blk ! (a - 1 - 1 - j) = inp ! (b - 1 - 1 - j)" by blast
    have "blk ! (a - 1 - j) = inp ! (b - 1 - j)" if "j < Suc k" for j
      using r(4) True that by (cases j) auto
    then show ?thesis using r(1-3) Suc.prems True by auto
  next
    case False
    then show ?thesis using Suc.prems by auto
  qed
qed auto

text \<open>The bounds that \<open>xd3_source_match_setup\<close> sets for a search at \<open>input_position\<close>.\<close>

definition setup_ok :: "bytes \<Rightarrow> xd3_estream \<Rightarrow> bool" where
  "setup_ok S s \<longleftrightarrow> match_back s = 0 \<and> match_fwd s = 0
     \<and> unat (match_maxback s) \<le> unat (input_position s) \<and> unat (match_maxback s) \<le> unat (match_srcpos s)
     \<and> unat (input_position s) + unat (match_maxfwd s) \<le> length (ein s)
     \<and> unat (match_srcpos s) + unat (match_maxfwd s) \<le> length S"

lemma unat_avail_in: "length (ein s) < 2 ^ 63 \<Longrightarrow> unat (avail_in s) = length (ein s)"
  unfolding avail_in_def by (intro unat_of_nat_less) simp

text \<open>The same for the fields of a single source match.\<close>

definition mcore :: "xd3_estream \<Rightarrow> xd3_estream" where
  "mcore s = s\<lparr>match_state := MATCH_TARGET, match_srcpos := 0, match_last_srcpos := 0, match_back := 0,
     match_maxback := 0, match_fwd := 0, match_maxfwd := 0\<rparr>"

lemma mcore_upd [simp]:
  "mcore (s\<lparr>match_state := x8\<rparr>) = mcore s" "mcore (s\<lparr>match_srcpos := x9\<rparr>) = mcore s"
  "mcore (s\<lparr>match_last_srcpos := y1\<rparr>) = mcore s" "mcore (s\<lparr>match_back := y4\<rparr>) = mcore s"
  "mcore (s\<lparr>match_maxback := y5\<rparr>) = mcore s" "mcore (s\<lparr>match_fwd := y6\<rparr>) = mcore s"
  "mcore (s\<lparr>match_maxfwd := y7\<rparr>) = mcore s"
  by (simp_all add: mcore_def)

lemma core_mcore: "core (mcore s) = core s"
  by (simp add: mcore_def)

lemma mcore_fields:
  assumes "mcore t = mcore s"
  shows "core t = core s" "emem t = emem s" "large_table t = large_table s" "small_table t = small_table s"
    "small_prev t = small_prev s" "input_position t = input_position s" "min_match t = min_match s"
    "match_minaddr t = match_minaddr s" "match_maxaddr t = match_maxaddr s" "maxsrcaddr t = maxsrcaddr s"
    "srcwin_cksum_pos t = srcwin_cksum_pos s" "iopt_used t = iopt_used s" "iopt_free t = iopt_free s"
proof -
  show "core t = core s" using assms by (metis core_mcore)
  show "emem t = emem s" using arg_cong [OF assms, of emem] by (simp add: mcore_def)
  show "large_table t = large_table s" using arg_cong [OF assms, of large_table] by (simp add: mcore_def)
  show "small_table t = small_table s" using arg_cong [OF assms, of small_table] by (simp add: mcore_def)
  show "small_prev t = small_prev s" using arg_cong [OF assms, of small_prev] by (simp add: mcore_def)
  show "input_position t = input_position s" using arg_cong [OF assms, of input_position] by (simp add: mcore_def)
  show "min_match t = min_match s" using arg_cong [OF assms, of min_match] by (simp add: mcore_def)
  show "match_minaddr t = match_minaddr s" using arg_cong [OF assms, of match_minaddr] by (simp add: mcore_def)
  show "match_maxaddr t = match_maxaddr s" using arg_cong [OF assms, of match_maxaddr] by (simp add: mcore_def)
  show "maxsrcaddr t = maxsrcaddr s" using arg_cong [OF assms, of maxsrcaddr] by (simp add: mcore_def)
  show "srcwin_cksum_pos t = srcwin_cksum_pos s" using arg_cong [OF assms, of srcwin_cksum_pos] by (simp add: mcore_def)
  show "iopt_used t = iopt_used s" using arg_cong [OF assms, of iopt_used] by (simp add: mcore_def)
  show "iopt_free t = iopt_free s" using arg_cong [OF assms, of iopt_free] by (simp add: mcore_def)
qed

lemma match_setup_ok:
  assumes x: "memory_src S x" and s: "unencoded_offset s = 0" "\<not> srcwin_decided s" "eflags s AND XD3_BEGREEDY = 0"
    and p: "unat (input_position s) \<le> length (ein s)" "length (ein s) < 2 ^ 63" "unat srcpos \<le> length S"
    and r: "xd3_source_match_setup x srcpos s = (b, t)"
  shows "mcore t = mcore s" "match_srcpos t = (if b then srcpos else match_srcpos s)" "match_fwd t = 0"
    "b \<Longrightarrow> match_state t = MATCH_BACKWARD \<and> setup_ok S t"
    "\<not> b \<Longrightarrow> match_state t = MATCH_SEARCHING \<and> match_maxfwd t = 0 \<and> match_maxback t = 0 \<and> match_back t = 0"
proof -
  have S: "unat (of_nat (length S) :: u64) = length S" "eof_known x" "xd3_source_eof x = of_nat (length S)"
    using x by (auto simp: memory_src_def intro: unat_of_nat_less)
  have fwd: "unat (min (of_nat (length S) - srcpos) (avail_in s - input_position s))
      = min (length S - unat srcpos) (length (ein s) - unat (input_position s))"
    using S p unat_avail_in [OF p(2)] by (simp add: min_def word_le_nat_alt unat_sub_le)
  have bck: "unat (min srcpos (input_position s)) = min (unat srcpos) (unat (input_position s))"
    by (simp add: min_def word_le_nat_alt)
  have g: "greedy_or_not (s\<lparr>match_maxback := 0, match_maxfwd := 0, match_back := 0, match_fwd := 0\<rparr>) = 0"
    using s by (simp add: greedy_or_not_def)
  let ?mb = "min srcpos (input_position s)" and ?mf = "min (of_nat (length S) - srcpos) (avail_in s - input_position s)"
  define bad where "bad \<longleftrightarrow> srcpos \<noteq> 0 \<and> srcpos = match_last_srcpos s
      \<or> srcpos < srcwin_cksum_pos s \<and> srcwin_cksum_pos s - srcpos > max_winsize x"
  have eq: "xd3_source_match_setup x srcpos s = (if bad
      then match_setup_bad srcpos (s\<lparr>match_maxback := 0, match_maxfwd := 0, match_back := 0, match_fwd := 0\<rparr>)
      else match_setup_good srcpos (s\<lparr>match_back := 0, match_fwd := 0, match_maxback := ?mb, match_maxfwd := ?mf\<rparr>))"
    using s g S(2,3) by (auto simp: xd3_source_match_setup_def Let_def bad_def avail_in_def)
  define s0 where "s0 = s\<lparr>match_maxback := 0, match_maxfwd := 0, match_back := 0, match_fwd := 0\<rparr>"
  define s1 where "s1 = s\<lparr>match_back := 0, match_fwd := 0, match_maxback := ?mb, match_maxfwd := ?mf\<rparr>"
  have t: "b \<longleftrightarrow> \<not> bad" "t = (if bad then s0\<lparr>match_state := MATCH_SEARCHING, match_last_srcpos := srcpos\<rparr>
      else s1\<lparr>match_state := MATCH_BACKWARD, match_srcpos := srcpos, match_last_srcpos := srcpos\<rparr>)"
    using r eq unfolding s0_def [symmetric] s1_def [symmetric] by (auto simp: match_setup_bad_def match_setup_good_def)
  have "mcore s0 = mcore s" "mcore s1 = mcore s" by (simp_all add: s0_def s1_def)
  then show "mcore t = mcore s" by (simp add: t(2))
  show "match_srcpos t = (if b then srcpos else match_srcpos s)" "match_fwd t = 0"
    by (simp_all add: t s0_def s1_def)
  show "\<not> b \<Longrightarrow> match_state t = MATCH_SEARCHING \<and> match_maxfwd t = 0 \<and> match_maxback t = 0 \<and> match_back t = 0"
    by (simp add: t s0_def)
  show "b \<Longrightarrow> match_state t = MATCH_BACKWARD \<and> setup_ok S t"
    using p fwd bck by (auto simp: t s1_def setup_ok_def min_def)
qed

text \<open>After the two searches: \<open>match_back\<close> bytes before and \<open>match_fwd\<close> bytes after the two positions are
  equal.\<close>

definition extended :: "bytes \<Rightarrow> xd3_estream \<Rightarrow> bool" where
  "extended S s \<longleftrightarrow> unat (match_back s) \<le> unat (input_position s) \<and> unat (match_back s) \<le> unat (match_srcpos s)
     \<and> unat (input_position s) + unat (match_fwd s) \<le> length (ein s)
     \<and> unat (match_srcpos s) + unat (match_fwd s) \<le> length S
     \<and> (\<forall>j < unat (match_back s). S ! (unat (match_srcpos s) - 1 - j) = ein s ! (unat (input_position s) - 1 - j))
     \<and> (\<forall>j < unat (match_fwd s). S ! (unat (match_srcpos s) + j) = ein s ! (unat (input_position s) + j))"

lemma esrc_same: "esrc s = Some x \<Longrightarrow> s\<lparr>esrc := Some x\<rparr> = s"
  by (cases s) simp

lemma extend_backward_ok:
  assumes x: "memory_src S x" "esrc s = Some x" and s: "setup_ok S s" "length (ein s) < 2 ^ 63"
  shows "\<exists>k. extend_backward x s = Some (DONEBACK, s\<lparr>match_back := k, match_state :=
       (if match_state s = MATCH_BACKWARD then MATCH_FORWARD else match_state s)\<rparr>)
     \<and> extended S (s\<lparr>match_back := k\<rparr>)"
proof (cases "match_state s = MATCH_BACKWARD")
  case False
  have "s\<lparr>match_back := match_back s, match_state := match_state s\<rparr> = s" by simp
  then show ?thesis using False s(1) by (intro exI [of _ 0]) (simp add: extend_backward_def setup_ok_def extended_def)
next
  case True
  let ?p = "match_srcpos s" and ?mb = "match_maxback s"
  have p: "unat ?p \<le> length S" "unat ?mb \<le> unat ?p" "unat ?mb \<le> unat (input_position s)"
    "unat (input_position s) \<le> length (ein s)" "match_back s = 0" "match_fwd s = 0" using s(1) by (auto simp: setup_ok_def)
  obtain blkno off where d: "xd3_blksize_div ?p (unat (shiftby x)) (maskby x) = (blkno, off)" by force
  have bo: "(if off = 0 then (blkno - 1, blksize x) else (blkno, off)) = (0, ?p)" if "?mb \<noteq> 0"
  proof -
    have "?p \<noteq> 0" using that p(2) by (auto simp: unat_eq_zero)
    then show ?thesis using memory_src_div [OF x(1) p(1)] d by auto
  qed
  have cb: "curblk x = Some S" using x(1) by (simp add: memory_src_def)
  have "\<exists>k. extend_back blkno off (input_position s) s = Some (DONEBACK, s\<lparr>match_back := k\<rparr>) \<and> extended S (s\<lparr>match_back := k\<rparr>)"
  proof (cases "?mb = 0")
    case True
    then show ?thesis using p by (subst extend_back.simps) (intro exI [of _ 0], simp add: extended_def)
  next
    case False
    obtain eq k where k: "back_bytes S (ein s) (unat ?mb) (unat ?p) (unat (input_position s)) = Some (eq, k)"
      "k \<le> unat ?mb" "eq \<longrightarrow> k = unat ?mb"
      "\<forall>j < k. S ! (unat ?p - 1 - j) = ein s ! (unat (input_position s) - 1 - j)"
      using back_bytes_spec [OF p(2,1,3,4)] by blast
    define n :: usize_t where "n = of_nat k"
    have un: "unat n = k" unfolding n_def using k(2) le_less_trans [OF k(2) unat_u64_lt] by (intro unat_of_nat_less) simp
    have mn: "min ?p (?mb - match_back s) = ?mb" using p(2,5) by (simp add: min_absorb2 word_le_nat_alt)
    have "extend_back blkno off (input_position s) s = (if eq then extend_back 0 (?p - n) (input_position s - n) (s\<lparr>match_back := n\<rparr>)
        else Some (DONEBACK, s\<lparr>match_back := n\<rparr>))"
      using False x(2) bo [OF False] memory_src_getblk [OF x(1)] cb k(1) mn p(5)
      by (subst extend_back.simps) (simp add: n_def word_less_nat_alt unat_gt_0 esrc_same [OF x(2)])
    moreover have "extend_back 0 (?p - n) (input_position s - n) (s\<lparr>match_back := n\<rparr>) = Some (DONEBACK, s\<lparr>match_back := n\<rparr>)" if eq
      using that k(3) un by (subst extend_back.simps) (simp add: word_less_nat_alt)
    moreover have "extended S (s\<lparr>match_back := n\<rparr>)" using un k(2,4) p s(1) by (auto simp: extended_def setup_ok_def)
    ultimately show ?thesis by auto
  qed
  then show ?thesis using True d p(5) by (auto simp: extend_backward_def)
qed

lemma extend_forward_ok:
  assumes x: "memory_src S x" "esrc s = Some x" and s: "extended S s" "match_fwd s = 0" "length (ein s) < 2 ^ 63"
    and m: "unat (input_position s) + unat (match_maxfwd s) \<le> length (ein s)"
      "unat (match_srcpos s) + unat (match_maxfwd s) \<le> length S"
  shows "\<exists>k. extend_forward x s = Some (DONEFWD, s\<lparr>match_fwd := k\<rparr>) \<and> extended S (s\<lparr>match_fwd := k\<rparr>)"
proof -
  let ?p = "match_srcpos s" and ?mf = "match_maxfwd s"
  obtain blkno off where d: "xd3_blksize_div ?p (unat (shiftby x)) (maskby x) = (blkno, off)" by force
  have cb: "curblk x = Some S" and bl: "length S \<le> unat (blksize x)" "length S < 2 ^ 63" using x(1) by (auto simp: memory_src_def)
  have "\<exists>k. extend_fwd blkno off (input_position s) s = Some (DONEFWD, s\<lparr>match_fwd := k\<rparr>) \<and> extended S (s\<lparr>match_fwd := k\<rparr>)"
  proof (cases "?mf = 0")
    case True
    then show ?thesis using s by (subst extend_fwd.simps) (intro exI [of _ 0], simp add: extended_def)
  next
    case False
    then have lt: "unat ?p < unat (blksize x)" "unat ?p \<le> length S" using m(2) bl(1) unat_gt_0 [of ?mf] by auto
    have bo: "blkno = 0" "off = ?p" using memory_src_div [OF x(1) lt(2)] d lt(1) by auto
    have nb: "off \<noteq> blksize x" using lt(1) bo(2) by auto
    have "unat (onblk x - ?p) = length S - unat ?p" using memory_src_onblk [OF x(1)] lt(2) by (simp add: unat_sub_le)
    then have mn: "min (?mf - match_fwd s) (onblk x - off) = ?mf" using m(2) s(2) bo(2)
      by (auto simp: min_def word_le_nat_alt)
    define n where "n = xd3_forward_match (drop (unat ?p) S) (drop (unat (input_position s)) (ein s)) (unat ?mf)"
    have n: "agree (drop (unat ?p) S) (drop (unat (input_position s)) (ein s)) n" "n \<le> unat ?mf"
      unfolding n_def using m by (auto intro!: forward_match_spec)
    define w :: usize_t where "w = of_nat n"
    have un: "unat w = n" unfolding w_def using n(2) le_less_trans [OF n(2) unat_u64_lt] by (intro unat_of_nat_less) simp
    have ex: "extended S (s\<lparr>match_fwd := w\<rparr>)"
      using s(1) un n m by (auto simp: extended_def agree_def)
    have "extend_fwd blkno off (input_position s) s = (if ?mf \<noteq> w then Some (DONEFWD, s\<lparr>match_fwd := w\<rparr>)
        else extend_fwd 0 (?p + w) (input_position s + w) (s\<lparr>match_fwd := w\<rparr>))"
      using False x(2) nb memory_src_getblk [OF x(1)] cb mn s(2) m bo
      by (subst extend_fwd.simps) (simp add: Let_def w_def n_def word_less_nat_alt unat_gt_0 esrc_same [OF x(2)])
    moreover have "extend_fwd 0 (?p + w) (input_position s + w) (s\<lparr>match_fwd := w\<rparr>) = Some (DONEFWD, s\<lparr>match_fwd := w\<rparr>)" if "?mf = w"
      using that by (subst extend_fwd.simps) simp
    ultimately show ?thesis using ex by auto
  qed
  then show ?thesis using d s(2) by (simp add: extend_forward_def)
qed

subsection \<open>Entering instructions\<close>

definition icore :: "xd3_estream \<Rightarrow> xd3_estream" where
  "icore s = s\<lparr>emem := \<lparr>alloc_ok = \<lambda>_. False, alloc_cnt = 0, enc_free = 0\<rparr>, iopt_used := [], iopt_free := 0,
     iopt_size := 0, i_slots_used := 0\<rparr>"

lemma icore_upd [simp]:
  "icore (s\<lparr>emem := x1\<rparr>) = icore s" "icore (s\<lparr>iopt_used := z1\<rparr>) = icore s" "icore (s\<lparr>iopt_free := z2\<rparr>) = icore s"
  "icore (s\<lparr>iopt_size := z3\<rparr>) = icore s" "icore (s\<lparr>i_slots_used := z4\<rparr>) = icore s"
  by (simp_all add: icore_def)

lemma core_icore: "core (icore s) = core s"
  by (simp add: icore_def)

lemma icore_fields:
  assumes "icore t = icore s"
  shows "core t = core s" "large_table t = large_table s" "small_table t = small_table s"
    "small_prev t = small_prev s" "input_position t = input_position s" "min_match t = min_match s"
    "match_minaddr t = match_minaddr s" "match_maxaddr t = match_maxaddr s" "maxsrcaddr t = maxsrcaddr s"
    "srcwin_cksum_pos t = srcwin_cksum_pos s" "match_state t = match_state s" "match_srcpos t = match_srcpos s"
    "match_fwd t = match_fwd s" "match_back t = match_back s"
proof -
  show "core t = core s" using assms by (metis core_icore)
  show "large_table t = large_table s" using arg_cong [OF assms, of large_table] by (simp add: icore_def)
  show "small_table t = small_table s" using arg_cong [OF assms, of small_table] by (simp add: icore_def)
  show "small_prev t = small_prev s" using arg_cong [OF assms, of small_prev] by (simp add: icore_def)
  show "input_position t = input_position s" using arg_cong [OF assms, of input_position] by (simp add: icore_def)
  show "min_match t = min_match s" using arg_cong [OF assms, of min_match] by (simp add: icore_def)
  show "match_minaddr t = match_minaddr s" using arg_cong [OF assms, of match_minaddr] by (simp add: icore_def)
  show "match_maxaddr t = match_maxaddr s" using arg_cong [OF assms, of match_maxaddr] by (simp add: icore_def)
  show "maxsrcaddr t = maxsrcaddr s" using arg_cong [OF assms, of maxsrcaddr] by (simp add: icore_def)
  show "srcwin_cksum_pos t = srcwin_cksum_pos s" using arg_cong [OF assms, of srcwin_cksum_pos] by (simp add: icore_def)
  show "match_state t = match_state s" using arg_cong [OF assms, of match_state] by (simp add: icore_def)
  show "match_srcpos t = match_srcpos s" using arg_cong [OF assms, of match_srcpos] by (simp add: icore_def)
  show "match_fwd t = match_fwd s" using arg_cong [OF assms, of match_fwd] by (simp add: icore_def)
  show "match_back t = match_back s" using arg_cong [OF assms, of match_back] by (simp add: icore_def)
qed

text \<open>The only failure is a failed allocation.\<close>

definition mem_outcome :: "xd3_ret \<Rightarrow> xd3_estream \<Rightarrow> xd3_estream \<Rightarrow> bool" where
  "mem_outcome r s t \<longleftrightarrow> (r = None \<or> r = Some ENOMEM) \<and> (mem_ok (emem s) \<longrightarrow> r = None \<and> mem_ok (emem t))"

lemma iopt_elts_pos: "0 < unat iopt_elts"
  by (simp add: iopt_elts_def unat_div)

lemma get_slot_ok:
  assumes "iopt_unlimited s"
  shows "\<exists>r t. xd3_iopt_get_slot i s = Some (r, t) \<and> icore t = icore s \<and> mem_outcome r s t
     \<and> (r = None \<longrightarrow> iopt_used t = iopt_used s @ [i])"
proof (cases "iopt_free s = 0")
  case False
  then show ?thesis by (auto simp: xd3_iopt_get_slot_def iopt_make_room_def mem_outcome_def)
next
  case True
  obtain r t where r: "xd3_alloc_iopt iopt_elts s = (r, t)" by force
  have t: "icore t = icore s" "mem_outcome r s t" "iopt_used t = iopt_used s" "r = None \<longrightarrow> iopt_free t \<noteq> 0"
    using r iopt_elts_pos True
    by (auto simp: xd3_alloc_iopt_def xd3_alloc_def mem_outcome_def mem_ok_def split: if_splits bool.splits)
  show ?thesis
  proof (cases r)
    case None
    then show ?thesis using True assms r t
      by (auto simp: xd3_iopt_get_slot_def iopt_make_room_def seqr_def mem_outcome_def)
  next
    case (Some e)
    then show ?thesis using True assms r t
      by (auto simp: xd3_iopt_get_slot_def iopt_make_room_def seqr_def mem_outcome_def)
  qed
qed

text \<open>The instructions found so far, which start before \<open>n\<close>.\<close>

definition insts :: "bytes \<Rightarrow> nat \<Rightarrow> xd3_estream \<Rightarrow> bool" where
  "insts S n s \<longleftrightarrow> used_ok S s (iopt_used s) \<and> sorted_wrt ordered (iopt_used s)
     \<and> (\<forall>r \<in> set (iopt_used s). unat (rpos r) < n)
     \<and> match_minaddr s \<le> match_maxaddr s \<and> unat (match_maxaddr s) \<le> length S \<and> unat (maxsrcaddr s) \<le> length S"

definition ends_before :: "nat \<Rightarrow> xd3_estream \<Rightarrow> bool" where
  "ends_before n s \<longleftrightarrow> (\<forall>r \<in> set (iopt_used s). nend r < n)"

lemma insts_enter:
  assumes s: "insts S n s" and t: "core t = core s" "iopt_used t = iopt_used s @ [i]" "match_minaddr t = match_minaddr s"
      "match_maxaddr t = match_maxaddr s" "maxsrcaddr t = maxsrcaddr s"
    and i: "inst_ok S (unat (match_minaddr s)) (unat (match_maxaddr s)) (ein s) i"
      "rtype i = XD3_CPY \<and> xtra i \<noteq> 0 \<longrightarrow> esrc s \<noteq> None"
      "\<forall>r \<in> set (iopt_used s). unat (rpos r) < unat (rpos i)" "ends_before (nend i) s"
    and n: "unat (rpos i) < m" "n \<le> m"
  shows "insts S m t" "ends_before (Suc (nend i)) t"
  using s t i n core_fields(1,2) [OF t(1)]
  by (auto simp: insts_def used_ok_def ends_before_def sorted_wrt_append ordered_def)

lemma erase_ok:
  assumes s: "sorted_wrt ordered (iopt_used s)"
  shows "\<exists>gone. iopt_used s = iopt_used (xd3_iopt_erase pos s) @ gone" "icore (xd3_iopt_erase pos s) = icore s"
    "emem (xd3_iopt_erase pos s) = emem s"
    "\<forall>r \<in> set (iopt_used (xd3_iopt_erase pos s)). rpos r < pos"
proof -
  let ?P = "\<lambda>r. \<not> rpos r < pos"
  define left where "left = rev (dropWhile ?P (rev (iopt_used s)))"
  have e: "iopt_used (xd3_iopt_erase pos s) = left" by (simp add: xd3_iopt_erase_def Let_def left_def)
  have sp: "iopt_used s = left @ rev (takeWhile ?P (rev (iopt_used s)))"
    unfolding left_def by (metis rev_append rev_rev_ident takeWhile_dropWhile_id)
  then show "\<exists>gone. iopt_used s = iopt_used (xd3_iopt_erase pos s) @ gone" unfolding e by blast
  show "icore (xd3_iopt_erase pos s) = icore s" "emem (xd3_iopt_erase pos s) = emem s"
    by (simp_all add: xd3_iopt_erase_def Let_def)
  have srt: "sorted_wrt ordered left" using s sp by (metis sorted_wrt_append)
  have "rpos r < pos" if "r \<in> set left" for r
  proof -
    have ne: "left \<noteq> []" using that by auto
    then have "dropWhile ?P (rev (iopt_used s)) \<noteq> []" by (simp add: left_def)
    then have "\<not> ?P (hd (dropWhile ?P (rev (iopt_used s))))" by (rule hd_dropWhile)
    then have last: "rpos (last left) < pos" using ne by (simp add: left_def last_rev)
    obtain xs where xs: "left = xs @ [last left]" using ne by (metis append_butlast_last_id)
    have "sorted_wrt ordered (xs @ [last left])" "r \<in> set (xs @ [last left])" using srt that xs by simp_all
    then have "r = last left \<or> ordered r (last left)" by (auto simp: sorted_wrt_append)
    then show ?thesis using last by (auto simp: ordered_def word_less_nat_alt)
  qed
  then show "\<forall>r \<in> set (iopt_used (xd3_iopt_erase pos s)). rpos r < pos" by (simp add: e)
qed

definition same_place :: "xd3_estream \<Rightarrow> xd3_estream \<Rightarrow> bool" where
  "same_place s t \<longleftrightarrow> core t = core s \<and> large_table t = large_table s \<and> small_table t = small_table s
     \<and> small_prev t = small_prev s \<and> input_position t = input_position s \<and> min_match t = min_match s
     \<and> srcwin_cksum_pos t = srcwin_cksum_pos s"

lemma same_place_refl [simp]: "same_place s s"
  by (simp add: same_place_def)

lemma same_place_trans: "same_place s t \<Longrightarrow> same_place t u \<Longrightarrow> same_place s u"
  by (simp add: same_place_def)

lemma same_place_icore:
  assumes "icore t = icore s"
  shows "same_place s t"
  using icore_fields [OF assms] unfolding same_place_def by simp

lemma same_place_mcore:
  assumes "mcore t = mcore s"
  shows "same_place s t"
  using mcore_fields [OF assms] unfolding same_place_def by simp

lemma insts_mcore:
  assumes "mcore t = mcore s"
  shows "insts S n t = insts S n s" "ends_before m t = ends_before m s"
  using mcore_fields(7-13) [OF assms] core_fields(1,2) [OF mcore_fields(1) [OF assms]]
  unfolding insts_def ends_before_def used_ok_def by simp_all

lemma inst_ok_widen:
  assumes "inst_ok S lo hi inp r" "hi \<noteq> 0 \<longrightarrow> lo' \<le> lo" "hi \<le> hi'"
  shows "inst_ok S lo' hi' inp r"
  using assms by (auto simp: inst_ok_def)

lemma source_inst_ok:
  assumes "extended S s" "0 < unat (match_fwd s)" "length (ein s) < 2 ^ 63" "length S < 2 ^ 63"
    "lo \<le> unat (match_srcpos s - match_back s)" "unat (match_srcpos s + match_fwd s) \<le> hi"
  shows "inst_ok S lo hi (ein s) \<lparr>rtype = XD3_CPY, xtra = 1, code1 = 0, code2 = 0,
      rpos = input_position s - match_back s, rsize = match_back s + match_fwd s, raddr = match_srcpos s - match_back s\<rparr>"
    "unat (input_position s - match_back s) + unat (match_back s + match_fwd s) = unat (input_position s) + unat (match_fwd s)"
    "unat (match_srcpos s + match_fwd s) = unat (match_srcpos s) + unat (match_fwd s)"
proof -
  let ?p = "unat (input_position s)" and ?q = "unat (match_srcpos s)" and ?b = "unat (match_back s)" and ?f = "unat (match_fwd s)"
  have e: "?b \<le> ?p" "?b \<le> ?q" "?p + ?f \<le> length (ein s)" "?q + ?f \<le> length S"
    "\<And>j. j < ?b \<Longrightarrow> S ! (?q - 1 - j) = ein s ! (?p - 1 - j)" "\<And>j. j < ?f \<Longrightarrow> S ! (?q + j) = ein s ! (?p + j)"
    using assms(1) by (auto simp: extended_def)
  have u: "unat (input_position s - match_back s) = ?p - ?b" "unat (match_srcpos s - match_back s) = ?q - ?b"
    "unat (match_back s + match_fwd s) = ?b + ?f"
    using e assms(3,4) by (simp_all add: unat_sub_le unat_add_less)
  show v: "unat (match_srcpos s + match_fwd s) = ?q + ?f" using e assms(4) by (simp add: unat_add_less)
  show "unat (input_position s - match_back s) + unat (match_back s + match_fwd s) = ?p + ?f" using u e by simp
  have "S ! (?q - ?b + k) = ein s ! (?p - ?b + k)" if "k < ?b + ?f" for k
  proof (cases "k < ?b")
    case True
    then have "?q - 1 - (?b - 1 - k) = ?q - ?b + k" "?p - 1 - (?b - 1 - k) = ?p - ?b + k" "?b - 1 - k < ?b" using e(1,2) by auto
    then show ?thesis using e(5) [of "?b - 1 - k"] by simp
  next
    case False
    then have "?q - ?b + k = ?q + (k - ?b)" "?p - ?b + k = ?p + (k - ?b)" "k - ?b < ?f" using e(1,2) that by auto
    then show ?thesis using e(6) [of "k - ?b"] by simp
  qed
  then show "inst_ok S lo hi (ein s) \<lparr>rtype = XD3_CPY, xtra = 1, code1 = 0, code2 = 0,
      rpos = input_position s - match_back s, rsize = match_back s + match_fwd s, raddr = match_srcpos s - match_back s\<rparr>"
    using assms(2,5,6) u v e by (auto simp: inst_ok_def)
qed

lemma extend_take_ok:
  assumes ins: "insts S (unat (input_position s)) s" "ends_before (unat (input_position s) + unat (min_match s)) s"
    and ex: "extended S s" "min_match s \<le> match_fwd s" "0 < unat (min_match s)"
    and st: "esrc s \<noteq> None" "iopt_unlimited s" "length (ein s) < 2 ^ 63" "length S < 2 ^ 63" "match_state s = MATCH_SEARCHING"
  shows "\<exists>r t. extend_take s = Some (r, t) \<and> same_place s t \<and> mem_outcome r s t \<and> (r = None \<longrightarrow>
     insts S (Suc (unat (input_position s))) t \<and> ends_before (Suc (unat (input_position s) + unat (match_fwd s))) t
     \<and> match_fwd t = match_fwd s \<and> unat (match_srcpos t) \<le> length S \<and> match_state t \<in> {MATCH_TARGET, MATCH_SEARCHING})"
proof -
  let ?tp = "input_position s - match_back s" and ?len = "match_back s + match_fwd s"
    and ?mp = "match_srcpos s - match_back s" and ?me = "match_srcpos s + match_fwd s"
  define i where "i = \<lparr>rtype = XD3_CPY, xtra = 1, code1 = 0, code2 = 0, rpos = ?tp, rsize = ?len, raddr = ?mp\<rparr>"
  define s1 where "s1 = (if match_back s > 0 then xd3_iopt_erase ?tp s else s)"
  define s2 where "s2 = s1\<lparr>match_back := 0,
      match_minaddr := (if match_maxaddr s1 = 0 \<or> ?mp < match_minaddr s1 then ?mp else match_minaddr s1),
      match_maxaddr := max ?me (match_maxaddr s1), maxsrcaddr := max ?me (maxsrcaddr s1)\<rparr>"
  have fw: "0 < unat (match_fwd s)" using ex(2,3) by (simp add: word_le_nat_alt)
  have srt: "sorted_wrt ordered (iopt_used s)" using ins(1) by (simp add: insts_def)
  note er = erase_ok [OF srt, of ?tp]
  have ic: "icore s1 = icore s" "emem s1 = emem s" using er by (simp_all add: s1_def)
  have ub: "unat ?tp = unat (input_position s) - unat (match_back s)" using ex(1) by (simp add: extended_def unat_sub_le)
  have lt: "\<forall>r \<in> set (iopt_used s1). unat (rpos r) < unat ?tp"
  proof (cases "match_back s > 0")
    case True
    then show ?thesis using er(4) by (simp add: s1_def word_less_nat_alt)
  next
    case False
    then have "match_back s = 0" by (simp add: word_gt_0)
    then show ?thesis using ins(1) by (simp add: s1_def insts_def)
  qed
  have sub: "\<exists>gone. iopt_used s = iopt_used s1 @ gone" using er(1) by (auto simp: s1_def)
  note f1 = icore_fields [OF ic(1)] and c1 = core_fields [OF icore_fields(1) [OF ic(1)]]
  have so: "inst_ok S (unat ?mp) (unat ?me) (ein s) i" "unat ?tp + unat ?len = unat (input_position s) + unat (match_fwd s)"
    "unat ?me = unat (match_srcpos s) + unat (match_fwd s)"
    using source_inst_ok [OF ex(1) fw st(3,4) order_refl order_refl] by (simp_all add: i_def)
  have mx: "unat ?me \<le> length S" "0 < unat ?me" "?mp \<le> ?me" using so ex(1) fw
    by (auto simp: extended_def word_le_nat_alt unat_sub_le)
  have rng: "match_minaddr s2 \<le> match_maxaddr s2" "unat (match_maxaddr s2) \<le> length S" "unat (maxsrcaddr s2) \<le> length S"
    "match_maxaddr s \<noteq> 0 \<longrightarrow> match_minaddr s2 \<le> match_minaddr s" "match_maxaddr s \<le> match_maxaddr s2"
    "match_minaddr s2 \<le> ?mp" "?me \<le> match_maxaddr s2"
    using ins(1) mx f1 by (auto simp: s2_def insts_def max_def not_less)
  have "inst_ok S (unat (match_minaddr s2)) (unat (match_maxaddr s2)) (ein s) r"
    if "inst_ok S (unat (match_minaddr s)) (unat (match_maxaddr s)) (ein s) r" for r
    by (rule inst_ok_widen [OF that]) (use rng in \<open>auto simp: word_le_nat_alt unat_eq_zero\<close>)
  note widen = this
  obtain gone where gone: "iopt_used s = iopt_used s1 @ gone" using sub by blast
  have s2u: "iopt_used s2 = iopt_used s1" "ein s2 = ein s" "esrc s2 = esrc s" using c1(1,2) by (simp_all add: s2_def)
  have "used_ok S s2 (iopt_used s2)"
    using ins(1) widen unfolding insts_def used_ok_def gone s2u by (auto simp: list_all_iff)
  moreover have "sorted_wrt ordered (iopt_used s2)" using srt unfolding gone s2u by (simp add: sorted_wrt_append)
  moreover have "\<forall>r \<in> set (iopt_used s2). unat (rpos r) < unat (input_position s)"
    using ins(1) unfolding insts_def gone s2u by simp
  ultimately have "insts S (unat (input_position s)) s2" using rng(1-3) unfolding insts_def by blast
  moreover have "ends_before (nend i) s2"
  proof -
    have "unat (input_position s) + unat (min_match s) \<le> nend i"
      using so(2) ex(2) by (simp add: nend_def i_def word_le_nat_alt)
    then show ?thesis using ins(2) unfolding ends_before_def gone s2u by (auto intro: less_le_trans)
  qed
  moreover have "inst_ok S (unat (match_minaddr s2)) (unat (match_maxaddr s2)) (ein s2) i"
    using inst_ok_widen [OF so(1)] rng(6,7) c1(1) by (simp add: s2_def word_le_nat_alt)
  moreover have un: "iopt_unlimited s2" "esrc s2 \<noteq> None" "iopt_used s2 = iopt_used s1" using c1 st by (simp_all add: s2_def)
  ultimately have en: "insts S (Suc (unat (input_position s))) t \<and> ends_before (Suc (nend i)) t"
    if "icore t = icore s2" "iopt_used t = iopt_used s2 @ [i]" for t
    using insts_enter [of S "unat (input_position s)" s2 t i "Suc (unat (input_position s))"] icore_fields [OF that(1)] that lt ub
    by (simp add: i_def)
  obtain r t where g: "xd3_iopt_get_slot i s2 = Some (r, t)" "icore t = icore s2" "mem_outcome r s2 t"
    "r = None \<longrightarrow> iopt_used t = iopt_used s2 @ [i]" using get_slot_ok [OF un(1), of i] by blast
  have fm: "xd3_found_match ?tp ?len ?mp True s2 = Some (r, t)" using g(1) by (simp add: xd3_found_match_def i_def)
  have mo: "mem_outcome r s t" using g(3) ic(2) by (simp add: mem_outcome_def s2_def)
  note gf = icore_fields [OF g(2)]
  have pl: "same_place s t" using gf f1 by (simp add: same_place_def s2_def)
  have ne: "nend i = unat (input_position s) + unat (match_fwd s)" using so(2) by (simp add: nend_def i_def)
  show ?thesis
  proof (cases r)
    case (Some e)
    then have "extend_take s = Some (r, t)" using fm unfolding extend_take_def Let_def s1_def [symmetric] s2_def [symmetric] by simp
    then show ?thesis using Some pl mo by simp
  next
    case None
    define t' where "t' = (if ?tp + ?len = avail_in t then t\<lparr>match_state := MATCH_TARGET, match_srcpos := ?me\<rparr> else t)"
    have "extend_take s = Some (None, t')"
      using fm None unfolding extend_take_def Let_def s1_def [symmetric] s2_def [symmetric] by (simp add: t'_def)
    moreover have "same_place s t'" "mem_outcome None s t'" using pl mo None by (simp_all add: t'_def same_place_def mem_outcome_def)
    moreover have mc: "mcore t' = mcore t" by (simp add: t'_def)
    moreover have "unat (match_srcpos s) \<le> length S" using ex(1) by (simp add: extended_def)
    ultimately show ?thesis using en [OF g(2)] g(4) None gf(11-13) f1(11-13) ne mx(1) st(5) insts_mcore [OF mc]
      by (auto simp: t'_def s2_def)
  qed
qed

subsection \<open>The invariant of the search\<close>

text \<open>The configuration, which the search does not change.\<close>

definition search_ok :: "bytes \<Rightarrow> xd3_estream \<Rightarrow> bool" where
  "search_ok S s \<longleftrightarrow> length (ein s) < 2 ^ 63 \<and> length S < 2 ^ 63 \<and> iopt_unlimited s \<and> unencoded_offset s = 0
     \<and> \<not> srcwin_decided s \<and> eflags s AND XD3_BEGREEDY = 0 \<and> (\<forall>x. esrc s = Some x \<longrightarrow> memory_src S x)
     \<and> 4 \<le> unat (small_look (smatcher s)) \<and> unat (small_look (smatcher s)) < 2 ^ 32
     \<and> 0 < unat (large_look (smatcher s)) \<and> unat (large_look (smatcher s)) < 2 ^ 32
     \<and> 0 < unat (large_step (smatcher s)) \<and> unat (large_step (smatcher s)) < 2 ^ 32
     \<and> (eflags s AND XD3_NOCOMPRESS = 0 \<longrightarrow>
          (\<forall>c. unat (xd3_checksum_hash (small_hash s) c) < unat (xd3_hash_cfg.hsize (small_hash s))))
     \<and> (esrc s \<noteq> None \<longrightarrow>
          (\<forall>c. unat (xd3_checksum_hash (large_hash s) c) < unat (xd3_hash_cfg.hsize (large_hash s))))"

lemma search_ok_core:
  assumes "core t = core s"
  shows "search_ok S t = search_ok S s"
  using core_fields(1-7,10-12) [OF assms] unfolding search_ok_def by simp

text \<open>The source side: the large hash table holds positions of the source.\<close>

definition source_side :: "bytes \<Rightarrow> xd3_estream \<Rightarrow> bool" where
  "source_side S s \<longleftrightarrow> unat (match_srcpos s) \<le> length S \<and> match_state s \<in> {MATCH_TARGET, MATCH_SEARCHING}
     \<and> unat (srcwin_cksum_pos s) \<le> length S
     \<and> (\<forall>tab. large_table s = Some tab \<longrightarrow> length tab = unat (xd3_hash_cfg.hsize (large_hash s))
          \<and> (\<forall>e \<in> set tab. unat e \<le> length S))"

text \<open>The instruction buffer: \<open>entered S 0 s\<close> when nothing was entered at this position, \<open>entered S n s\<close>
  after a match of length \<open>n\<close>.\<close>

definition entered :: "bytes \<Rightarrow> usize_t \<Rightarrow> xd3_estream \<Rightarrow> bool" where
  "entered S n s \<longleftrightarrow>
     (if n = 0 then insts S (unat (input_position s)) s \<and> ends_before (unat (input_position s) + unat (min_match s)) s
      else min_match s \<le> n \<and> unat (input_position s) + unat n \<le> length (ein s)
        \<and> insts S (Suc (unat (input_position s))) s \<and> ends_before (Suc (unat (input_position s) + unat n)) s)"

lemma source_extend_match_ok:
  assumes c: "search_ok S s" and x: "esrc s = Some x" and su: "setup_ok S s" and en: "entered S 0 s" "0 < unat (min_match s)"
    and ms: "match_state s \<in> {MATCH_BACKWARD, MATCH_FORWARD}"
  shows "\<exists>r t. xd3_source_extend_match s = Some (r, t) \<and> same_place s t \<and> mem_outcome r s t \<and> (r = None \<longrightarrow>
     unat (match_srcpos t) \<le> length S \<and> match_state t \<in> {MATCH_TARGET, MATCH_SEARCHING} \<and> entered S (match_fwd t) t)"
proof -
  have m: "memory_src S x" "length (ein s) < 2 ^ 63" "length S < 2 ^ 63" "iopt_unlimited s"
    using c x by (auto simp: search_ok_def)
  obtain k where k: "extend_backward x s = Some (DONEBACK, s\<lparr>match_back := k, match_state := MATCH_FORWARD\<rparr>)"
    "extended S (s\<lparr>match_back := k\<rparr>)"
    using extend_backward_ok [OF m(1) x su m(2)] ms by auto
  define s1 where "s1 = s\<lparr>match_back := k, match_state := MATCH_FORWARD\<rparr>"
  have "extended S s1" using k(2) by (simp add: extended_def s1_def)
  then obtain f where f: "extend_forward x s1 = Some (DONEFWD, s1\<lparr>match_fwd := f\<rparr>)" "extended S (s1\<lparr>match_fwd := f\<rparr>)"
    using extend_forward_ok [OF m(1), of s1] x m(2) su by (auto simp: s1_def setup_ok_def)
  define s2 where "s2 = s1\<lparr>match_fwd := f, match_state := MATCH_SEARCHING\<rparr>"
  have e: "xd3_source_extend_match s = (if match_fwd s2 < min_match s2 then Some (None, s2\<lparr>match_fwd := 0\<rparr>) else extend_take s2)"
    using x k(1) f(1) by (simp add: xd3_source_extend_match_def extend_done_def Let_def s1_def s2_def)
  have mc: "mcore s2 = mcore s" by (simp add: s2_def s1_def)
  have pl: "same_place s s2" "same_place s (s2\<lparr>match_fwd := 0\<rparr>)" using mc by (simp_all add: same_place_mcore)
  have ex: "extended S s2" using f(2) by (simp add: extended_def s2_def)
  have ins: "insts S (unat (input_position s)) s2" "ends_before (unat (input_position s) + unat (min_match s)) s2"
    using en(1) insts_mcore [OF mc] by (simp_all add: entered_def)
  have pos: "input_position s2 = input_position s" "min_match s2 = min_match s" "ein s2 = ein s" "esrc s2 = esrc s"
    "iopt_unlimited s2 = iopt_unlimited s" "emem s2 = emem s" "match_state s2 = MATCH_SEARCHING" by (simp_all add: s2_def s1_def)
  show ?thesis
  proof (cases "match_fwd s2 < min_match s2")
    case True
    define t where "t = s2\<lparr>match_fwd := 0\<rparr>"
    have mt: "mcore t = mcore s2" by (simp add: t_def)
    have "unat (match_srcpos t) \<le> length S" using ex by (simp add: extended_def t_def)
    moreover have "entered S 0 t" using ins insts_mcore [OF mt] pos by (simp add: entered_def t_def)
    moreover have "xd3_source_extend_match s = Some (None, t)" using e True by (simp add: t_def)
    ultimately show ?thesis using pl(2) pos by (simp add: t_def mem_outcome_def)
  next
    case False
    then have le: "min_match s2 \<le> match_fwd s2" by simp
    obtain r t where t: "extend_take s2 = Some (r, t)" "same_place s2 t" "mem_outcome r s2 t"
      "r = None \<longrightarrow> insts S (Suc (unat (input_position s2))) t
         \<and> ends_before (Suc (unat (input_position s2) + unat (match_fwd s2))) t
         \<and> match_fwd t = match_fwd s2 \<and> unat (match_srcpos t) \<le> length S \<and> match_state t \<in> {MATCH_TARGET, MATCH_SEARCHING}"
      using extend_take_ok [of S s2] ins ex le en(2) x m pos by auto
    have tp: "input_position t = input_position s" "min_match t = min_match s" "ein t = ein s"
      using t(2) pos core_fields(1) [of t s2] by (auto simp: same_place_def)
    have fe: "unat (input_position s) + unat (match_fwd s2) \<le> length (ein s)" "match_fwd s2 \<noteq> 0"
      using ex pos le en(2) by (auto simp: extended_def word_le_nat_alt)
    have "r = None \<longrightarrow> entered S (match_fwd t) t" using t(4) fe tp le pos by (simp add: entered_def)
    moreover have "same_place s t" using pl(1) t(2) same_place_trans by blast
    moreover have "mem_outcome r s t" using t(3) pos by (simp add: mem_outcome_def)
    moreover have "xd3_source_extend_match s = Some (r, t)" using e False t(1) by simp
    ultimately show ?thesis using t(4) by blast
  qed
qed

subsection \<open>Property\<close>

text \<open>C29. \<open>xd3_forward_match\<close>, which compares eight words at a time and then single bytes, returns the length of the
  longest common prefix of its two arguments, up to \<open>n\<close>.\<close>

theorem forward_match_longest:
  assumes "n \<le> length s1" "n \<le> length s2"
  shows "xd3_forward_match s1 s2 n = (GREATEST k. k \<le> n \<and> take k s1 = take k s2)"
proof -
  note f = forward_match_spec [OF assms]
  let ?k = "xd3_forward_match s1 s2 n"
  have eq: "take k s1 = take k s2 \<longleftrightarrow> agree s1 s2 k" if "k \<le> n" for k
    using that assms by (auto simp: agree_def list_eq_iff_nth_eq)
  show ?thesis
  proof (rule Greatest_equality [symmetric])
    show "?k \<le> n \<and> take ?k s1 = take ?k s2" using f eq by blast
    show "k \<le> ?k" if "k \<le> n \<and> take k s1 = take k s2" for k
    proof (rule ccontr)
      assume "\<not> k \<le> ?k"
      then show False using that f(3) eq [of k] by (auto simp: agree_def)
    qed
  qed
qed

theorem forward_match_longest_witness:
  "xd3_forward_match [1, 2, 3, 9] [1, 2, 3, 4, 5] 4 = (GREATEST k. k \<le> 4 \<and> take k [1 :: u8, 2, 3, 9] = take k [1, 2, 3, 4, 5])"
  by (rule forward_match_longest) simp_all

end
