(* ===== verification/Xd3_MatchLoop.thy ===== *)
theory Xd3_MatchLoop
  imports Xd3_MatchSafe
begin

section \<open>The search loop ends and finds only true matches\<close>

text \<open>
  The loop of the string matcher over a whole window, for the streams that the memory functions set up: a
  source in memory in a single block, an instruction buffer that grows, no greedy matching. Every attempt
  at a match keeps the tables, the source side and the instruction buffer in order; the loop ends, fails
  only when an allocation fails, and leaves a buffer of instructions that reproduce the input.
\<close>

subsection \<open>Signed positions\<close>

lemma sint_signed: "sint (w :: u64) = signed_take_bit 63 (int (unat w))"
  unfolding sint_uint by simp

lemma sint_small:
  assumes "unat (w :: u64) < 2 ^ 63"
  shows "sint w = int (unat w)"
  unfolding sint_signed
proof (rule signed_take_bit_int_eq_self)
  show "- (2 ^ 63) \<le> int (unat w)" by (rule order_trans [of _ 0]) simp_all
  show "int (unat w) < 2 ^ 63" using assms by (metis of_nat_less_iff of_nat_numeral of_nat_power)
qed

lemma sint_large:
  assumes "2 ^ 63 \<le> unat (w :: u64)"
  shows "sint w < 0"
proof -
  have "unat w div 2 ^ 63 = 1" using assms unat_u64_lt [of w] by (intro div_nat_eqI) simp_all
  then have "bit (unat w) 63" by (simp add: bit_iff_odd)
  then have "bit (int (unat w)) 63" by (simp only: bit_of_nat_iff_bit)
  then show ?thesis unfolding sint_signed signed_take_bit_negative_iff .
qed

text \<open>One step back of the loop over a block.\<close>

lemma sint_step_back:
  assumes "unat (b :: u64) < 2 ^ 63" "unat st < 2 ^ 32" "unat (old :: u64) < 2 ^ 63" "sint (b - st) \<ge> sint old"
  shows "unat (b - st) = unat b - unat st" "unat st \<le> unat b"
proof -
  show le: "unat st \<le> unat b"
  proof (rule ccontr)
    assume lt: "\<not> ?thesis"
    then have "unat (b - st) = unat b + 2 ^ 64 - unat st" by (simp add: unat_sub_if')
    then have "sint (b - st) < 0" using assms(2) by (intro sint_large) simp
    then show False using assms(4) sint_small [OF assms(3)] by simp
  qed
  then show "unat (b - st) = unat b - unat st" by (rule unat_sub_le)
qed

lemma cksum_block_ok:
  assumes "unat blkpos + unat (large_look (smatcher s)) \<le> length S" "length S < 2 ^ 63" "unat oldpos < 2 ^ 63"
    and "large_table s = Some tab" "\<forall>c. unat (xd3_checksum_hash (large_hash s) c) < length tab"
    and "\<forall>e \<in> set tab. unat e \<le> length S"
    and "0 < unat (large_look (smatcher s))" "0 < unat (large_step (smatcher s))" "unat (large_step (smatcher s)) < 2 ^ 32"
  shows "\<exists>tab'. cksum_block S 0 oldpos blkpos s = Some (s\<lparr>large_table := Some tab'\<rparr>) \<and> length tab' = length tab
     \<and> (\<forall>e \<in> set tab'. unat e \<le> length S)"
  using assms
proof (induction "unat blkpos" arbitrary: blkpos s tab rule: less_induct)
  case less
  define hval where "hval = xd3_checksum_hash (large_hash s)
      (xd3_large64_cksum (large_hash s) (drop (unat blkpos) S) (unat (large_look (smatcher s))))"
  define tab1 where "tab1 = tab[unat hval := blkpos + 1]"
  define s1 where "s1 = s\<lparr>large_table := Some tab1\<rparr>"
  have h: "unat hval < length tab" using less.prems(5) by (simp add: hval_def)
  have b: "unat blkpos < 2 ^ 63" using less.prems(1,2) by simp
  have nn: "\<not> sint blkpos < 0" using sint_small [OF b] by simp
  have "unat (blkpos + 1) = unat blkpos + 1" using b by (subst unat_add_less) simp_all
  then have e1: "\<forall>e \<in> set tab1. unat e \<le> length S"
    using less.prems(1,6,7) set_update_subset_insert [of tab "unat hval" "blkpos + 1"] by (fastforce simp: tab1_def)
  have eq: "cksum_block S 0 oldpos blkpos s =
      (if sint (blkpos - large_step (smatcher s)) \<ge> sint oldpos
       then cksum_block S 0 oldpos (blkpos - large_step (smatcher s)) s1 else Some s1)"
    using nn less.prems(1,4) h by (subst cksum_block.simps) (simp add: Let_def hval_def tab1_def s1_def)
  show ?case
  proof (cases "sint (blkpos - large_step (smatcher s)) \<ge> sint oldpos")
    case True
    note st = sint_step_back [OF b less.prems(9,3) True]
    have "\<exists>tab'. cksum_block S 0 oldpos (blkpos - large_step (smatcher s)) s1 = Some (s1\<lparr>large_table := Some tab'\<rparr>)
       \<and> length tab' = length tab1 \<and> (\<forall>e \<in> set tab'. unat e \<le> length S)"
      by (rule less.hyps) (use st less.prems e1 in \<open>auto simp: s1_def tab1_def\<close>)
    then show ?thesis using True eq by (auto simp: s1_def tab1_def)
  next
    case False
    then show ?thesis using eq e1 by (auto simp: s1_def tab1_def)
  qed
qed


subsection \<open>Indexing the source\<close>

text \<open>A source in memory is indexed in one round, which ends at its end.\<close>

lemma move_point_loop_done:
  assumes "esrc s = Some x" "memory_src S x" "unat (srcwin_cksum_pos s) \<ge> length S"
  shows "move_point_loop target s = Some (None, s)"
proof -
  have "xd3_source_eof x = of_nat (length S)" "eof_known x" "unat (of_nat (length S) :: u64) = length S"
    using assms(2) by (auto simp: memory_src_def intro: unat_of_nat_less)
  then have "\<not> srcwin_cksum_pos s < xd3_source_eof x" using assms(3) by (simp add: word_less_nat_alt)
  then show ?thesis using assms(1) \<open>eof_known x\<close> by (subst move_point_loop.simps) simp
qed

lemma move_point_loop_ok:
  assumes c: "search_ok S s" and x: "esrc s = Some x" and t: "large_table s \<noteq> None" "source_side S s"
  shows "\<exists>tab p. move_point_loop target s = Some (None, s\<lparr>large_table := Some tab, srcwin_cksum_pos := p\<rparr>)
     \<and> length tab = unat (xd3_hash_cfg.hsize (large_hash s)) \<and> (\<forall>e \<in> set tab. unat e \<le> length S)"
proof -
  obtain tab where tab: "large_table s = Some tab" "length tab = unat (xd3_hash_cfg.hsize (large_hash s))"
    "\<forall>e \<in> set tab. unat e \<le> length S" using t by (auto simp: source_side_def)
  have cfg: "memory_src S x" "length S < 2 ^ 63" "0 < unat (large_look (smatcher s))" "unat (large_look (smatcher s)) < 2 ^ 32"
    "0 < unat (large_step (smatcher s))" "unat (large_step (smatcher s)) < 2 ^ 32"
    "\<forall>c. unat (xd3_checksum_hash (large_hash s) c) < length tab"
    using c x tab(2) by (auto simp: search_ok_def)
  let ?p = "srcwin_cksum_pos s"
  have mx: "xd3_source_eof x = of_nat (length S)" "eof_known x" "curblk x = Some S" "length S \<le> unat (blksize x)"
    "xd3_bytes_on_srcblk x 0 = of_nat (length S)" "unat (of_nat (length S) :: u64) = length S"
    using cfg(1) by (auto simp: memory_src_def intro: unat_of_nat_less)
  have same: "s\<lparr>large_table := Some tab, srcwin_cksum_pos := ?p\<rparr> = s" using tab(1) by (cases s) simp
  show ?thesis
  proof (cases "?p < target \<and> ?p < of_nat (length S)")
    case False
    then have "move_point_loop target s = Some (None, s)" using x mx by (subst move_point_loop.simps) auto
    then show ?thesis using same tab(2,3) by (intro exI [of _ tab] exI [of _ ?p])  auto
  next
    case True
    have lt: "unat ?p < length S" using True mx(6) by (simp add: word_less_nat_alt)
    have d: "xd3_blksize_div ?p (unat (shiftby x)) (maskby x) = (0, ?p)"
      using memory_src_div [OF cfg(1), of ?p] lt mx(4) by auto
    let ?ll = "large_look (smatcher s)"
    have sl: "sint (of_nat (length S) :: u64) = int (length S)" "sint ?ll = int (unat ?ll)"
      using sint_small [of "of_nat (length S)"] sint_small [of ?ll] mx(6) cfg(2,4) by simp_all
    define after where "after tab' = s\<lparr>large_table := Some tab', srcwin_cksum_pos := blksize x\<rparr>" for tab'
    have fin: "move_point_loop target (after tab') = Some (None, after tab')" for tab'
      by (rule move_point_loop_done [of _ x S]) (use x cfg(1) mx(4) in \<open>simp_all add: after_def\<close>)
    have step: "move_point_loop target s = (if length S < unat ?ll then move_point_loop target (after tab)
        else Option.bind (cksum_block S 0 ?p (of_nat (length S) - ?ll) s)
               (\<lambda>s2. move_point_loop target (s2\<lparr>srcwin_cksum_pos := blksize x\<rparr>)))"
    proof -
      have "after tab = s\<lparr>srcwin_cksum_pos := blksize x\<rparr>" using tab(1) by (cases s) (simp add: after_def)
      moreover have "sint (of_nat (length S) :: u64) < sint ?ll \<longleftrightarrow> length S < unat ?ll" unfolding sl of_nat_less_iff ..
      ultimately show ?thesis using True x d mx memory_src_getblk [OF cfg(1)]
        by (subst move_point_loop.simps) (simp add: Let_def esrc_same [OF x])
    qed
    show ?thesis
    proof (cases "length S < unat ?ll")
      case True
      then show ?thesis using step fin [of tab] tab(2,3) by (auto simp: after_def)
    next
      case False
      have u: "unat (of_nat (length S) - ?ll) = length S - unat ?ll" using False mx(6) by (simp add: unat_sub_le)
      obtain tab' where t': "cksum_block S 0 ?p (of_nat (length S) - ?ll) s = Some (s\<lparr>large_table := Some tab'\<rparr>)"
        "length tab' = length tab" "\<forall>e \<in> set tab'. unat e \<le> length S"
        using cksum_block_ok [of "of_nat (length S) - ?ll" s S ?p tab] u False lt cfg tab by auto
      have "move_point_loop target s = Some (None, after tab')"
        using step False t'(1) fin [of tab'] by (simp add: after_def)
      then show ?thesis using t'(2,3) tab(2) by (auto simp: after_def)
    qed
  qed
qed


lemma move_point_ok:
  assumes c: "search_ok S s" and x: "esrc s = Some x" and t: "large_table s \<noteq> None" "source_side S s"
    and m: "unat (maxsrcaddr s) \<le> length S"
  shows "\<exists>n tab p. xd3_srcwin_move_point nmp s = Some (None, n, s\<lparr>large_table := Some tab, srcwin_cksum_pos := p\<rparr>)
     \<and> source_side S (s\<lparr>large_table := Some tab, srcwin_cksum_pos := p\<rparr>)"
proof -
  obtain tab0 where tab0: "large_table s = Some tab0" using t by blast
  have mx: "xd3_source_eof x = of_nat (length S)" "eof_known x" "unat (of_nat (length S) :: u64) = length S"
    using c x by (auto simp: search_ok_def memory_src_def intro: unat_of_nat_less)
  show ?thesis
  proof (cases "srcwin_cksum_pos s = of_nat (length S)")
    case True
    have "s\<lparr>large_table := Some tab0, srcwin_cksum_pos := srcwin_cksum_pos s\<rparr> = s" using tab0 by (cases s) simp
    then show ?thesis using True x mx t(2)
      by (intro exI [of _ USIZE_T_MAX] exI [of _ tab0] exI [of _ "srcwin_cksum_pos s"]) (simp add: xd3_srcwin_move_point_def)
  next
    case False
    define s1 where "s1 = s\<lparr>srcwin_cksum_pos := max (maxsrcaddr s) (srcwin_cksum_pos s)\<rparr>"
    define target where "target = max (srcwin_cksum_pos s1) (move_point_target x s)"
    have s1: "search_ok S s1" "esrc s1 = Some x" "large_table s1 \<noteq> None" "source_side S s1"
      using c x t m search_ok_core [of s1 s S] by (auto simp: s1_def source_side_def max_def)
    obtain tab p where l: "move_point_loop target s1 = Some (None, s1\<lparr>large_table := Some tab, srcwin_cksum_pos := p\<rparr>)"
      "length tab = unat (xd3_hash_cfg.hsize (large_hash s))" "\<forall>e \<in> set tab. unat e \<le> length S"
      using move_point_loop_ok [OF s1, of target] by (auto simp: s1_def)
    define q where "q = (if p \<ge> of_nat (length S) then of_nat (length S) else p)"
    have q: "unat q \<le> length S" using mx(3) by (auto simp: q_def word_le_nat_alt)
    have "\<exists>n. xd3_srcwin_move_point nmp s = Some (None, n, s\<lparr>large_table := Some tab, srcwin_cksum_pos := q\<rparr>)"
      using x mx False l(1) unfolding xd3_srcwin_move_point_def
      by (simp add: Let_def s1_def [symmetric] target_def [symmetric])
         (auto simp: move_point_done_def s1_def q_def)
    moreover have "source_side S (s\<lparr>large_table := Some tab, srcwin_cksum_pos := q\<rparr>)"
      using t(2) l q by (simp add: source_side_def)
    ultimately show ?thesis by blast
  qed
qed

subsection \<open>One attempt at a match\<close>

text \<open>The state at a position: the tables, the source side and the instruction buffer.\<close>

definition tables_ok :: "bytes \<Rightarrow> nat \<Rightarrow> xd3_estream \<Rightarrow> bool" where
  "tables_ok S n s \<longleftrightarrow> search_ok S s \<and> source_side S s \<and> (DO_SMALL s \<longrightarrow> small_ok n s)
     \<and> (DO_LARGE s \<longrightarrow> large_table s \<noteq> None)"

lemma small_ok_mono: "small_ok n s \<Longrightarrow> n \<le> m \<Longrightarrow> small_ok m s"
  unfolding small_ok_def by (meson le_trans)

lemma small_ok_cong:
  assumes "core t = core s" "small_table t = small_table s" "small_prev t = small_prev s"
  shows "small_ok n t = small_ok n s"
  using core_fields(5,7,8) [OF assms(1)] assms(2,3) unfolding small_ok_def inited_def by simp

text \<open>How an attempt ends: it fails only when an allocation fails; a match that is found has entered the
  buffer, otherwise the buffer is as it was.\<close>

definition try_ok :: "bytes \<Rightarrow> nat \<Rightarrow> match_found \<Rightarrow> xd3_estream \<Rightarrow> xd3_estream \<Rightarrow> bool" where
  "try_ok S n f s t \<longleftrightarrow> core t = core s \<and> input_position t = input_position s \<and> min_match t = min_match s
     \<and> (mem_ok (emem s) \<longrightarrow> mem_ok (emem t))
     \<and> (case f of FAILED e \<Rightarrow> e = ENOMEM \<and> \<not> mem_ok (emem s)
        | FOUND k \<Rightarrow> tables_ok S n t \<and> k \<noteq> 0 \<and> entered S k t
        | NOTFOUND \<Rightarrow> tables_ok S n t \<and> entered S 0 t)"

lemma tables_ok_place:
  assumes "tables_ok S n s" "same_place s t" "unat (match_srcpos t) \<le> length S" "match_state t \<in> {MATCH_TARGET, MATCH_SEARCHING}"
  shows "tables_ok S n t"
proof -
  have p: "core t = core s" "small_table t = small_table s" "small_prev t = small_prev s" "large_table t = large_table s"
    "srcwin_cksum_pos t = srcwin_cksum_pos s" using assms(2) by (simp_all add: same_place_def)
  show ?thesis
    using assms p search_ok_core [OF p(1)] small_ok_cong [OF p(1-3)] core_fields(2,4,6) [OF p(1)]
    by (simp add: tables_ok_def source_side_def DO_SMALL_def DO_LARGE_def)
qed

lemma large_lookup_ok:
  assumes t: "tables_ok S n s" and e: "entered S 0 s" "0 < unat (min_match s)" and x: "DO_LARGE s"
    and p: "unat (input_position s) \<le> length (ein s)"
  shows "\<exists>f t. large_lookup c s = Some (f, t) \<and> try_ok S n f s t"
proof -
  obtain source where src: "esrc s = Some source" using x by (auto simp: DO_LARGE_def)
  have ok: "search_ok S s" "source_side S s" using t by (simp_all add: tables_ok_def)
  obtain tab where tab: "large_table s = Some tab" "length tab = unat (xd3_hash_cfg.hsize (large_hash s))"
    "\<forall>e \<in> set tab. unat e \<le> length S" using t x by (auto simp: tables_ok_def source_side_def)
  let ?i = "xd3_checksum_hash (large_hash s) c"
  have i: "unat ?i < length tab" using ok(1) src tab(2) by (simp add: search_ok_def)
  define e0 where "e0 = tab ! unat ?i"
  have e0: "unat e0 \<le> length S" using tab(3) i by (simp add: e0_def)
  obtain b t1 where su: "xd3_source_match_setup source (e0 - 1) s = (b, t1)" by force
  have ms: "memory_src S source" "unencoded_offset s = 0" "\<not> srcwin_decided s" "eflags s AND XD3_BEGREEDY = 0"
    "length (ein s) < 2 ^ 63" using ok(1) src by (auto simp: search_ok_def)
  have sp: "unat (match_srcpos s) \<le> length S" using ok(2) by (simp add: source_side_def)
  have nf: "try_ok S n NOTFOUND s s" using t e by (simp add: try_ok_def)
  show ?thesis
  proof (cases "e0 = 0")
    case True
    then show ?thesis using nf tab(1) src i by (auto simp: large_lookup_def e0_def)
  next
    case False
    have "unat (e0 - 1) \<le> length S" using e0 unat_minus_1 [OF False] by simp
    note st = match_setup_ok [OF ms(1-4) p ms(5) this su]
    have pl: "same_place s t1" by (rule same_place_mcore [OF st(1)])
    have en: "entered S 0 t1" using e(1) insts_mcore [OF st(1)] mcore_fields(6,7) [OF st(1)] by (simp add: entered_def)
    note f1 = mcore_fields [OF st(1)]
    have lk: "large_lookup c s = (if b then Option.bind (xd3_source_extend_match t1) (\<lambda>(r, s2).
        Some (case r of Some e \<Rightarrow> FAILED e | None \<Rightarrow> if match_fwd s2 > 0 then FOUND (match_fwd s2) else NOTFOUND, s2))
        else Some (NOTFOUND, t1))"
      using tab(1) src i False su by (simp add: large_lookup_def e0_def split: bool.split)
    show ?thesis
    proof (cases b)
      case False
      then have "tables_ok S n t1" using tables_ok_place [OF t pl] st(2,5) sp by simp
      then have "try_ok S n NOTFOUND s t1" using en f1 by (simp add: try_ok_def)
      then show ?thesis using lk False by simp
    next
      case True
      have c1: "search_ok S t1" "esrc t1 = Some source" "setup_ok S t1" "0 < unat (min_match t1)"
        "match_state t1 \<in> {MATCH_BACKWARD, MATCH_FORWARD}"
        using ok(1) search_ok_core [OF f1(1)] src core_fields(2) [OF f1(1)] st(4) [OF True] e(2) f1(7) by simp_all
      obtain r t2 where r: "xd3_source_extend_match t1 = Some (r, t2)" "same_place t1 t2" "mem_outcome r t1 t2"
        "r = None \<longrightarrow> unat (match_srcpos t2) \<le> length S \<and> match_state t2 \<in> {MATCH_TARGET, MATCH_SEARCHING} \<and> entered S (match_fwd t2) t2"
        using source_extend_match_ok [OF c1(1-3) en c1(4,5)] by blast
      define f where "f = (case r of Some e \<Rightarrow> FAILED e | None \<Rightarrow> if match_fwd t2 > 0 then FOUND (match_fwd t2) else NOTFOUND)"
      have pl2: "same_place s t2" by (rule same_place_trans [OF pl r(2)])
      have "try_ok S n f s t2"
      proof (cases r)
        case None
        then have "tables_ok S n t2" using tables_ok_place [OF t pl2] r(4) by simp
        then show ?thesis using None r(3,4) pl2 f1(2) by (auto simp: try_ok_def f_def same_place_def mem_outcome_def word_gt_0)
      next
        case (Some e)
        then show ?thesis using r(3) pl2 f1(2) by (auto simp: try_ok_def f_def same_place_def mem_outcome_def)
      qed
      then show ?thesis using lk True r(1) by (simp add: f_def)
    qed
  qed
qed

lemma enter_try_ok:
  assumes t: "tables_ok S m s" and e: "entered S 0 s" "0 < unat (min_match s)"
    and i: "rpos i = input_position s" "min_match s \<le> rsize i"
      "inst_ok S (unat (match_minaddr s)) (unat (match_maxaddr s)) (ein s) i" "rtype i = XD3_CPY \<and> xtra i \<noteq> 0 \<longrightarrow> esrc s \<noteq> None"
  shows "\<exists>r t. xd3_iopt_get_slot i s = Some (r, t)
     \<and> try_ok S m (case r of Some e \<Rightarrow> FAILED e | None \<Rightarrow> FOUND (rsize i)) s t"
proof -
  have un: "iopt_unlimited s" using t by (simp add: tables_ok_def search_ok_def)
  obtain r t where g: "xd3_iopt_get_slot i s = Some (r, t)" "icore t = icore s" "mem_outcome r s t"
    "r = None \<longrightarrow> iopt_used t = iopt_used s @ [i]" using get_slot_ok [OF un, of i] by blast
  note f = icore_fields [OF g(2)] and c = core_fields [OF icore_fields(1) [OF g(2)]]
  have ins: "insts S (unat (input_position s)) s" "ends_before (unat (input_position s) + unat (min_match s)) s"
    using e(1) by (simp_all add: entered_def)
  have "try_ok S m (case r of Some e \<Rightarrow> FAILED e | None \<Rightarrow> FOUND (rsize i)) s t"
  proof (cases r)
    case (Some e)
    then show ?thesis using g(3) f(1,5,6) by (auto simp: try_ok_def mem_outcome_def)
  next
    case None
    have le: "unat (input_position s) + unat (min_match s) \<le> nend i" using i(1,2) by (simp add: nend_def word_le_nat_alt)
    have "\<forall>r \<in> set (iopt_used s). unat (rpos r) < unat (rpos i)" "ends_before (nend i) s"
      using ins i(1) le by (auto simp: insts_def ends_before_def)
    then have "insts S (Suc (unat (input_position s))) t \<and> ends_before (Suc (nend i)) t"
      using insts_enter [OF ins(1) f(1) _ f(7-9) i(3,4), of "Suc (unat (input_position s))"] g(4) None i(1) by simp
    moreover have "unat (input_position s) + unat (rsize i) \<le> length (ein s)" using i(1,3) by (simp add: inst_ok_def)
    moreover have "rsize i \<noteq> 0" using i(2) e(2) by (auto simp: word_le_nat_alt)
    ultimately have "entered S (rsize i) t" using f(5,6) c(1) i(1,2) by (simp add: entered_def nend_def)
    moreover have "tables_ok S m t"
      using tables_ok_place [OF t same_place_icore [OF g(2)]] t f(11,12) by (simp add: tables_ok_def source_side_def)
    ultimately show ?thesis using None g(3) f(1,5,6) \<open>rsize i \<noteq> 0\<close> by (auto simp: try_ok_def mem_outcome_def)
  qed
  then show ?thesis using g(1) by blast
qed

lemma try_ok_trans:
  assumes "core t = core s" "input_position t = input_position s" "min_match t = min_match s" "emem t = emem s"
    "try_ok S n f t u"
  shows "try_ok S n f s u"
  using assms by (cases f) (auto simp: try_ok_def)

lemma unat_pos_add:
  assumes "search_ok S s" "unat (input_position s) \<le> length (ein s)" "unat n < 2 ^ 32"
  shows "unat (input_position s + n) = unat (input_position s) + unat n" "unat (avail_in s) = length (ein s)"
proof -
  have l: "length (ein s) < 2 ^ 63" using assms(1) by (simp add: search_ok_def)
  then show "unat (avail_in s) = length (ein s)" by (rule unat_avail_in)
  show "unat (input_position s + n) = unat (input_position s) + unat n" using assms(2,3) l by (intro unat_add_less) simp
qed

lemma try_large_ok:
  assumes t: "tables_ok S n s" and e: "entered S 0 s" "0 < unat (min_match s)" and p: "unat (input_position s) \<le> length (ein s)"
  shows "\<exists>f k u. try_large l s = Some (f, l\<lparr>next_move_point := k\<rparr>, u) \<and> try_ok S n f s u"
proof (cases "DO_LARGE s \<and> input_position s + large_look (smatcher s) \<le> avail_in s")
  case False
  have "l\<lparr>next_move_point := next_move_point l\<rparr> = l" by simp
  then show ?thesis using False t e
    by (intro exI [of _ NOTFOUND] exI [of _ "next_move_point l"] exI [of _ s]) (auto simp: try_large_def try_ok_def)
next
  case True
  obtain source where src: "esrc s = Some source" using True by (auto simp: DO_LARGE_def)
  have ok: "search_ok S s" "source_side S s" "large_table s \<noteq> None" using t True by (simp_all add: tables_ok_def)
  have mx: "unat (maxsrcaddr s) \<le> length S" using e(1) by (simp add: entered_def insts_def)
  obtain k s1 where m: "move_point_due l s = Some (None, k, s1)" "core s1 = core s" "input_position s1 = input_position s"
    "min_match s1 = min_match s" "emem s1 = emem s" "tables_ok S n s1" "entered S 0 s1"
  proof (cases "input_position s \<ge> next_move_point l")
    case False
    then have "move_point_due l s = Some (None, next_move_point l, s)" by (simp add: move_point_due_def)
    then show ?thesis using that t e(1) by blast
  next
    case True
    obtain k tab q where q: "xd3_srcwin_move_point (next_move_point l) s = Some (None, k, s\<lparr>large_table := Some tab, srcwin_cksum_pos := q\<rparr>)"
      "source_side S (s\<lparr>large_table := Some tab, srcwin_cksum_pos := q\<rparr>)"
      using move_point_ok [OF ok(1) src ok(3,2) mx] by blast
    define s1 where "s1 = s\<lparr>large_table := Some tab, srcwin_cksum_pos := q\<rparr>"
    have "core s1 = core s" by (simp add: s1_def)
    then have "tables_ok S n s1"
      using t q(2) search_ok_core [of s1 s] small_ok_cong [of s1 s]
      by (simp add: tables_ok_def s1_def DO_SMALL_def DO_LARGE_def)
    moreover have "entered S 0 s1" using e(1) by (simp add: entered_def insts_def used_ok_def ends_before_def s1_def)
    moreover have "move_point_due l s = Some (None, k, s1)" using True q(1) by (simp add: move_point_due_def s1_def)
    ultimately show ?thesis using that [of k s1] by (simp add: s1_def)
  qed
  have "DO_LARGE s1" "unat (input_position s1) \<le> length (ein s1)" "0 < unat (min_match s1)"
    using True core_fields(1,2) [OF m(2)] p e(2) m(3,4) by (simp_all add: DO_LARGE_def)
  from large_lookup_ok [OF m(6,7) this(3,1,2), of "lcksum l"]
  obtain f u where f: "large_lookup (lcksum l) s1 = Some (f, u)" "try_ok S n f s1 u" by blast
  then show ?thesis using True m(1) try_ok_trans [OF m(2-5) f(2)] by (auto simp: try_large_def)
qed

lemma try_small_ok:
  assumes t: "tables_ok S (unat (input_position s)) s" and e: "entered S 0 s" "4 \<le> unat (min_match s)"
    and p: "unat (input_position s) \<le> length (ein s)"
  shows "\<exists>f off u. try_small l s = Some (f, l\<lparr>match_offset := off\<rparr>, u) \<and> try_ok S (Suc (unat (input_position s))) f s u"
proof (cases "DO_SMALL s")
  case False
  have "l\<lparr>match_offset := match_offset l\<rparr> = l" by simp
  then show ?thesis using False t e
    by (intro exI [of _ NOTFOUND] exI [of _ "match_offset l"] exI [of _ s]) (auto simp: try_small_def try_ok_def tables_ok_def)
next
  case True
  let ?i = "xd3_checksum_hash (small_hash s) (ucast (scksum l))" and ?p = "unat (input_position s)"
  have ok: "search_ok S s" "small_ok ?p s" "source_side S s" using t True by (simp_all add: tables_ok_def)
  have l63: "length (ein s) < 2 ^ 63" using ok(1) by (simp add: search_ok_def)
  have i: "unat ?i < unat (xd3_hash_cfg.hsize (small_hash s))" using ok(1) True by (simp add: search_ok_def DO_SMALL_def)
  obtain len off where lk: "small_lookup ?i (match_offset l) s = Some (len, off)" "tmatch s (len, off)"
    using small_lookup_ok [OF ok(2) order_refl i p l63] by fastforce
  have p63: "?p < 2 ^ 63" using p l63 by simp
  obtain tab prev where sc: "xd3_scksum_insert ?i (input_position s) s = Some (s\<lparr>small_table := tab, small_prev := prev\<rparr>)"
    "small_ok (Suc ?p) (s\<lparr>small_table := tab, small_prev := prev\<rparr>)"
    using scksum_insert_ok [OF ok(2) order_refl p63 i] by blast
  define s1 where "s1 = s\<lparr>small_table := tab, small_prev := prev\<rparr>"
  have c1: "core s1 = core s" by (simp add: s1_def)
  have t1: "tables_ok S (Suc ?p) s1"
    using t ok sc(2) search_ok_core [OF c1] by (simp add: tables_ok_def s1_def source_side_def DO_LARGE_def)
  have e1: "entered S 0 s1" using e(1) by (simp add: entered_def insts_def used_ok_def ends_before_def s1_def)
  have s1f: "input_position s1 = input_position s" "min_match s1 = min_match s" "emem s1 = emem s" "ein s1 = ein s"
    "match_minaddr s1 = match_minaddr s" "match_maxaddr s1 = match_maxaddr s" by (simp_all add: s1_def)
  show ?thesis
  proof (cases "len \<ge> min_match s1")
    case False
    then have "try_small l s = Some (NOTFOUND, l\<lparr>match_offset := off\<rparr>, s1)"
      using True lk(1) sc(1) by (simp add: try_small_def Let_def s1_def)
    moreover have "try_ok S (Suc ?p) NOTFOUND s s1" using t1 e1 c1 s1f by (simp add: try_ok_def)
    ultimately show ?thesis by blast
  next
    case le: True
    define i where "i = \<lparr>rtype = XD3_CPY, xtra = of_bool False, code1 = 0, code2 = 0, rpos = input_position s1, rsize = len, raddr = off\<rparr>"
    have len0: "len \<noteq> 0" using le e(2) s1f by (auto simp: word_le_nat_alt)
    have "inst_ok S (unat (match_minaddr s1)) (unat (match_maxaddr s1)) (ein s1) i"
      using lk(2) len0 s1f by (auto simp: inst_ok_def i_def tmatch_def unat_gt_0)
    then obtain r u where r: "xd3_iopt_get_slot i s1 = Some (r, u)"
      "try_ok S (Suc ?p) (case r of Some e \<Rightarrow> FAILED e | None \<Rightarrow> FOUND (rsize i)) s1 u"
      using enter_try_ok [OF t1 e1, of i] e(2) le s1f by (auto simp: i_def)
    have "try_small l s = Some (case r of Some e \<Rightarrow> FAILED e | None \<Rightarrow> FOUND len, l\<lparr>match_offset := off\<rparr>, u)"
      using True lk(1) sc(1) le r(1)
      by (simp add: try_small_def Let_def s1_def [symmetric] xd3_found_match_def i_def)
    moreover have "try_ok S (Suc ?p) (case r of Some e \<Rightarrow> FAILED e | None \<Rightarrow> FOUND len) s u"
      using try_ok_trans [OF c1 s1f(1-3) r(2)] by (cases r) (simp_all add: i_def)
    ultimately show ?thesis by blast
  qed
qed


text \<open>The run state: while \<open>run_l\<close> is at most \<open>small_look\<close>, the last \<open>run_l\<close> bytes of the look-ahead are
  \<open>run_c\<close>. It is larger after a run was expanded.\<close>

definition run_ok :: "match_vars \<Rightarrow> xd3_estream \<Rightarrow> bool" where
  "run_ok l s \<longleftrightarrow> (let n = unat (small_look (smatcher s)); p = unat (input_position s)
     in unat (run_l l) \<le> p + length (ein s) \<and> p + n \<le> length (ein s)
       \<and> (unat (run_l l) \<le> n \<longrightarrow> (\<forall>k < unat (run_l l). ein s ! (p + n - 1 - k) = run_c l)))"

lemma expand_run_spec:
  assumes "\<forall>k < n. inp ! k = c" "n \<le> length inp"
  shows "n \<le> expand_run inp c n \<and> expand_run inp c n \<le> length inp \<and> (\<forall>k < expand_run inp c n. inp ! k = c)"
  using assms
proof (induction "length inp - n" arbitrary: n)
  case 0
  then show ?case by (subst expand_run.simps, subst (2) expand_run.simps, subst (3) expand_run.simps) simp
next
  case (Suc m)
  show ?case
  proof (cases "inp ! n = c")
    case True
    have "Suc n \<le> expand_run inp c (Suc n) \<and> expand_run inp c (Suc n) \<le> length inp \<and> (\<forall>k < expand_run inp c (Suc n). inp ! k = c)"
      by (rule Suc.hyps(1)) (use Suc.hyps(2) Suc.prems True in \<open>auto simp: less_Suc_eq\<close>)
    moreover have "n < length inp" using Suc.hyps(2) by simp
    then have "expand_run inp c n = expand_run inp c (Suc n)" using True by (subst expand_run.simps) simp
    ultimately show ?thesis by simp
  next
    case False
    then have "expand_run inp c n = n" by (subst expand_run.simps) simp
    then show ?thesis using Suc.prems by simp
  qed
qed

lemma try_run_ok:
  assumes t: "tables_ok S n s" and e: "entered S 0 s" "4 \<le> unat (min_match s)" and r: "run_ok l s"
  shows "\<exists>f k u. try_run l s = Some (f, l\<lparr>run_l := k\<rparr>, u) \<and> try_ok S n f s u \<and> run_ok (l\<lparr>run_l := k\<rparr>) s"
proof (cases "run_l l = small_look (smatcher s)")
  case False
  have "l\<lparr>run_l := run_l l\<rparr> = l" by simp
  then show ?thesis using False t e r
    by (intro exI [of _ NOTFOUND] exI [of _ "run_l l"] exI [of _ s]) (auto simp: try_run_def try_ok_def)
next
  case True
  let ?p = "unat (input_position s)" and ?n = "unat (small_look (smatcher s))"
  define inp where "inp = drop ?p (ein s)"
  have r': "?p + ?n \<le> length (ein s)" "\<forall>k < ?n. ein s ! (?p + ?n - 1 - k) = run_c l"
    using r True by (auto simp: run_ok_def Let_def)
  have all: "\<forall>k < ?n. inp ! k = run_c l"
  proof (intro allI impI)
    fix k assume "k < ?n"
    then show "inp ! k = run_c l" using r'(1) r'(2) [rule_format, of "?n - 1 - k"] by (simp add: inp_def)
  qed
  define m where "m = expand_run inp (run_c l) ?n"
  have m: "?n \<le> m" "m \<le> length inp" "\<forall>k < m. inp ! k = run_c l"
    using expand_run_spec [OF all] r'(1) by (simp_all add: m_def inp_def)
  have l63: "length (ein s) < 2 ^ 63" using t by (simp add: tables_ok_def search_ok_def)
  define w :: usize_t where "w = of_nat m"
  have w: "unat w = m" unfolding w_def using m(2) l63 by (intro unat_of_nat_less) (simp add: inp_def)
  have ml: "?p + m \<le> length (ein s)" using m(2) r'(1) by (simp add: inp_def)
  have ro: "run_ok (l\<lparr>run_l := w\<rparr>) s"
    using m w ml r' by (auto simp: run_ok_def Let_def)
  have ib: "inp_bytes 0 s = Some inp" using r'(1) by (simp add: inp_bytes_def inp_def)
  show ?thesis
  proof (cases "w \<ge> min_match s \<and> w \<ge> MIN_RUN")
    case False
    then have "try_run l s = Some (NOTFOUND, l\<lparr>run_l := w\<rparr>, s)"
      using True False ib by (auto simp: try_run_def Let_def m_def w_def)
    moreover have "try_ok S n NOTFOUND s s" using t e by (simp add: try_ok_def)
    ultimately show ?thesis using ro by blast
  next
    case ge: True
    define i where "i = \<lparr>rtype = XD3_RUN, xtra = run_c l, code1 = 0, code2 = 0, rpos = input_position s, rsize = w, raddr = 0\<rparr>"
    have "0 < m" using ge e(2) w by (simp add: word_le_nat_alt)
    then have "inst_ok S (unat (match_minaddr s)) (unat (match_maxaddr s)) (ein s) i"
      using m w ml by (auto simp: inst_ok_def i_def inp_def)
    then obtain r u where r: "xd3_iopt_get_slot i s = Some (r, u)"
      "try_ok S n (case r of Some e \<Rightarrow> FAILED e | None \<Rightarrow> FOUND (rsize i)) s u"
      using enter_try_ok [OF t e(1), of i] e(2) ge by (auto simp: i_def XD3_RUN_def XD3_CPY_def)
    have "try_run l s = Some (case r of Some e \<Rightarrow> FAILED e | None \<Rightarrow> FOUND w, l\<lparr>run_l := w\<rparr>, u)"
      using True ib ge r(1) by (cases r) (simp_all add: try_run_def Let_def m_def w_def xd3_emit_run_def i_def)
    moreover have "try_ok S n (case r of Some e \<Rightarrow> FAILED e | None \<Rightarrow> FOUND w) s u"
      using r(2) by (cases r) (simp_all add: i_def)
    ultimately show ?thesis using ro by blast
  qed
qed

subsection \<open>One round\<close>

lemma insts_mono: "insts S n s \<Longrightarrow> n \<le> m \<Longrightarrow> insts S m s"
  unfolding insts_def by (meson less_le_trans)

lemma ends_before_mono: "ends_before n s \<Longrightarrow> n \<le> m \<Longrightarrow> ends_before m s"
  unfolding ends_before_def by (meson less_le_trans)

lemma tables_ok_mono: "tables_ok S n s \<Longrightarrow> n \<le> m \<Longrightarrow> tables_ok S m s"
  unfolding tables_ok_def using small_ok_mono by blast

text \<open>The tables and the buffer do not look at the position and the length to beat.\<close>

lemma place_free [simp]:
  "tables_ok S n (s\<lparr>input_position := p\<rparr>) = tables_ok S n s" "tables_ok S n (s\<lparr>min_match := k\<rparr>) = tables_ok S n s"
  "insts S n (s\<lparr>input_position := p\<rparr>) = insts S n s" "insts S n (s\<lparr>min_match := k\<rparr>) = insts S n s"
  "ends_before n (s\<lparr>input_position := p\<rparr>) = ends_before n s" "ends_before n (s\<lparr>min_match := k\<rparr>) = ends_before n s"
proof -
  have c: "core (s\<lparr>input_position := p\<rparr>) = core s" "core (s\<lparr>min_match := k\<rparr>) = core s" by simp_all
  show "tables_ok S n (s\<lparr>input_position := p\<rparr>) = tables_ok S n s" "tables_ok S n (s\<lparr>min_match := k\<rparr>) = tables_ok S n s"
    using search_ok_core [OF c(1)] search_ok_core [OF c(2)] small_ok_cong [OF c(1)] small_ok_cong [OF c(2)]
    by (simp_all add: tables_ok_def source_side_def DO_SMALL_def DO_LARGE_def)
qed (simp_all add: insts_def used_ok_def ends_before_def)

definition loop_inv :: "bytes \<Rightarrow> match_vars \<Rightarrow> xd3_estream \<Rightarrow> bool" where
  "loop_inv S l s \<longleftrightarrow> tables_ok S (unat (input_position s)) s \<and> entered S 0 s \<and> 4 \<le> unat (min_match s) \<and> run_ok l s"

definition restart_inv :: "bytes \<Rightarrow> xd3_estream \<Rightarrow> bool" where
  "restart_inv S s \<longleftrightarrow> tables_ok S (unat (input_position s)) s \<and> insts S (unat (input_position s)) s
     \<and> unat (input_position s) \<le> length (ein s)"

definition search_done :: "bytes \<Rightarrow> xd3_estream \<Rightarrow> bool" where
  "search_done S s \<longleftrightarrow> (\<exists>n. tables_ok S n s \<and> insts S n s)"

definition step_ok :: "bytes \<Rightarrow> xd3_estream \<Rightarrow> match_pc \<times> match_vars \<times> xd3_estream \<Rightarrow> bool" where
  "step_ok S s = (\<lambda>(pc, l, t). core t = core s \<and> (mem_ok (emem s) \<longrightarrow> mem_ok (emem t))
     \<and> (case pc of
          RETURN r \<Rightarrow> r = None \<and> search_done S t \<or> r = Some ENOMEM \<and> \<not> mem_ok (emem s)
        | LOOP \<Rightarrow> loop_inv S l t \<and> unat (input_position t) > unat (input_position s)
        | RESTARTLOOP \<Rightarrow> restart_inv S t \<and> unat (input_position t) > unat (input_position s)))"

lemma step_ok_trans:
  assumes "core t = core s" "mem_ok (emem s) \<longrightarrow> mem_ok (emem t)" "input_position t = input_position s" "step_ok S t x"
  shows "step_ok S s x"
proof (cases x)
  case (fields pc l u)
  then show ?thesis using assms by (cases pc) (auto simp: step_ok_def)
qed

lemma update_small_ok:
  assumes "unat (input_position s) + 5 \<le> length (ein s)"
  shows "\<exists>c. update_small l s = Some (l\<lparr>scksum := c\<rparr>)"
proof -
  have "l\<lparr>scksum := scksum l\<rparr> = l" by simp
  then show ?thesis using assms by (cases "DO_SMALL s") (auto simp: update_small_def inp_bytes_def intro: exI [of _ "scksum l"])
qed

lemma update_large_ok:
  assumes "search_ok S s" "unat (input_position s) \<le> length (ein s)"
  shows "\<exists>c. update_large l s = Some (l\<lparr>lcksum := c\<rparr>)"
proof (cases "DO_LARGE s \<and> input_position s + large_look (smatcher s) < avail_in s")
  case True
  have "unat (large_look (smatcher s)) < 2 ^ 32" using assms(1) by (simp add: search_ok_def)
  from unat_pos_add [OF assms this] True
  show ?thesis by (auto simp: update_large_def inp_bytes_def word_less_nat_alt)
next
  case False
  have "l\<lparr>lcksum := lcksum l\<rparr> = l" by simp
  then show ?thesis using False by (auto simp: update_large_def intro: exI [of _ "lcksum l"])
qed

lemma updateone_ok:
  assumes t: "tables_ok S (Suc (unat (input_position s))) s" "insts S (Suc (unat (input_position s))) s"
      "ends_before (Suc (unat (input_position s) + unat (min_match s))) s" "4 \<le> unat (min_match s)"
    and r: "run_ok l s"
  shows "\<exists>x. updateone l s = Some x \<and> step_ok S s x"
proof -
  let ?p = "unat (input_position s)" and ?n = "unat (small_look (smatcher s))"
  have so: "search_ok S s" "4 \<le> ?n" "?n < 2 ^ 32" "length (ein s) < 2 ^ 63"
    using t(1) by (auto simp: tables_ok_def search_ok_def)
  have le: "?p + ?n \<le> length (ein s)" using r by (simp add: run_ok_def Let_def)
  then have p: "?p \<le> length (ein s)" by simp
  note u = unat_pos_add [OF so(1) p so(3)]
  show ?thesis
  proof (cases "input_position s + small_look (smatcher s) = avail_in s")
    case True
    then show ?thesis using t by (auto simp: updateone_def step_ok_def search_done_def)
  next
    case False
    then have lt: "?p + ?n < length (ein s)" using le u by (simp add: word_unat_eq_iff)
    define c where "c = ein s ! (?p + ?n)"
    obtain rl rc where nr: "NEXTRUN c (run_l l, run_c l) = (rl, rc)" by force
    obtain sc where sc: "update_small (l\<lparr>run_l := rl, run_c := rc\<rparr>) s = Some (l\<lparr>run_l := rl, run_c := rc, scksum := sc\<rparr>)"
      using update_small_ok [of s "l\<lparr>run_l := rl, run_c := rc\<rparr>"] lt so(2) by auto
    obtain lc where lc: "update_large (l\<lparr>run_l := rl, run_c := rc, scksum := sc\<rparr>) s
        = Some (l\<lparr>run_l := rl, run_c := rc, scksum := sc, lcksum := lc\<rparr>)"
      using update_large_ok [OF so(1) p, of "l\<lparr>run_l := rl, run_c := rc, scksum := sc\<rparr>"] by auto
    define l' where "l' = l\<lparr>run_l := rl, run_c := rc, scksum := sc, lcksum := lc\<rparr>"
    define s' where "s' = s\<lparr>input_position := input_position s + 1\<rparr>"
    have p1: "unat (input_position s + 1) = ?p + 1" using lt so(4) by (subst unat_add_less) simp_all
    have "inp_bytes (?n + 1) s = Some (drop ?p (ein s))" "drop ?p (ein s) ! ?n = c"
      using lt by (simp_all add: inp_bytes_def c_def)
    then have eq: "updateone l s = Some (LOOP, l', s')"
      using False nr sc lc by (simp add: updateone_def l'_def s'_def)
    have rl: "unat (run_l l) \<le> ?p + length (ein s)" "unat (run_l l) \<le> ?n \<longrightarrow> (\<forall>k < unat (run_l l). ein s ! (?p + ?n - 1 - k) = run_c l)"
      using r by (simp_all add: run_ok_def Let_def)
    have ur: "unat (run_l l + 1) = unat (run_l l) + 1" using rl(1) p so(4) by (subst unat_add_less) simp_all
    have "unat rl \<le> ?p + 1 + length (ein s) \<and> (unat rl \<le> ?n \<longrightarrow> (\<forall>k < unat rl. ein s ! (?p + ?n - k) = rc))"
    proof (cases "c = run_c l")
      case True
      have "ein s ! (?p + ?n - k) = run_c l" if "unat (run_l l) + 1 \<le> ?n" "k < unat (run_l l) + 1" for k
        using that True rl(2) by (cases k) (auto simp: c_def)
      then show ?thesis using True nr ur rl(1) by (auto simp: NEXTRUN_def)
    next
      case False
      then show ?thesis using nr by (auto simp: NEXTRUN_def c_def)
    qed
    then have "run_ok l' s'" using lt p1 by (simp add: run_ok_def Let_def l'_def s'_def)
    moreover have "entered S 0 s'" "tables_ok S (unat (input_position s')) s'"
      using t p1 by (simp_all add: entered_def s'_def)
    ultimately have "loop_inv S l' s'" using t(4) by (simp add: loop_inv_def s'_def)
    then have "step_ok S s (LOOP, l', s')" using p1 by (simp add: step_ok_def s'_def)
    then show ?thesis using eq by blast
  qed
qed

lemma handle_lazy_ok:
  assumes t: "tables_ok S (Suc (unat (input_position s))) s" and e: "entered S n s" "n \<noteq> 0" "4 \<le> unat (min_match s)"
    and r: "run_ok l s"
  shows "\<exists>x. HANDLELAZY n l s = Some x \<and> step_ok S s x"
proof -
  let ?p = "unat (input_position s)"
  have en: "min_match s \<le> n" "?p + unat n \<le> length (ein s)" "insts S (Suc ?p) s" "ends_before (Suc (?p + unat n)) s"
    using e by (simp_all add: entered_def)
  have l63: "length (ein s) < 2 ^ 63" using t by (simp add: tables_ok_def search_ok_def)
  show ?thesis
  proof (cases "TRYLAZYLEN n s")
    case True
    have "run_ok l (s\<lparr>min_match := n\<rparr>)" using r by (simp add: run_ok_def Let_def)
    from updateone_ok [OF _ _ _ _ this] t en e(3)
    have "\<exists>x. updateone l (s\<lparr>min_match := n\<rparr>) = Some x \<and> step_ok S (s\<lparr>min_match := n\<rparr>) x" by (simp add: word_le_nat_alt)
    then show ?thesis using True step_ok_trans [of "s\<lparr>min_match := n\<rparr>" s S] by (auto simp: HANDLELAZY_def LEAST_MATCH_INCR_def)
  next
    case False
    have u: "unat (input_position s + n) = ?p + unat n" using en(2) l63 by (intro unat_add_less) simp
    have "0 < unat n" using e(2) by (simp add: unat_gt_0)
    then have "restart_inv S (s\<lparr>input_position := input_position s + n\<rparr>)"
      using t en u by (auto simp: restart_inv_def intro: tables_ok_mono insts_mono)
    then show ?thesis using False u \<open>0 < unat n\<close> by (auto simp: HANDLELAZY_def step_ok_def)
  qed
qed


lemma run_ok_core:
  assumes "core t = core s" "input_position t = input_position s"
  shows "run_ok l t = run_ok l s"
  using core_fields(1,5) [OF assms(1)] assms(2) unfolding run_ok_def by simp

lemma after_try_ok:
  assumes t: "tr = Some (f, l, u)" "try_ok S n f s u" "n \<le> Suc (unat (input_position s))"
    and r: "run_ok l s" "4 \<le> unat (min_match s)"
    and k: "f = NOTFOUND \<Longrightarrow> \<exists>x. k l u = Some x \<and> step_ok S u x"
  shows "\<exists>x. after_try tr k = Some x \<and> step_ok S s x"
proof -
  have o: "core u = core s" "input_position u = input_position s" "min_match u = min_match s" "mem_ok (emem s) \<longrightarrow> mem_ok (emem u)"
    using t(2) by (simp_all add: try_ok_def)
  note tr = step_ok_trans [OF o(1,4,2)]
  show ?thesis
  proof (cases f)
    case (FAILED e)
    then show ?thesis using t(1,2) by (auto simp: after_try_def try_ok_def step_ok_def)
  next
    case (FOUND m)
    then have "tables_ok S (Suc (unat (input_position u))) u" "m \<noteq> 0" "entered S m u"
      using t(2,3) o(2) by (auto simp: try_ok_def intro: tables_ok_mono)
    then have "\<exists>x. HANDLELAZY m l u = Some x \<and> step_ok S u x"
      using handle_lazy_ok r o(2,3) run_ok_core [OF o(1,2)] by simp
    then show ?thesis using tr t(1) FOUND by (auto simp: after_try_def)
  next
    case NOTFOUND
    then show ?thesis using k tr t(1) by (auto simp: after_try_def)
  qed
qed

lemma shrink_ok:
  assumes t: "tables_ok S (Suc (unat (input_position s))) s" and e: "entered S 0 s" "4 \<le> unat (min_match s)" and r: "run_ok l s"
  shows "\<exists>x. updateone l (shrink_min_match s) = Some x \<and> step_ok S s x"
proof -
  define k where "k = (if min_match s > MIN_MATCH then min_match s - 1 else min_match s)"
  have sh: "shrink_min_match s = s\<lparr>min_match := k\<rparr>" by (auto simp: shrink_min_match_def k_def)
  have k: "4 \<le> unat k" "unat (min_match s) \<le> Suc (unat k)"
    using e(2) by (auto simp: k_def MIN_MATCH_def word_less_nat_alt unat_sub_le)
  have "insts S (Suc (unat (input_position s))) s" "ends_before (Suc (unat (input_position s) + unat k)) s"
    using e(1) k(2) by (auto simp: entered_def intro: insts_mono ends_before_mono)
  moreover have "run_ok l (s\<lparr>min_match := k\<rparr>)" using r run_ok_core [of "s\<lparr>min_match := k\<rparr>" s] by simp
  ultimately have "\<exists>x. updateone l (s\<lparr>min_match := k\<rparr>) = Some x \<and> step_ok S (s\<lparr>min_match := k\<rparr>) x"
    using updateone_ok [of S "s\<lparr>min_match := k\<rparr>" l] t k(1) by simp
  then show ?thesis using step_ok_trans [of "s\<lparr>min_match := k\<rparr>" s S] by (auto simp: sh)
qed

lemma loop_round_ok:
  assumes "loop_inv S l s"
  shows "\<exists>x. loop_round l s = Some x \<and> step_ok S s x"
proof -
  let ?p = "unat (input_position s)"
  have i: "tables_ok S ?p s" "entered S 0 s" "4 \<le> unat (min_match s)" "run_ok l s" using assms by (simp_all add: loop_inv_def)
  obtain f1 k1 u1 where 1: "try_run l s = Some (f1, l\<lparr>run_l := k1\<rparr>, u1)" "try_ok S ?p f1 s u1" "run_ok (l\<lparr>run_l := k1\<rparr>) s"
    using try_run_ok [OF i] by blast
  show ?thesis unfolding loop_round_def
  proof (rule after_try_ok [OF 1(1,2) _ 1(3) i(3)])
    assume "f1 = NOTFOUND"
    then have u1: "core u1 = core s" "input_position u1 = input_position s" "min_match u1 = min_match s"
      "tables_ok S ?p u1" "entered S 0 u1" using 1(2) by (simp_all add: try_ok_def)
    have r1: "run_ok (l\<lparr>run_l := k1\<rparr>) u1" using 1(3) run_ok_core [OF u1(1,2)] by simp
    then have p1: "unat (input_position u1) \<le> length (ein u1)" by (simp add: run_ok_def Let_def)
    obtain f2 k2 u2 where 2: "try_large (l\<lparr>run_l := k1\<rparr>) u1 = Some (f2, l\<lparr>run_l := k1, next_move_point := k2\<rparr>, u2)" "try_ok S ?p f2 u1 u2"
      using try_large_ok [OF u1(4,5) _ p1, of "l\<lparr>run_l := k1\<rparr>"] i(3) u1(3) by auto
    have r2: "run_ok (l\<lparr>run_l := k1, next_move_point := k2\<rparr>) u1" using r1 by (simp add: run_ok_def)
    show "\<exists>x. after_try (try_large (l\<lparr>run_l := k1\<rparr>) u1) (\<lambda>l s. after_try (try_small l s) (\<lambda>l s. updateone l (shrink_min_match s))) = Some x
        \<and> step_ok S u1 x"
    proof (rule after_try_ok [OF 2 _ r2])
      assume "f2 = NOTFOUND"
      then have u2: "core u2 = core u1" "input_position u2 = input_position u1" "min_match u2 = min_match u1"
        "tables_ok S ?p u2" "entered S 0 u2" using 2(2) by (simp_all add: try_ok_def)
      have r2': "run_ok (l\<lparr>run_l := k1, next_move_point := k2\<rparr>) u2" using r2 run_ok_core [OF u2(1,2)] by simp
      then have p2: "unat (input_position u2) \<le> length (ein u2)" by (simp add: run_ok_def Let_def)
      have pp: "input_position u2 = input_position s" "4 \<le> unat (min_match u2)" using u1 u2 i(3) by simp_all
      obtain f3 k3 u3 where 3: "try_small (l\<lparr>run_l := k1, next_move_point := k2\<rparr>) u2
            = Some (f3, l\<lparr>run_l := k1, next_move_point := k2, match_offset := k3\<rparr>, u3)" "try_ok S (Suc ?p) f3 u2 u3"
        using try_small_ok [of S u2 "l\<lparr>run_l := k1, next_move_point := k2\<rparr>"] u2(4,5) pp p2 by auto
      have r3: "run_ok (l\<lparr>run_l := k1, next_move_point := k2, match_offset := k3\<rparr>) u2" using r2' by (simp add: run_ok_def)
      show "\<exists>x. after_try (try_small (l\<lparr>run_l := k1, next_move_point := k2\<rparr>) u2) (\<lambda>l s. updateone l (shrink_min_match s)) = Some x
          \<and> step_ok S u2 x"
      proof (rule after_try_ok [OF 3 _ r3 pp(2)])
        assume "f3 = NOTFOUND"
        then have u3: "core u3 = core u2" "input_position u3 = input_position u2" "min_match u3 = min_match u2"
          "tables_ok S (Suc ?p) u3" "entered S 0 u3" using 3(2) by (simp_all add: try_ok_def)
        have "run_ok (l\<lparr>run_l := k1, next_move_point := k2, match_offset := k3\<rparr>) u3" using r3 run_ok_core [OF u3(1,2)] by simp
        then show "\<exists>x. updateone (l\<lparr>run_l := k1, next_move_point := k2, match_offset := k3\<rparr>) (shrink_min_match u3) = Some x \<and> step_ok S u3 x"
          using shrink_ok [of S u3] u3 pp by simp
      qed (use pp in simp)
    qed (use u1 i(3) in simp_all)
  qed simp
qed

subsection \<open>The restart\<close>

lemma last_matched_ok:
  assumes "insts S n s" "length (ein s) < 2 ^ 63" "r \<in> set (iopt_used s)"
  shows "nend r \<le> unat (xd3_iopt_last_matched s)"
proof -
  have ne: "iopt_used s \<noteq> []" using assms(3) by auto
  define z where "z = last (iopt_used s)"
  have z: "z \<in> set (iopt_used s)" using ne by (simp add: z_def)
  have "inst_ok S (unat (match_minaddr s)) (unat (match_maxaddr s)) (ein s) z"
    using assms(1) z by (auto simp: insts_def used_ok_def list_all_iff)
  then have "nend z \<le> length (ein s)" by (simp add: inst_ok_def nend_def)
  then have u: "unat (rend z) = nend z" using assms(2) by (simp add: rend_def nend_def unat_add_less)
  obtain xs where xs: "iopt_used s = xs @ [z]" using ne by (metis append_butlast_last_id z_def)
  then have "r = z \<or> ordered r z" using assms(1,3) by (auto simp: insts_def sorted_wrt_append)
  then have "nend r \<le> nend z" by (auto simp: ordered_def)
  then show ?thesis using u ne by (simp add: xd3_iopt_last_matched_def z_def)
qed

lemma restart_entered:
  assumes i: "restart_inv S s" and m: "min_match t = restart_min_match s" and t: "input_position t = input_position s"
     "insts S (unat (input_position s)) t" "iopt_used t = iopt_used s"
  shows "entered S 0 t" "4 \<le> unat (min_match t)"
proof -
  let ?p = "unat (input_position s)" and ?l = "xd3_iopt_last_matched s"
  have ok: "insts S ?p s" "length (ein s) < 2 ^ 63" using i by (auto simp: restart_inv_def tables_ok_def search_ok_def)
  show m4: "4 \<le> unat (min_match t)"
    unfolding m restart_min_match_def MIN_MATCH_def by (auto simp: max_def word_le_nat_alt)
  have "nend r < ?p + unat (min_match t)" if r: "r \<in> set (iopt_used s)" for r
  proof (cases "?l > input_position s")
    case True
    have l: "unat ?l < 2 ^ 63"
    proof -
      have ne: "iopt_used s \<noteq> []" using r by auto
      then have "last (iopt_used s) \<in> set (iopt_used s)" by simp
      then have "nend (last (iopt_used s)) \<le> length (ein s)"
        using ok(1) by (auto simp: insts_def used_ok_def list_all_iff inst_ok_def nend_def)
      moreover from this have "unat (rend (last (iopt_used s))) = nend (last (iopt_used s))"
        using ok(2) by (simp add: rend_def nend_def unat_add_less)
      ultimately show ?thesis using ok(2) ne by (simp add: xd3_iopt_last_matched_def)
    qed
    have "unat (1 + ?l) = 1 + unat ?l" using l by (subst unat_add_less) simp_all
    then have "unat (1 + ?l - input_position s) = 1 + unat ?l - ?p"
      using True by (simp add: unat_sub_le word_less_nat_alt)
    then have "1 + unat ?l - ?p \<le> unat (min_match t)" using True m by (auto simp: restart_min_match_def max_def word_le_nat_alt)
    then show ?thesis using last_matched_ok [OF ok r] by simp
  next
    case False
    then show ?thesis using last_matched_ok [OF ok r] m4 by (simp add: word_less_nat_alt)
  qed
  then show "entered S 0 t" using t by (simp add: entered_def ends_before_def)
qed

lemma comprun_ok:
  assumes "4 \<le> n" "p + n \<le> length xs" "length xs < 2 ^ 63" "xd3_comprun (take n (drop p xs)) = (rl, rc)"
  shows "unat rl \<le> n" "\<forall>k < unat rl. xs ! (p + n - 1 - k) = rc"
proof -
  define seg where "seg = take n (drop p xs)"
  have seg: "length seg = n" "seg \<noteq> []" using assms(1,2) by (auto simp: seg_def)
  define w where "w = takeWhile ((=) (last seg)) (rev seg)"
  have "length w \<le> n" unfolding w_def using seg(1) length_takeWhile_le [of _ "rev seg"] by simp
  then have u: "unat rl = length w" "rc = last seg" "length w \<le> n"
    using assms(2-4) xd3_comprun_eq [OF seg(2)] by (auto simp: seg_def [symmetric] w_def [symmetric] intro!: unat_of_nat_less)
  show "unat rl \<le> n" using u by simp
  show "\<forall>k < unat rl. xs ! (p + n - 1 - k) = rc"
  proof (intro allI impI)
    fix k assume k: "k < unat rl"
    then have "w ! k = rev seg ! k" using u(1) by (simp add: w_def takeWhile_nth)
    moreover have "w ! k \<in> set w" using k u(1) by simp
    then have "w ! k = last seg" by (auto simp: w_def dest: set_takeWhileD)
    moreover have "rev seg ! k = seg ! (n - 1 - k)" using k u seg(1) by (simp add: rev_nth)
    moreover have "seg ! (n - 1 - k) = xs ! (p + (n - 1 - k))" using k u assms(1,2) by (simp add: seg_def)
    moreover have "p + (n - 1 - k) = p + n - 1 - k" using k u assms(1) by simp
    ultimately show "xs ! (p + n - 1 - k) = rc" using u(2) by simp
  qed
qed

definition restart_ok :: "bytes \<Rightarrow> xd3_estream \<Rightarrow> match_pc \<times> match_vars \<times> xd3_estream \<Rightarrow> bool" where
  "restart_ok S s = (\<lambda>(pc, l, t). core t = core s \<and> emem t = emem s
     \<and> (pc = RETURN None \<and> search_done S t \<or> pc = LOOP \<and> loop_inv S l t \<and> input_position t = input_position s))"

lemma restartloop_ok:
  assumes i: "restart_inv S s"
  shows "\<exists>x. restartloop l s = Some x \<and> restart_ok S s x"
proof -
  let ?p = "unat (input_position s)" and ?n = "unat (small_look (smatcher s))"
  have ok: "tables_ok S ?p s" "insts S ?p s" "?p \<le> length (ein s)" using i by (simp_all add: restart_inv_def)
  have so: "search_ok S s" "4 \<le> ?n" "?n < 2 ^ 32" "length (ein s) < 2 ^ 63" "source_side S s"
    using ok(1) by (auto simp: tables_ok_def search_ok_def)
  note u = unat_pos_add [OF so(1) ok(3) so(3)]
  show ?thesis
  proof (cases "input_position s + small_look (smatcher s) > avail_in s")
    case True
    then show ?thesis using ok by (auto simp: restartloop_def restart_ok_def search_done_def)
  next
    case False
    then have le: "?p + ?n \<le> length (ein s)" using u by (simp add: word_less_nat_alt)
    define s1 where "s1 = s\<lparr>min_match := restart_min_match s\<rparr>"
    have "l\<lparr>scksum := scksum l\<rparr> = l" by simp
    then obtain c where l1: "restart_small l s1 = Some (l\<lparr>scksum := c\<rparr>)"
      using le so(2) by (cases "DO_SMALL s1") (auto simp: restart_small_def inp_bytes_def s1_def intro: that [of "scksum l"])
    obtain rl rc where rr: "xd3_comprun (take ?n (drop ?p (ein s))) = (rl, rc)" by force
    define l2 where "l2 = l\<lparr>scksum := c, run_l := rl, run_c := rc\<rparr>"
    have l2: "restart_run (l\<lparr>scksum := c\<rparr>) s1 = Some l2" using le rr by (simp add: restart_run_def inp_bytes_def s1_def l2_def)
    have ro: "run_ok (l2\<lparr>next_move_point := a, lcksum := b\<rparr>) s1" for a b
      using comprun_ok [OF so(2) le so(4) rr] le by (simp add: run_ok_def Let_def s1_def l2_def)
    have inv: "loop_inv S (l2\<lparr>next_move_point := a, lcksum := b\<rparr>) t"
      if "core t = core s1" "input_position t = input_position s" "min_match t = min_match s1" "insts S ?p t"
        "iopt_used t = iopt_used s" "tables_ok S ?p t" for a b t
      using restart_entered [OF i, of t] that ro [where a = a and b = b] run_ok_core [of t s1] by (simp add: loop_inv_def s1_def)
    have rs: "restartloop l s = restart_large l2 s1" using False l1 l2 by (simp add: restartloop_def s1_def [symmetric])
    show ?thesis
    proof (cases "DO_LARGE s1 \<and> input_position s1 + large_look (smatcher s1) \<le> avail_in s1")
      case False
      have "l2\<lparr>next_move_point := next_move_point l2, lcksum := lcksum l2\<rparr> = l2" by simp
      then have "loop_inv S l2 s1" using inv [where t = s1 and a = "next_move_point l2" and b = "lcksum l2"] ok by (simp add: s1_def)
      then show ?thesis using rs False by (auto simp: restart_large_def restart_ok_def s1_def)
    next
      case True
      obtain source where src: "esrc s1 = Some source" using True by (auto simp: DO_LARGE_def)
      have "large_table s1 \<noteq> None" "source_side S s1" "unat (maxsrcaddr s1) \<le> length S" "search_ok S s1"
        using ok(1,2) True so by (auto simp: tables_ok_def s1_def source_side_def insts_def DO_LARGE_def search_ok_def)
      then obtain k tab q where q: "xd3_srcwin_move_point (next_move_point l2) s1
          = Some (None, k, s1\<lparr>large_table := Some tab, srcwin_cksum_pos := q\<rparr>)"
        "source_side S (s1\<lparr>large_table := Some tab, srcwin_cksum_pos := q\<rparr>)"
        using move_point_ok [of S s1 source "next_move_point l2"] src by blast
      define s2 where "s2 = s1\<lparr>large_table := Some tab, srcwin_cksum_pos := q\<rparr>"
      have c2: "core s2 = core s1" "core s1 = core s" by (simp_all add: s2_def s1_def)
      have "tables_ok S ?p s2"
        using ok(1) q(2) search_ok_core [of s2 s S] small_ok_cong [of s2 s]
        by (simp add: tables_ok_def s2_def s1_def DO_SMALL_def DO_LARGE_def)
      moreover have "insts S ?p s2" using ok(2) by (simp add: insts_def used_ok_def s2_def s1_def)
      ultimately have lv: "loop_inv S (l2\<lparr>next_move_point := k, lcksum := b\<rparr>) s2" for b
        using inv [where t = s2 and a = k and b = b] c2 by (simp add: s2_def s1_def)
      have ll: "unat (large_look (smatcher s)) < 2 ^ 32" using so(1) by (simp add: search_ok_def)
      have "?p + unat (large_look (smatcher s)) \<le> length (ein s)"
        using True unat_pos_add [OF so(1) ok(3) ll] by (simp add: s1_def word_le_nat_alt avail_in_def)
      then have "inp_bytes (unat (large_look (smatcher s2))) s2 = Some (drop ?p (ein s))" by (simp add: inp_bytes_def s2_def s1_def)
      then have "\<exists>b. restart_large l2 s1 = Some (LOOP, l2\<lparr>next_move_point := k, lcksum := b\<rparr>, s2)"
        using True q(1) by (auto simp: restart_large_def s2_def)
      then show ?thesis using rs lv c2 by (auto simp: restart_ok_def s2_def s1_def)
    qed
  qed
qed

subsection \<open>The whole search\<close>

theorem string_match_loop_ok:
  assumes "case pc of RETURN r \<Rightarrow> False | LOOP \<Rightarrow> loop_inv S l s | RESTARTLOOP \<Rightarrow> restart_inv S s"
  shows "\<exists>r t. string_match_loop pc l s = Some (r, t) \<and> core t = core s \<and> (mem_ok (emem s) \<longrightarrow> mem_ok (emem t))
     \<and> (r = None \<and> search_done S t \<or> r = Some ENOMEM \<and> \<not> mem_ok (emem s))"
  using assms
proof (induction "2 * (length (ein s) - unat (input_position s)) + (if pc = RESTARTLOOP then 1 else 0)"
    arbitrary: pc l s rule: less_induct)
  case less
  have cont: "\<exists>r u. string_match_loop pc' l' t = Some (r, u) \<and> core u = core s \<and> (mem_ok (emem s) \<longrightarrow> mem_ok (emem u))
      \<and> (r = None \<and> search_done S u \<or> r = Some ENOMEM \<and> \<not> mem_ok (emem s))"
    if "step_ok S s (pc', l', t)" "unat (input_position s) < length (ein s)" for pc' l' t
  proof (cases "\<exists>r. pc' = RETURN r")
    case True
    then show ?thesis using that(1) by (subst string_match_loop.simps) (auto simp: step_ok_def)
  next
    case False
    have t: "core t = core s" "mem_ok (emem s) \<longrightarrow> mem_ok (emem t)" "unat (input_position s) < unat (input_position t)"
      "case pc' of RETURN r \<Rightarrow> False | LOOP \<Rightarrow> loop_inv S l' t | RESTARTLOOP \<Rightarrow> restart_inv S t"
      using that(1) False by (cases pc'; auto simp: step_ok_def)+
    have "ein t = ein s" by (rule core_fields(1) [OF t(1)])
    then have "2 * (length (ein t) - unat (input_position t)) + (if pc' = RESTARTLOOP then 1 else 0)
        < 2 * (length (ein s) - unat (input_position s)) + (if pc = RESTARTLOOP then 1 else 0)"
      using diff_less_mono2 [OF t(3) that(2)] by auto
    from less.hyps [OF this t(4)] show ?thesis using t(1,2) by auto
  qed
  show ?case
  proof (cases pc)
    case LOOP
    then have i: "loop_inv S l s" using less.prems by simp
    then have "4 \<le> unat (small_look (smatcher s))" "unat (input_position s) + unat (small_look (smatcher s)) \<le> length (ein s)"
      by (auto simp: loop_inv_def tables_ok_def search_ok_def run_ok_def Let_def)
    then have lt: "unat (input_position s) < length (ein s)" by simp
    obtain pc' l' t where x: "loop_round l s = Some (pc', l', t)" "step_ok S s (pc', l', t)"
      using loop_round_ok [OF i] by auto
    have "string_match_loop pc l s = string_match_loop pc' l' t" using LOOP x(1) by (subst string_match_loop.simps) simp
    then show ?thesis using cont [OF x(2) lt] by simp
  next
    case RESTARTLOOP
    then have i: "restart_inv S s" using less.prems by simp
    obtain pc' l' t where x: "restartloop l s = Some (pc', l', t)" "restart_ok S s (pc', l', t)"
      using restartloop_ok [OF i, of l] by auto
    have eq: "string_match_loop pc l s = string_match_loop pc' l' t" using RESTARTLOOP x(1) by (subst string_match_loop.simps) simp
    have c: "core t = core s" "emem t = emem s" using x(2) by (simp_all add: restart_ok_def)
    show ?thesis
    proof (cases "pc' = LOOP")
      case True
      then have "loop_inv S l' t" "input_position t = input_position s" using x(2) by (auto simp: restart_ok_def)
      then have "\<exists>r u. string_match_loop pc' l' t = Some (r, u) \<and> core u = core t \<and> (mem_ok (emem t) \<longrightarrow> mem_ok (emem u))
          \<and> (r = None \<and> search_done S u \<or> r = Some ENOMEM \<and> \<not> mem_ok (emem t))"
        using less.hyps [of t pc' l'] True RESTARTLOOP core_fields(1) [OF c(1)] by simp
      then show ?thesis using eq c by simp
    next
      case False
      then have "pc' = RETURN None" "search_done S t" using x(2) by (auto simp: restart_ok_def)
      then show ?thesis using eq c by (subst (asm) string_match_loop.simps) simp
    qed
  qed (use less.prems in simp)
qed

text \<open>The tables between two searches. \<open>small_reset\<close> marks a small table of an earlier window.\<close>

definition small_idle :: "xd3_estream \<Rightarrow> bool" where
  "small_idle s \<longleftrightarrow> 0 < small_chain (smatcher s) \<and> 0 < small_lchain (smatcher s) \<and> sprevmask s < sprevsz s
     \<and> (if small_table s = None then small_prev s = None else \<exists>n. small_ok n s)"

definition search_idle :: "bytes \<Rightarrow> xd3_estream \<Rightarrow> bool" where
  "search_idle S s \<longleftrightarrow> search_ok S s \<and> source_side S s \<and> (DO_SMALL s \<longrightarrow> small_idle s)"

definition search_ready :: "bytes \<Rightarrow> xd3_estream \<Rightarrow> bool" where
  "search_ready S s \<longleftrightarrow> search_idle S s \<and> (small_table s \<noteq> None \<longrightarrow> small_reset s)
     \<and> unat (input_position s) \<le> length (ein s) \<and> insts S (unat (input_position s)) s"

lemma small_ok_zero:
  assumes "\<forall>prev. small_prev s = Some prev \<longrightarrow> unat (sprevmask s) < length prev
        \<and> (\<forall>v. Some v \<in> set prev \<longrightarrow> v \<noteq> 0 \<longrightarrow> inited s (v - 1))"
    "small_prev s = None \<longrightarrow> small_chain (smatcher s) = 1 \<and> small_lchain (smatcher s) = 1"
  shows "small_ok 0 (s\<lparr>small_table := Some (replicate (unat (xd3_hash_cfg.hsize (small_hash s))) 0)\<rparr>)"
  using assms by (simp add: small_ok_def inited_def)

definition init_outcome :: "xd3_ret \<Rightarrow> xd3_estream \<Rightarrow> xd3_estream \<Rightarrow> bool" where
  "init_outcome r s t \<longleftrightarrow> core t = core s \<and> mem_outcome r s t \<and> input_position t = input_position s
     \<and> iopt_used t = iopt_used s \<and> match_minaddr t = match_minaddr s \<and> match_maxaddr t = match_maxaddr s
     \<and> maxsrcaddr t = maxsrcaddr s \<and> match_state t = match_state s \<and> match_srcpos t = match_srcpos s
     \<and> srcwin_cksum_pos t = srcwin_cksum_pos s"

lemma init_outcome_alloc:
  assumes "xd3_alloc (emem s) = (ok, m)"
  shows "mem_outcome (if ok then None else Some ENOMEM) s (s\<lparr>emem := m\<rparr>)"
  using assms by (auto simp: xd3_alloc_def mem_outcome_def mem_ok_def)

lemma init_large_ok:
  assumes "source_side S s" "init_large s = (r, t)"
  shows "init_outcome r s t" "small_table t = small_table s" "small_prev t = small_prev s" "small_reset t = small_reset s"
    "r = None \<Longrightarrow> source_side S t \<and> (DO_LARGE t \<longrightarrow> large_table t \<noteq> None)"
proof -
  obtain ok m where a: "xd3_alloc (emem s) = (ok, m)" by force
  let ?z = "replicate (unat (xd3_hash_cfg.hsize (large_hash s))) 0"
  define go where "go \<longleftrightarrow> esrc s \<noteq> None \<and> large_table s = None"
  have eq: "(r, t) = (if go then if ok then (None, s\<lparr>emem := m, large_table := Some ?z\<rparr>) else (Some ENOMEM, s\<lparr>emem := m\<rparr>) else (None, s))"
    using assms(2) a by (cases ok) (auto simp: init_large_def go_def)
  have "mem_outcome (if ok then None else Some ENOMEM) s (s\<lparr>emem := m\<rparr>)" by (rule init_outcome_alloc [OF a])
  then show "init_outcome r s t" using eq by (auto simp: init_outcome_def mem_outcome_def split: if_splits)
  show "small_table t = small_table s" "small_prev t = small_prev s" "small_reset t = small_reset s"
    using eq by (auto split: if_splits)
  show "r = None \<Longrightarrow> source_side S t \<and> (DO_LARGE t \<longrightarrow> large_table t \<noteq> None)"
    using eq assms(1) by (auto simp: source_side_def DO_LARGE_def go_def split: if_splits)
qed

lemma init_small_ok:
  assumes s: "DO_SMALL s \<longrightarrow> small_idle s" "small_table s \<noteq> None \<longrightarrow> small_reset s" and r: "init_small s = (r, t)"
  shows "init_outcome r s t" "large_table t = large_table s" "r = None \<Longrightarrow> DO_SMALL t \<longrightarrow> small_ok 0 t"
proof -
  let ?z = "replicate (unat (xd3_hash_cfg.hsize (small_hash s))) 0"
  have "init_outcome r s t \<and> large_table t = large_table s \<and> (r = None \<longrightarrow> DO_SMALL t \<longrightarrow> small_ok 0 t)"
  proof (cases "DO_SMALL s")
    case False
    then have "r = None" "t = s" using r by (auto simp: init_small_def DO_SMALL_def)
    then show ?thesis using False by (simp add: init_outcome_def mem_outcome_def)
  next
    case small: True
    have idle: "small_idle s" using s small by simp
    show ?thesis
    proof (cases "small_table s")
      case (Some tab)
      then have t: "r = None" "t = s\<lparr>small_reset := False, small_table := Some ?z\<rparr>"
        using r s(2) small by (auto simp: init_small_def DO_SMALL_def)
      have "small_ok 0 (s\<lparr>small_reset := False, small_table := Some ?z\<rparr>)"
        using small_ok_zero [of "s\<lparr>small_reset := False\<rparr>"] idle Some by (auto simp: small_idle_def small_ok_def inited_def)
      then show ?thesis using t by (simp add: init_outcome_def mem_outcome_def)
    next
      case None
      then have pn: "small_prev s = None" using idle by (simp add: small_idle_def)
      obtain ok m where a: "xd3_alloc (emem s) = (ok, m)" by force
      have ma: "mem_outcome (if ok then None else Some ENOMEM) s (s\<lparr>emem := m\<rparr>)" by (rule init_outcome_alloc [OF a])
      define s1 where "s1 = s\<lparr>emem := m, small_table := Some ?z\<rparr>"
      show ?thesis
      proof (cases ok)
        case False
        then have "r = Some ENOMEM" "t = s\<lparr>emem := m\<rparr>" using r None a small by (auto simp: init_small_def DO_SMALL_def)
        then show ?thesis using ma False by (auto simp: init_outcome_def mem_outcome_def)
      next
        case True
        have ip: "init_small_prev s1 = (r, t)" using r None a small True by (simp add: init_small_def DO_SMALL_def s1_def)
        obtain ok' m' where a': "xd3_alloc (emem s1) = (ok', m')" by force
        have mb: "mem_outcome (if ok' then None else Some ENOMEM) s1 (s1\<lparr>emem := m'\<rparr>)" by (rule init_outcome_alloc [OF a'])
        show ?thesis
        proof (cases "small_lchain (smatcher s) > 1 \<or> small_chain (smatcher s) > 1")
          case False
          then have t: "r = None" "t = s1" using ip by (auto simp: init_small_prev_def s1_def)
          have one: "c = 1" if "0 < c" "\<not> 1 < c" for c :: u64 using that by (simp add: word_less_nat_alt word_unat_eq_iff)
          have "small_chain (smatcher s) = 1 \<and> small_lchain (smatcher s) = 1" using False idle one by (simp add: small_idle_def)
          then have "small_ok 0 s1" using small_ok_zero [of "s\<lparr>emem := m\<rparr>"] pn by (simp add: s1_def)
          then show ?thesis using t ma True by (auto simp: init_outcome_def mem_outcome_def s1_def)
        next
          case two: True
          show ?thesis
          proof (cases ok')
            case False
            then have t: "r = Some ENOMEM" "t = s1\<lparr>emem := m'\<rparr>" using ip a' two by (auto simp: init_small_prev_def s1_def)
            show ?thesis using t ma mb True False by (auto simp: init_outcome_def mem_outcome_def s1_def)
          next
            case True
            then have t: "r = None" "t = s1\<lparr>emem := m', small_prev := Some (replicate (unat (sprevsz s)) None)\<rparr>"
              using ip a' two by (auto simp: init_small_prev_def s1_def)
            have "small_ok 0 t"
              using idle by (auto simp: t(2) s1_def small_idle_def small_ok_def word_less_nat_alt)
            then show ?thesis using t ma mb True \<open>ok\<close> by (auto simp: init_outcome_def mem_outcome_def s1_def)
          qed
        qed
      qed
    qed
  qed
  then show "init_outcome r s t" "large_table t = large_table s" "r = None \<Longrightarrow> DO_SMALL t \<longrightarrow> small_ok 0 t" by auto
qed


lemma init_outcome_trans:
  assumes "init_outcome None s t" "init_outcome r t u"
  shows "init_outcome r s u"
  using assms by (auto simp: init_outcome_def mem_outcome_def)

lemma small_ok_outcome:
  assumes "core t = core s"
  shows "DO_SMALL t = DO_SMALL s" "DO_LARGE t = DO_LARGE s"
  using core_fields(2,4) [OF assms] by (simp_all add: DO_SMALL_def DO_LARGE_def)

lemma string_match_init_ok:
  assumes s: "search_ready S s" and r: "xd3_string_match_init s = (r, t)"
  shows "core t = core s" "mem_outcome r s t" "r = None \<Longrightarrow> restart_inv S t"
proof -
  have i: "search_ok S s" "source_side S s" "DO_SMALL s \<longrightarrow> small_idle s" "small_table s \<noteq> None \<longrightarrow> small_reset s"
    "unat (input_position s) \<le> length (ein s)" "insts S (unat (input_position s)) s"
    using s by (simp_all add: search_ready_def search_idle_def)
  obtain r1 t1 where 1: "init_large s = (r1, t1)" by force
  note l = init_large_ok [OF i(2) 1]
  have o1: "init_outcome r1 s t1" by (rule l(1))
  have all: "init_outcome r s t \<and> (r = None \<longrightarrow> source_side S t \<and> (DO_LARGE t \<longrightarrow> large_table t \<noteq> None) \<and> (DO_SMALL t \<longrightarrow> small_ok 0 t))"
  proof (cases r1)
    case (Some e)
    then show ?thesis using r 1 o1 by (auto simp: xd3_string_match_init_def seqr_def)
  next
    case None
    then have 2: "init_small t1 = (r, t)" using r 1 by (simp add: xd3_string_match_init_def seqr_def)
    have c1: "core t1 = core s" using o1 by (simp add: init_outcome_def)
    have si: "DO_SMALL t1 \<longrightarrow> small_idle t1" "small_table t1 \<noteq> None \<longrightarrow> small_reset t1"
      using i(3,4) l(2-4) small_ok_outcome [OF c1] small_ok_cong [OF c1 l(2,3)] core_fields(5,8,9) [OF c1]
      by (simp_all add: small_idle_def)
    note m = init_small_ok [OF si 2]
    have "source_side S t1 \<and> (DO_LARGE t1 \<longrightarrow> large_table t1 \<noteq> None)" using l(5) None by simp
    moreover have "core t = core t1" "match_state t = match_state t1" "match_srcpos t = match_srcpos t1"
      "srcwin_cksum_pos t = srcwin_cksum_pos t1" using m(1) by (simp_all add: init_outcome_def)
    ultimately have "source_side S t \<and> (DO_LARGE t \<longrightarrow> large_table t \<noteq> None)"
      using m(2) small_ok_outcome [of t t1] core_fields(6) [of t t1] by (simp add: source_side_def)
    moreover have "init_outcome r s t" using init_outcome_trans [of s t1 r t] o1 None m(1) by simp
    ultimately show ?thesis using m(3) by simp
  qed
  then show c: "core t = core s" "mem_outcome r s t" by (simp_all add: init_outcome_def)
  have f: "input_position t = input_position s" "iopt_used t = iopt_used s" "match_minaddr t = match_minaddr s"
    "match_maxaddr t = match_maxaddr s" "maxsrcaddr t = maxsrcaddr s" using all by (simp_all add: init_outcome_def)
  show "restart_inv S t" if "r = None"
  proof -
    have "insts S (unat (input_position t)) t"
      using i(6) f core_fields(1,2) [OF c(1)] unfolding insts_def used_ok_def by simp
    moreover have "tables_ok S (unat (input_position t)) t"
      using all that i(1) search_ok_core [OF c(1)] small_ok_mono by (auto simp: tables_ok_def)
    ultimately show ?thesis using i(5) f(1) core_fields(1) [OF c(1)] by (simp add: restart_inv_def)
  qed
qed

text \<open>The search ends; it fails only when an allocation fails; it leaves the tables in order and a buffer
  of instructions that are true of the input.\<close>

lemma string_match_ok:
  assumes s: "search_ready S s"
  shows "\<exists>r t. xd3_string_match s = Some (r, t) \<and> core t = core s \<and> (mem_ok (emem s) \<longrightarrow> mem_ok (emem t))
     \<and> (r = None \<and> search_idle S t \<and> (\<exists>n. insts S n t) \<or> r = Some ENOMEM \<and> \<not> mem_ok (emem s))"
proof (cases "input_position s + small_look (smatcher s) > avail_in s")
  case True
  then show ?thesis using s by (auto simp: xd3_string_match_def search_ready_def)
next
  case False
  let ?l = "\<lparr>scksum = 0, lcksum = 0, run_l = 0, run_c = 0, next_move_point = 0, match_offset = 0\<rparr>"
  obtain r1 t1 where 1: "xd3_string_match_init s = (r1, t1)" by force
  note i = string_match_init_ok [OF s 1]
  show ?thesis
  proof (cases r1)
    case (Some e)
    then show ?thesis using False 1 i(1,2) by (auto simp: xd3_string_match_def mem_outcome_def)
  next
    case None
    then have eq: "xd3_string_match s = string_match_loop RESTARTLOOP ?l t1" using False 1 by (simp add: xd3_string_match_def)
    obtain r t where t: "string_match_loop RESTARTLOOP ?l t1 = Some (r, t)" "core t = core t1" "mem_ok (emem t1) \<longrightarrow> mem_ok (emem t)"
      "r = None \<and> search_done S t \<or> r = Some ENOMEM \<and> \<not> mem_ok (emem t1)"
      using string_match_loop_ok [where pc = RESTARTLOOP and S = S and l = ?l and s = t1] i(3) [OF None] by auto
    have mo: "mem_ok (emem s) \<longrightarrow> mem_ok (emem t1)" using i(2) by (simp add: mem_outcome_def)
    have c: "core t = core s" using t(2) i(1) by simp
    have "search_idle S t" if "search_done S t"
    proof -
      obtain n where "tables_ok S n t" using \<open>search_done S t\<close> by (auto simp: search_done_def)
      moreover have "DO_SMALL s \<longrightarrow> small_idle s" using s by (simp add: search_ready_def search_idle_def)
      ultimately show ?thesis using small_ok_outcome [OF c] core_fields(5,8,9) [OF c]
        by (auto simp: search_idle_def tables_ok_def small_idle_def small_ok_def)
    qed
    then show ?thesis using eq t mo c by (auto simp: search_done_def)
  qed
qed

end
