(* ===== verification/Xd3_Encode.thy ===== *)
theory Xd3_Encode
  imports Prelude Xd3_Output Xd3_AddrCache Xd3_Source Xd3_Hash Xd3_Iopt Xd3_Match
begin

section \<open>The encoder's state machine (xdelta3.c, "Encode routines")\<close>

text \<open>
  \<open>xd3_encode_input\<close> with the window header, the input buffer, the initialisation and the reset between
  windows. A call returns a code and the new stream; \<open>None\<close> is a memory fault or a loop that does not
  end, as in the matcher below it. The secondary compressors are not in this build, so \<open>sec_type\<close> is
  \<open>NULL\<close> and their branches of \<open>xd3_emit_hdr\<close> are absent.

  The four chains of output pages are kept apart; after \<open>ENC_FLUSH\<close> the code links them into one list,
  which is \<open>enc_current\<close>.
\<close>

subsection \<open>The window header\<close>

definition xd3_encoder_used_source :: "xd3_estream \<Rightarrow> bool" where
  "xd3_encoder_used_source s \<longleftrightarrow> (case esrc s of None \<Rightarrow> False | Some source \<Rightarrow> srclen source > 0)"

definition xd3_set_appheader :: "bytes option \<Rightarrow> xd3_estream \<Rightarrow> xd3_estream" where
  "xd3_set_appheader data s = s\<lparr>enc_appheader := data\<rparr>"

definition use_adler32 :: "xd3_estream \<Rightarrow> bool" where
  "use_adler32 s \<longleftrightarrow> eflags s AND (XD3_ADLER32 OR XD3_ADLER32_RECODE) \<noteq> 0"

definition emit_appheader :: "enc_step" where
  "emit_appheader s =
     (case enc_appheader s of
        None \<Rightarrow> (None, s)
      | Some data \<Rightarrow> seqr (on_hdr (xd3_emit_size (of_nat (length data)))) (on_hdr (xd3_emit_bytes data)) s)"

definition emit_file_hdr :: "enc_step" where
  "emit_file_hdr s =
     (if ewindow s = 0 then
        seqr (on_hdr (xd3_emit_byte VCDIFF_MAGIC1))
       (seqr (on_hdr (xd3_emit_byte VCDIFF_MAGIC2))
       (seqr (on_hdr (xd3_emit_byte VCDIFF_MAGIC3))
       (seqr (on_hdr (xd3_emit_byte VCDIFF_VERSION))
       (seqr (on_hdr (xd3_emit_byte (if enc_appheader s \<noteq> None then ucast VCD_APPHEADER else 0)))
         emit_appheader)))) s
      else (None, s))"

definition window_indicator :: "xd3_estream \<Rightarrow> u8" where
  "window_indicator s =
     (if xd3_encoder_used_source s then ucast VCD_SOURCE else 0) OR (if use_adler32 s then ucast VCD_ADLER32 else 0)"

definition emit_source_window :: "enc_step" where
  "emit_source_window s =
     (case esrc s of
        None \<Rightarrow> (None, s)
      | Some source \<Rightarrow>
          if srclen source > 0
          then seqr (on_hdr (xd3_emit_size (srclen source))) (on_hdr (xd3_emit_size (srcbase source))) s
          else (None, s))"

definition window_enc_len :: "xd3_estream \<Rightarrow> usize_t" where
  "window_enc_len s =
     (let data_len = xd3_sizeof_output (data_chain s);
          inst_len = xd3_sizeof_output (inst_chain s);
          addr_len = xd3_sizeof_output (addr_chain s)
      in ucast (1 + (xd3_sizeof_uint64_t (avail_in s) + xd3_sizeof_uint64_t data_len + xd3_sizeof_uint64_t inst_len
                     + xd3_sizeof_uint64_t addr_len))
         + data_len + inst_len + addr_len + (if use_adler32 s then 4 else 0))"

definition emit_lengths :: "enc_step" where
  "emit_lengths s =
     seqr (on_hdr (xd3_emit_size (window_enc_len s)))
    (seqr (on_hdr (xd3_emit_size (avail_in s)))
    (seqr (on_hdr (xd3_emit_byte 0))
    (seqr (on_hdr (xd3_emit_size (xd3_sizeof_output (data_chain s))))
    (seqr (on_hdr (xd3_emit_size (xd3_sizeof_output (inst_chain s))))
          (on_hdr (xd3_emit_size (xd3_sizeof_output (addr_chain s)))))))) s"

definition adler_bytes :: "u32 \<Rightarrow> bytes" where
  "adler_bytes a = [ucast (drop_bit 24 a), ucast (drop_bit 16 a), ucast (drop_bit 8 a), ucast (a AND 0xFF)]"

definition emit_adler32 :: "enc_step" where
  "emit_adler32 s =
     (if use_adler32 s then
        on_hdr (xd3_emit_bytes (adler_bytes
          (if eflags s AND XD3_ADLER32 \<noteq> 0 then adler32 1 (ein s) else recode_adler32 s))) s
      else (None, s))"

definition xd3_emit_hdr :: "enc_step" where
  "xd3_emit_hdr =
     seqr emit_file_hdr
    (seqr (\<lambda>s. on_hdr (xd3_emit_byte (window_indicator s)) s)
    (seqr emit_source_window
    (seqr emit_lengths emit_adler32)))"

subsection \<open>Buffering the input\<close>

text \<open>\<open>buf\<close> are the \<open>buf_avail\<close> bytes in \<open>buf_in\<close>. The leftover bytes are copied into the buffer of
  \<open>winsize\<close> bytes without a test: \<open>None\<close> when they do not fit.\<close>

definition buffer_alloc :: "enc_step" where
  "buffer_alloc s =
     (if \<not> buf_in s then
        case xd3_alloc (emem s) of
          (False, m) \<Rightarrow> (Some ENOMEM, s\<lparr>emem := m\<rparr>)
        | (True, m) \<Rightarrow> (None, s\<lparr>emem := m, buf_in := True\<rparr>)
      else (None, s))"

definition take_leftover :: "xd3_estream \<Rightarrow> xd3_estream option" where
  "take_leftover s =
     (case buf_leftover s of
        None \<Rightarrow> Some s
      | Some rest \<Rightarrow> if length rest \<le> unat (winsize s) then Some (s\<lparr>buf := rest, buf_leftover := None\<rparr>) else None)"

definition buffer_input :: "enc_step" where
  "buffer_input s =
     (let n = unat (min (winsize s - of_nat (length (buf s))) (avail_in s));
          s1 = s\<lparr>buf := buf s @ take n (ein s)\<rparr>
      in if n < length (ein s) then (None, s1\<lparr>buf_leftover := Some (drop n (ein s)), ein := buf s1, buf := []\<rparr>)
         else if of_nat (length (buf s1)) < winsize s \<and> eflags s AND XD3_FLUSH = 0 then (Some XD3_INPUT, s1)
         else (None, s1\<lparr>ein := buf s1, buf := []\<rparr>))"

definition xd3_encode_buffer_leftover :: "xd3_estream \<Rightarrow> (xd3_ret \<times> xd3_estream) option" where
  "xd3_encode_buffer_leftover s =
     (case buffer_alloc s of
        (Some r, s1) \<Rightarrow> Some (Some r, s1)
      | (None, s1) \<Rightarrow> map_option buffer_input (take_leftover s1))"

subsection \<open>Initialisation and reset\<close>

definition size_large_hash :: "xd3_estream \<Rightarrow> (xd3_ret \<times> xd3_estream) option" where
  "size_large_hash s =
     (case esrc s of
        None \<Rightarrow> Some (None, s)
      | Some source \<Rightarrow>
          map_option (\<lambda>(r, m, cfg). (r, s\<lparr>emem := m, large_hash := cfg\<rparr>))
            (xd3_size_hashtable (max_winsize source div large_step (smatcher s)) (large_look (smatcher s)) (emem s)))"

definition size_small_hash :: "xd3_estream \<Rightarrow> (xd3_ret \<times> xd3_estream) option" where
  "size_small_hash s =
     (if eflags s AND XD3_NOCOMPRESS = 0 then
        map_option (\<lambda>(r, m, cfg). (r, s\<lparr>emem := m, small_hash := cfg\<rparr>))
          (xd3_size_hashtable (winsize s) (small_look (smatcher s)) (emem s))
      else Some (None, s))"

definition empty_chain :: xd3_chain where
  "empty_chain = \<lparr>pages = [], tail = \<lparr>base = []\<rparr>\<rparr>"

text \<open>One data buffer: \<open>enc_heads[i] = enc_tails[i] = xd3_alloc_output (stream, NULL)\<close>.\<close>

definition alloc_chain :: "(xd3_chain \<Rightarrow> xd3_estream \<Rightarrow> xd3_estream) \<Rightarrow> enc_step" where
  "alloc_chain put s =
     (case xd3_alloc_output (emem s) of
        (None, m) \<Rightarrow> (Some ENOMEM, s\<lparr>emem := m\<rparr>)
      | (Some p, m) \<Rightarrow> (None, put \<lparr>pages = [], tail = p\<rparr> (s\<lparr>emem := m\<rparr>)))"

definition encode_alloc_cache :: "enc_step" where
  "encode_alloc_cache s =
     (case xd3_alloc_cache (emem s) (eacache s) of (r, m, c) \<Rightarrow> (r, s\<lparr>emem := m, eacache := c\<rparr>))"

definition encode_buffers :: "enc_step" where
  "encode_buffers =
     seqr (alloc_chain (\<lambda>ch s. s\<lparr>hdr_chain := ch\<rparr>))
    (seqr (alloc_chain (\<lambda>ch s. s\<lparr>data_chain := ch\<rparr>))
    (seqr (alloc_chain (\<lambda>ch s. s\<lparr>inst_chain := ch\<rparr>))
    (seqr (alloc_chain (\<lambda>ch s. s\<lparr>addr_chain := ch\<rparr>))
    (seqr (\<lambda>s. xd3_alloc_iopt (iopt_size s) (s\<lparr>iopt_used := [], iopt_free := 0\<rparr>))
    (seqr (\<lambda>s. (None, s\<lparr>eacache := (eacache s)\<lparr>s_near := ucast (near_modes rfc3284_code_table_desc),
                                               s_same := ucast (same_modes rfc3284_code_table_desc)\<rparr>,
                        ecode_table := xd3_rfc3284_code_table\<rparr>))
      encode_alloc_cache)))))"

definition seqo :: "('s \<Rightarrow> (xd3_ret \<times> 's) option) \<Rightarrow> ('s \<Rightarrow> (xd3_ret \<times> 's) option) \<Rightarrow> 's \<Rightarrow> (xd3_ret \<times> 's) option" where
  "seqo f g s = Option.bind (f s) (\<lambda>(r, s'). case r of None \<Rightarrow> g s' | Some e \<Rightarrow> Some (Some e, s'))"

definition xd3_encode_init :: "bool \<Rightarrow> xd3_estream \<Rightarrow> (xd3_ret \<times> xd3_estream) option" where
  "xd3_encode_init full_init =
     seqo (\<lambda>s. if full_init then seqo size_large_hash size_small_hash s else Some (None, s))
          (\<lambda>s. Some (encode_buffers s))"

definition xd3_encode_init_full :: "xd3_estream \<Rightarrow> (xd3_ret \<times> xd3_estream) option" where
  "xd3_encode_init_full = xd3_encode_init True"

definition xd3_encode_init_partial :: "xd3_estream \<Rightarrow> (xd3_ret \<times> xd3_estream) option" where
  "xd3_encode_init_partial = xd3_encode_init False"

text \<open>\<open>xd3_encode_reset\<close>: the first four pages of the joined list become the four chains again, the rest
  goes to the free list.\<close>

definition chain_pages :: "xd3_chain \<Rightarrow> xd3_output list" where
  "chain_pages ch = pages ch @ [tail ch]"

definition all_pages :: "xd3_estream \<Rightarrow> xd3_output list" where
  "all_pages s = chain_pages (hdr_chain s) @ chain_pages (data_chain s) @ chain_pages (inst_chain s) @ chain_pages (addr_chain s)"

definition reset_source :: "xd3_estream \<Rightarrow> xd3_estream" where
  "reset_source s =
     (case esrc s of
        None \<Rightarrow> s
      | Some source \<Rightarrow>
          s\<lparr>esrc := Some (source\<lparr>srcbase := 0, srclen := 0\<rparr>), srcwin_decided := False, srcwin_decided_early := False,
            match_minaddr := 0, match_maxaddr := 0, taroff := 0\<rparr>)"

definition reset_chains :: "xd3_estream \<Rightarrow> xd3_estream" where
  "reset_chains s =
     s\<lparr>emem := xd3_freelist_output (drop 4 (all_pages s)) (emem s),
       hdr_chain := empty_chain, data_chain := empty_chain, inst_chain := empty_chain, addr_chain := empty_chain\<rparr>"

definition xd3_encode_reset :: "xd3_estream \<Rightarrow> xd3_estream" where
  "xd3_encode_reset s = reset_chains (reset_source (s\<lparr>ein := [], small_reset := True, i_slots_used := 0\<rparr>))"

subsection \<open>The states\<close>

text \<open>The label \<open>enc_flush\<close> in the case \<open>ENC_INPUT\<close>.\<close>

definition needs_buffer :: "xd3_estream \<Rightarrow> bool" where
  "needs_buffer s \<longleftrightarrow> buf_leftover s \<noteq> None \<or> buf s \<noteq> [] \<or> avail_in s < winsize s \<and> eflags s AND XD3_FLUSH = 0"

definition enc_winstart :: "xd3_estream \<Rightarrow> (xd3_ret \<times> xd3_estream) option" where
  "enc_winstart s =
     Some (Some XD3_WINSTART, s\<lparr>eacache := xd3_init_cache (eacache s), input_position := 0, min_match := MIN_MATCH,
                               unencoded_offset := 0, enc_state := ENC_SEARCH\<rparr>)"

definition enc_flush_label :: "xd3_estream \<Rightarrow> (xd3_ret \<times> xd3_estream) option" where
  "enc_flush_label =
     seqo (\<lambda>s. if needs_buffer s then xd3_encode_buffer_leftover s else Some (None, s)) enc_winstart"

definition enc_input :: "xd3_estream \<Rightarrow> (xd3_ret \<times> xd3_estream) option" where
  "enc_input s = (if \<not> ein_set s then Some (Some XD3_INPUT, s) else enc_flush_label s)"

definition enc_init :: "xd3_estream \<Rightarrow> (xd3_ret \<times> xd3_estream) option" where
  "enc_init = seqo xd3_encode_init_full (\<lambda>s. enc_input (s\<lparr>enc_state := ENC_INPUT\<rparr>))"

text \<open>The \<open>enc_output\<close> label and the case \<open>ENC_POSTOUT\<close>, over the pages from \<open>enc_current\<close> on.\<close>

fun enc_output :: "xd3_output list \<Rightarrow> xd3_estream \<Rightarrow> xd3_ret \<times> xd3_estream" where
  "enc_output [] s =
     (Some XD3_WINFINISH, s\<lparr>enc_current := [], etotal_in := etotal_in s + avail_in s, enc_state := ENC_POSTWIN\<rparr>)"
| "enc_output (p # ps) s =
     (let s1 = s\<lparr>enc_current := p # ps, enc_state := ENC_POSTOUT, eout := base p, eavail_out := next_off p,
                 etotal_out := etotal_out s + next_off p\<rparr>
      in if eavail_out s1 > 0 then (Some XD3_OUTPUT, s1) else enc_output ps s1)"

definition enc_postout :: "xd3_estream \<Rightarrow> (xd3_ret \<times> xd3_estream) option" where
  "enc_postout s =
     (if eavail_out s \<noteq> 0 then Some (Some XD3_INTERNAL, s)
      else case enc_current s of [] \<Rightarrow> None | p # ps \<Rightarrow> Some (enc_output ps s))"

definition enc_flush :: "xd3_estream \<Rightarrow> (xd3_ret \<times> xd3_estream) option" where
  "enc_flush = seqo (\<lambda>s. Some (xd3_emit_hdr s)) (\<lambda>s. Some (enc_output (all_pages s) s))"

definition enc_instr :: "xd3_estream \<Rightarrow> (xd3_ret \<times> xd3_estream) option" where
  "enc_instr =
     seqo (\<lambda>s. Some (seqr (xd3_iopt_flush_instructions True) xd3_iopt_add_finalize s))
          (\<lambda>s. enc_flush (s\<lparr>enc_state := ENC_FLUSH\<rparr>))"

text \<open>The case \<open>ENC_SEARCH\<close>: the continued source match, then the string matcher.\<close>

definition extend_input :: "xd3_estream \<Rightarrow> (xd3_ret \<times> xd3_estream) option" where
  "extend_input s =
     (if avail_in s \<noteq> 0 then
        seqo xd3_source_extend_match (\<lambda>s. Some (None, s\<lparr>input_position := input_position s + match_fwd s\<rparr>)) s
      else Some (None, s))"

definition match_target :: "xd3_source \<Rightarrow> xd3_estream \<Rightarrow> xd3_estream" where
  "match_target source s =
     (if avail_in s > 0 then (snd (xd3_source_match_setup source (match_srcpos s) s))\<lparr>match_state := MATCH_FORWARD\<rparr>
      else s\<lparr>match_state := MATCH_SEARCHING, match_fwd := 0\<rparr>)"

definition enc_continue_match :: "xd3_estream \<Rightarrow> (xd3_ret \<times> xd3_estream) option" where
  "enc_continue_match s =
     (case esrc s of
        None \<Rightarrow> Some (None, s)
      | Some source \<Rightarrow>
          (case match_state s of
             MATCH_TARGET \<Rightarrow> extend_input (match_target source s)
           | MATCH_FORWARD \<Rightarrow> extend_input s
           | MATCH_BACKWARD \<Rightarrow> extend_input s
           | MATCH_SEARCHING \<Rightarrow> Some (None, s)))"

definition enc_string_match :: "xd3_estream \<Rightarrow> (xd3_ret \<times> xd3_estream) option" where
  "enc_string_match s = (if avail_in s \<noteq> 0 then xd3_string_match s else Some (None, s))"

definition enc_search :: "xd3_estream \<Rightarrow> (xd3_ret \<times> xd3_estream) option" where
  "enc_search =
     seqo enc_continue_match (seqo enc_string_match (\<lambda>s. enc_instr (s\<lparr>enc_state := ENC_INSTR\<rparr>)))"

definition enc_postwin :: "xd3_estream \<Rightarrow> (xd3_ret \<times> xd3_estream) option" where
  "enc_postwin s =
     (let s1 = (xd3_encode_reset s)\<lparr>ewindow := ewindow s + 1, enc_state := ENC_INPUT\<rparr>
      in if buf_leftover s1 \<noteq> None then enc_flush_label s1 else Some (Some XD3_INPUT, s1))"

definition xd3_encode_input :: "xd3_estream \<Rightarrow> (xd3_ret \<times> xd3_estream) option" where
  "xd3_encode_input s =
     (if decoding s then Some (Some XD3_INTERNAL, s)
      else case enc_state s of
        ENC_INIT \<Rightarrow> enc_init s
      | ENC_INPUT \<Rightarrow> enc_input s
      | ENC_SEARCH \<Rightarrow> enc_search s
      | ENC_INSTR \<Rightarrow> enc_instr s
      | ENC_FLUSH \<Rightarrow> enc_flush s
      | ENC_POSTOUT \<Rightarrow> enc_postout s
      | ENC_POSTWIN \<Rightarrow> enc_postwin s
      | ENC_ABORTED \<Rightarrow> Some (Some XD3_INTERNAL, s))"

subsection \<open>Closing\<close>

definition encode_avail_input :: "bytes \<Rightarrow> xd3_estream \<Rightarrow> xd3_estream" where
  "encode_avail_input data s = s\<lparr>ein := data, ein_set := True\<rparr>"

definition encode_consume_output :: "xd3_estream \<Rightarrow> xd3_estream" where
  "encode_consume_output s = s\<lparr>eavail_out := 0\<rparr>"

definition encode_abort_stream :: "xd3_estream \<Rightarrow> xd3_estream" where
  "encode_abort_stream s = s\<lparr>enc_state := ENC_ABORTED\<rparr>"

text \<open>\<open>xd3_close_stream\<close> of an encoder. In the second branch of the code \<open>dec_state\<close> is \<open>DEC_VCHEAD\<close>,
  or \<open>DEC_ABORTED\<close> after \<open>xd3_abort_stream\<close>, and the result is 0.\<close>

definition encode_close_stream :: "enc_step" where
  "encode_close_stream s =
     (if enc_state s \<noteq> ENC_INIT \<and> enc_state s \<noteq> ENC_ABORTED then
        if buf_leftover s \<noteq> None then (Some XD3_INTERNAL, s)
        else
          let s1 = (if enc_state s = ENC_POSTWIN
                    then (xd3_encode_reset s)\<lparr>ewindow := ewindow s + 1, enc_state := ENC_INPUT\<rparr> else s)
          in if enc_state s1 \<noteq> ENC_INPUT \<or> avail_in s1 \<noteq> 0 then (Some XD3_INTERNAL, s1) else (None, s1)
      else (None, s))"

end
