(* ===== verification/Xd3_EncodeSafe.thy ===== *)
theory Xd3_EncodeSafe
  imports Xd3_MatchLoop Xd3_EncodeWindow Xd3_Encode Xd3_DecodeRefines
begin

section \<open>From a window of input to a window of the delta\<close>

text \<open>
  The states of \<open>xd3_encode_input\<close> put together for one window: the search, the flush of the instruction
  buffer, the window header and the output of the pages. What is written is described by \<open>window_image\<close>,
  the bytes of a header and the three sections, and the sections mean the input.
\<close>

subsection \<open>What the flush leaves alone\<close>

definition fcore :: "xd3_estream \<Rightarrow> xd3_estream" where
  "fcore s = s\<lparr>emem := \<lparr>alloc_ok = \<lambda>_. False, alloc_cnt = 0, enc_free = 0\<rparr>, esrc := None,
     eacache := \<lparr>s_near = 0, s_same = 0, next_slot = 0, near_array = [], same_array = []\<rparr>, taroff := 0,
     unencoded_offset := 0, srcwin_decided := False, srcwin_decided_early := False, inst_chain := empty_chain,
     data_chain := empty_chain, addr_chain := empty_chain, iopt_used := [], iopt_free := 0, iout := None,
     n_scpy := 0, n_tcpy := 0, n_add := 0, n_run := 0, l_scpy := 0, l_tcpy := 0, l_add := 0, l_run := 0\<rparr>"

lemma fcore_upd [simp]:
  "fcore (s\<lparr>emem := a1\<rparr>) = fcore s" "fcore (s\<lparr>esrc := a2\<rparr>) = fcore s" "fcore (s\<lparr>eacache := a3\<rparr>) = fcore s"
  "fcore (s\<lparr>taroff := a4\<rparr>) = fcore s" "fcore (s\<lparr>unencoded_offset := a5\<rparr>) = fcore s"
  "fcore (s\<lparr>srcwin_decided := a6\<rparr>) = fcore s" "fcore (s\<lparr>srcwin_decided_early := a7\<rparr>) = fcore s"
  "fcore (s\<lparr>inst_chain := a8\<rparr>) = fcore s" "fcore (s\<lparr>data_chain := a9\<rparr>) = fcore s" "fcore (s\<lparr>addr_chain := b1\<rparr>) = fcore s"
  "fcore (s\<lparr>iopt_used := b2\<rparr>) = fcore s" "fcore (s\<lparr>iopt_free := b3\<rparr>) = fcore s" "fcore (s\<lparr>iout := b4\<rparr>) = fcore s"
  "fcore (s\<lparr>n_scpy := b5\<rparr>) = fcore s" "fcore (s\<lparr>n_tcpy := b5\<rparr>) = fcore s" "fcore (s\<lparr>n_add := b5\<rparr>) = fcore s"
  "fcore (s\<lparr>n_run := b5\<rparr>) = fcore s" "fcore (s\<lparr>l_scpy := b5\<rparr>) = fcore s" "fcore (s\<lparr>l_tcpy := b5\<rparr>) = fcore s"
  "fcore (s\<lparr>l_add := b5\<rparr>) = fcore s" "fcore (s\<lparr>l_run := b5\<rparr>) = fcore s"
  by (simp_all add: fcore_def)

definition keeps :: "enc_step \<Rightarrow> bool" where
  "keeps f \<longleftrightarrow> (\<forall>s. fcore (snd (f s)) = fcore s)"

lemma keepsD: "keeps f \<Longrightarrow> f s = (r, t) \<Longrightarrow> fcore t = fcore s"
  unfolding keeps_def by (metis snd_conv)

lemma keeps_seqr: "keeps f \<Longrightarrow> keeps g \<Longrightarrow> keeps (seqr f g)"
  by (simp add: keeps_def seqr_def split: prod.split option.split) (metis snd_conv)

lemma keeps_ret: "(\<And>s. fcore (f s) = fcore s) \<Longrightarrow> keeps (\<lambda>s. (r, f s))"
  by (simp add: keeps_def)

lemma keeps_on: "keeps (on_inst f)" "keeps (on_data f)"
  by (simp_all add: keeps_def on_inst_def on_data_def split: prod.split)

lemma keeps_if: "keeps f \<Longrightarrow> keeps g \<Longrightarrow> keeps (\<lambda>s. if c s then f s else g s)"
  by (simp add: keeps_def)

lemma fcore_free_nonadd [simp]: "fcore (xd3_iopt_free_nonadd i s) = fcore s"
  by (simp add: xd3_iopt_free_nonadd_def)

lemma keeps_emit_single: "keeps (xd3_emit_single i c)"
proof -
  have "keeps (seqr (on_inst (xd3_emit_byte c))
      (\<lambda>s. if size1 (ecode_table s ! unat c) = 0 then on_inst (xd3_emit_size (rsize i)) s else (None, s)))"
    by (intro keeps_seqr keeps_on keeps_if keeps_ret refl)
  then show ?thesis by (simp add: keeps_def xd3_emit_single_def)
qed

lemma keeps_copy_window: "keeps copy_window"
  by (auto simp: keeps_def copy_window_def xd3_srcwin_setup_def srcwin_done_def Let_def split: option.split)

lemma encode_operands_keeps: "encode_operands i s = (r, i', t) \<Longrightarrow> fcore t = fcore s"
proof -
  assume e: "encode_operands i s = (r, i', t)"
  have 1: "fcore t = fcore s" if c: "encode_copy i s = (r, i', t)"
  proof -
    obtain r1 s1 where w: "copy_window s = (r1, s1)" by force
    have f: "fcore s1 = fcore s" by (rule keepsD [OF keeps_copy_window w])
    have "fcore (copy_stats i s1) = fcore s1" by (simp add: copy_stats_def)
    then show ?thesis using c w f by (auto simp: encode_copy_def Let_def split: option.splits prod.splits)
  qed
  have 2: "keeps (encode_run i)" unfolding encode_run_def by (intro keeps_seqr keeps_on keeps_ret) simp
  have 3: "keeps (encode_add i)"
  proof -
    have "keeps (seqr (on_data (xd3_emit_bytes d)) (\<lambda>s. (None, s\<lparr>n_add := n_add s + 1, l_add := l_add s + rsize i\<rparr>)))" for d
      by (intro keeps_seqr keeps_on keeps_ret) simp
    then show ?thesis by (simp add: keeps_def encode_add_def)
  qed
  show ?thesis using e 1 keepsD [OF 2] keepsD [OF 3]
    by (auto simp: encode_operands_def split: if_splits prod.splits)
qed

lemma keeps_emit_previous: "keeps (emit_previous i)"
  unfolding keeps_def
proof
  fix s :: xd3_estream
  obtain p' i' where c: "xd3_choose_instruction (iout s) i = (p', i')" by force
  show "fcore (snd (emit_previous i s)) = fcore s"
  proof (cases p')
    case None
    then show ?thesis using c by (simp add: emit_previous_def)
  next
    case (Some p)
    have 1: "keeps (seqr (xd3_emit_double p i' (code2 p))
       (\<lambda>s. (None, (xd3_iopt_free_nonadd i' (xd3_iopt_free_nonadd p s))\<lparr>iout := None\<rparr>)))"
      unfolding xd3_emit_double_def by (intro keeps_seqr keeps_on keeps_ret) simp
    have 2: "keeps (seqr (xd3_emit_single p (code1 p)) (\<lambda>s. (None, (xd3_iopt_free_nonadd p s)\<lparr>iout := Some i'\<rparr>)))"
      by (intro keeps_seqr keeps_emit_single keeps_ret) simp
    show ?thesis using c Some 1 2 by (simp add: emit_previous_def Let_def keeps_def)
  qed
qed

lemma keeps_finish_encoding: "keeps (xd3_iopt_finish_encoding i)"
  unfolding keeps_def
proof
  fix s :: xd3_estream
  obtain r i' t where e: "encode_operands i s = (r, i', t)" by (metis prod_cases3)
  show "fcore (snd (xd3_iopt_finish_encoding i s)) = fcore s"
    using e encode_operands_keeps [OF e] keeps_emit_previous
    by (cases r) (simp_all add: xd3_iopt_finish_encoding_def keeps_def)
qed

lemma keeps_add: "keeps (xd3_iopt_add p)"
  using keeps_finish_encoding by (simp add: keeps_def xd3_iopt_add_def Let_def)

lemma keeps_flush_loop: "keeps (flush_loop True n rs)"
proof (induction rs)
  case (Cons r rs)
  have "keeps (seqr (xd3_iopt_add_encoding r) (flush_loop True n rs))"
    unfolding xd3_iopt_add_encoding_def by (intro keeps_seqr keeps_add keeps_finish_encoding Cons)
  then show ?case by (simp add: keeps_def)
qed (simp add: keeps_def)

lemma keeps_flush: "keeps (seqr (xd3_iopt_flush_instructions True) xd3_iopt_add_finalize)"
proof (rule keeps_seqr)
  show "keeps (xd3_iopt_flush_instructions True)"
    using keeps_flush_loop by (simp add: keeps_def xd3_iopt_flush_instructions_def Let_def)
  have single: "keeps (seqr (xd3_emit_single p (code1 p)) (\<lambda>s. (None, (xd3_iopt_free_nonadd p s)\<lparr>iout := None\<rparr>)))" for p
    by (intro keeps_seqr keeps_emit_single keeps_ret) simp
  have "keeps (\<lambda>s. case iout s of None \<Rightarrow> (None, s) | Some p \<Rightarrow>
      seqr (xd3_emit_single p (code1 p)) (\<lambda>s. (None, (xd3_iopt_free_nonadd p s)\<lparr>iout := None\<rparr>)) s)"
    using single by (simp add: keeps_def split: option.split)
  from keeps_seqr [OF keeps_add this] show "keeps xd3_iopt_add_finalize"
    by (simp add: keeps_def xd3_iopt_add_finalize_def)
qed

lemma fcore_fields:
  assumes "fcore t = fcore s"
  shows "ewindow t = ewindow s" "eflags t = eflags s" "hdr_chain t = hdr_chain s" "ein t = ein s"
    "enc_appheader t = enc_appheader s" "buf_leftover t = buf_leftover s" "enc_state t = enc_state s"
    "recode_adler32 t = recode_adler32 s" "decoding t = decoding s" "winsize t = winsize s"
    "match_minaddr t = match_minaddr s" "match_maxaddr t = match_maxaddr s"
proof -
  show "ewindow t = ewindow s" using arg_cong [OF assms, of ewindow] by (simp add: fcore_def)
  show "eflags t = eflags s" using arg_cong [OF assms, of eflags] by (simp add: fcore_def)
  show "hdr_chain t = hdr_chain s" using arg_cong [OF assms, of hdr_chain] by (simp add: fcore_def)
  show "ein t = ein s" using arg_cong [OF assms, of ein] by (simp add: fcore_def)
  show "enc_appheader t = enc_appheader s" using arg_cong [OF assms, of enc_appheader] by (simp add: fcore_def)
  show "buf_leftover t = buf_leftover s" using arg_cong [OF assms, of buf_leftover] by (simp add: fcore_def)
  show "enc_state t = enc_state s" using arg_cong [OF assms, of enc_state] by (simp add: fcore_def)
  show "recode_adler32 t = recode_adler32 s" using arg_cong [OF assms, of recode_adler32] by (simp add: fcore_def)
  show "decoding t = decoding s" using arg_cong [OF assms, of decoding] by (simp add: fcore_def)
  show "winsize t = winsize s" using arg_cong [OF assms, of winsize] by (simp add: fcore_def)
  show "match_minaddr t = match_minaddr s" using arg_cong [OF assms, of match_minaddr] by (simp add: fcore_def)
  show "match_maxaddr t = match_maxaddr s" using arg_cong [OF assms, of match_maxaddr] by (simp add: fcore_def)
qed

subsection \<open>How the flush can fail\<close>

definition hard :: "xd3_ret \<Rightarrow> bool" where
  "hard r \<longleftrightarrow> r = None \<or> r = Some ENOMEM \<or> r = Some XD3_INTERNAL"

definition fails_hard :: "enc_step \<Rightarrow> bool" where
  "fails_hard f \<longleftrightarrow> (\<forall>s. hard (fst (f s)))"

lemma fails_hardD: "fails_hard f \<Longrightarrow> f s = (r, t) \<Longrightarrow> hard r"
  unfolding fails_hard_def by (metis fst_conv)

lemma fails_seqr: "fails_hard f \<Longrightarrow> fails_hard g \<Longrightarrow> fails_hard (seqr f g)"
  by (simp add: fails_hard_def seqr_def hard_def split: prod.split option.split) (metis fst_conv option.discI option.inject)

lemma fails_ret: "fails_hard (\<lambda>s. (None, f s))"
  by (simp add: fails_hard_def hard_def)

lemma fails_if: "fails_hard f \<Longrightarrow> fails_hard g \<Longrightarrow> fails_hard (\<lambda>s. if c s then f s else g s)"
  by (simp add: fails_hard_def)

lemma emit_bytes_hard: "hard (fst (xd3_emit_bytes d s))"
proof (induction d s rule: xd3_emit_bytes.induct)
  case (1 d s)
  then show ?case
    by (subst xd3_emit_bytes.simps) (auto simp: emit_bytes_room_def hard_def Let_def split: prod.splits option.splits)
qed

lemma emit_byte_hard: "hard (fst (xd3_emit_byte b s))"
  by (auto simp: xd3_emit_byte_def hard_def Let_def split: prod.splits option.splits)

lemma fails_on:
  "fails_hard (on_inst (xd3_emit_byte b))" "fails_hard (on_inst (xd3_emit_size n))"
  "fails_hard (on_data (xd3_emit_byte b))" "fails_hard (on_data (xd3_emit_bytes d))"
  using emit_byte_hard emit_bytes_hard
  by (auto simp: fails_hard_def on_inst_def on_data_def xd3_emit_size_def split: prod.splits) (metis fst_conv)+

lemma fails_emit_single: "fails_hard (xd3_emit_single i c)"
proof -
  have "fails_hard (seqr (on_inst (xd3_emit_byte c))
      (\<lambda>s. if size1 (ecode_table s ! unat c) = 0 then on_inst (xd3_emit_size (rsize i)) s else (None, s)))"
    by (intro fails_seqr fails_on fails_if fails_ret)
  then show ?thesis by (simp add: fails_hard_def xd3_emit_single_def)
qed

lemma fails_copy_window: "fails_hard copy_window"
  by (auto simp: fails_hard_def hard_def copy_window_def xd3_srcwin_setup_def srcwin_done_def Let_def split: option.split)

lemma encode_address_hard: "hard (fst (xd3_encode_address a h c x))"
proof -
  obtain good d m where g: "address_search a h c = (good, d, m)" by (metis prod_cases3)
  define hit where "hit \<longleftrightarrow> \<not> good \<and> 0 < s_same c \<and> same_array c ! unat (a mod (s_same c * 256)) = a"
  define e where "e = (if hit then xd3_emit_byte (ucast (a mod (s_same c * 256) mod 256)) x else xd3_emit_size d x)"
  have "hard (fst e)" using emit_byte_hard emit_bytes_hard by (simp add: e_def xd3_emit_size_def)
  moreover have "fst (xd3_encode_address a h c x) = fst e"
    unfolding xd3_encode_address_def g Let_def prod.case hit_def [symmetric] e_def [symmetric]
    by (cases e; cases "fst e") auto
  ultimately show ?thesis by simp
qed

lemma encode_operands_hard: "encode_operands i s = (r, i', t) \<Longrightarrow> hard r"
proof -
  assume e: "encode_operands i s = (r, i', t)"
  have 1: "hard r" if c: "encode_copy i s = (r, i', t)"
  proof -
    obtain r1 s1 where w: "copy_window s = (r1, s1)" by force
    have "hard r1" by (rule fails_hardD [OF fails_copy_window w])
    then show ?thesis using c w encode_address_hard by (auto simp: encode_copy_def Let_def split: option.splits prod.splits) (metis fst_conv)
  qed
  have 2: "fails_hard (encode_run i)" unfolding encode_run_def by (intro fails_seqr fails_on fails_ret)
  have 3: "fails_hard (encode_add i)"
  proof -
    have "fails_hard (seqr (on_data (xd3_emit_bytes d)) (\<lambda>s. (None, s\<lparr>n_add := n_add s + 1, l_add := l_add s + rsize i\<rparr>)))" for d
      by (intro fails_seqr fails_on fails_ret)
    then show ?thesis by (simp add: fails_hard_def encode_add_def)
  qed
  show ?thesis using e 1 fails_hardD [OF 2] fails_hardD [OF 3]
    by (auto simp: encode_operands_def hard_def split: if_splits prod.splits)
qed

lemma fails_emit_previous: "fails_hard (emit_previous i)"
  unfolding fails_hard_def
proof
  fix s :: xd3_estream
  obtain p' i' where c: "xd3_choose_instruction (iout s) i = (p', i')" by force
  show "hard (fst (emit_previous i s))"
  proof (cases p')
    case None
    then show ?thesis using c by (simp add: emit_previous_def hard_def)
  next
    case (Some p)
    have 1: "fails_hard (seqr (xd3_emit_double p i' (code2 p))
       (\<lambda>s. (None, (xd3_iopt_free_nonadd i' (xd3_iopt_free_nonadd p s))\<lparr>iout := None\<rparr>)))"
      unfolding xd3_emit_double_def by (intro fails_seqr fails_on fails_ret)
    have 2: "fails_hard (seqr (xd3_emit_single p (code1 p)) (\<lambda>s. (None, (xd3_iopt_free_nonadd p s)\<lparr>iout := Some i'\<rparr>)))"
      by (intro fails_seqr fails_emit_single fails_ret)
    show ?thesis using c Some 1 2 by (simp add: emit_previous_def Let_def fails_hard_def)
  qed
qed

lemma fails_finish_encoding: "fails_hard (xd3_iopt_finish_encoding i)"
  unfolding fails_hard_def
proof
  fix s :: xd3_estream
  obtain r i' t where e: "encode_operands i s = (r, i', t)" by (metis prod_cases3)
  show "hard (fst (xd3_iopt_finish_encoding i s))"
    using e encode_operands_hard [OF e] fails_emit_previous
    by (cases r) (simp_all add: xd3_iopt_finish_encoding_def fails_hard_def)
qed

lemma fails_add: "fails_hard (xd3_iopt_add p)"
  using fails_finish_encoding by (simp add: fails_hard_def xd3_iopt_add_def Let_def hard_def)

lemma fails_flush_loop: "fails_hard (flush_loop True n rs)"
proof (induction rs)
  case (Cons r rs)
  have "fails_hard (seqr (xd3_iopt_add_encoding r) (flush_loop True n rs))"
    unfolding xd3_iopt_add_encoding_def by (intro fails_seqr fails_add fails_finish_encoding Cons)
  then show ?case by (simp add: fails_hard_def)
qed (simp add: fails_hard_def hard_def)

lemma fails_flush: "fails_hard (seqr (xd3_iopt_flush_instructions True) xd3_iopt_add_finalize)"
proof (rule fails_seqr)
  show "fails_hard (xd3_iopt_flush_instructions True)"
    using fails_flush_loop by (simp add: fails_hard_def xd3_iopt_flush_instructions_def Let_def)
  have single: "fails_hard (seqr (xd3_emit_single p (code1 p)) (\<lambda>s. (None, (xd3_iopt_free_nonadd p s)\<lparr>iout := None\<rparr>)))" for p
    by (intro fails_seqr fails_emit_single fails_ret)
  have "fails_hard (\<lambda>s. case iout s of None \<Rightarrow> (None, s) | Some p \<Rightarrow>
      seqr (xd3_emit_single p (code1 p)) (\<lambda>s. (None, (xd3_iopt_free_nonadd p s)\<lparr>iout := None\<rparr>)) s)"
    using single by (simp add: fails_hard_def hard_def split: option.split)
  from fails_seqr [OF fails_add this] show "fails_hard xd3_iopt_add_finalize"
    by (simp add: fails_hard_def xd3_iopt_add_finalize_def)
qed

subsection \<open>The header\<close>

text \<open>\<open>appends f b\<close>: \<open>f\<close> appends the bytes \<open>b s\<close> to the header section and does nothing else, or fails for
  want of memory.\<close>

definition appends :: "enc_step \<Rightarrow> (xd3_estream \<Rightarrow> bytes) \<Rightarrow> bool" where
  "appends f b \<longleftrightarrow> (\<forall>s. chain_wf (hdr_chain s) \<longrightarrow>
     (\<exists>r m ch. f s = (r, s\<lparr>emem := m, hdr_chain := ch\<rparr>) \<and> mem_outcome r s (s\<lparr>emem := m\<rparr>) \<and> chain_wf ch
        \<and> (r = None \<longrightarrow> chain_bytes ch = chain_bytes (hdr_chain s) @ b s)))"

lemma appends_bytes: "appends (on_hdr (xd3_emit_bytes d)) (\<lambda>s. d)" "appends (on_hdr (xd3_emit_byte x)) (\<lambda>s. [x])"
proof -
  show "appends (on_hdr (xd3_emit_bytes d)) (\<lambda>s. d)" unfolding appends_def
  proof (intro allI impI)
    fix s :: xd3_estream assume w: "chain_wf (hdr_chain s)"
    obtain r m ch where e: "xd3_emit_bytes d (emem s, hdr_chain s) = (r, m, ch)" by (metis prod_cases3)
    show "\<exists>r m ch. on_hdr (xd3_emit_bytes d) s = (r, s\<lparr>emem := m, hdr_chain := ch\<rparr>) \<and> mem_outcome r s (s\<lparr>emem := m\<rparr>)
        \<and> chain_wf ch \<and> (r = None \<longrightarrow> chain_bytes ch = chain_bytes (hdr_chain s) @ d)"
      using e w emit_bytes_result [of "(emem s, hdr_chain s)" d r m ch] emit_bytes_mem_ok [of "(emem s, hdr_chain s)" d]
      by (cases r) (auto simp: on_hdr_def mem_outcome_def)
  qed
  show "appends (on_hdr (xd3_emit_byte x)) (\<lambda>s. [x])" unfolding appends_def
  proof (intro allI impI)
    fix s :: xd3_estream assume w: "chain_wf (hdr_chain s)"
    obtain r m ch where e: "xd3_emit_byte x (emem s, hdr_chain s) = (r, m, ch)" by (metis prod_cases3)
    show "\<exists>r m ch. on_hdr (xd3_emit_byte x) s = (r, s\<lparr>emem := m, hdr_chain := ch\<rparr>) \<and> mem_outcome r s (s\<lparr>emem := m\<rparr>)
        \<and> chain_wf ch \<and> (r = None \<longrightarrow> chain_bytes ch = chain_bytes (hdr_chain s) @ [x])"
      using e w emit_byte_result [of "hdr_chain s" x "emem s" r m ch] emit_byte_mem_ok [of "emem s" x "hdr_chain s"]
      by (cases r) (auto simp: on_hdr_def mem_outcome_def)
  qed
qed

lemma appends_seqr:
  assumes "appends f b" "appends g c" "\<And>s m ch. c (s\<lparr>emem := m, hdr_chain := ch\<rparr>) = c s"
  shows "appends (seqr f g) (\<lambda>s. b s @ c s)"
  unfolding appends_def
proof (intro allI impI)
  fix s :: xd3_estream assume "chain_wf (hdr_chain s)"
  then obtain r m ch where 1: "f s = (r, s\<lparr>emem := m, hdr_chain := ch\<rparr>)" "mem_outcome r s (s\<lparr>emem := m\<rparr>)" "chain_wf ch"
    "r = None \<longrightarrow> chain_bytes ch = chain_bytes (hdr_chain s) @ b s" using assms(1) unfolding appends_def by blast
  show "\<exists>r m ch. seqr f g s = (r, s\<lparr>emem := m, hdr_chain := ch\<rparr>) \<and> mem_outcome r s (s\<lparr>emem := m\<rparr>) \<and> chain_wf ch
      \<and> (r = None \<longrightarrow> chain_bytes ch = chain_bytes (hdr_chain s) @ b s @ c s)"
  proof (cases r)
    case (Some e)
    then show ?thesis using 1 by (intro exI [of _ r] exI [of _ m] exI [of _ ch]) (simp add: seqr_def)
  next
    case None
    obtain q m' ch' where 2: "g (s\<lparr>emem := m, hdr_chain := ch\<rparr>) = (q, s\<lparr>emem := m', hdr_chain := ch'\<rparr>)"
      "q = None \<or> q = Some ENOMEM" "mem_ok m \<longrightarrow> q = None \<and> mem_ok m'" "chain_wf ch'"
      "q = None \<longrightarrow> chain_bytes ch' = chain_bytes ch @ c s"
      using assms(2) [unfolded appends_def mem_outcome_def, rule_format, of "s\<lparr>emem := m, hdr_chain := ch\<rparr>"] assms(3) 1(3) by auto
    show ?thesis using 1 2 None by (intro exI [of _ q] exI [of _ m'] exI [of _ ch']) (auto simp: seqr_def mem_outcome_def)
  qed
qed

lemma appends_dep: "(\<And>x. appends (f x) (b x)) \<Longrightarrow> appends (\<lambda>s. f (h s) s) (\<lambda>s. b (h s) s)"
  by (simp add: appends_def)

lemma appends_none: "appends (\<lambda>s. (None, s)) (\<lambda>s. [])"
  unfolding appends_def
proof (intro allI impI)
  fix s :: xd3_estream assume "chain_wf (hdr_chain s)"
  then show "\<exists>r m ch. (None, s) = (r, s\<lparr>emem := m, hdr_chain := ch\<rparr>) \<and> mem_outcome r s (s\<lparr>emem := m\<rparr>) \<and> chain_wf ch
      \<and> (r = None \<longrightarrow> chain_bytes ch = chain_bytes (hdr_chain s) @ [])"
    by (intro exI [of _ None] exI [of _ "emem s"] exI [of _ "hdr_chain s"]) (simp add: mem_outcome_def)
qed

lemma appends_size: "appends (on_hdr (xd3_emit_size n)) (\<lambda>s. emit_uint64 n)"
  unfolding xd3_emit_size_def by (rule appends_bytes)

text \<open>The bytes of the file header and of a window header.\<close>

definition file_hdr :: "bytes option \<Rightarrow> bytes" where
  "file_hdr app =
     [VCDIFF_MAGIC1, VCDIFF_MAGIC2, VCDIFF_MAGIC3, VCDIFF_VERSION, if app \<noteq> None then ucast VCD_APPHEADER else 0]
     @ (case app of None \<Rightarrow> [] | Some d \<Rightarrow> emit_uint64 (of_nat (length d)) @ d)"

definition source_hdr :: "xd3_source option \<Rightarrow> bytes" where
  "source_hdr source =
     (case source of None \<Rightarrow> []
      | Some x \<Rightarrow> if srclen x > 0 then emit_uint64 (srclen x) @ emit_uint64 (srcbase x) else [])"

definition lengths_hdr :: "xd3_estream \<Rightarrow> bytes" where
  "lengths_hdr s = emit_uint64 (window_enc_len s) @ emit_uint64 (avail_in s) @ [0]
     @ emit_uint64 (xd3_sizeof_output (data_chain s)) @ emit_uint64 (xd3_sizeof_output (inst_chain s))
     @ emit_uint64 (xd3_sizeof_output (addr_chain s))"

definition adler_hdr :: "xd3_estream \<Rightarrow> bytes" where
  "adler_hdr s = (if use_adler32 s then adler_bytes
     (if eflags s AND XD3_ADLER32 \<noteq> 0 then adler32 1 (ein s) else recode_adler32 s) else [])"

definition header_image :: "xd3_estream \<Rightarrow> bytes" where
  "header_image s = (if ewindow s = 0 then file_hdr (enc_appheader s) else [])
     @ [window_indicator s] @ source_hdr (esrc s) @ lengths_hdr s @ adler_hdr s"

lemma emit_hdr_ok: "appends xd3_emit_hdr header_image"
proof -
  have app: "appends emit_appheader (\<lambda>s. case enc_appheader s of None \<Rightarrow> [] | Some d \<Rightarrow> emit_uint64 (of_nat (length d)) @ d)"
  proof -
    have "appends (case a of None \<Rightarrow> (\<lambda>s. (None, s))
        | Some data \<Rightarrow> seqr (on_hdr (xd3_emit_size (of_nat (length data)))) (on_hdr (xd3_emit_bytes data)))
      (\<lambda>s. case a of None \<Rightarrow> [] | Some d \<Rightarrow> emit_uint64 (of_nat (length d)) @ d)" for a
      by (cases a) (auto intro: appends_none appends_seqr appends_size appends_bytes)
    from appends_dep [OF this, of enc_appheader] show ?thesis
      by (simp add: emit_appheader_def [abs_def] option.case_distrib [where h = "\<lambda>f. f s" for s] cong: option.case_cong)
  qed
  have fh: "appends emit_file_hdr (\<lambda>s. if ewindow s = 0 then file_hdr (enc_appheader s) else [])"
  proof -
    let ?f = "\<lambda>x. seqr (on_hdr (xd3_emit_byte VCDIFF_MAGIC1)) (seqr (on_hdr (xd3_emit_byte VCDIFF_MAGIC2))
       (seqr (on_hdr (xd3_emit_byte VCDIFF_MAGIC3)) (seqr (on_hdr (xd3_emit_byte VCDIFF_VERSION))
       (seqr (on_hdr (xd3_emit_byte x)) emit_appheader))))"
    have "appends (?f x) (\<lambda>s. [VCDIFF_MAGIC1] @ [VCDIFF_MAGIC2] @ [VCDIFF_MAGIC3] @ [VCDIFF_VERSION] @ [x] @
       (case enc_appheader s of None \<Rightarrow> [] | Some d \<Rightarrow> emit_uint64 (of_nat (length d)) @ d))" for x
      by (intro appends_seqr appends_bytes app) simp_all
    from appends_dep [OF this, of "\<lambda>s. if enc_appheader s \<noteq> None then ucast VCD_APPHEADER else 0"]
    have "appends (\<lambda>s. ?f (if enc_appheader s \<noteq> None then ucast VCD_APPHEADER else 0) s) (\<lambda>s. file_hdr (enc_appheader s))"
      by (simp add: file_hdr_def)
    then show ?thesis using appends_none by (simp add: appends_def emit_file_hdr_def)
  qed
  have ind: "appends (\<lambda>s. on_hdr (xd3_emit_byte (window_indicator s)) s) (\<lambda>s. [window_indicator s])"
    by (rule appends_dep [OF appends_bytes(2)])
  have sw: "appends emit_source_window (\<lambda>s. source_hdr (esrc s))"
  proof -
    have "appends (seqr (on_hdr (xd3_emit_size a)) (on_hdr (xd3_emit_size b))) (\<lambda>s. emit_uint64 a @ emit_uint64 b)" for a b
      by (intro appends_seqr appends_size) simp
    then show ?thesis using appends_none unfolding appends_def emit_source_window_def source_hdr_def
      by (simp split: option.split)
  qed
  have le: "appends emit_lengths lengths_hdr"
  proof -
    have "appends (seqr (on_hdr (xd3_emit_size n1)) (seqr (on_hdr (xd3_emit_size n2)) (seqr (on_hdr (xd3_emit_byte 0))
       (seqr (on_hdr (xd3_emit_size n3)) (seqr (on_hdr (xd3_emit_size n4)) (on_hdr (xd3_emit_size n5)))))))
       (\<lambda>s. emit_uint64 n1 @ emit_uint64 n2 @ [0] @ emit_uint64 n3 @ emit_uint64 n4 @ emit_uint64 n5)" for n1 n2 n3 n4 n5
      by (intro appends_seqr appends_size appends_bytes) simp_all
    then show ?thesis by (simp add: appends_def emit_lengths_def lengths_hdr_def)
  qed
  have ad: "appends emit_adler32 adler_hdr"
    using appends_bytes(1) appends_none by (simp add: appends_def emit_adler32_def adler_hdr_def)
  have hi: "header_image = (\<lambda>s. (if ewindow s = 0 then file_hdr (enc_appheader s) else [])
     @ [window_indicator s] @ source_hdr (esrc s) @ lengths_hdr s @ adler_hdr s)" by (rule ext) (simp add: header_image_def)
  show ?thesis unfolding xd3_emit_hdr_def hi
    by (intro appends_seqr fh ind sw le ad)
      (simp_all add: adler_hdr_def use_adler32_def lengths_hdr_def window_enc_len_def avail_in_def window_indicator_def xd3_encoder_used_source_def)
qed

end
