(* ===== verification/Xd3_Stream.thy ===== *)
theory Xd3_Stream
  imports Prelude Xd3_Util Xd3_Source Xd3_Decode Xd3_Iopt Xd3_Match Xd3_Encode
begin

section \<open>Configuration, whole-buffer coding and deltas (xdelta3.c "Client convenience functions", delta.c)\<close>

text \<open>
  \<open>xd3_config_stream\<close>, the loop that feeds a buffer to the encoder or the decoder, the two memory
  functions and the functions of delta.c that the server calls. \<open>struct _xd3_stream\<close> is modelled by one
  record for its use as an encoder and one for its use as a decoder; \<open>xd3_process_stream\<close> takes the
  operations of either as parameters, as the code takes \<open>func\<close>. An outer \<open>None\<close> is a memory fault or a
  loop that does not end.
\<close>

subsection \<open>Configuration\<close>

definition XD3_DEFAULT_WINSIZE :: usize_t where "XD3_DEFAULT_WINSIZE = push_bit 23 1"
definition XD3_DEFAULT_SPREVSZ :: usize_t where "XD3_DEFAULT_SPREVSZ = push_bit 18 1"

definition XD3_SEC_TYPE :: u32 where "XD3_SEC_TYPE = push_bit 5 1 OR push_bit 6 1 OR push_bit 24 1"
definition XD3_SEC_NOALL :: u32 where "XD3_SEC_NOALL = push_bit 7 1 OR push_bit 8 1 OR push_bit 9 1"
definition XD3_COMPLEVEL_SHIFT :: nat where "XD3_COMPLEVEL_SHIFT = 20"
definition XD3_COMPLEVEL_MASK :: u32 where "XD3_COMPLEVEL_MASK = push_bit XD3_COMPLEVEL_SHIFT 0xF"

datatype xd3_smatch_cfg =
    XD3_SMATCH_DEFAULT | XD3_SMATCH_SLOW | XD3_SMATCH_FAST | XD3_SMATCH_FASTER | XD3_SMATCH_FASTEST | XD3_SMATCH_SOFT

text \<open>\<open>xd3_config\<close>; the allocator is the argument \<open>m\<close> below.\<close>

record xd3_config =
  cfg_winsize :: usize_t
  cfg_sprevsz :: usize_t
  cfg_iopt_size :: usize_t
  cfg_getblk :: "getblk_func option"
  cfg_flags :: u32
  cfg_smatch :: xd3_smatch_cfg
  cfg_smatcher_soft :: xd3_smatcher

definition mk_smatcher ::
  "usize_t \<Rightarrow> usize_t \<Rightarrow> usize_t \<Rightarrow> usize_t \<Rightarrow> usize_t \<Rightarrow> usize_t \<Rightarrow> usize_t \<Rightarrow> xd3_smatcher" where
  "mk_smatcher llook lstep slook schain slchain maxlazy longenough =
     \<lparr>large_look = llook, large_step = lstep, small_look = slook, small_chain = schain, small_lchain = slchain,
      max_lazy = maxlazy, long_enough = longenough\<rparr>"

definition smatcher_fastest :: xd3_smatcher where "smatcher_fastest = mk_smatcher 9 26 4 1 1 6 6"
definition smatcher_faster :: xd3_smatcher where "smatcher_faster = mk_smatcher 9 15 4 1 1 18 18"
definition smatcher_fast :: xd3_smatcher where "smatcher_fast = mk_smatcher 9 8 4 4 1 18 35"
definition smatcher_slow :: xd3_smatcher where "smatcher_slow = mk_smatcher 9 2 4 44 13 90 70"
definition smatcher_default :: xd3_smatcher where "smatcher_default = mk_smatcher 9 3 4 8 2 36 70"

definition zero_config :: "u32 \<Rightarrow> xd3_config" where
  "zero_config fl =
     \<lparr>cfg_winsize = 0, cfg_sprevsz = 0, cfg_iopt_size = 0, cfg_getblk = None, cfg_flags = fl,
      cfg_smatch = XD3_SMATCH_DEFAULT, cfg_smatcher_soft = mk_smatcher 0 0 0 0 0 0 0\<rparr>"

definition config_secondary :: "u32 \<Rightarrow> bool" where
  "config_secondary fl \<longleftrightarrow> fl AND XD3_SEC_TYPE = 0 \<and> fl AND XD3_SEC_NOALL = 0"

definition level_smatcher :: "u32 \<Rightarrow> xd3_smatcher" where
  "level_smatcher level =
     (if level = 1 then smatcher_fastest else if level = 2 then smatcher_faster
      else if level = 3 \<or> level = 4 \<or> level = 5 then smatcher_fast
      else if level = 6 then smatcher_default else smatcher_slow)"

definition config_smatcher :: "xd3_config \<Rightarrow> xd3_rvalues + xd3_smatcher" where
  "config_smatcher cfg =
     (case cfg_smatch cfg of
        XD3_SMATCH_SOFT \<Rightarrow>
          let sm = cfg_smatcher_soft cfg
          in if large_look sm < MIN_MATCH \<or> large_step sm < 1 \<or> small_look sm < MIN_MATCH then Inl XD3_INVALID
             else Inr sm
      | XD3_SMATCH_DEFAULT \<Rightarrow>
          if cfg_flags cfg AND XD3_COMPLEVEL_MASK \<noteq> 0
          then Inr (level_smatcher (drop_bit XD3_COMPLEVEL_SHIFT (cfg_flags cfg AND XD3_COMPLEVEL_MASK)))
          else Inr smatcher_default
      | XD3_SMATCH_SLOW \<Rightarrow> Inr smatcher_slow
      | XD3_SMATCH_FASTEST \<Rightarrow> Inr smatcher_fastest
      | XD3_SMATCH_FASTER \<Rightarrow> Inr smatcher_faster
      | XD3_SMATCH_FAST \<Rightarrow> Inr smatcher_fast)"

definition empty_hash_cfg :: xd3_hash_cfg where
  "empty_hash_cfg = \<lparr>xd3_hash_cfg.hsize = 0, shift = 0, hmask = 0, look = 0, multiplier = 0, powers = []\<rparr>"

text \<open>The stream that the encoder starts from: cleared, then the fields of the configuration. The test
  of \<open>small_chain\<close> and \<open>small_lchain\<close> sees the cleared values, so \<open>sprevsz\<close> is always checked.\<close>

definition encoder_stream :: "xd3_config \<Rightarrow> xd3_mem \<Rightarrow> xd3_smatcher \<Rightarrow> xd3_estream" where
  "encoder_stream cfg m sm =
     (let wsz = (if cfg_winsize cfg \<noteq> 0 then cfg_winsize cfg else XD3_DEFAULT_WINSIZE);
          psz = (if cfg_sprevsz cfg \<noteq> 0 then cfg_sprevsz cfg else XD3_DEFAULT_SPREVSZ)
      in \<lparr>emem = m, ein = [], ein_set = False, etotal_in = 0, eout = [], eavail_out = 0, etotal_out = 0,
          ewindow = 0, esrc = None, winsize = wsz, sprevsz = psz, sprevmask = psz - 1,
          iopt_size = (if cfg_iopt_size cfg = 0 then iopt_elts else cfg_iopt_size cfg),
          iopt_unlimited = (cfg_iopt_size cfg = 0), egetblk = cfg_getblk cfg, eflags = cfg_flags cfg,
          smatcher = sm, large_table = None, large_hash = empty_hash_cfg, small_table = None,
          small_prev = None, small_reset = False, small_hash = empty_hash_cfg,
          eacache = \<lparr>s_near = 0, s_same = 0, next_slot = 0, near_array = [], same_array = []\<rparr>,
          enc_state = ENC_INIT, taroff = 0, input_position = 0, min_match = 0, unencoded_offset = 0,
          srcwin_decided = False, srcwin_decided_early = False, srcwin_cksum_pos = 0,
          match_state = MATCH_TARGET, match_srcpos = 0, match_last_srcpos = 0, match_minaddr = 0,
          match_maxaddr = 0, match_back = 0, match_maxback = 0, match_fwd = 0, match_maxfwd = 0,
          maxsrcaddr = 0, buf_in = False, buf = [], buf_leftover = None, enc_current = [],
          hdr_chain = empty_chain, inst_chain = empty_chain, data_chain = empty_chain,
          addr_chain = empty_chain, recode_adler32 = 0, iopt_used = [], iopt_free = 0, iout = None,
          enc_appheader = None, ecode_table = [], decoding = False, n_scpy = 0, n_tcpy = 0, n_add = 0,
          n_run = 0, l_scpy = 0, l_tcpy = 0, l_add = 0, l_run = 0, i_slots_used = 0\<rparr>)"

definition xd3_config_stream :: "xd3_config \<Rightarrow> xd3_mem \<Rightarrow> xd3_rvalues + xd3_estream" where
  "xd3_config_stream cfg m =
     (if \<not> config_secondary (cfg_flags cfg) then Inl XD3_INTERNAL
      else if fst (xd3_check_pow2 (if cfg_sprevsz cfg \<noteq> 0 then cfg_sprevsz cfg else XD3_DEFAULT_SPREVSZ)) \<noteq> None
      then Inl XD3_INTERNAL
      else map_sum id (encoder_stream cfg m) (config_smatcher cfg))"

text \<open>The same configuration for a stream that will decode: the decoder looks at the flags, the
  allocator and the callback.\<close>

definition config_decoder :: "xd3_config \<Rightarrow> xd3_mem \<Rightarrow> xd3_rvalues + xd3_dstream" where
  "config_decoder cfg m = map_sum id (\<lambda>s. decoder_stream m (cfg_flags cfg) None (cfg_getblk cfg)) (xd3_config_stream cfg m)"

subsection \<open>Coding a buffer\<close>

partial_function (option) process_loop ::
  "('s \<Rightarrow> (xd3_ret \<times> 's) option) \<Rightarrow> (bytes \<Rightarrow> 's \<Rightarrow> 's) \<Rightarrow> ('s \<Rightarrow> bytes) \<Rightarrow> ('s \<Rightarrow> 's) \<Rightarrow> usize_t \<Rightarrow> usize_t
   \<Rightarrow> bytes \<Rightarrow> bytes \<Rightarrow> 's \<Rightarrow> (xd3_ret \<times> bytes \<times> 's) option" where
  "process_loop func avail_input out consume_output wsz output_size_max rest output s =
     Option.bind (func s) (\<lambda>(r, s').
       case r of
         None \<Rightarrow> Some (Some XD3_INTERNAL, output, s')
       | Some c \<Rightarrow>
           if c = XD3_OUTPUT then
             if of_nat (length output) + of_nat (length (out s')) > output_size_max
             then Some (Some ENOSPC, output, s')
             else process_loop func avail_input out consume_output wsz output_size_max rest
                    (output @ out s') (consume_output s')
           else if c = XD3_INPUT then
             let n = min (unat wsz) (length rest)
             in if n = 0 then Some (None, output, s')
                else process_loop func avail_input out consume_output wsz output_size_max (drop n rest)
                       output (avail_input (take n rest) s')
           else if c = XD3_GOTHEADER \<or> c = XD3_WINSTART \<or> c = XD3_WINFINISH then
             process_loop func avail_input out consume_output wsz output_size_max rest output s'
           else if c = XD3_GETSRCBLK then Some (Some XD3_INTERNAL, output, s')
           else Some (Some c, output, s'))"

text \<open>\<open>xd3_process_stream\<close> with \<open>close_stream\<close> set, as all its callers have it. \<open>set_flush\<close> is
  \<open>stream->flags |= XD3_FLUSH\<close>. The result is the return code and the bytes written to \<open>output\<close>.\<close>

definition xd3_process_stream ::
  "('s \<Rightarrow> (xd3_ret \<times> 's) option) \<Rightarrow> ('s \<Rightarrow> 's) \<Rightarrow> (bytes \<Rightarrow> 's \<Rightarrow> 's) \<Rightarrow> ('s \<Rightarrow> bytes) \<Rightarrow> ('s \<Rightarrow> 's)
   \<Rightarrow> ('s \<Rightarrow> xd3_ret) \<Rightarrow> usize_t \<Rightarrow> bytes \<Rightarrow> usize_t \<Rightarrow> 's \<Rightarrow> (xd3_ret \<times> bytes) option" where
  "xd3_process_stream func set_flush avail_input out consume_output close_stream wsz input output_size_max s =
     (let n = min (unat wsz) (length input)
      in Option.bind (process_loop func avail_input out consume_output wsz output_size_max (drop n input) []
                        (avail_input (take n input) (set_flush s)))
           (\<lambda>(r, output, s'). case r of Some e \<Rightarrow> Some (Some e, output) | None \<Rightarrow> Some (close_stream s', output)))"

definition xd3_encode_stream :: "bytes \<Rightarrow> usize_t \<Rightarrow> xd3_estream \<Rightarrow> (xd3_ret \<times> bytes) option" where
  "xd3_encode_stream input output_size_max s =
     xd3_process_stream xd3_encode_input (\<lambda>s. s\<lparr>eflags := eflags s OR XD3_FLUSH\<rparr>) encode_avail_input eout
       encode_consume_output (\<lambda>s. fst (encode_close_stream s)) (winsize s) input output_size_max s"

definition decode_close_stream :: "xd3_dstream \<Rightarrow> xd3_ret" where
  "decode_close_stream s =
     (if dec_state s = DEC_VCHEAD \<or> dec_state s = DEC_WININD \<or> dec_state s = DEC_ABORTED then None
      else Some XD3_INVALID_INPUT)"

definition decode_abort_stream :: "xd3_dstream \<Rightarrow> xd3_dstream" where
  "decode_abort_stream s = s\<lparr>dec_state := DEC_ABORTED\<rparr>"

text \<open>A decoder has the default window size.\<close>

definition xd3_decode_stream :: "bytes \<Rightarrow> usize_t \<Rightarrow> xd3_dstream \<Rightarrow> (xd3_ret \<times> bytes) option" where
  "xd3_decode_stream input output_size_max s =
     xd3_process_stream xd3_decode_input (\<lambda>s. s\<lparr>flags := flags s OR XD3_FLUSH\<rparr>) xd3_avail_input window_output
       xd3_consume_output decode_close_stream XD3_DEFAULT_WINSIZE input output_size_max s"

text \<open>\<open>xd3_process_memory\<close>; \<open>source\<close> is \<open>None\<close> for a \<open>NULL\<close> pointer. The input and output pointers are
  not \<open>NULL\<close>. The stream is freed at the end, so only the code and the output remain.\<close>

definition encode_config :: "bytes \<Rightarrow> u32 \<Rightarrow> xd3_config option" where
  "encode_config input fl =
     (let wsz = min (of_nat (length input)) XD3_DEFAULT_WINSIZE
      in map_option (\<lambda>psz. (zero_config fl)\<lparr>cfg_winsize := wsz, cfg_sprevsz := psz\<rparr>) (xd3_pow2_roundup wsz))"

definition memory_set_source :: "bytes option \<Rightarrow> xd3_source option option" where
  "memory_set_source source =
     (case source of
        None \<Rightarrow> Some None
      | Some b \<Rightarrow> map_option Some (xd3_set_source_and_size (memory_source b) (of_nat (length b))))"

definition xd3_encode_memory ::
  "xd3_mem \<Rightarrow> bytes \<Rightarrow> bytes option \<Rightarrow> usize_t \<Rightarrow> u32 \<Rightarrow> (xd3_ret \<times> bytes) option" where
  "xd3_encode_memory m input source output_size_max fl =
     Option.bind (encode_config input fl) (\<lambda>cfg.
       case xd3_config_stream cfg m of
         Inl r \<Rightarrow> Some (Some r, [])
       | Inr s \<Rightarrow>
           Option.bind (memory_set_source source) (\<lambda>x. xd3_encode_stream input output_size_max (s\<lparr>esrc := x\<rparr>)))"

definition xd3_decode_memory ::
  "xd3_mem \<Rightarrow> bytes \<Rightarrow> bytes option \<Rightarrow> usize_t \<Rightarrow> u32 \<Rightarrow> (xd3_ret \<times> bytes) option" where
  "xd3_decode_memory m input source output_size_max fl =
     (case config_decoder (zero_config fl) m of
        Inl r \<Rightarrow> Some (Some r, [])
      | Inr s \<Rightarrow>
          Option.bind (memory_set_source source) (\<lambda>x. xd3_decode_stream input output_size_max (s\<lparr>src := x\<rparr>)))"

subsection \<open>Deltas of chunks\<close>

record delta =
  delta_data :: bytes
  delta_srcSize :: usize_t

text \<open>\<open>compute_delta\<close>: \<open>xd3_encode_memory\<close> writes into a buffer of 128 KiB on the stack. An outer
  \<open>None\<close> is also a write past its end, or one through the unchecked result of a failed \<open>malloc\<close>
  (\<open>malloc_ok\<close> says that both succeed); an inner \<open>None\<close> is the result \<open>NULL\<close>.\<close>

definition compute_delta :: "xd3_mem \<Rightarrow> bool \<Rightarrow> bytes \<Rightarrow> bytes \<Rightarrow> delta option option" where
  "compute_delta m malloc_ok chunk_base chunk =
     (if length chunk_base < 1024 \<or> length chunk < 512 then Some None
      else
        case xd3_encode_memory m chunk (Some chunk_base) (of_nat (length chunk)) 0 of
          None \<Rightarrow> None
        | Some (r, out) \<Rightarrow>
            if length out > 128 * 1024 then None
            else if r \<noteq> None then Some None
            else if length out > length chunk then Some None
            else if \<not> malloc_ok then None
            else Some (Some \<lparr>delta_data = out, delta_srcSize = of_nat (length chunk)\<rparr>))"

definition restore_delta :: "xd3_mem \<Rightarrow> bytes \<Rightarrow> delta \<Rightarrow> (xd3_ret \<times> bytes) option" where
  "restore_delta m chunk_base d =
     xd3_decode_memory m (delta_data d) (Some chunk_base) (delta_srcSize d) 0"

text \<open>The loops are executable.\<close>

declare process_loop.simps [code]

end
