(* ===== verification/Xd3_EncodeMemory.thy ===== *)
theory Xd3_EncodeMemory
  imports Xd3_EncodeSafe Xd3_Stream
begin

section \<open>Encoding a buffer in one window\<close>

text \<open>
  \<open>xd3_encode_memory\<close> on an input that fits one window: the configuration, the first call, the search,
  the flush, the header and the calls that hand out the pages. With memory the result is the header and
  three sections that mean the input, or \<open>ENOSPC\<close> when they do not fit the output buffer.
\<close>

subsection \<open>The search\<close>

lemma setup_idle:
  assumes "match_maxfwd t = 0" "match_maxback t = 0" "match_back t = 0" "match_fwd t = 0"
    "unat (input_position t) \<le> length (ein t)" "unat (match_srcpos t) \<le> length S"
  shows "setup_ok S t"
  using assms by (simp add: setup_ok_def)

text \<open>The continued source match at the start of a window.\<close>

lemma extend_input_ok:
  assumes c: "search_ok S s" and x: "esrc s = Some x" and su: "setup_ok S s" and en: "entered S 0 s" "0 < unat (min_match s)"
    and ms: "match_state s \<in> {MATCH_BACKWARD, MATCH_FORWARD}" and ne: "ein s \<noteq> []"
  shows "\<exists>r t. extend_input s = Some (r, t) \<and> core t = core s \<and> mem_outcome r s t
     \<and> large_table t = large_table s \<and> small_table t = small_table s \<and> small_prev t = small_prev s
     \<and> srcwin_cksum_pos t = srcwin_cksum_pos s \<and> (r = None \<longrightarrow>
       unat (match_srcpos t) \<le> length S \<and> match_state t \<in> {MATCH_TARGET, MATCH_SEARCHING}
       \<and> unat (input_position t) \<le> length (ein t) \<and> insts S (unat (input_position t)) t)"
proof -
  have len: "length (ein s) < 2 ^ 63" using c by (simp add: search_ok_def)
  have av: "avail_in s \<noteq> 0" using unat_avail_in [OF len] ne by (metis length_0_conv unat_0)
  obtain r t where t: "xd3_source_extend_match s = Some (r, t)" "same_place s t" "mem_outcome r s t"
    "r = None \<longrightarrow> unat (match_srcpos t) \<le> length S \<and> match_state t \<in> {MATCH_TARGET, MATCH_SEARCHING} \<and> entered S (match_fwd t) t"
    using source_extend_match_ok [OF c x su en ms] by auto
  have ct: "core t = core s" "input_position t = input_position s" using t(2) by (simp_all add: same_place_def)
  have lt: "ein t = ein s" by (rule core_fields(1) [OF ct(1)])
  have pl: "unat (input_position s) \<le> length (ein s)" using su by (simp add: setup_ok_def)
  show ?thesis
  proof (cases r)
    case (Some e)
    then show ?thesis using av t ct by (simp add: extend_input_def seqo_def same_place_def)
  next
    case None
    define u where "u = t\<lparr>input_position := input_position t + match_fwd t\<rparr>"
    have en': "entered S (match_fwd t) t" using t(4) None by simp
    have bd: "unat (input_position s) + unat (match_fwd t) \<le> length (ein s)"
      using en' ct lt pl by (cases "match_fwd t = 0") (simp_all add: entered_def)
    have up: "unat (input_position u) = unat (input_position s) + unat (match_fwd t)"
      using bd len ct(2) by (simp add: u_def) (subst unat_add_less, simp_all)
    have "insts S (unat (input_position u)) t"
    proof (cases "match_fwd t = 0")
      case True
      then show ?thesis using en' up ct(2) by (simp add: entered_def)
    next
      case False
      then have "insts S (Suc (unat (input_position s))) t" using en' ct(2) by (simp add: entered_def)
      moreover have "0 < unat (match_fwd t)" using False by (simp add: word_unat_eq_iff [symmetric] unat_gt_0)
      ultimately show ?thesis using insts_mono up by (metis Suc_leI add_less_cancel_left add.right_neutral)
    qed
    then have "insts S (unat (input_position u)) u" by (simp add: u_def insts_def used_ok_def)
    then show ?thesis using av t ct bd up lt None
      by (intro exI [of _ None] exI [of _ u]) (simp add: extend_input_def seqo_def same_place_def u_def mem_outcome_def)
  qed
qed

lemma continue_match_ok:
  assumes s: "search_ready S s" and ne: "ein s \<noteq> []" and sm: "small_table s = None"
    and eb: "ends_before (unat (input_position s) + unat (min_match s)) s" "0 < unat (min_match s)"
  shows "\<exists>r t. enc_continue_match s = Some (r, t) \<and> core t = core s \<and> mem_outcome r s t \<and> (r = None \<longrightarrow> search_ready S t)"
proof (cases "esrc s")
  case None
  then show ?thesis using s by (simp add: enc_continue_match_def mem_outcome_def)
next
  case (Some x)
  have idle: "search_ok S s" "source_side S s" "DO_SMALL s \<longrightarrow> small_idle s" "unat (input_position s) \<le> length (ein s)"
    "insts S (unat (input_position s)) s"
    using s by (simp_all add: search_ready_def search_idle_def)
  have m: "memory_src S x" "length (ein s) < 2 ^ 63" "unencoded_offset s = 0" "\<not> srcwin_decided s" "eflags s AND XD3_BEGREEDY = 0"
    using idle(1) Some by (auto simp: search_ok_def)
  have av: "avail_in s > 0" using unat_avail_in [OF m(2)] ne by (simp add: word_less_nat_alt)
  have st: "unat (match_srcpos s) \<le> length S" "match_state s \<in> {MATCH_TARGET, MATCH_SEARCHING}"
    using idle(2) by (simp_all add: source_side_def)
  show ?thesis
  proof (cases "match_state s = MATCH_SEARCHING")
    case True
    then show ?thesis using s Some by (simp add: enc_continue_match_def mem_outcome_def)
  next
    case False
    then have tg: "match_state s = MATCH_TARGET" using st(2) by simp
    obtain b t where bt: "xd3_source_match_setup x (match_srcpos s) s = (b, t)" by force
    note su = match_setup_ok [OF m(1,3-5) idle(4) m(2) st(1) bt]
    define t' where "t' = t\<lparr>match_state := MATCH_FORWARD\<rparr>"
    have mc: "mcore t' = mcore s" using su(1) by (simp add: t'_def)
    have pl: "same_place s t'" using mc by (simp add: same_place_mcore)
    have ct: "core t' = core s" "input_position t' = input_position s" "min_match t' = min_match s"
      "large_table t' = large_table s" "small_table t' = small_table s" "small_prev t' = small_prev s"
      "srcwin_cksum_pos t' = srcwin_cksum_pos s" using pl by (simp_all add: same_place_def)
    have et: "ein t' = ein s" "esrc t' = Some x" using core_fields(1,2) [OF ct(1)] Some by simp_all
    have ok': "search_ok S t'" using idle(1) search_ok_core [OF ct(1)] by simp
    have sp: "unat (match_srcpos t') \<le> length S" using su(2) st(1) by (simp add: t'_def)
    have "setup_ok S t'"
    proof (cases b)
      case True
      then show ?thesis using su(4) by (simp add: t'_def setup_ok_def)
    next
      case False
      then show ?thesis using su(3,5) sp idle(4) ct(2) et(1) by (intro setup_idle) (simp_all add: t'_def)
    qed
    moreover have "entered S 0 t'" using idle(5) eb(1) insts_mcore [OF mc] ct(2,3) by (simp add: entered_def)
    moreover have mm: "emem t' = emem s" using arg_cong [OF mc, of emem] by (simp add: mcore_def)
    ultimately obtain r u where u: "extend_input t' = Some (r, u)" "core u = core t'" "mem_outcome r t' u"
       "large_table u = large_table t'" "small_table u = small_table t'" "small_prev u = small_prev t'"
       "srcwin_cksum_pos u = srcwin_cksum_pos t'" "r = None \<longrightarrow>
       unat (match_srcpos u) \<le> length S \<and> match_state u \<in> {MATCH_TARGET, MATCH_SEARCHING}
       \<and> unat (input_position u) \<le> length (ein u) \<and> insts S (unat (input_position u)) u"
      using extend_input_ok [OF ok' et(2)] eb(2) ct(3) et(1) ne by (auto simp: t'_def)
    have cu: "core u = core s" using u(2) ct(1) by simp
    have "search_ready S u" if "r = None"
    proof -
      have "source_side S u" using u(4,7,8) that idle(2) ct core_fields(6) [OF cu] by (simp add: source_side_def)
      moreover have "DO_SMALL u \<longrightarrow> small_idle u"
        using idle(3) small_ok_outcome [OF cu] core_fields(5,8,9) [OF cu] u(5,6) ct(5,6) sm by (simp add: small_idle_def)
      moreover have "search_ok S u" using idle(1) search_ok_core [OF cu] by simp
      ultimately show ?thesis using u(5,8) that sm ct(5) by (simp add: search_ready_def search_idle_def)
    qed
    moreover have "enc_continue_match s = Some (r, u)" using Some tg av bt u(1) by (simp add: enc_continue_match_def match_target_def t'_def)
    ultimately show ?thesis using cu u(3) mm by (auto simp: mem_outcome_def)
  qed
qed

subsection \<open>One window\<close>

definition search_start :: "bytes \<Rightarrow> xd3_estream \<Rightarrow> bool" where
  "search_start S s \<longleftrightarrow> search_ready S s \<and> small_table s = None \<and> ein s \<noteq> []
     \<and> ends_before (unat (input_position s) + unat (min_match s)) s \<and> 0 < unat (min_match s)
     \<and> chain_wf (hdr_chain s) \<and> chain_wf (inst_chain s) \<and> chain_wf (data_chain s) \<and> chain_wf (addr_chain s)
     \<and> chain_bytes (hdr_chain s) = [] \<and> chain_bytes (inst_chain s) = [] \<and> chain_bytes (data_chain s) = []
     \<and> chain_bytes (addr_chain s) = [] \<and> cache_wf (eacache s) \<and> s_near (eacache s) = 4 \<and> s_same (eacache s) = 3
     \<and> ecode_table s = xd3_rfc3284_code_table \<and> iout s = None \<and> taroff s = 0 \<and> (\<forall>x. esrc s = Some x \<longrightarrow> srclen x = 0)"

text \<open>The stream when the pages of the window are complete.\<close>

definition window_written :: "bytes \<Rightarrow> xd3_estream \<Rightarrow> xd3_estream \<Rightarrow> bool" where
  "window_written S s u \<longleftrightarrow> ein u = ein s \<and> ewindow u = ewindow s \<and> eflags u = eflags s \<and> enc_appheader u = enc_appheader s
     \<and> buf_leftover u = buf_leftover s \<and> decoding u = decoding s
     \<and> chain_wf (hdr_chain u) \<and> enc_state u = ENC_FLUSH
     \<and> enc_frame S (u\<lparr>enc_state := ENC_INSTR\<rparr>) \<and> chain_bytes (hdr_chain u) = header_image u
     \<and> (\<forall>sw. sw_ok S u sw \<longrightarrow> vc_window sw (eacache s) (chain_bytes (inst_chain u)) (chain_bytes (data_chain u))
          (chain_bytes (addr_chain u)) = Some (ein s))"

text \<open>The flush and the header, for every behaviour of the allocator.\<close>

lemma header_image_cong: "header_image (v\<lparr>emem := m, hdr_chain := ch\<rparr>) = header_image v"
  by (simp add: header_image_def adler_hdr_def use_adler32_def lengths_hdr_def window_enc_len_def avail_in_def window_indicator_def
    xd3_encoder_used_source_def)

lemma enc_instr_ok:
  assumes ws: "window_start S c0 w" and wh: "chain_wf (hdr_chain w)" "chain_bytes (hdr_chain w) = []" and wi: "enc_state w = ENC_INSTR"
  shows "\<exists>u. enc_instr w = Some (enc_output (all_pages u) u)
       \<and> window_written S (w\<lparr>eacache := c0\<rparr>) u
     \<or> (\<exists>e. enc_instr w = Some (Some e, u) \<and> hard (Some e) \<and> \<not> mem_ok (emem w))"
proof -
  obtain r v where v: "seqr (xd3_iopt_flush_instructions True) xd3_iopt_add_finalize w = (r, v)" by force
  have h: "hard r" by (rule fails_hardD [OF fails_flush v])
  have m: "mem_ok (emem w) \<longrightarrow> r = None \<and> mem_ok (emem v)" using total_stepD [OF total_flush, of w] v by auto
  show ?thesis
  proof (cases r)
    case (Some e)
    then show ?thesis using v h m by (intro exI [of _ v]) (simp add: enc_instr_def seqo_def)
  next
    case r: None
    note ew = encode_window_ok [OF ws v [unfolded r]]
    note kf = fcore_fields [OF keepsD [OF keeps_flush v]]
    define v' where "v' = v\<lparr>enc_state := ENC_FLUSH\<rparr>"
    have hv: "hdr_chain v' = hdr_chain w" using kf(3) by (simp add: v'_def)
    obtain q ma ch where hd: "xd3_emit_hdr v' = (q, v'\<lparr>emem := ma, hdr_chain := ch\<rparr>)" "mem_outcome q v' (v'\<lparr>emem := ma\<rparr>)" "chain_wf ch"
      "q = None \<longrightarrow> chain_bytes ch = chain_bytes (hdr_chain v') @ header_image v'"
      using emit_hdr_ok [unfolded appends_def, rule_format, of v'] wh hv by auto
    define u where "u = v'\<lparr>emem := ma, hdr_chain := ch\<rparr>"
    have e: "enc_instr w = (case q of None \<Rightarrow> Some (enc_output (all_pages u) u) | Some e \<Rightarrow> Some (Some e, u))"
      using v r hd(1) by (simp add: enc_instr_def enc_flush_def seqo_def v'_def u_def split: option.split)
    show ?thesis
    proof (cases q)
      case (Some e')
      then show ?thesis using e hd(2) m by (auto simp: mem_outcome_def hard_def v'_def)
    next
      case q: None
      have u1: "ein u = ein w" "ewindow u = ewindow w" "eflags u = eflags w" "enc_appheader u = enc_appheader w"
         "buf_leftover u = buf_leftover w" "decoding u = decoding w" "chain_wf (hdr_chain u)" "enc_state u = ENC_FLUSH"
         "chain_bytes (hdr_chain u) = header_image u"
        using kf hd(3,4) q hv wh(2) header_image_cong [where v = v'] by (simp_all add: u_def v'_def)
      have vi: "v\<lparr>enc_state := ENC_INSTR\<rparr> = v" using kf(7) wi by (cases v) simp
      have u2: "enc_frame S (u\<lparr>enc_state := ENC_INSTR\<rparr>)"
        using ew(2) by (simp add: u_def v'_def vi enc_frame_def srcwin_ok_def kf(7) wi)
      have "sw_ok S u sw \<Longrightarrow> sw_ok S v sw" for sw by (simp add: sw_ok_def u_def v'_def)
      then have u3: "sw_ok S u sw \<longrightarrow> vc_window sw c0 (chain_bytes (inst_chain u)) (chain_bytes (data_chain u))
              (chain_bytes (addr_chain u)) = Some (ein w)" for sw
        using ew(3) by (simp add: u_def v'_def)
      show ?thesis using e q u1 u2 u3 by (intro exI [of _ u]) (simp add: window_written_def)
    qed
  qed
qed

text \<open>The whole case \<open>ENC_SEARCH\<close>.\<close>

lemma enc_search_ok:
  assumes s: "search_start S s"
  shows "\<exists>u. enc_search s = Some (enc_output (all_pages u) u) \<and> window_written S s u
     \<or> (\<exists>e. enc_search s = Some (Some e, u) \<and> hard (Some e) \<and> \<not> mem_ok (emem s))"
proof -
  have st: "search_ready S s" "ein s \<noteq> []" "small_table s = None" "ends_before (unat (input_position s) + unat (min_match s)) s"
    "0 < unat (min_match s)" using s by (simp_all add: search_start_def)
  obtain r1 t where t: "enc_continue_match s = Some (r1, t)" "core t = core s" "mem_outcome r1 s t" "r1 = None \<longrightarrow> search_ready S t"
    using continue_match_ok [OF st] by auto
  show ?thesis
  proof (cases r1)
    case (Some e)
    then show ?thesis using t(1,3) by (auto simp: enc_search_def seqo_def mem_outcome_def hard_def)
  next
    case r1: None
    then have rt: "search_ready S t" "mem_ok (emem s) \<longrightarrow> mem_ok (emem t)" using t(3,4) by (auto simp: mem_outcome_def)
    have len: "length (ein t) < 2 ^ 63" using rt(1) by (simp add: search_ready_def search_idle_def search_ok_def)
    have ne: "avail_in t \<noteq> 0" using unat_avail_in [OF len] st(2) core_fields(1) [OF t(2)] by (metis length_0_conv unat_0)
    obtain r2 w where w: "xd3_string_match t = Some (r2, w)" "core w = core t" "mem_ok (emem t) \<longrightarrow> mem_ok (emem w)"
       "r2 = None \<and> search_idle S w \<and> (\<exists>n. insts S n w) \<or> r2 = Some ENOMEM \<and> \<not> mem_ok (emem t)"
      using string_match_ok [OF rt(1)] by auto
    show ?thesis
    proof (cases r2)
      case (Some e)
      then show ?thesis using t(1) r1 ne w rt(2) by (auto simp: enc_search_def seqo_def enc_string_match_def hard_def)
    next
      case r2: None
      then obtain n where wi: "search_idle S w" "insts S n w" using w(4) by auto
      define w' where "w' = w\<lparr>enc_state := ENC_INSTR\<rparr>"
      have cw: "core w = core s" using w(2) t(2) by simp
      note cf = core_fields [OF cw]
      have ok: "search_ok S w" using wi(1) by (simp add: search_idle_def)
      have "srcwin_ok S w'" using s wi(2) ok cf by (simp add: srcwin_ok_def w'_def search_start_def insts_def search_ok_def)
      then have ws: "window_start S (eacache s) w'"
        using s wi(2) ok cf by (simp add: window_start_def enc_frame_def search_start_def search_ok_def w'_def insts_def used_ok_def)
      have hs: "chain_wf (hdr_chain w')" "chain_bytes (hdr_chain w') = []" "enc_state w' = ENC_INSTR" "mem_ok (emem s) \<longrightarrow> mem_ok (emem w')"
        using s cf w(3) rt(2) by (simp_all add: w'_def search_start_def)
      have eq: "enc_search s = enc_instr w'"
        using t(1) r1 ne w(1) r2 by (simp add: enc_search_def seqo_def enc_string_match_def w'_def)
      have ww: "window_written S (w'\<lparr>eacache := eacache s\<rparr>) u = window_written S s u" for u
        using cf by (simp add: window_written_def w'_def)
      show ?thesis using enc_instr_ok [OF ws hs(1-3)] hs(4) unfolding eq ww by blast
    qed
  qed
qed

subsection \<open>The output of the pages\<close>

abbreviation "encode_loop \<equiv> process_loop xd3_encode_input encode_avail_input eout encode_consume_output"

definition page_bytes :: "xd3_output list \<Rightarrow> bytes" where
  "page_bytes ps = concat (map base ps)"

lemma all_pages_bytes:
  "page_bytes (all_pages s) = chain_bytes (hdr_chain s) @ chain_bytes (data_chain s) @ chain_bytes (inst_chain s) @ chain_bytes (addr_chain s)"
  by (simp add: page_bytes_def all_pages_def chain_pages_def chain_bytes_def)

lemma all_pages_small:
  assumes "chain_wf (hdr_chain s)" "chain_wf (data_chain s)" "chain_wf (inst_chain s)" "chain_wf (addr_chain s)"
  shows "list_all (\<lambda>p. length (base p) \<le> 16384) (all_pages s)"
proof -
  have "list_all (\<lambda>p. length (base p) \<le> 16384) (chain_pages ch)" if "chain_wf ch" for ch
    using that by (auto simp: chain_pages_def chain_wf_def list_all_iff)
  then show ?thesis using assms by (simp add: all_pages_def)
qed

text \<open>What the calls that hand out the pages leave alone.\<close>

definition output_frame :: "xd3_estream \<Rightarrow> xd3_estream \<Rightarrow> bool" where
  "output_frame u t \<longleftrightarrow> buf_leftover t = buf_leftover u \<and> decoding t = decoding u"

lemma enc_output_loop:
  assumes "xd3_encode_input s = Some (enc_output ps u)" "list_all (\<lambda>p. length (base p) \<le> 16384) ps"
    "\<not> decoding u" "length out \<le> unat omax" "unat omax \<le> 2 ^ 63"
  shows "if length out + length (page_bytes ps) \<le> unat omax
     then \<exists>t. encode_loop wsz omax rest out s = encode_loop wsz omax rest (out @ page_bytes ps) t
            \<and> output_frame u t \<and> enc_state t = ENC_POSTWIN
     else \<exists>o' t. encode_loop wsz omax rest out s = Some (Some ENOSPC, o', t) \<and> length o' \<le> unat omax"
  using assms
proof (induction ps arbitrary: s u out)
  case Nil
  then have "encode_loop wsz omax rest out s
      = encode_loop wsz omax rest out (u\<lparr>enc_current := [], etotal_in := etotal_in u + avail_in u, enc_state := ENC_POSTWIN\<rparr>)"
    by (subst process_loop.simps) simp
  then show ?case using Nil by (auto simp: page_bytes_def output_frame_def)
next
  case (Cons p ps)
  define s1 where "s1 = u\<lparr>enc_current := p # ps, enc_state := ENC_POSTOUT, eout := base p, eavail_out := next_off p,
                 etotal_out := etotal_out u + next_off p\<rparr>"
  have lp: "length (base p) \<le> 16384" "list_all (\<lambda>p. length (base p) \<le> 16384) ps" using Cons.prems(2) by auto
  have no: "unat (next_off p) = length (base p)" using lp(1) by (simp add: next_off_def unat_of_nat_less)
  have d1: "\<not> decoding s1" "output_frame s1 t = output_frame u t" for t
    using Cons.prems(3) by (simp_all add: s1_def output_frame_def)
  have pb: "page_bytes (p # ps) = base p @ page_bytes ps" by (simp add: page_bytes_def)
  show ?case
  proof (cases "next_off p = 0")
    case True
    then have b: "base p = []" using no by simp
    have "xd3_encode_input s = Some (enc_output ps s1)" using Cons.prems(1) True by (simp add: s1_def Let_def)
    from Cons.IH [OF this lp(2) d1(1) Cons.prems(4,5)] show ?thesis by (simp add: pb b d1(2) split: if_splits)
  next
    case False
    then have f: "xd3_encode_input s = Some (Some XD3_OUTPUT, s1)" using Cons.prems(1) by (simp add: s1_def Let_def word_gt_0)
    have lo: "unat (of_nat (length out) + of_nat (length (base p)) :: u64) = length out + length (base p)"
      using Cons.prems(4,5) lp(1) by (simp add: of_nat_add [symmetric] unat_of_nat_less del: of_nat_add)
    have gt: "(of_nat (length out) + of_nat (length (base p)) > omax) = (length out + length (base p) > unat omax)"
      using lo by (simp add: word_less_nat_alt)
    have e1: "eout s1 = base p" by (simp add: s1_def)
    have step: "encode_loop wsz omax rest out s = (if length out + length (base p) > unat omax then Some (Some ENOSPC, out, s1)
        else encode_loop wsz omax rest (out @ base p) (encode_consume_output s1))"
      by (subst process_loop.simps) (simp add: f e1 gt del: of_nat_add)
    show ?thesis
    proof (cases "length out + length (base p) > unat omax")
      case True
      then show ?thesis using step Cons.prems(4) by (auto simp: pb)
    next
      case ok: False
      let ?c = "encode_consume_output s1"
      have "xd3_encode_input ?c = Some (enc_output ps ?c)"
        using d1(1) by (simp add: xd3_encode_input_def encode_consume_output_def s1_def enc_postout_def)
      moreover have "\<not> decoding ?c" using d1(1) by (simp add: encode_consume_output_def)
      ultimately have ih: "if length (out @ base p) + length (page_bytes ps) \<le> unat omax
        then \<exists>t. encode_loop wsz omax rest (out @ base p) ?c = encode_loop wsz omax rest ((out @ base p) @ page_bytes ps) t
            \<and> output_frame ?c t \<and> enc_state t = ENC_POSTWIN
        else \<exists>o' t. encode_loop wsz omax rest (out @ base p) ?c = Some (Some ENOSPC, o', t) \<and> length o' \<le> unat omax"
        using ok Cons.prems(5) lp(2) by (intro Cons.IH) auto
      have "output_frame ?c t = output_frame u t" for t by (simp add: output_frame_def encode_consume_output_def s1_def)
      then show ?thesis using ih step ok by (simp add: pb add.assoc split: if_splits)
    qed
  qed
qed

text \<open>The end of the last window.\<close>

lemma encode_loop_finish:
  assumes "enc_state t = ENC_POSTWIN" "\<not> decoding t" "buf_leftover t = None"
  shows "\<exists>w. encode_loop wsz omax [] out t = Some (None, out, w) \<and> fst (encode_close_stream w) = None"
proof -
  define w where "w = (xd3_encode_reset t)\<lparr>ewindow := ewindow t + 1, enc_state := ENC_INPUT\<rparr>"
  have r: "buf_leftover w = None" "ein w = []"
    using assms(3) by (simp_all add: w_def xd3_encode_reset_def reset_chains_def reset_source_def split: option.split)
  have "xd3_encode_input t = Some (Some XD3_INPUT, w)"
    using assms r(1) by (simp add: xd3_encode_input_def enc_postwin_def w_def Let_def)
  then have "encode_loop wsz omax [] out t = Some (None, out, w)" by (subst process_loop.simps) simp
  moreover have "fst (encode_close_stream w) = None"
    using r by (simp add: encode_close_stream_def w_def Let_def avail_in_def)
  ultimately show ?thesis by blast
qed

subsection \<open>Initialisation\<close>

definition fresh_cache :: xd3_addr_cache where
  "fresh_cache = \<lparr>s_near = 4, s_same = 3, next_slot = 0, near_array = replicate 4 0, same_array = replicate 768 0\<rparr>"

lemma fresh_cache_fields [simp]: "s_near fresh_cache = 4" "s_same fresh_cache = 3" "cache_wf fresh_cache"
  by (simp_all add: fresh_cache_def cache_wf_def)

lemma alloc_mem_ok: "mem_ok m \<Longrightarrow> \<exists>m'. xd3_alloc m = (True, m') \<and> mem_ok m'"
  by (simp add: mem_ok_def xd3_alloc_def)

lemma alloc_cache_cases:
  assumes "s_near c = 4" "s_same c = 3" "next_slot c = 0" "xd3_alloc_cache m c = (r, m', c')"
  shows "r = None \<or> r = Some ENOMEM" "mem_ok m \<longrightarrow> r = None \<and> mem_ok m'" "r = None \<longrightarrow> xd3_init_cache c' = fresh_cache"
proof -
  obtain ok1 m1 where 1: "xd3_alloc m = (ok1, m1)" by force
  obtain ok2 m2 where 2: "xd3_alloc m1 = (ok2, m2)" by force
  show "r = None \<or> r = Some ENOMEM" "mem_ok m \<longrightarrow> r = None \<and> mem_ok m'" "r = None \<longrightarrow> xd3_init_cache c' = fresh_cache"
    using assms 1 2 alloc_mem_ok [of m] alloc_mem_ok [of m1]
    by (auto simp: xd3_alloc_cache_def xd3_init_cache_def fresh_cache_def Let_def split: if_splits)
qed

lemma alloc_cache_mem_ok:
  assumes "mem_ok m" "s_near c = 4" "s_same c = 3" "next_slot c = 0"
  shows "\<exists>m' c'. xd3_alloc_cache m c = (None, m', c') \<and> mem_ok m' \<and> xd3_init_cache c' = fresh_cache"
  using alloc_cache_cases [OF assms(2-4)] assms(1) by (metis prod_cases3)

lemma size_hashtable_cases:
  assumes "unat slots < 2 ^ 31"
  obtains r m' cfg where "xd3_size_hashtable slots lk m = Some (r, m', cfg)" "r = None \<or> r = Some ENOMEM"
    "mem_ok m \<longrightarrow> r = None \<and> mem_ok m'" "\<forall>c. unat (xd3_checksum_hash cfg c) < unat (xd3_hash_cfg.hsize cfg)"
proof -
  obtain r m' cfg where 1: "xd3_size_hashtable slots lk m = Some (r, m', cfg)"
    using size_hashtable_total [OF assms] by blast
  obtain ok m1 where 2: "xd3_alloc m = (ok, m1)" by force
  have "r = (if ok then None else Some ENOMEM)" "m' = m1"
    using 1 2 by (auto simp: xd3_size_hashtable_def Let_def split: option.splits bool.splits)
  moreover have "\<forall>c. unat (xd3_checksum_hash cfg c) < unat (xd3_hash_cfg.hsize cfg)"
    using size_hashtable_ok [OF assms 1] by blast
  ultimately show thesis using 2 alloc_mem_ok [of m] by (intro that [OF 1]) auto
qed

text \<open>\<open>gives f P\<close>: \<open>f\<close> fails for want of memory or relates the states by \<open>P\<close>.\<close>

definition gives :: "enc_step \<Rightarrow> (xd3_estream \<Rightarrow> xd3_estream \<Rightarrow> bool) \<Rightarrow> bool" where
  "gives f P \<longleftrightarrow> (\<forall>s r t. f s = (r, t) \<longrightarrow> mem_outcome r s t \<and> (r = None \<longrightarrow> P s t))"

lemma givesD: "gives f P \<Longrightarrow> f s = (r, t) \<Longrightarrow> mem_outcome r s t \<and> (r = None \<longrightarrow> P s t)"
  by (simp add: gives_def)

lemma gives_seqr:
  assumes "gives f P" "gives g Q"
  shows "gives (seqr f g) (P OO Q)"
  unfolding gives_def
proof (intro allI impI)
  fix s r t assume e: "seqr f g s = (r, t)"
  obtain q u where u: "f s = (q, u)" by force
  note p = givesD [OF assms(1) u]
  show "mem_outcome r s t \<and> (r = None \<longrightarrow> (P OO Q) s t)"
  proof (cases q)
    case None
    then have "g u = (r, t)" using e u by (simp add: seqr_def)
    from givesD [OF assms(2) this] show ?thesis using p None by (auto simp: mem_outcome_def)
  qed (use e u p in \<open>auto simp: seqr_def\<close>)
qed

lemma gives_alloc_chain:
  assumes "\<And>s. emem (put empty_chain s) = emem s"
  shows "gives (alloc_chain put) (\<lambda>s t. \<exists>m. t = put empty_chain (s\<lparr>emem := m\<rparr>))"
  unfolding gives_def
proof (intro allI impI)
  fix s r t assume e: "alloc_chain put s = (r, t)"
  obtain p m where a: "xd3_alloc_output (emem s) = (p, m)" by force
  have p: "p = None \<or> p = Some \<lparr>base = []\<rparr>" using a by (auto simp: xd3_alloc_output_def split: if_splits prod.splits bool.splits)
  show "mem_outcome r s t \<and> (r = None \<longrightarrow> (\<exists>m. t = put empty_chain (s\<lparr>emem := m\<rparr>)))"
    using e a p assms alloc_output_mem_ok [of "emem s"] by (auto simp: alloc_chain_def mem_outcome_def empty_chain_def)
qed

lemma gives_alloc_iopt:
  "gives (\<lambda>s. xd3_alloc_iopt (iopt_size s) (s\<lparr>iopt_used := [], iopt_free := 0\<rparr>))
     (\<lambda>s t. \<exists>m. t = s\<lparr>iopt_used := [], emem := m, iopt_free := unat (iopt_size s)\<rparr>)"
  unfolding gives_def
proof (intro allI impI, goal_cases)
  case (1 s r t)
  obtain ok1 m1 where a: "xd3_alloc (emem s) = (ok1, m1)" by force
  obtain ok2 m2 where b: "xd3_alloc m1 = (ok2, m2)" by force
  show ?case using 1 a b alloc_mem_ok [of "emem s"] alloc_mem_ok [of m1]
    by (cases ok1; cases ok2) (auto simp: xd3_alloc_iopt_def mem_outcome_def)
qed

lemma gives_alloc_cache:
  "gives encode_alloc_cache (\<lambda>s t. \<exists>m c. t = s\<lparr>emem := m, eacache := c\<rparr>
     \<and> (s_near (eacache s) = 4 \<longrightarrow> s_same (eacache s) = 3 \<longrightarrow> next_slot (eacache s) = 0 \<longrightarrow> xd3_init_cache c = fresh_cache))"
  unfolding gives_def
proof (intro allI impI, goal_cases)
  case (1 s r t)
  obtain q m c where a: "xd3_alloc_cache (emem s) (eacache s) = (q, m, c)" by (metis prod_cases3)
  have t: "r = q" "t = s\<lparr>emem := m, eacache := c\<rparr>" using 1 a by (simp_all add: encode_alloc_cache_def)
  have "(q = None \<or> q = Some ENOMEM) \<and> (mem_ok (emem s) \<longrightarrow> q = None \<and> mem_ok m)"
    using a by (auto simp: xd3_alloc_cache_def Let_def mem_ok_def xd3_alloc_def split: if_splits)
  then show ?case using t a alloc_cache_cases(3) [of "eacache s" "emem s" q m c] by (auto simp: mem_outcome_def)
qed

text \<open>The stream after \<open>xd3_encode_init\<close>.\<close>

definition inited_stream :: "xd3_mem \<Rightarrow> xd3_hash_cfg \<Rightarrow> xd3_hash_cfg \<Rightarrow> nat \<Rightarrow> xd3_addr_cache \<Rightarrow> xd3_estream \<Rightarrow> xd3_estream" where
  "inited_stream m lh sh n c s =
     s\<lparr>emem := m, large_hash := lh, small_hash := sh, hdr_chain := empty_chain, data_chain := empty_chain, inst_chain := empty_chain,
       addr_chain := empty_chain, iopt_used := [], iopt_free := n, eacache := c, ecode_table := xd3_rfc3284_code_table\<rparr>"

lemma encode_buffers_ok:
  assumes e: "encode_buffers s = (r, t)" and c: "next_slot (eacache s) = 0"
  shows "mem_outcome r s t"
    "r = None \<Longrightarrow> \<exists>m n c. t = inited_stream m (large_hash s) (small_hash s) n c s \<and> xd3_init_cache c = fresh_cache"
proof -
  have ch: "gives (alloc_chain (\<lambda>ch s. s\<lparr>hdr_chain := ch\<rparr>)) (\<lambda>s t. \<exists>m. t = s\<lparr>emem := m, hdr_chain := empty_chain\<rparr>)"
    "gives (alloc_chain (\<lambda>ch s. s\<lparr>data_chain := ch\<rparr>)) (\<lambda>s t. \<exists>m. t = s\<lparr>emem := m, data_chain := empty_chain\<rparr>)"
    "gives (alloc_chain (\<lambda>ch s. s\<lparr>inst_chain := ch\<rparr>)) (\<lambda>s t. \<exists>m. t = s\<lparr>emem := m, inst_chain := empty_chain\<rparr>)"
    "gives (alloc_chain (\<lambda>ch s. s\<lparr>addr_chain := ch\<rparr>)) (\<lambda>s t. \<exists>m. t = s\<lparr>emem := m, addr_chain := empty_chain\<rparr>)"
    using gives_alloc_chain [of "\<lambda>ch s. s\<lparr>hdr_chain := ch\<rparr>"] gives_alloc_chain [of "\<lambda>ch s. s\<lparr>data_chain := ch\<rparr>"]
      gives_alloc_chain [of "\<lambda>ch s. s\<lparr>inst_chain := ch\<rparr>"] gives_alloc_chain [of "\<lambda>ch s. s\<lparr>addr_chain := ch\<rparr>"] by simp_all
  define tab :: "xd3_estream \<Rightarrow> xd3_estream" where
    "tab = (\<lambda>s. s\<lparr>eacache := (eacache s)\<lparr>s_near := ucast (near_modes rfc3284_code_table_desc),
       s_same := ucast (same_modes rfc3284_code_table_desc)\<rparr>, ecode_table := xd3_rfc3284_code_table\<rparr>)"
  have tb: "gives (\<lambda>s. (None, tab s)) (\<lambda>s t. t = tab s)" by (simp add: gives_def mem_outcome_def tab_def)
  define Pi Pc where "Pi = (\<lambda>s t. \<exists>m. t = s\<lparr>iopt_used := [], emem := m, iopt_free := unat (iopt_size (s :: xd3_estream))\<rparr>)"
    and "Pc = (\<lambda>s t. \<exists>m c. t = s\<lparr>emem := m, eacache := c\<rparr> \<and> (s_near (eacache (s :: xd3_estream)) = 4 \<longrightarrow> s_same (eacache s) = 3 \<longrightarrow>
       next_slot (eacache s) = 0 \<longrightarrow> xd3_init_cache c = fresh_cache))"
  define P1 P2 P3 P4 where "P1 = (\<lambda>s t. \<exists>m. t = s\<lparr>emem := m, hdr_chain := empty_chain\<rparr> \<and> (s :: xd3_estream) = s)"
    and "P2 = (\<lambda>s t. \<exists>m. t = s\<lparr>emem := m, data_chain := empty_chain\<rparr> \<and> (s :: xd3_estream) = s)"
    and "P3 = (\<lambda>s t. \<exists>m. t = s\<lparr>emem := m, inst_chain := empty_chain\<rparr> \<and> (s :: xd3_estream) = s)"
    and "P4 = (\<lambda>s t. \<exists>m. t = s\<lparr>emem := m, addr_chain := empty_chain\<rparr> \<and> (s :: xd3_estream) = s)"
  note Ps = P1_def P2_def P3_def P4_def Pi_def Pc_def
  have g: "gives encode_buffers (P1 OO P2 OO P3 OO P4 OO Pi OO (\<lambda>s t. t = tab s) OO Pc)"
    unfolding encode_buffers_def
    by (intro gives_seqr) (use ch gives_alloc_iopt gives_alloc_cache tb [unfolded tab_def] in \<open>simp_all add: Ps tab_def\<close>)
  note o = givesD [OF g e]
  show "mem_outcome r s t" using o by blast
  show "\<exists>m n c. t = inited_stream m (large_hash s) (small_hash s) n c s \<and> xd3_init_cache c = fresh_cache" if rn: "r = None"
  proof -
    obtain m1 m2 m3 m4 m5 m6 c' where t: "t = (tab (s\<lparr>emem := m1, hdr_chain := empty_chain, emem := m2, data_chain := empty_chain, emem := m3,
        inst_chain := empty_chain, emem := m4, addr_chain := empty_chain, emem := m5, iopt_used := [], iopt_free := unat (iopt_size s)\<rparr>))
        \<lparr>emem := m6, eacache := c'\<rparr>" "xd3_init_cache c' = fresh_cache"
      using o rn c by (auto simp: relcompp_apply Ps tab_def rfc3284_code_table_desc_def)
    have "t = inited_stream m6 (large_hash s) (small_hash s) (unat (iopt_size s)) c' s"
      by (simp add: t(1) tab_def inited_stream_def)
    then show ?thesis using t(2) by blast
  qed
qed

definition hashes_below :: "xd3_hash_cfg \<Rightarrow> bool" where
  "hashes_below cfg \<longleftrightarrow> (\<forall>k. unat (xd3_checksum_hash cfg k) < unat (xd3_hash_cfg.hsize cfg))"

lemma encode_init_full_ok:
  assumes c: "next_slot (eacache s) = 0"
    and l: "\<And>x. esrc s = Some x \<Longrightarrow> unat (max_winsize x div large_step (smatcher s)) < 2 ^ 31"
    and w: "unat (winsize s) < 2 ^ 31"
  obtains r t where "xd3_encode_init_full s = Some (r, t)" "mem_outcome r s t"
    "r = None \<longrightarrow> (\<exists>m lh sh n c. t = inited_stream m lh sh n c s \<and> xd3_init_cache c = fresh_cache
     \<and> (esrc s \<noteq> None \<longrightarrow> hashes_below lh) \<and> (eflags s AND XD3_NOCOMPRESS = 0 \<longrightarrow> hashes_below sh))"
proof -
  obtain r1 m1 lh where 1: "size_large_hash s = Some (r1, s\<lparr>emem := m1, large_hash := lh\<rparr>)" "mem_outcome r1 s (s\<lparr>emem := m1\<rparr>)"
    "esrc s \<noteq> None \<longrightarrow> hashes_below lh"
  proof (cases "esrc s")
    case None
    have "s\<lparr>emem := emem s, large_hash := large_hash s\<rparr> = s" by simp
    then show thesis using None by (intro that [where ?r1.0 = None and ?m1.0 = "emem s" and lh = "large_hash s"])
      (simp_all add: size_large_hash_def mem_outcome_def)
  next
    case (Some x)
    show thesis
      by (rule size_hashtable_cases [OF l [OF Some], of "large_look (smatcher s)" "emem s"])
        (use Some in \<open>auto intro!: that simp: size_large_hash_def mem_outcome_def hashes_below_def\<close>)
  qed
  define s1 where "s1 = s\<lparr>emem := m1, large_hash := lh\<rparr>"
  obtain r2 m2 sh where 2: "size_small_hash s1 = Some (r2, s1\<lparr>emem := m2, small_hash := sh\<rparr>)" "mem_outcome r2 s1 (s1\<lparr>emem := m2\<rparr>)"
    "eflags s AND XD3_NOCOMPRESS = 0 \<longrightarrow> hashes_below sh"
  proof (cases "eflags s AND XD3_NOCOMPRESS = 0")
    case False
    have "s1\<lparr>emem := emem s1, small_hash := small_hash s1\<rparr> = s1" by simp
    then show thesis using False by (intro that [where ?r2.0 = None and ?m2.0 = "emem s1" and sh = "small_hash s1"])
      (simp_all add: size_small_hash_def s1_def mem_outcome_def)
  next
    case True
    show thesis
      by (rule size_hashtable_cases [OF w, of "small_look (smatcher s)" m1])
        (use True in \<open>auto intro!: that simp: size_small_hash_def s1_def mem_outcome_def hashes_below_def\<close>)
  qed
  define s2 where "s2 = s1\<lparr>emem := m2, small_hash := sh\<rparr>"
  obtain r3 t where 3: "encode_buffers s2 = (r3, t)" by force
  have c2: "next_slot (eacache s2) = 0" using c by (simp add: s2_def s1_def)
  note b = encode_buffers_ok [OF 3 c2]
  have eq: "inited_stream m (large_hash s2) (small_hash s2) n c s2 = inited_stream m lh sh n c s" for m n c
    by (simp add: inited_stream_def s2_def s1_def)
  have i: "xd3_encode_init_full s = (case r1 of Some e \<Rightarrow> Some (Some e, s1) | None \<Rightarrow>
      (case r2 of Some e \<Rightarrow> Some (Some e, s2) | None \<Rightarrow> Some (r3, t)))"
    using 1(1) 2(1) 3 by (simp add: xd3_encode_init_full_def xd3_encode_init_def seqo_def s1_def [symmetric] s2_def [symmetric] split: option.split)
  show thesis
  proof (cases r1)
    case (Some e)
    then show thesis using that [of r1 s1] i 1(2) by (simp add: s1_def mem_outcome_def)
  next
    case r1: None
    show thesis
    proof (cases r2)
      case (Some e)
      then show thesis using that [of r2 s2] i r1 1(2) 2(2) by (auto simp: s1_def s2_def mem_outcome_def)
    next
      case r2: None
      have "mem_outcome r3 s t" using b(1) 1(2) 2(2) r1 r2 by (auto simp: s1_def s2_def mem_outcome_def)
      moreover have "r3 = None \<longrightarrow> (\<exists>m lh sh n c. t = inited_stream m lh sh n c s \<and> xd3_init_cache c = fresh_cache
         \<and> (esrc s \<noteq> None \<longrightarrow> hashes_below lh) \<and> (eflags s AND XD3_NOCOMPRESS = 0 \<longrightarrow> hashes_below sh))"
        using b(2) 1(3) 2(3) unfolding eq by blast
      ultimately show thesis using that [of r3 t] i r1 r2 by simp
    qed
  qed
qed

subsection \<open>A source buffer\<close>

lemma roundup_2_31:
  assumes "unat n \<le> 2 ^ 31" "pow2_winsize n = Some w"
  shows "unat w \<le> 2 ^ 31"
proof (cases "fst (xd3_check_pow2 n) = None")
  case True
  then show ?thesis using assms by (simp add: pow2_winsize_def)
next
  case False
  define k where "k = (LEAST m. unat n \<le> 2 ^ m)"
  have k: "k \<le> 31" unfolding k_def by (rule Least_le [where P = "\<lambda>m. unat n \<le> 2 ^ m", OF assms(1)])
  have "xd3_xoff_roundup n = xd3_pow2_roundup n" by (simp add: xd3_xoff_roundup_def xd3_pow2_roundup_def)
  then have w: "w = 2 ^ k" using False assms by (simp add: pow2_winsize_def pow2_roundup_eq k_def split: if_splits)
  have "unat (2 ^ k :: u64) = 2 ^ k" using k by (simp add: unat_exp_u64)
  then show ?thesis using k power_increasing [of k 31 "2 :: nat"] by (simp add: w)
qed

lemma memory_source_ok:
  assumes "length S \<le> 2 ^ 31"
  obtains x where "memory_set_source (Some S) = Some (Some x)" "memory_src S x" "srclen x = 0" "srcbase x = 0"
    "unat (max_winsize x) \<le> 2 ^ 31"
proof -
  let ?n = "of_nat (length S) :: u64"
  have un: "unat ?n = length S" using assms by (intro unat_of_nat_less) simp
  have l63: "length S \<le> 2 ^ 63" using assms by simp
  obtain x where x: "xd3_set_source_and_size (memory_source S) ?n = Some x"
    "source_wf x" "curblk x = Some S" "curblkno x = 0" "onblk x = ?n"
    "srcbase x = 0" "srclen x = 0" "eof_known x" "length S \<le> unat (blksize x)" "xd3_source_eof x = ?n"
    using set_memory_source [OF l63] .
  obtain x0 bn bo where x0: "xd3_set_source (memory_source S) = Some x0"
    "xd3_blksize_div ?n (unat (shiftby x0)) (maskby x0) = (bn, bo)" "x = x0\<lparr>eof_known := True, max_blkno := bn, onlastblk := bo\<rparr>"
    using x(1) by (auto simp: xd3_set_source_and_size_def split: option.splits prod.splits)
  define k where "k = unat (shiftby x)"
  have k: "k < 64" "blksize x = 2 ^ k" "maskby x = 2 ^ k - 1" using x(2) by (simp_all add: source_wf_def k_def)
  have d: "xd3_blksize_div ?n k (2 ^ k - 1) = (bn, bo)" using x0(2,3) k by (simp add: k_def)
  note q = blksize_div_spec [OF k(1) d]
  have uk: "unat (2 ^ k :: u64) = 2 ^ k" by (rule unat_exp_u64 [OF k(1)])
  have le: "length S \<le> 2 ^ k" using x(9) k(2) uk by simp
  have mb: "max_blkno x = bn" "onlastblk x = bo" using x0(3) by simp_all
  have "unat bn * 2 ^ k + unat bo = length S" "unat bo < 2 ^ k" using q un by simp_all
  moreover have "unat bn = 0 \<or> unat bn = 1 \<and> unat bo = 0 \<and> length S = 2 ^ k"
  proof (cases "unat bn")
    case (Suc j)
    then have "2 ^ k + j * 2 ^ k + unat bo = length S" using calculation(1) by simp
    then have "j * 2 ^ k + unat bo = 0" "length S = 2 ^ k" using le by linarith+
    then show ?thesis using Suc by simp
  qed simp
  ultimately have "bn = 0 \<and> bo = ?n \<or> bn = 1 \<and> blksize x = ?n"
    using un uk k(2) by (auto simp: word_unat_eq_iff)
  then have "xd3_bytes_on_srcblk x 0 = ?n" "max_blkno x = 0 \<longrightarrow> onlastblk x = onblk x"
    using x(5) mb by (auto simp: xd3_bytes_on_srcblk_def)
  then have ms: "memory_src S x" using x assms by (simp add: memory_src_def)
  obtain w where w: "pow2_winsize ?n = Some w" "max_winsize x0 = max w XD3_ALLOCSIZE"
    using x0(1) by (auto simp: xd3_set_source_def Let_def memory_source_def split: option.splits prod.splits)
  have "unat w \<le> 2 ^ 31" by (rule roundup_2_31 [OF _ w(1)]) (use un assms in simp)
  then have "unat (max_winsize x) \<le> 2 ^ 31" using w(2) x0(3) by (simp add: max_def XD3_ALLOCSIZE_def)
  then show thesis using that [of x] ms x by (simp add: memory_set_source_def)
qed

subsection \<open>The first call\<close>

text \<open>The encoder as \<open>xd3_process_memory\<close> configures it.\<close>

definition good_smatcher :: "xd3_smatcher \<Rightarrow> bool" where
  "good_smatcher sm \<longleftrightarrow> sm \<in> {smatcher_fastest, smatcher_faster, smatcher_fast, smatcher_slow, smatcher_default}"

lemma good_smatcher_fields:
  assumes "good_smatcher sm"
  shows "unat (small_look sm) = 4" "unat (large_look sm) = 9" "2 \<le> unat (large_step sm)" "unat (large_step sm) < 2 ^ 32"
    "0 < small_chain sm" "0 < small_lchain sm"
  using assms by (auto simp: good_smatcher_def smatcher_fastest_def smatcher_faster_def smatcher_fast_def smatcher_slow_def
    smatcher_default_def mk_smatcher_def)

lemma first_call_ok:
  assumes inp: "inp \<noteq> []" "length inp \<le> 2 ^ 23" and sm: "good_smatcher sm" and ms: "memory_src S x" "srclen x = 0"
    and mw: "unat (max_winsize x) \<le> 2 ^ 31" and fl: "eflags s AND XD3_BEGREEDY = 0"
    and s: "s = (encoder_stream cfg m sm)\<lparr>esrc := Some x, eflags := fl, ein := inp, ein_set := True\<rparr>"
    and cf: "cfg_winsize cfg = of_nat (length inp)" "0 < sprevsz s"  "cfg_iopt_size cfg = 0" 
  shows "\<exists>t. xd3_encode_input s = Some (Some XD3_WINSTART, t) \<and> search_start S t \<and> (mem_ok m \<longrightarrow> mem_ok (emem t))
     \<and> ein t = inp \<and> ewindow t = 0 \<and> eflags t = fl \<and> enc_appheader t = None \<and> buf_leftover t = None \<and> \<not> decoding t
     \<and> eacache t = fresh_cache \<and> enc_state t = ENC_SEARCH
     \<or> xd3_encode_input s = Some (Some ENOMEM, t) \<and> \<not> mem_ok m"
proof -
  note g = good_smatcher_fields [OF sm]
  have un: "unat (of_nat (length inp) :: u64) = length inp" using inp(2) by (intro unat_of_nat_less) simp
  have wz: "winsize s = of_nat (length inp)"
    using s cf(1) inp un by (auto simp: encoder_stream_def Let_def)
  have f: "emem s = m" "next_slot (eacache s) = 0" "esrc s = Some x" "smatcher s = sm" "enc_state s = ENC_INIT" "\<not> decoding s"
    "ein_set s" "ein s = inp" "buf s = []" "buf_leftover s = None" "eflags s = fl" "sprevmask s = sprevsz s - 1"
    "iopt_unlimited s" "small_table s = None" "small_prev s = None" "large_table s = None" "match_state s = MATCH_TARGET"
    "match_srcpos s = 0" "srcwin_cksum_pos s = 0" "match_minaddr s = 0" "match_maxaddr s = 0" "maxsrcaddr s = 0"
    "iout s = None" "taroff s = 0" "ewindow s = 0" "enc_appheader s = None" "\<not> srcwin_decided s"
    using cf(3) by (simp_all add: s encoder_stream_def Let_def)
  have ls: "unat (max_winsize x div large_step (smatcher s)) < 2 ^ 31"
  proof -
    have "unat (max_winsize x) div unat (large_step sm) \<le> unat (max_winsize x) div 2" using g(3) by (intro div_le_mono2) simp_all
    then show ?thesis using mw f(4) by (simp add: unat_div)
  qed
  obtain r v where i0: "xd3_encode_init_full s = Some (r, v)" "mem_outcome r s v"
    "r = None \<longrightarrow> (\<exists>m lh sh n c. v = inited_stream m lh sh n c s \<and> xd3_init_cache c = fresh_cache
     \<and> (esrc s \<noteq> None \<longrightarrow> hashes_below lh) \<and> (eflags s AND XD3_NOCOMPRESS = 0 \<longrightarrow> hashes_below sh))"
    by (rule encode_init_full_ok [of s]) (use f(2,3) ls wz un inp(2) in auto)
  show ?thesis
  proof (cases r)
    case (Some e)
    then have "r = Some ENOMEM" "\<not> mem_ok m" using i0(2) f(1) by (auto simp: mem_outcome_def)
    then show ?thesis using i0(1) f(5,6) by (simp add: xd3_encode_input_def enc_init_def seqo_def)
  next
    case None
    then obtain m' lh sh n c where i: "xd3_encode_init_full s = Some (None, inited_stream m' lh sh n c s)" "v = inited_stream m' lh sh n c s"
       "xd3_init_cache c = fresh_cache" "esrc s \<noteq> None \<longrightarrow> hashes_below lh" "eflags s AND XD3_NOCOMPRESS = 0 \<longrightarrow> hashes_below sh"
      using i0(1,3) by auto
    have mo: "mem_ok m \<longrightarrow> mem_ok m'" using i0(2) None i(2) f(1) by (simp add: mem_outcome_def inited_stream_def)
    define t where "t = (inited_stream m' lh sh n c s)\<lparr>eacache := fresh_cache, input_position := 0, min_match := MIN_MATCH,
       unencoded_offset := 0, enc_state := ENC_SEARCH\<rparr>"
    have nb: "\<not> needs_buffer ((inited_stream m' lh sh n c s)\<lparr>enc_state := ENC_INPUT\<rparr>)"
      using f wz by (simp add: needs_buffer_def inited_stream_def avail_in_def)
    have e: "xd3_encode_input s = Some (Some XD3_WINSTART, t)"
      using i(1,3) f(5-7) nb
      by (simp add: xd3_encode_input_def enc_init_def seqo_def enc_input_def enc_flush_label_def enc_winstart_def inited_stream_def t_def)
    have tf: "emem t = m'" "esrc t = Some x" "smatcher t = sm" "ein t = inp" "eflags t = fl" "iopt_unlimited t" "small_table t = None"
      "small_prev t = None" "large_table t = None" "match_state t = MATCH_TARGET" "match_srcpos t = 0" "srcwin_cksum_pos t = 0"
      "match_minaddr t = 0" "match_maxaddr t = 0" "maxsrcaddr t = 0" "iout t = None" "taroff t = 0" "iopt_used t = []"
      "input_position t = 0" "min_match t = MIN_MATCH" "hdr_chain t = empty_chain" "inst_chain t = empty_chain"
      "data_chain t = empty_chain" "addr_chain t = empty_chain" "eacache t = fresh_cache" "ecode_table t = xd3_rfc3284_code_table"
      "large_hash t = lh" "small_hash t = sh" "sprevsz t = sprevsz s" "sprevmask t = sprevsz s - 1" "unencoded_offset t = 0"
      "\<not> srcwin_decided t" "ewindow t = 0" "enc_appheader t = None" "buf_leftover t = None" "\<not> decoding t"
      using f by (simp_all add: t_def inited_stream_def)
    have lS: "length S < 2 ^ 63" using ms(1) by (simp add: memory_src_def)
    have ec: "chain_wf empty_chain" "chain_bytes empty_chain = []" by (simp_all add: empty_chain_def chain_wf_def chain_bytes_def)
    have so: "search_ok S t" unfolding search_ok_def tf
      using inp(2) lS fl f(11) ms(1) g i(4,5) f(3) by (simp add: tf hashes_below_def)
    have ss: "source_side S t" by (simp add: source_side_def tf)
    have sp: "sprevsz s - 1 < sprevsz s" using cf(2) unat_sub_le [of 1 "sprevsz s"] by (simp add: word_less_nat_alt word_le_nat_alt)
    have si: "small_idle t" using g(5,6) sp by (simp add: small_idle_def tf)
    have ins: "insts S 0 t" by (simp add: insts_def used_ok_def tf)
    have "search_start S t" using so ss si ins inp(1) ms(2) ec
      by (simp add: search_start_def search_ready_def search_idle_def tf ends_before_def MIN_MATCH_def)
    then show ?thesis using e mo tf by (intro exI [of _ t]) (simp add: t_def)
  qed
qed

subsection \<open>Encoding a buffer\<close>

lemma config_smatcher_default:
  assumes "cfg_smatch cfg = XD3_SMATCH_DEFAULT"
  obtains sm where "config_smatcher cfg = Inr sm" "good_smatcher sm"
proof -
  have "good_smatcher (level_smatcher l)" for l by (simp add: good_smatcher_def level_smatcher_def)
  moreover have "good_smatcher smatcher_default" by (simp add: good_smatcher_def)
  ultimately have "\<exists>sm. config_smatcher cfg = Inr sm \<and> good_smatcher sm" using assms by (simp add: config_smatcher_def)
  then show thesis using that by blast
qed

text \<open>\<open>encodes S inp u\<close>: the pages of \<open>u\<close> are a header and three sections that mean \<open>inp\<close>.\<close>

definition encodes :: "bytes \<Rightarrow> bytes \<Rightarrow> u32 \<Rightarrow> xd3_estream \<Rightarrow> bool" where
  "encodes S inp fl u \<longleftrightarrow> (\<exists>t. window_written S t u \<and> eacache t = fresh_cache \<and> ein t = inp)
     \<and> ewindow u = 0 \<and> eflags u = fl OR XD3_FLUSH \<and> enc_appheader u = None"

lemma flags_flush:
  assumes "fl AND XD3_BEGREEDY = 0"
  shows "(fl OR XD3_FLUSH) AND XD3_BEGREEDY = 0"
proof -
  have "XD3_FLUSH AND XD3_BEGREEDY = 0" by code_simp
  then show ?thesis using assms by (simp add: bit.conj_disj_distrib2)
qed

text \<open>What \<open>xd3_encode_memory\<close> returns: the pages, \<open>ENOSPC\<close> when they do not fit, or the failure of the allocator.\<close>

definition encoder_result :: "xd3_mem \<Rightarrow> bytes \<Rightarrow> bytes \<Rightarrow> u32 \<Rightarrow> u64 \<Rightarrow> (xd3_ret \<times> bytes) option \<Rightarrow> bool" where
  "encoder_result m S inp fl omax res \<longleftrightarrow>
     (\<exists>u. encodes S inp fl u \<and> (if length (page_bytes (all_pages u)) \<le> unat omax then res = Some (None, page_bytes (all_pages u))
        else \<exists>out. res = Some (Some ENOSPC, out) \<and> length out \<le> unat omax))
   \<or> (\<exists>e. res = Some (Some e, []) \<and> hard (Some e) \<and> \<not> mem_ok m)"

lemma encode_pages_ok:
  assumes it: "xd3_encode_input t = Some (enc_output (all_pages u) u)" and uw: "\<not> decoding u" "buf_leftover u = None"
    "chain_wf (hdr_chain u)" "enc_frame S (u\<lparr>enc_state := ENC_INSTR\<rparr>)" and om: "unat omax \<le> 2 ^ 63"
  shows "\<exists>r out w. encode_loop k omax [] [] t = Some (r, out, w) \<and> length out \<le> unat omax
     \<and> (if length (page_bytes (all_pages u)) \<le> unat omax then r = None \<and> out = page_bytes (all_pages u) \<and> fst (encode_close_stream w) = None
        else r = Some ENOSPC)"
proof -
  have sp: "list_all (\<lambda>p. length (base p) \<le> 16384) (all_pages u)"
    using uw(3,4) by (intro all_pages_small) (simp_all add: enc_frame_def)
  note lo = enc_output_loop [OF it sp uw(1) _ om, of "[]" k "[]"]
  show ?thesis
  proof (cases "length (page_bytes (all_pages u)) \<le> unat omax")
    case True
    then obtain v where v: "encode_loop k omax [] [] t = encode_loop k omax [] (page_bytes (all_pages u)) v"
       "output_frame u v" "enc_state v = ENC_POSTWIN" using lo by auto
    have "\<exists>w. encode_loop k omax [] (page_bytes (all_pages u)) v = Some (None, page_bytes (all_pages u), w)
        \<and> fst (encode_close_stream w) = None"
      using v uw by (intro encode_loop_finish) (simp_all add: output_frame_def)
    then show ?thesis using True v(1) by auto
  qed (use lo in auto)
qed

lemma encode_stream_ok:
  assumes inp: "inp \<noteq> []" "length inp \<le> 2 ^ 23" and sm: "good_smatcher sm" and ms: "memory_src S x" "srclen x = 0"
    and mw: "unat (max_winsize x) \<le> 2 ^ 31" and fl: "cfg_flags cfg AND XD3_BEGREEDY = 0"
    and cf: "cfg_winsize cfg = of_nat (length inp)" "0 < cfg_sprevsz cfg" "cfg_iopt_size cfg = 0"
    and om: "unat omax \<le> 2 ^ 63"
  shows "encoder_result m S inp (cfg_flags cfg) omax (xd3_encode_stream inp omax ((encoder_stream cfg m sm)\<lparr>esrc := Some x\<rparr>))"
proof -
  define s0 where "s0 = (encoder_stream cfg m sm)\<lparr>esrc := Some x\<rparr>"
  define s where "s = s0\<lparr>eflags := cfg_flags cfg OR XD3_FLUSH, ein := inp, ein_set := True\<rparr>"
  have un: "unat (of_nat (length inp) :: u64) = length inp" using inp(2) by (intro unat_of_nat_less) simp
  have wz: "unat (winsize s0) = length inp" "eflags s0 = cfg_flags cfg"
    using cf(1) inp un by (auto simp: s0_def encoder_stream_def Let_def)
  have st: "xd3_encode_stream inp omax s0 = Option.bind (encode_loop (winsize s0) omax [] [] s)
      (\<lambda>(r, output, s'). case r of Some e \<Rightarrow> Some (Some e, output) | None \<Rightarrow> Some (fst (encode_close_stream s'), output))"
    using wz by (simp add: xd3_encode_stream_def xd3_process_stream_def encode_avail_input_def s_def)
  have eq: "s = (encoder_stream cfg m sm)\<lparr>esrc := Some x, eflags := cfg_flags cfg OR XD3_FLUSH, ein := inp, ein_set := True\<rparr>"
    by (simp add: s_def s0_def)
  have bg: "eflags s AND XD3_BEGREEDY = 0" using flags_flush [OF fl] by (simp add: s_def)
  have sz: "0 < sprevsz s" using cf(2) by (simp add: s_def s0_def encoder_stream_def Let_def word_gt_0)
  have stop: ?thesis if "encode_loop (winsize s0) omax [] [] s = Some (Some e, [], v)" "hard (Some e)" "\<not> mem_ok m" for e v
    using st that by (auto simp: encoder_result_def s0_def)
  consider (start) t where "xd3_encode_input s = Some (Some XD3_WINSTART, t)" "search_start S t" "mem_ok m \<longrightarrow> mem_ok (emem t)"
      "ein t = inp" "ewindow t = 0" "eflags t = cfg_flags cfg OR XD3_FLUSH" "enc_appheader t = None" "buf_leftover t = None" "\<not> decoding t"
      "eacache t = fresh_cache" "enc_state t = ENC_SEARCH"
    | (nomem) t where "xd3_encode_input s = Some (Some ENOMEM, t)" "\<not> mem_ok m"
    using first_call_ok [OF inp sm ms mw bg eq cf(1) sz cf(3)] by blast
  then show ?thesis
  proof cases
    case nomem
    have "encode_loop (winsize s0) omax [] [] s = Some (Some ENOMEM, [], t)"
      by (subst process_loop.simps) (simp add: nomem(1))
    from stop [OF this _ nomem(2)] show ?thesis by (simp add: hard_def)
  next
    case t: start
    have l1: "encode_loop (winsize s0) omax [] [] s = encode_loop (winsize s0) omax [] [] t"
      by (subst process_loop.simps) (simp add: t(1))
    have it: "xd3_encode_input t = enc_search t" using t(9,11) by (simp add: xd3_encode_input_def)
    consider (written) u where "enc_search t = Some (enc_output (all_pages u) u)" "window_written S t u"
      | (fault) e u where "enc_search t = Some (Some e, u)" "hard (Some e)" "\<not> mem_ok (emem t)"
      using enc_search_ok [OF t(2)] by blast
    then show ?thesis
    proof cases
      case fault
      have "encode_loop (winsize s0) omax [] [] t = Some (Some e, [], u)"
        using fault(2) by (subst process_loop.simps) (auto simp: it fault(1) hard_def)
      then show ?thesis using l1 fault(2,3) t(3) by (intro stop) auto
    next
      case u: written
      have eu: "encodes S inp (cfg_flags cfg) u" using u(2) t by (auto simp: encodes_def window_written_def)
      have uw: "\<not> decoding u" "buf_leftover u = None" "chain_wf (hdr_chain u)" "enc_frame S (u\<lparr>enc_state := ENC_INSTR\<rparr>)"
        using u(2) t by (simp_all add: window_written_def)
      obtain r out w where "encode_loop (winsize s0) omax [] [] t = Some (r, out, w)" "length out \<le> unat omax"
        "if length (page_bytes (all_pages u)) \<le> unat omax
         then r = None \<and> out = page_bytes (all_pages u) \<and> fst (encode_close_stream w) = None else r = Some ENOSPC"
        using encode_pages_ok [OF it [unfolded u(1)] uw om] by blast
      then show ?thesis using eu st l1 unfolding encoder_result_def s0_def [symmetric]
        by (intro disjI1 exI [of _ u]) (auto split: if_splits)
    qed
  qed
qed

lemma encode_memory_ok:
  assumes inp: "inp \<noteq> []" "length inp \<le> 2 ^ 23" and S: "length S \<le> 2 ^ 31"
    and fl: "fl AND XD3_BEGREEDY = 0" "config_secondary fl" and om: "unat omax \<le> 2 ^ 63"
  shows "encoder_result m S inp fl omax (xd3_encode_memory m inp (Some S) omax fl)"
proof -
  have un: "unat (of_nat (length inp) :: u64) = length inp" using inp(2) by (intro unat_of_nat_less) simp
  have mn: "min (of_nat (length inp)) XD3_DEFAULT_WINSIZE = (of_nat (length inp) :: u64)"
    using un inp(2) by (simp add: min_def word_le_nat_alt XD3_DEFAULT_WINSIZE_def)
  obtain k where k: "k < 64" "xd3_pow2_roundup (of_nat (length inp)) = Some (2 ^ k)"
    using pow2_roundup_pow2 [of "of_nat (length inp)"] un inp(2) by auto
  define cfg where "cfg = (zero_config fl)\<lparr>cfg_winsize := of_nat (length inp), cfg_sprevsz := 2 ^ k\<rparr>"
  have c: "encode_config inp fl = Some cfg" using mn k(2) by (simp add: encode_config_def cfg_def Let_def)
  have nz: "(2 ^ k :: u64) \<noteq> 0" using unat_exp_u64 [OF k(1)] by (metis power_not_zero unat_0 zero_neq_numeral)
  obtain sm where sm: "config_smatcher cfg = Inr sm" "good_smatcher sm"
    using config_smatcher_default [of cfg] by (auto simp: cfg_def zero_config_def)
  have cs: "xd3_config_stream cfg m = Inr (encoder_stream cfg m sm)"
    using fl(2) sm(1) nz check_pow2_pow2 [OF k(1)] by (simp add: xd3_config_stream_def cfg_def zero_config_def)
  obtain x where x: "memory_set_source (Some S) = Some (Some x)" "memory_src S x" "srclen x = 0" "srcbase x = 0"
    "unat (max_winsize x) \<le> 2 ^ 31" using memory_source_ok [OF S] .
  have e: "xd3_encode_memory m inp (Some S) omax fl = xd3_encode_stream inp omax ((encoder_stream cfg m sm)\<lparr>esrc := Some x\<rparr>)"
    using c cs x(1) by (simp add: xd3_encode_memory_def)
  have cf: "cfg_flags cfg AND XD3_BEGREEDY = 0" "cfg_winsize cfg = of_nat (length inp)" "0 < cfg_sprevsz cfg" "cfg_iopt_size cfg = 0"
    "cfg_flags cfg = fl"
    using fl nz by (simp_all add: cfg_def zero_config_def word_gt_0)
  show ?thesis using encode_stream_ok [OF inp sm(2) x(2,3,5) cf(1-4) om, of m] unfolding e cf(5) .
qed

end
