(* ===== verification/Xd3_DecodeMemory.thy ===== *)
theory Xd3_DecodeMemory
  imports Xd3_EncodeMemory
begin

section \<open>Decoding what the encoder wrote\<close>

text \<open>
  The decoder on the bytes of one window written by the encoder: the states of the header read back the
  fields, the sections are taken in place, the emit loop gives the input again and the stream closes
  without an error. The last lemmas are about \<open>xd3_decode_memory\<close> as delta.c calls it.
\<close>

subsection \<open>Reading the header\<close>

lemma byte_case:
  assumes "next_in s = b # r" "cond s"
  shows "BYTE_CASE cond store st s = (None, (decode_input_advance 1 (store (ucast b) s))\<lparr>dec_state := st\<rparr>)"
  using assms by (simp add: BYTE_CASE_def seqr_def xd3_decode_byte_def goto_def)

lemma size_case:
  assumes "next_in s = emit_uint64 v @ r" "dec_64part s = 0" "cond s"
  shows "\<exists>n. SIZE_CASE cond store st s = (None, (store v (s\<lparr>total_in := n, next_in := r\<rparr>))\<lparr>dec_state := st\<rparr>)"
proof -
  have p: "s\<lparr>dec_64part := 0, total_in := a, next_in := b\<rparr> = s\<lparr>total_in := a, next_in := b\<rparr>" for a b
    using assms(2) by (cases s) simp
  show ?thesis using assms decode_uint64_emit [of v r]
    by (simp add: SIZE_CASE_def seqr_def xd3_decode_size_def goto_def decode_input_advance_def Let_def p) blast
qed

lemma size_case_skip: "\<not> cond s \<Longrightarrow> SIZE_CASE cond store st s = (None, s\<lparr>dec_state := st\<rparr>)"
  by (simp add: SIZE_CASE_def seqr_def goto_def)

definition section_sizes :: "usize_t \<Rightarrow> usize_t \<Rightarrow> usize_t \<Rightarrow> xd3_dstream \<Rightarrow> xd3_dstream" where
  "section_sizes dl il al s = addr_sect_update (ssize_update (\<lambda>_. al)) (inst_sect_update (ssize_update (\<lambda>_. il))
     (data_sect_update (ssize_update (\<lambda>_. dl)) s))"

lemma state_DATALEN_read:
  assumes "next_in s = emit_uint64 dl @ emit_uint64 il @ emit_uint64 al @ r" "dec_64part s = 0"
  shows "\<exists>n. state_DATALEN s = state_CKSUM ((section_sizes dl il al s)\<lparr>total_in := n, next_in := r, dec_state := DEC_CKSUM\<rparr>)"
proof -
  let ?d = "\<lambda>v. data_sect_update (ssize_update (\<lambda>_. v))" and ?i = "\<lambda>v. inst_sect_update (ssize_update (\<lambda>_. v))"
    and ?a = "\<lambda>v. addr_sect_update (ssize_update (\<lambda>_. v))"
  obtain n1 s1 where 1: "SIZE_CASE (\<lambda>_. True) ?d DEC_INSTLEN s = (None, s1)"
    "s1 = (?d dl (s\<lparr>total_in := n1, next_in := emit_uint64 il @ emit_uint64 al @ r\<rparr>))\<lparr>dec_state := DEC_INSTLEN\<rparr>"
    using size_case [OF assms, of "\<lambda>_. True" ?d] by blast
  obtain n2 s2 where 2: "SIZE_CASE (\<lambda>_. True) ?i DEC_ADDRLEN s1 = (None, s2)"
    "s2 = (?i il (s1\<lparr>total_in := n2, next_in := emit_uint64 al @ r\<rparr>))\<lparr>dec_state := DEC_ADDRLEN\<rparr>"
    using size_case [of s1 il "emit_uint64 al @ r" "\<lambda>_. True" ?i] assms(2) 1(2) by fastforce
  obtain n3 s3 where 3: "SIZE_CASE (\<lambda>_. True) ?a DEC_CKSUM s2 = (None, s3)"
    "s3 = (?a al (s2\<lparr>total_in := n3, next_in := r\<rparr>))\<lparr>dec_state := DEC_CKSUM\<rparr>"
    using size_case [of s2 al r "\<lambda>_. True" ?a] assms(2) 1(2) 2(2) by fastforce
  have "state_DATALEN s = state_CKSUM s3"
    using 1(1) 2(1) 3(1) by (simp add: state_DATALEN_def state_INSTLEN_def state_ADDRLEN_def seqr_def)
  moreover have "s3 = (section_sizes dl il al s)\<lparr>total_in := n3, next_in := r, dec_state := DEC_CKSUM\<rparr>"
    by (simp add: section_sizes_def 1(2) 2(2) 3(2))
  ultimately show ?thesis by blast
qed

lemma state_ENCLEN_read:
  assumes "next_in s = emit_uint64 e @ emit_uint64 t @ [0] @ emit_uint64 dl @ emit_uint64 il @ emit_uint64 al @ r" "dec_64part s = 0"
    "\<not> USIZE_T_OVERFLOW (dec_cpylen s) t" "t \<le> XD3_HARDMAXWINSIZE"
  shows "\<exists>n. state_ENCLEN s = state_CKSUM ((section_sizes dl il al s)\<lparr>total_in := n, next_in := r, dec_enclen := e, dec_tgtlen := t,
     dec_maxpos := dec_cpylen s + t, dec_del_ind := 0, dec_state := DEC_CKSUM\<rparr>)"
proof -
  let ?r2 = "emit_uint64 dl @ emit_uint64 il @ emit_uint64 al @ r"
  let ?e = "\<lambda>v. dec_enclen_update (\<lambda>_. v)" and ?t = "\<lambda>v. dec_tgtlen_update (\<lambda>_. v)"
  obtain n1 s1 where 1: "SIZE_CASE (\<lambda>_. True) ?e DEC_TGTLEN s = (None, s1)"
    "s1 = s\<lparr>total_in := n1, next_in := emit_uint64 t @ [0] @ ?r2, dec_enclen := e, dec_state := DEC_TGTLEN\<rparr>"
    using size_case [OF assms(1,2), of "\<lambda>_. True" ?e] by blast
  obtain n2 s2 where 2: "SIZE_CASE (\<lambda>_. True) ?t DEC_DELIND s1 = (None, s2)"
    "s2 = s1\<lparr>total_in := n2, next_in := [0] @ ?r2, dec_tgtlen := t, dec_state := DEC_DELIND\<rparr>"
    using size_case [of s1 t "[0] @ ?r2" "\<lambda>_. True" ?t] assms(2) 1(2) by fastforce
  define s2' where "s2' = s2\<lparr>dec_maxpos := dec_cpylen s + t\<rparr>"
  have c2: "dec_cpylen s2 = dec_cpylen s" "dec_tgtlen s2 = t" using 1(2) 2(2) by simp_all
  have tg: "state_ENCLEN s = state_DELIND s2'"
    using 1(1) 2(1) assms(3,4) by (simp add: state_ENCLEN_def state_TGTLEN_def seqr_def fail_if_def modify_def s2'_def c2 leD)
  define s3 where "s3 = (decode_input_advance 1 (s2'\<lparr>dec_del_ind := 0\<rparr>))\<lparr>dec_state := DEC_DATALEN\<rparr>"
  have "next_in s2' = 0 # ?r2" by (simp add: s2'_def 2(2))
  from byte_case [OF this, of "\<lambda>_. True" "\<lambda>v. dec_del_ind_update (\<lambda>_. v)" DEC_DATALEN]
  have "BYTE_CASE (\<lambda>_. True) (\<lambda>v. dec_del_ind_update (\<lambda>_. v)) DEC_DATALEN s2' = (None, s3)" by (simp add: s3_def)
  moreover have "dec_del_ind s3 = 0" by (simp add: s3_def decode_input_advance_def)
  ultimately have di: "state_DELIND s2' = state_DATALEN s3" by (simp add: state_DELIND_def seqr_def fail_if_def)
  obtain n where n: "state_DATALEN s3 = state_CKSUM ((section_sizes dl il al s3)\<lparr>total_in := n, next_in := r, dec_state := DEC_CKSUM\<rparr>)"
    using state_DATALEN_read [of s3 dl il al r] assms(2) by (auto simp: s3_def decode_input_advance_def s2'_def 2(2) 1(2))
  have "(section_sizes dl il al s3)\<lparr>total_in := n, next_in := r, dec_state := DEC_CKSUM\<rparr>
    = (section_sizes dl il al s)\<lparr>total_in := n, next_in := r, dec_enclen := e, dec_tgtlen := t,
     dec_maxpos := dec_cpylen s + t, dec_del_ind := 0, dec_state := DEC_CKSUM\<rparr>"
    by (simp add: section_sizes_def s3_def decode_input_advance_def s2'_def 2(2) 1(2))
  then show ?thesis using tg di n by metis
qed

lemma adler32_of_bytes_image: "adler32_of_bytes x (adler_bytes a) = a"
proof (rule bit_word_eqI)
  fix n assume "n < LENGTH(32)"
  then have n: "n < 32" by simp
  have m: "(255 :: u32) = mask 8" by (simp add: mask_eq_exp_minus_1)
  consider "n < 8" | "8 \<le> n" "n < 16" | "16 \<le> n" "n < 24" | "24 \<le> n" using n by linarith
  then show "bit (adler32_of_bytes x (adler_bytes a)) n = bit a n"
    using n by cases (auto simp: adler32_of_bytes_def adler_bytes_def m bit_simps dest: bit_imp_le_length)
qed

definition indicator :: "bool \<Rightarrow> bool \<Rightarrow> u8" where
  "indicator used ad = (if used then ucast VCD_SOURCE else 0) OR (if ad then ucast VCD_ADLER32 else 0)"

lemma indicator_bits:
  "(ucast (indicator used ad) :: u64) AND VCD_INV = 0" "(ucast (indicator used ad) :: u64) AND VCD_TARGET = 0"
  "(ucast (indicator used ad) :: u64) AND VCD_SOURCE \<noteq> 0 \<longleftrightarrow> used" "(ucast (indicator used ad) :: u64) AND VCD_ADLER32 \<noteq> 0 \<longleftrightarrow> ad"
  "SRCORTGT (ucast (indicator used ad)) \<longleftrightarrow> used"
proof -
  have "\<forall>u a. (ucast (indicator u a) :: u64) AND VCD_INV = 0 \<and> (ucast (indicator u a) :: u64) AND VCD_TARGET = 0
     \<and> ((ucast (indicator u a) :: u64) AND VCD_SOURCE \<noteq> 0 \<longleftrightarrow> u) \<and> ((ucast (indicator u a) :: u64) AND VCD_ADLER32 \<noteq> 0 \<longleftrightarrow> a)
     \<and> (SRCORTGT (ucast (indicator u a)) \<longleftrightarrow> u)" by code_simp
  then show "(ucast (indicator used ad) :: u64) AND VCD_INV = 0" "(ucast (indicator used ad) :: u64) AND VCD_TARGET = 0"
    "(ucast (indicator used ad) :: u64) AND VCD_SOURCE \<noteq> 0 \<longleftrightarrow> used" "(ucast (indicator used ad) :: u64) AND VCD_ADLER32 \<noteq> 0 \<longleftrightarrow> ad"
    "SRCORTGT (ucast (indicator used ad)) \<longleftrightarrow> used" by blast+
qed

lemma state_CKSUM_read:
  assumes "next_in s = (if ad then adler_bytes a else []) @ r" "dec_win_ind s AND VCD_ADLER32 \<noteq> 0 \<longleftrightarrow> ad" "dec_cksum s = []"
    "dec_enclen s = enclen_check s"
  shows "\<exists>n ck. state_CKSUM s = (Some (if current_window s = 0 then XD3_GOTHEADER else XD3_WINSTART),
     s\<lparr>total_in := n, next_in := r, dec_cksum := ck, dec_adler32 := (if ad then a else dec_adler32 s), dec_state := DEC_DATA\<rparr>)"
proof (cases ad)
  case True
  have l: "length (adler_bytes a) = 4" "adler_bytes a \<noteq> []" by (simp_all add: adler_bytes_def)
  have ec: "enclen_check (s\<lparr>total_in := x1, next_in := x2, dec_cksum := x3, dec_adler32 := x4, dec_state := x5\<rparr>) = enclen_check s"
    for x1 x2 x3 x4 x5 by (simp add: enclen_check_def)
  have ec': "enclen_check (s\<lparr>dec_cksum := x3, total_in := x1, next_in := x2, dec_adler32 := x4, dec_state := x5\<rparr>) = enclen_check s"
    for x1 x2 x3 x4 x5 by (simp add: enclen_check_def)
  have ta: "take 4 (adler_bytes a @ r) = adler_bytes a" "drop 4 (adler_bytes a @ r) = r" using l(1) by simp_all
  show ?thesis
    using True assms l by (simp add: state_CKSUM_def seqr_def xd3_decode_bytes_def decode_input_advance_def Let_def modify_def goto_def
      fail_if_def ec ec' ta adler32_of_bytes_image) (intro exI [of _ "total_in s + 4"] exI [of _ "adler_bytes a"], simp)
next
  case False
  have "enclen_check (s\<lparr>dec_state := x5\<rparr>) = enclen_check s" for x5 by (simp add: enclen_check_def)
  then show ?thesis
    using False assms by (simp add: state_CKSUM_def seqr_def goto_def fail_if_def)
      (intro exI [of _ "total_in s"] exI [of _ "dec_cksum s"], cases s, simp)
qed

lemma state_WININD_read:
  assumes "next_in s = indicator used ad # (if used then emit_uint64 l @ emit_uint64 p else []) @ r" "dec_64part s = 0"
    "dec_winstart s = 0" "dec_tgtlen s = 0" "\<not> XOFF_T_OVERFLOW p l"
  shows "\<exists>n. state_WININD s = state_ENCLEN (s\<lparr>total_in := n, next_in := r, dec_win_ind := ucast (indicator used ad),
     current_window := dec_window_count s, dec_winstart := 0, dec_cpylen := (if used then l else 0), dec_cpyoff := (if used then p else 0),
     dec_cksum := [], acache := xd3_init_cache (acache s), dec_position := (if used then l else 0), dec_state := DEC_ENCLEN\<rparr>)"
proof -
  let ?i = "indicator used ad" and ?rest = "(if used then emit_uint64 l @ emit_uint64 p else []) @ r"
  define s1 where "s1 = s\<lparr>dec_win_ind := ucast ?i, total_in := total_in s + 1, next_in := ?rest, current_window := dec_window_count s,
     dec_winstart := 0, dec_cpylen := 0, dec_cpyoff := 0, dec_cksum := [], acache := xd3_init_cache (acache s), dec_state := DEC_CPYLEN\<rparr>"
  have ov: "\<not> XOFF_T_OVERFLOW 0 0" by (simp add: XOFF_T_OVERFLOW_def)
  have 1: "state_WININD s = state_CPYLEN s1"
    using assms(1,3,4) ov indicator_bits(1) [of used ad] by (simp add: state_WININD_def seqr_def xd3_decode_byte_def decode_input_advance_def modify_def fail_if_def
      xd3_decode_init_window_def goto_def s1_def)
  let ?L = "\<lambda>v. dec_cpylen_update (\<lambda>_. v)" and ?P = "\<lambda>v. dec_cpyoff_update (\<lambda>_. v)"
  have wi: "dec_win_ind s1 = ucast ?i" by (simp add: s1_def)
  show ?thesis
  proof (cases used)
    case True
    have n1: "next_in s1 = emit_uint64 l @ emit_uint64 p @ r" "dec_64part s1 = 0" "SRCORTGT (dec_win_ind s1)"
      using assms(2) True indicator_bits(5) [of used ad] by (simp_all add: s1_def)
    obtain n2 s2 where 2: "SIZE_CASE (\<lambda>s. SRCORTGT (dec_win_ind s)) ?L DEC_CPYOFF s1 = (None, s2)"
      "s2 = s1\<lparr>total_in := n2, next_in := emit_uint64 p @ r, dec_cpylen := l, dec_state := DEC_CPYOFF\<rparr>"
      using size_case [OF n1(1,2), of "\<lambda>s. SRCORTGT (dec_win_ind s)" ?L, OF n1(3)] by blast
    define s2' where "s2' = s2\<lparr>dec_position := dec_cpylen s2\<rparr>"
    have n2: "next_in s2' = emit_uint64 p @ r" "dec_64part s2' = 0" "SRCORTGT (dec_win_ind s2')"
      using n1 by (simp_all add: s2'_def 2(2))
    obtain n3 s3 where 3: "SIZE_CASE (\<lambda>s. SRCORTGT (dec_win_ind s)) ?P DEC_ENCLEN s2' = (None, s3)"
      "s3 = s2'\<lparr>total_in := n3, next_in := r, dec_cpyoff := p, dec_state := DEC_ENCLEN\<rparr>"
      using size_case [OF n2(1,2), of "\<lambda>s. SRCORTGT (dec_win_ind s)" ?P, OF n2(3)] by blast
    have f: "dec_cpyoff s3 = p" "dec_cpylen s3 = l" "dec_win_ind s3 = ucast ?i" using wi by (simp_all add: 3(2) s2'_def 2(2))
    have "state_CPYLEN s1 = state_ENCLEN s3"
      using 2(1) 3(1) assms(5) indicator_bits(2) [of used ad]
      by (simp add: state_CPYLEN_def state_CPYOFF_def seqr_def modify_def fail_if_def s2'_def [symmetric] f)
    moreover have "s3 = s\<lparr>total_in := n3, next_in := r, dec_win_ind := ucast ?i,
     current_window := dec_window_count s, dec_winstart := 0, dec_cpylen := l, dec_cpyoff := p,
     dec_cksum := [], acache := xd3_init_cache (acache s), dec_position := l, dec_state := DEC_ENCLEN\<rparr>"
      by (simp add: 3(2) s2'_def 2(2) s1_def)
    ultimately show ?thesis using 1 True by auto
  next
    case False
    have ns: "\<not> SRCORTGT (dec_win_ind s1)" using False wi indicator_bits(5) by simp
    have 2: "state_CPYLEN s1 = state_ENCLEN (s1\<lparr>dec_position := 0, dec_state := DEC_ENCLEN\<rparr>)"
      using ns indicator_bits(2) [of used ad] ov wi
      by (simp add: state_CPYLEN_def state_CPYOFF_def seqr_def size_case_skip modify_def fail_if_def) (simp add: s1_def)
    show ?thesis unfolding 1 2 using False by (intro exI [of _ "total_in s + 1"] arg_cong [of _ _ state_ENCLEN]) (simp add: s1_def)
  qed
qed

lemma state_VCHEAD_read:
  assumes "next_in s = file_hdr None @ r" "dec_magic s = []" "mem_ok (mem s)" "next_slot (acache s) = 0"
  shows "\<exists>m c n h mg. state_VCHEAD s = state_WININD (s\<lparr>mem := m, total_in := n, next_in := r, dec_magic := mg, dec_hdr_ind := 0, acache := c,
     code_table := xd3_rfc3284_code_table, dec_hdrsize := h, dec_state := DEC_WININD\<rparr>) \<and> mem_ok m \<and> xd3_init_cache c = fresh_cache"
proof -
  let ?mg = "[VCDIFF_MAGIC1, VCDIFF_MAGIC2, VCDIFF_MAGIC3, VCDIFF_VERSION]"
  define s1 where "s1 = s\<lparr>dec_magic := ?mg, total_in := total_in s + 4, next_in := 0 # r, dec_state := DEC_HDRIND\<rparr>"
  have ni: "next_in s = ?mg @ 0 # r" using assms(1) by (simp add: file_hdr_def)
  have 1: "state_VCHEAD s = state_HDRIND s1"
    using ni assms(2) by (simp add: state_VCHEAD_def seqr_def xd3_decode_bytes_def decode_input_advance_def Let_def fail_if_def goto_def s1_def
      VCDIFF_VERSION_def)
  define s2 where "s2 = s1\<lparr>dec_hdr_ind := 0, total_in := total_in s1 + 1, next_in := r, dec_state := DEC_SECONDID\<rparr>"
  have ni1: "next_in s1 = 0 # r" by (simp add: s1_def)
  have 2: "state_HDRIND s1 = state_SECONDID s2"
    using ni1 by (simp add: state_HDRIND_def seqr_def xd3_decode_byte_def decode_input_advance_def fail_if_def goto_def s2_def)
  define c0 where "c0 = (acache s)\<lparr>s_near := ucast (near_modes rfc3284_code_table_desc), s_same := ucast (same_modes rfc3284_code_table_desc)\<rparr>"
  have h2: "dec_hdr_ind s2 = 0" by (simp add: s2_def)
  have bc: "BYTE_CASE cond store st t = (None, t\<lparr>dec_state := st\<rparr>)" if "\<not> cond t" for cond store st t
    using that by (simp add: BYTE_CASE_def seqr_def goto_def)
  define s3 where "s3 = s2\<lparr>dec_state := DEC_TABDAT\<rparr>"
  have 3: "state_SECONDID s2 = state_TABDAT s3"
    using h2 by (simp add: state_SECONDID_def state_TABLEN_def state_NEAR_def state_SAME_def seqr_def size_case_skip bc fail_if_def modify_def s3_def)
  obtain m c where c: "xd3_alloc_cache (mem s) c0 = (None, m, c)" "mem_ok m" "xd3_init_cache c = fresh_cache"
    using alloc_cache_mem_ok [OF assms(3), of c0] assms(4) by (auto simp: c0_def rfc3284_code_table_desc_def)
  define s4 where "s4 = s3\<lparr>code_table := xd3_rfc3284_code_table, mem := m, acache := c, dec_state := DEC_APPLEN\<rparr>"
  have h3: "dec_hdr_ind s3 = 0" "acache s3 = acache s" "mem s3 = mem s" by (simp_all add: s3_def s2_def s1_def)
  have 4: "state_TABDAT s3 = state_APPLEN s4"
    using h3 c(1) by (simp add: state_TABDAT_def seqr_def fail_if_def modify_def decode_alloc_cache_def goto_def c0_def [symmetric] s4_def)
  have h4: "dec_hdr_ind s4 = 0" using h3 by (simp add: s4_def)
  define s5 where "s5 = s4\<lparr>dec_hdrsize := total_in s4, dec_state := DEC_WININD\<rparr>"
  have 5: "state_APPLEN s4 = state_WININD s5"
    using h4 by (simp add: state_APPLEN_def state_APPDAT_def seqr_def size_case_skip modify_def goto_def s5_def)
  have "s5 = s\<lparr>mem := m, total_in := total_in s5, next_in := r, dec_magic := ?mg, dec_hdr_ind := 0, acache := c,
     code_table := xd3_rfc3284_code_table, dec_hdrsize := dec_hdrsize s5, dec_state := DEC_WININD\<rparr>"
    by (simp add: s5_def s4_def s3_def s2_def s1_def)
  then show ?thesis using 1 2 3 4 5 c(2,3) by metis
qed

subsection \<open>Reading the sections\<close>

text \<open>A section that is wholly in the input is used in place.\<close>

lemma section_read:
  assumes g: "\<And>v t. sect (put v t) = v" "\<And>t n r. sect (t\<lparr>total_in := n, next_in := r\<rparr>) = sect t" "\<And>t w. sect (t\<lparr>dec_winbytes := w\<rparr>) = sect t"
      "\<And>v t n r. (put v t)\<lparr>total_in := n, next_in := r\<rparr> = put v (t\<lparr>total_in := n, next_in := r\<rparr>)"
      "\<And>v w t. put v (put w t) = put v t" "\<And>v t st. (put v t)\<lparr>dec_state := st\<rparr> = put v (t\<lparr>dec_state := st\<rparr>)"
      "\<And>v t. next_in (put v t) = next_in t" "\<And>v t. total_in (put v t) = total_in t"
    and n: "next_in s = b @ r" "unat (ssize (sect s)) = length b" "spos (sect s) = 0"
  shows "\<exists>k w. xd3_decode_section sect put st False s = (None, put ((sect s)\<lparr>sbuf := b, spos := 0\<rparr>)
     (s\<lparr>dec_winbytes := w, total_in := k, next_in := r, dec_state := st\<rparr>))"
proof (cases "b = []")
  case True
  then have z: "ssize (sect s) = 0" using n(2) by (simp add: unat_eq_zero)
  have "section_take sect put False s = (None, s)" using z by (simp add: section_take_def)
  moreover have "section_done sect put st s = (None, put ((sect s)\<lparr>spos := 0, sbuf := []\<rparr>) (s\<lparr>dec_state := st\<rparr>))"
    using z by (simp add: section_done_def Let_def)
  moreover have e: "s\<lparr>dec_state := st\<rparr> = s\<lparr>dec_winbytes := dec_winbytes s, total_in := total_in s, next_in := r, dec_state := st\<rparr>"
    "(sect s)\<lparr>spos := 0, sbuf := []\<rparr> = (sect s)\<lparr>sbuf := b, spos := 0\<rparr>"
    using n(1) True by simp_all
  ultimately have "xd3_decode_section sect put st False s = (None, put ((sect s)\<lparr>spos := 0, sbuf := []\<rparr>) (s\<lparr>dec_state := st\<rparr>))"
    by (simp add: xd3_decode_section_def seqr_def)
  then show ?thesis unfolding e by blast
next
  case False
  then have nz: "spos (sect s) < ssize (sect s)" using n(2,3) by (simp add: word_less_nat_alt)
  define v where "v = (sect s)\<lparr>sbuf := b, spos := ssize (sect s)\<rparr>"
  define k where "k = total_in s + ssize (sect s)"
  define w where "w = dec_winbytes s + ssize (sect s)"
  define t where "t = put v (s\<lparr>dec_winbytes := w, total_in := k, next_in := r\<rparr>)"
  have "section_take sect put False s = (None, t)"
    using nz False n g(4) by (simp add: section_take_def section_zerocopy_def Let_def decode_input_advance_def g(7,8) t_def v_def k_def w_def)
  moreover have "section_done sect put st t = (None, put (v\<lparr>spos := 0, sbuf := b\<rparr>) (s\<lparr>dec_winbytes := w, total_in := k, next_in := r, dec_state := st\<rparr>))"
    by (simp add: section_done_def Let_def t_def g(1,5,6)) (simp add: v_def n(2))
  ultimately have "xd3_decode_section sect put st False s
      = (None, put (v\<lparr>spos := 0, sbuf := b\<rparr>) (s\<lparr>dec_winbytes := w, total_in := k, next_in := r, dec_state := st\<rparr>))"
    by (simp add: xd3_decode_section_def seqr_def)
  moreover have ev: "v\<lparr>spos := 0, sbuf := b\<rparr> = (sect s)\<lparr>sbuf := b, spos := 0\<rparr>" by (simp add: v_def)
  ultimately show ?thesis unfolding ev by blast
qed

lemma decode_sections_read:
  assumes n: "next_in s = dat @ ins @ adr @ r" "unat (ssize (data_sect s)) = length dat" "unat (ssize (inst_sect s)) = length ins"
      "unat (ssize (addr_sect s)) = length adr" "spos (data_sect s) = 0" "spos (inst_sect s) = 0" "spos (addr_sect s) = 0"
    and s: "dec_state s = DEC_DATA" "dec_winbytes s = 0" "flags s AND XD3_JUST_HDR = 0" "flags s AND XD3_SKIP_WINDOW = 0"
      "flags s AND XD3_SKIP_EMIT = 0" "length (next_in s) < 2 ^ 63"
  shows "\<exists>w k ds is' as. xd3_decode_sections s = xd3_decode_setup_buffers (s\<lparr>dec_winbytes := w, total_in := k, next_in := r, dec_state := DEC_EMIT,
      data_sect := ds, inst_sect := is', addr_sect := as\<rparr>) \<and> sbuf ds = dat \<and> sbuf is' = ins \<and> sbuf as = adr"
proof -
  define t where "t = s"
  have len: "length dat + length ins + length adr < 2 ^ 63" using n(1) s(6) by simp
  have u1: "unat (ssize (inst_sect s) + ssize (addr_sect s)) = length ins + length adr"
    using n(3,4) len by (subst unat_add_less) simp_all
  have u2: "unat (ssize (inst_sect s) + ssize (addr_sect s) + ssize (data_sect s)) = length ins + length adr + length dat"
    using n(2) u1 len by (subst unat_add_less) simp_all
  have un: "unat (of_nat (length (next_in s)) :: u64) = length (next_in s)" using s(6) by (intro unat_of_nat_less) simp
  have ov: "\<not> USIZE_T_OVERFLOW (ssize (inst_sect s)) (ssize (addr_sect s))"
     "\<not> USIZE_T_OVERFLOW (ssize (inst_sect s) + ssize (addr_sect s)) (ssize (data_sect s))"
    using u1 n(2-4) len by (simp_all add: not_overflow)
  have cp: "min (ssize (inst_sect s) + ssize (addr_sect s) + ssize (data_sect s)) (of_nat (length (next_in s)))
      = ssize (inst_sect s) + ssize (addr_sect s) + ssize (data_sect s)"
    using u2 un n(1) by (simp add: min_def word_le_nat_alt)
  obtain w1 k1 s1 where 1: "xd3_decode_section data_sect (\<lambda>v. data_sect_update (\<lambda>_. v)) DEC_INST False s = (None, s1)"
    "s1 = s\<lparr>dec_winbytes := w1, total_in := k1, next_in := ins @ adr @ r, dec_state := DEC_INST, data_sect := (data_sect s)\<lparr>sbuf := dat, spos := 0\<rparr>\<rparr>"
    using section_read [of data_sect "\<lambda>v. data_sect_update (\<lambda>_. v)" s dat "ins @ adr @ r" DEC_INST] n by auto
  obtain w2 k2 s2 where 2: "xd3_decode_section inst_sect (\<lambda>v. inst_sect_update (\<lambda>_. v)) DEC_ADDR False s1 = (None, s2)"
    "s2 = s1\<lparr>dec_winbytes := w2, total_in := k2, next_in := adr @ r, dec_state := DEC_ADDR, inst_sect := (inst_sect s)\<lparr>sbuf := ins, spos := 0\<rparr>\<rparr>"
    using section_read [of inst_sect "\<lambda>v. inst_sect_update (\<lambda>_. v)" s1 ins "adr @ r" DEC_ADDR] n by (auto simp: 1(2))
  obtain w3 k3 s3 where 3: "xd3_decode_section addr_sect (\<lambda>v. addr_sect_update (\<lambda>_. v)) DEC_EMIT False s2 = (None, s3)"
    "s3 = s2\<lparr>dec_winbytes := w3, total_in := k3, next_in := r, dec_state := DEC_EMIT, addr_sect := (addr_sect s)\<lparr>sbuf := adr, spos := 0\<rparr>\<rparr>"
    using section_read [of addr_sect "\<lambda>v. addr_sect_update (\<lambda>_. v)" s2 adr r DEC_EMIT] n by (auto simp: 1(2) 2(2))
  have f3: "flags s3 = flags s" by (simp add: 1(2) 2(2) 3(2))
  have "read_sections False s = (None, s3)"
    using s(1) 1(1) 2(1) 3(1) by (simp add: read_sections_def read_data_sect_def read_inst_sect_def read_addr_sect_def seqr_def)
  then have e: "xd3_decode_sections s = xd3_decode_setup_buffers s3"
    using s(2-5) ov cp f3 by (simp add: xd3_decode_sections_def Let_def seqr_def)
  have "s3 = s\<lparr>dec_winbytes := w3, total_in := k3, next_in := r, dec_state := DEC_EMIT, data_sect := (data_sect s)\<lparr>sbuf := dat, spos := 0\<rparr>,
     inst_sect := (inst_sect s)\<lparr>sbuf := ins, spos := 0\<rparr>, addr_sect := (addr_sect s)\<lparr>sbuf := adr, spos := 0\<rparr>\<rparr>"
    by (simp add: 1(2) 2(2) 3(2))
  then show ?thesis unfolding e by (intro exI) (auto intro!: arg_cong [of _ _ xd3_decode_setup_buffers])
qed

subsection \<open>Decoding the window\<close>

lemma memory_src_serves:
  assumes "memory_src S x"
  shows "serves S None (x\<lparr>cpyoff_blocks := b, cpyoff_blkoff := c\<rparr>)"
  using assms by (auto simp: serves_def memory_src_def source_wf_def src_block_def)

lemma memory_src_offset:
  assumes "memory_src S x" "xd3_blksize_div p (unat (shiftby x)) (maskby x) = (b, c)"
  shows "src_offset (x\<lparr>cpyoff_blocks := b, cpyoff_blkoff := c\<rparr>) = unat p"
proof -
  define k where "k = unat (shiftby x)"
  have k: "k < 64" "blksize x = 2 ^ k" "maskby x = 2 ^ k - 1" using assms(1) by (auto simp: memory_src_def source_wf_def k_def)
  have "xd3_blksize_div p k (2 ^ k - 1) = (b, c)" using assms(2) k by (simp add: k_def)
  from blksize_div_spec(1) [OF k(1) this] show ?thesis using k unat_exp_u64 [OF k(1)] by (simp add: src_offset_def)
qed

text \<open>The stream when the header has been read: \<open>l\<close> bytes of the source at \<open>p\<close>, sections of the given
  lengths, a target of the length of \<open>out\<close>.\<close>

definition at_data :: "bytes \<Rightarrow> xd3_source \<Rightarrow> bool \<Rightarrow> bool \<Rightarrow> usize_t \<Rightarrow> xoff_t \<Rightarrow> bytes \<Rightarrow> bytes \<Rightarrow> bytes \<Rightarrow> bytes \<Rightarrow> xd3_dstream \<Rightarrow> bool" where
  "at_data S x used ad l p dat ins adr out s \<longleftrightarrow> dec_state s = DEC_DATA \<and> next_in s = dat @ ins @ adr
     \<and> unat (ssize (data_sect s)) = length dat \<and> unat (ssize (inst_sect s)) = length ins \<and> unat (ssize (addr_sect s)) = length adr
     \<and> spos (data_sect s) = 0 \<and> spos (inst_sect s) = 0 \<and> spos (addr_sect s) = 0 \<and> dec_winbytes s = 0
     \<and> unat (dec_tgtlen s) = length out \<and> dec_cpylen s = l \<and> dec_cpyoff s = p \<and> dec_position s = l \<and> dec_maxpos s = l + dec_tgtlen s
     \<and> acache s = fresh_cache \<and> code_table s = xd3_rfc3284_code_table \<and> htype (dec_current1 s) = XD3_NOOP
     \<and> htype (dec_current2 s) = XD3_NOOP \<and> mem_ok (mem s) \<and> space_out s = 0 \<and> avail_out s = 0
     \<and> src s = Some x \<and> getblk s = None \<and> dec_win_ind s = ucast (indicator used ad) \<and> \<not> encoding s
     \<and> (ad \<longrightarrow> dec_adler32 s = adler32 1 out)
     \<and> flags s AND XD3_JUST_HDR = 0 \<and> flags s AND XD3_SKIP_WINDOW = 0 \<and> flags s AND XD3_SKIP_EMIT = 0"

lemma state_DATA_ok:
  assumes s: "at_data S x used ad l p dat ins adr out s" and x: "memory_src S x"
    and b: "unat p + unat l \<le> length S" "\<not> used \<longrightarrow> l = 0 \<and> p = 0"
    and o: "out \<noteq> []" "length out \<le> 2 ^ 23" "length (dat @ ins @ adr) < 2 ^ 63"
    and v: "vc_window (take (unat l) (drop (unat p) S)) fresh_cache ins dat adr = Some out"
  shows "\<exists>t. state_DATA s = Some (Some XD3_OUTPUT, t) \<and> window_output t = out \<and> dec_state t = DEC_FINISH \<and> next_in t = [] \<and> \<not> encoding t"
proof -
  have lS: "length S < 2 ^ 63" using x by (simp add: memory_src_def)
  obtain w k ds is' as where r: "xd3_decode_sections s = xd3_decode_setup_buffers (s\<lparr>dec_winbytes := w, total_in := k, next_in := [], dec_state := DEC_EMIT,
      data_sect := ds, inst_sect := is', addr_sect := as\<rparr>)" "sbuf ds = dat" "sbuf is' = ins" "sbuf as = adr"
    using decode_sections_read [of s dat ins adr "[]"] s o(3) by (auto simp: at_data_def)
  obtain m where m: "xd3_alloc (mem s) = (True, m)" "mem_ok m" using alloc_mem_ok s by (auto simp: at_data_def)
  define sp where "sp = xd3_round_blksize (dec_tgtlen s) XD3_ALLOCSIZE"
  have tl: "unat (dec_tgtlen s) = length out" using s by (simp add: at_data_def)
  have spb: "length out \<le> unat sp" "unat sp \<le> 2 ^ 27"
    using round_blksize_spec [of 14 XD3_ALLOCSIZE sp "dec_tgtlen s"] tl o(2) by (simp_all add: sp_def XD3_ALLOCSIZE_def)
  define s1 where "s1 = s\<lparr>dec_winbytes := w, total_in := k, next_in := [], dec_state := DEC_EMIT, data_sect := ds, inst_sect := is',
     addr_sect := as, space_out := sp, mem := m, next_out := []\<rparr>"
  have pos: "dec_tgtlen s > 0" using tl o(1) by (simp add: word_less_nat_alt)
  have 1: "xd3_decode_sections s = (None, s1)"
    using r(1) m(1) pos s indicator_bits(2) [of used ad] by (simp add: at_data_def xd3_decode_setup_buffers_def Let_def s1_def sp_def)
  obtain bn bo where d: "xd3_blksize_div p (unat (shiftby x)) (maskby x) = (bn, bo)" by force
  define x' where "x' = x\<lparr>cpyoff_blocks := bn, cpyoff_blkoff := bo\<rparr>"
  define s2 where "s2 = (if used then s1\<lparr>src := Some x'\<rparr> else s1)"
  have f1: "dec_win_ind s1 AND VCD_SOURCE \<noteq> 0 \<longleftrightarrow> used" "src s1 = Some x" "dec_cpyoff s1 = p"
    using s indicator_bits(3) [of used ad] by (simp_all add: s1_def at_data_def)
  have 2: "state_DATA s = (case xd3_decode_emit s2 of None \<Rightarrow> None
          | Some (r, s') \<Rightarrow> Some (r, if r = Some XD3_OUTPUT then s'\<lparr>total_out := total_out s' + avail_out s'\<rparr> else s'))"
    using 1 d f1 by (cases used) (simp_all add: state_DATA_def state_EMIT_def Xd3_Decode.seqo_def s2_def x'_def)
  define sw where "sw = take (unat l) (drop (unat p) S)"
  have lsw: "length sw = unat l" using b(1) by (simp add: sw_def)
  have f: "space_out s2 = sp" "next_out s2 = []" "avail_out s2 = 0" "dec_win_ind s2 = ucast (indicator used ad)" "dec_cpylen s2 = l"
    "dec_maxpos s2 = l + dec_tgtlen s" "getblk s2 = None" "inst_sect s2 = is'" "addr_sect s2 = as" "data_sect s2 = ds" "acache s2 = fresh_cache"
    "dec_position s2 = l" "code_table s2 = xd3_rfc3284_code_table" "htype (dec_current1 s2) = XD3_NOOP" "htype (dec_current2 s2) = XD3_NOOP"
    "dec_tgtlen s2 = dec_tgtlen s" "next_in s2 = []" "\<not> encoding s2" "flags s2 = flags s" "dec_adler32 s2 = dec_adler32 s"
    using s by (simp_all add: s2_def s1_def at_data_def)
  have mp: "unat (l + dec_tgtlen s) = length sw + length out"
    using lsw tl b(1) lS o(2) by (subst unat_add_less) simp_all
  have src: "\<exists>x. src s2 = Some x \<and> serves S None x \<and> src_offset x + length sw \<le> length S \<and> sw = take (length sw) (drop (src_offset x) S)"
    if "sw \<noteq> []"
  proof -
    have u: used using that b(2) lsw by (cases used) (auto simp: sw_def)
    show ?thesis using u memory_src_serves [OF x] memory_src_offset [OF x d] b(1) lsw
      by (intro exI [of _ x']) (simp add: s2_def x'_def sw_def)
  qed
  have "bufs_ok s2" using f spb(2) by (simp add: bufs_ok_def)
  then have dw: "dec_win S sw (length out) s2"
    using f spb mp lsw lS src b(1) o(2) indicator_bits(2) by (simp add: dec_win_def)
  have rel: "dec_rel S sw (length out) s2 \<lparr>vinst = ins, vdata = dat, vaddr = adr, vcache = fresh_cache, vout = []\<rparr>"
    using dw f r lsw by (simp add: dec_rel_def dec_out_def parsed_def window_output_def)
  have ad: "dec_win_ind s2 AND VCD_ADLER32 \<noteq> 0 \<longrightarrow> flags s2 AND XD3_ADLER32_NOVER = 0 \<longrightarrow> dec_adler32 s2 = adler32 1 out"
    using s f indicator_bits(4) [of used ad] by (simp add: at_data_def)
  obtain t t' where t: "xd3_decode_emit s2 = Some (Some XD3_OUTPUT, t)" "window_output t = out" "dec_state t = DEC_FINISH"
    "emit_frame s2 t'" "t = snd (xd3_decode_finish_window t')"
    using decode_emit_refines [OF rel v [folded sw_def] _ refl ad] f(16) tl by metis
  have "next_in t = []" "\<not> encoding t" using t(4,5) f(17,18) by (auto simp: emit_frame_def xd3_decode_finish_window_def)
  then show ?thesis using 2 t(1-3) by (simp add: window_output_def)
qed

subsection \<open>The whole delta\<close>

abbreviation "decode_loop \<equiv> process_loop xd3_decode_input xd3_avail_input window_output xd3_consume_output"

lemma decode_loop_finish:
  assumes "dec_state t = DEC_FINISH" "next_in t = []" "\<not> encoding t"
  shows "\<exists>u. decode_loop wsz omax [] out t = Some (None, out, u) \<and> decode_close_stream u = None"
proof -
  define t1 where "t1 = snd (state_FINISH t)"
  have 1: "xd3_decode_input t = Some (Some XD3_WINFINISH, t1)" "dec_state t1 = DEC_WININD" "next_in t1 = []" "\<not> encoding t1"
    using assms by (simp_all add: xd3_decode_input_def t1_def state_FINISH_def)
  have 2: "xd3_decode_input t1 = Some (Some XD3_INPUT, t1)"
    using 1 by (simp add: xd3_decode_input_def state_WININD_def seqr_def xd3_decode_byte_def)
  have "decode_loop wsz omax [] out t = decode_loop wsz omax [] out t1" by (subst process_loop.simps) (simp add: 1(1))
  also have "\<dots> = Some (None, out, t1)" by (subst process_loop.simps) (simp add: 2)
  finally show ?thesis using 1(2) by (auto simp: decode_close_stream_def)
qed

lemma decode_loop_window:
  assumes s: "xd3_decode_input s = Some (Some c, s1)" "c = XD3_GOTHEADER" and d: "at_data S x used ad l p dat ins adr out s1" and x: "memory_src S x"
    and b: "unat p + unat l \<le> length S" "\<not> used \<longrightarrow> l = 0 \<and> p = 0"
    and o: "out \<noteq> []" "length out \<le> 2 ^ 23" "length (dat @ ins @ adr) < 2 ^ 63"
    and v: "vc_window (take (unat l) (drop (unat p) S)) fresh_cache ins dat adr = Some out"
    and om: "length out \<le> unat omax"
  shows "\<exists>u. decode_loop wsz omax [] [] s = Some (None, out, u) \<and> decode_close_stream u = None"
proof -
  obtain t where t: "state_DATA s1 = Some (Some XD3_OUTPUT, t)" "window_output t = out" "dec_state t = DEC_FINISH" "next_in t = []" "\<not> encoding t"
    using state_DATA_ok [OF d x b o v] by blast
  have 1: "xd3_decode_input s1 = Some (Some XD3_OUTPUT, t)" using d t(1) by (simp add: at_data_def xd3_decode_input_def)
  have un: "unat (of_nat (length out) :: u64) = length out" using o(2) by (intro unat_of_nat_less) simp
  have "decode_loop wsz omax [] [] s = decode_loop wsz omax [] [] s1" by (subst process_loop.simps) (simp add: s)
  also have "\<dots> = decode_loop wsz omax [] out (xd3_consume_output t)"
    using om un by (subst process_loop.simps) (simp add: 1 t(2) word_less_nat_alt)
  finally show ?thesis using decode_loop_finish [of "xd3_consume_output t" wsz omax out] t by (simp add: xd3_consume_output_def)
qed

text \<open>The length field that the encoder writes is the one that the decoder checks.\<close>

lemma sizeof_le_10: "unat (xd3_sizeof_uint64_t n) \<le> 10"
  using xd3_sizeof_uint64_t_eq [of n] length_emit_uint64_le [of 10 n] unat_u64_lt [of n] by simp

lemma enclen_agree:
  assumes "dec_tgtlen s = avail_in u" "ssize (data_sect s) = xd3_sizeof_output (data_chain u)"
    "ssize (inst_sect s) = xd3_sizeof_output (inst_chain u)" "ssize (addr_sect s) = xd3_sizeof_output (addr_chain u)"
    "dec_win_ind s AND VCD_ADLER32 \<noteq> 0 \<longleftrightarrow> use_adler32 u"
  shows "enclen_check s = window_enc_len u"
proof -
  define q where "q = xd3_sizeof_uint64_t (avail_in u) + xd3_sizeof_uint64_t (xd3_sizeof_output (data_chain u))
    + xd3_sizeof_uint64_t (xd3_sizeof_output (inst_chain u)) + xd3_sizeof_uint64_t (xd3_sizeof_output (addr_chain u))"
  have q: "unat q \<le> 40"
  proof -
    have "unat (a + b + c + d) \<le> 40" if "unat a \<le> 10" "unat b \<le> 10" "unat c \<le> 10" "unat d \<le> 10" for a b c d :: u32
      using that by (simp add: unat_add_less)
    then show ?thesis by (simp add: q_def sizeof_le_10)
  qed
  have uc: "unat (ucast x :: u64) = unat x" for x :: u32
    using unsigned_less [where 'a = nat and w = x] by (simp add: unsigned_ucast_eq take_bit_nat_eq_self_iff)
  have "unat (ucast (1 + q) :: u64) = unat (1 + ucast q :: u64)"
    using q by (simp add: uc unat_add_less)
  then have "(ucast (1 + q) :: u64) = 1 + ucast q" by (simp add: word_unat_eq_iff)
  then show ?thesis using assms by (simp add: enclen_check_def window_enc_len_def Let_def q_def add.assoc)
qed

text \<open>The source window of a complete window.\<close>

definition window_src :: "xd3_estream \<Rightarrow> usize_t \<times> xoff_t" where
  "window_src u = (case esrc u of None \<Rightarrow> (0, 0) | Some x \<Rightarrow> if srclen x > 0 then (srclen x, srcbase x) else (0, 0))"

lemma window_src_ok:
  assumes "srcwin_ok S u" "length S < 2 ^ 63" "window_src u = (l, p)"
  shows "unat p + unat l \<le> length S" "\<not> xd3_encoder_used_source u \<longrightarrow> l = 0 \<and> p = 0" "sw_ok S u (take (unat l) (drop (unat p) S))"
    "source_hdr (esrc u) = (if xd3_encoder_used_source u then emit_uint64 l @ emit_uint64 p else [])"
proof -
  show "\<not> xd3_encoder_used_source u \<longrightarrow> l = 0 \<and> p = 0"
    "source_hdr (esrc u) = (if xd3_encoder_used_source u then emit_uint64 l @ emit_uint64 p else [])"
    using assms(3) by (auto simp: window_src_def xd3_encoder_used_source_def source_hdr_def split: option.splits if_splits)
  show "unat p + unat l \<le> length S"
  proof (cases "esrc u")
    case (Some x)
    show ?thesis
    proof (cases "srclen x > 0")
      case True
      then have "srcbase x = match_minaddr u" "srclen x = match_maxaddr u - match_minaddr u" "match_minaddr u \<le> match_maxaddr u"
        "unat (match_maxaddr u) \<le> length S"
        using assms(1) Some by (auto simp: srcwin_ok_def split: if_splits)
      then show ?thesis using assms(3) Some True by (auto simp: window_src_def unat_sub_le word_le_nat_alt)
    qed (use assms(3) Some in \<open>simp add: window_src_def\<close>)
  qed (use assms(3) in \<open>simp add: window_src_def\<close>)
  show "sw_ok S u (take (unat l) (drop (unat p) S))"
    using assms(3) by (auto simp: sw_ok_def window_src_def not_less word_le_nat_alt split: option.splits if_splits)
qed

lemma flags_or_flush:
  assumes "fl AND XD3_JUST_HDR = 0" "fl AND XD3_SKIP_WINDOW = 0" "fl AND XD3_SKIP_EMIT = 0"
  shows "(fl OR XD3_FLUSH) AND XD3_JUST_HDR = 0" "(fl OR XD3_FLUSH) AND XD3_SKIP_WINDOW = 0" "(fl OR XD3_FLUSH) AND XD3_SKIP_EMIT = 0"
proof -
  have "XD3_FLUSH AND XD3_JUST_HDR = 0" "XD3_FLUSH AND XD3_SKIP_WINDOW = 0" "XD3_FLUSH AND XD3_SKIP_EMIT = 0" by code_simp+
  then show "(fl OR XD3_FLUSH) AND XD3_JUST_HDR = 0" "(fl OR XD3_FLUSH) AND XD3_SKIP_WINDOW = 0" "(fl OR XD3_FLUSH) AND XD3_SKIP_EMIT = 0"
    using assms by (simp_all add: bit.conj_disj_distrib2)
qed

lemma flags_adler:
  assumes "fl AND XD3_ADLER32_RECODE = 0" "eflags u = fl OR XD3_FLUSH" "use_adler32 u"
  shows "eflags u AND XD3_ADLER32 \<noteq> 0"
proof -
  have "XD3_FLUSH AND XD3_ADLER32_RECODE = 0" by code_simp
  then have "eflags u AND XD3_ADLER32_RECODE = 0" using assms by (simp add: bit.conj_disj_distrib2)
  then show ?thesis using assms(3) by (simp add: use_adler32_def bit.conj_disj_distrib)
qed

lemma decode_encoded:
  assumes u: "encodes S inp fl u" and inp: "inp \<noteq> []" "length inp \<le> 2 ^ 23" and S: "length S \<le> 2 ^ 31" and fl: "fl AND XD3_ADLER32_RECODE = 0"
    and D: "D = page_bytes (all_pages u)" "length D < 2 ^ 63" and x: "memory_src S x" and m: "mem_ok m"
    and dfl: "dfl AND XD3_JUST_HDR = 0" "dfl AND XD3_SKIP_WINDOW = 0" "dfl AND XD3_SKIP_EMIT = 0" and om: "length inp \<le> unat omax"
    and s: "s = (decoder_stream m dfl (Some x) None)\<lparr>next_in := D\<rparr>"
  shows "\<exists>t. decode_loop wsz omax [] [] s = Some (None, inp, t) \<and> decode_close_stream t = None"
proof -
  obtain t where t: "window_written S t u" "eacache t = fresh_cache" "ein t = inp" and ew: "ewindow u = 0" "eflags u = fl OR XD3_FLUSH" "enc_appheader u = None"
    using u by (auto simp: encodes_def)
  define used ad where "used = xd3_encoder_used_source u" and "ad = use_adler32 u"
  obtain l p where lp: "window_src u = (l, p)" by force
  define dat ins adr where "dat = chain_bytes (data_chain u)" and "ins = chain_bytes (inst_chain u)" and "adr = chain_bytes (addr_chain u)"
  have fr: "enc_frame S (u\<lparr>enc_state := ENC_INSTR\<rparr>)" "ein u = inp" using t by (simp_all add: window_written_def)
  have sw: "srcwin_ok S u" using fr(1) by (simp add: enc_frame_def srcwin_ok_def)
  have lS: "length S < 2 ^ 63" using S by simp
  note ws = window_src_ok [OF sw lS lp, folded used_def]
  have v: "vc_window (take (unat l) (drop (unat p) S)) fresh_cache ins dat adr = Some inp"
    using t ws(3) by (simp add: window_written_def dat_def ins_def adr_def)
  define al where "al = (if ad then adler_bytes (adler32 1 inp) else [])"
  define dl il rl where "dl = xd3_sizeof_output (data_chain u)" and "il = xd3_sizeof_output (inst_chain u)" and "rl = xd3_sizeof_output (addr_chain u)"
  have hd: "D = file_hdr None @ indicator used ad # (if used then emit_uint64 l @ emit_uint64 p else [])
      @ emit_uint64 (window_enc_len u) @ emit_uint64 (avail_in u) @ [0] @ emit_uint64 dl @ emit_uint64 il @ emit_uint64 rl @ al @ dat @ ins @ adr"
  proof -
    have "adler_hdr u = al" using flags_adler [OF fl ew(2)] fr(2) by (simp add: adler_hdr_def al_def ad_def)
    then show ?thesis using t(1) ew ws(4)
      by (simp add: D all_pages_bytes window_written_def header_image_def lengths_hdr_def window_indicator_def indicator_def
        dat_def ins_def adr_def dl_def il_def rl_def used_def ad_def)
  qed
  have av: "unat (avail_in u) = length inp" using fr(2) inp(2) unat_avail_in [of u] by simp
  have szs: "unat dl = length dat" "unat il = length ins" "unat rl = length adr" "length (dat @ ins @ adr) < 2 ^ 63"
    using D(2) hd by (auto simp: dl_def il_def rl_def dat_def ins_def adr_def sizeof_output_eq unat_of_nat_less)
  have s0: "next_in s = D" "dec_magic s = []" "mem s = m" "next_slot (acache s) = 0" "dec_64part s = 0" "dec_winstart s = 0" "dec_tgtlen s = 0"
    "dec_window_count s = 0" "dec_state s = DEC_VCHEAD" "\<not> encoding s" "data_sect s = empty_desect" "inst_sect s = empty_desect" "addr_sect s = empty_desect"
    "dec_winbytes s = 0" "dec_current1 s = empty_hinst" "dec_current2 s = empty_hinst" "space_out s = 0" "avail_out s = 0" "src s = Some x" "getblk s = None"
    "flags s = dfl"
    by (simp_all add: s decoder_stream_def)
  obtain m1 c n1 h mg sA where A: "state_VCHEAD s = state_WININD sA" "mem_ok m1" "xd3_init_cache c = fresh_cache"
    "sA = s\<lparr>mem := m1, total_in := n1, next_in := indicator used ad # (if used then emit_uint64 l @ emit_uint64 p else [])
      @ emit_uint64 (window_enc_len u) @ emit_uint64 (avail_in u) @ [0] @ emit_uint64 dl @ emit_uint64 il @ emit_uint64 rl @ al @ dat @ ins @ adr,
      dec_magic := mg, dec_hdr_ind := 0, acache := c, code_table := xd3_rfc3284_code_table, dec_hdrsize := h, dec_state := DEC_WININD\<rparr>"
    using state_VCHEAD_read [of s] s0(1-4) hd m by blast
  have ov: "\<not> XOFF_T_OVERFLOW p l" "\<not> USIZE_T_OVERFLOW l (avail_in u)" "avail_in u \<le> XD3_HARDMAXWINSIZE"
    using ws(1) lS av inp(2) not_overflow [of p l] not_overflow [of l "avail_in u"]
    by (simp_all add: XOFF_T_OVERFLOW_def USIZE_T_OVERFLOW_def XD3_HARDMAXWINSIZE_def word_le_nat_alt)
  let ?R = "emit_uint64 (window_enc_len u) @ emit_uint64 (avail_in u) @ [0] @ emit_uint64 dl @ emit_uint64 il @ emit_uint64 rl @ al @ dat @ ins @ adr"
  have nA: "next_in sA = indicator used ad # (if used then emit_uint64 l @ emit_uint64 p else []) @ ?R" "dec_64part sA = 0" "dec_winstart sA = 0"
    "dec_tgtlen sA = 0" using s0 by (simp_all add: A(4))
  have lp': "(if used then l else 0) = l" "(if used then p else 0) = p" using ws(2) by auto
  obtain n2 sB where B: "state_WININD sA = state_ENCLEN sB" 
    "sB = sA\<lparr>total_in := n2, next_in := ?R, dec_win_ind := ucast (indicator used ad),
     current_window := dec_window_count sA, dec_winstart := 0, dec_cpylen := l, dec_cpyoff := p,
     dec_cksum := [], acache := xd3_init_cache (acache sA), dec_position := l, dec_state := DEC_ENCLEN\<rparr>"
    using state_WININD_read [OF nA ov(1)] unfolding lp' by blast
  have nB: "next_in sB = ?R" "dec_64part sB = 0" "\<not> USIZE_T_OVERFLOW (dec_cpylen sB) (avail_in u)"
    using nA ov by (simp_all add: B(2))
  obtain n3 sC where C: "state_ENCLEN sB = state_CKSUM sC" 
    "sC = (section_sizes dl il rl sB)\<lparr>total_in := n3, next_in := al @ dat @ ins @ adr, dec_enclen := window_enc_len u, dec_tgtlen := avail_in u,
     dec_maxpos := dec_cpylen sB + avail_in u, dec_del_ind := 0, dec_state := DEC_CKSUM\<rparr>"
    using state_ENCLEN_read [OF nB ov(3)] by blast
  have nC: "next_in sC = (if ad then adler_bytes (adler32 1 inp) else []) @ dat @ ins @ adr" "dec_win_ind sC AND VCD_ADLER32 \<noteq> 0 \<longleftrightarrow> ad"
    "dec_cksum sC = []" using indicator_bits(4) [of used ad] by (simp_all add: C(2) section_sizes_def B(2) al_def)
  have eC: "dec_enclen sC = enclen_check sC"
    using enclen_agree [of sC u] nC(2) by (simp add: C(2) section_sizes_def dl_def il_def rl_def ad_def)
  obtain n4 ck sD where Dd: "state_CKSUM sC = (Some (if current_window sC = 0 then XD3_GOTHEADER else XD3_WINSTART), sD)"
    "sD = sC\<lparr>total_in := n4, next_in := dat @ ins @ adr, dec_cksum := ck, dec_adler32 := (if ad then adler32 1 inp else dec_adler32 sC), dec_state := DEC_DATA\<rparr>"
    using state_CKSUM_read [OF nC eC] by blast
  have cw: "current_window sC = 0" using s0 by (simp add: C(2) section_sizes_def B(2) A(4))
  have go: "xd3_decode_input s = Some (Some XD3_GOTHEADER, sD)"
    using A(1) B(1) C(1) Dd(1) cw s0 by (simp add: xd3_decode_input_def)
  have "at_data S x used ad l p dat ins adr inp sD"
    using s0 A(2,3) szs av flags_or_flush dfl
    by (simp add: at_data_def Dd(2) C(2) section_sizes_def B(2) A(4) empty_desect_def empty_hinst_def)
  from decode_loop_window [OF go refl this x ws(1,2) inp szs(4) v om] show ?thesis .
qed

lemma config_decoder_ok:
  assumes "config_secondary fl"
  shows "config_decoder (zero_config fl) m = Inr (decoder_stream m fl None None)"
proof -
  obtain sm where "config_smatcher (zero_config fl) = Inr sm"
    using config_smatcher_default [of "zero_config fl"] by (auto simp: zero_config_def)
  moreover have "xd3_check_pow2 XD3_DEFAULT_SPREVSZ = (None, of_nat 18)"
    using check_pow2_pow2 [of 18] by (simp add: XD3_DEFAULT_SPREVSZ_def)
  ultimately show ?thesis using assms by (simp add: config_decoder_def xd3_config_stream_def) (simp add: zero_config_def)
qed

lemma decode_memory_encoded:
  assumes u: "encodes S inp fl u" and inp: "inp \<noteq> []" "length inp \<le> 2 ^ 23" and S: "length S \<le> 2 ^ 31" and fl: "fl AND XD3_ADLER32_RECODE = 0"
    and D: "D = page_bytes (all_pages u)" "length D \<le> 2 ^ 23" and m: "mem_ok m"
    and dfl: "dfl AND XD3_JUST_HDR = 0" "dfl AND XD3_SKIP_WINDOW = 0" "dfl AND XD3_SKIP_EMIT = 0" "config_secondary dfl"
    and om: "length inp \<le> unat omax"
  shows "xd3_decode_memory m D (Some S) omax dfl = Some (None, inp)"
proof -
  obtain x where x: "memory_set_source (Some S) = Some (Some x)" "memory_src S x" using memory_source_ok [OF S] by metis
  define s where "s = (decoder_stream m (dfl OR XD3_FLUSH) (Some x) None)\<lparr>next_in := D\<rparr>"
  have "length D < 2 ^ 63" using D(2) by simp
  from decode_encoded [OF u inp S fl D(1) this x(2) m flags_or_flush [OF dfl(1-3)] om s_def, of XD3_DEFAULT_WINSIZE]
  obtain t where t: "decode_loop XD3_DEFAULT_WINSIZE omax [] [] s = Some (None, inp, t)" "decode_close_stream t = None" by blast
  have eq: "xd3_avail_input D ((decoder_stream m dfl None None)\<lparr>src := Some x, flags := dfl OR XD3_FLUSH\<rparr>) = s"
    by (simp add: s_def decoder_stream_def xd3_avail_input_def)
  have "unat XD3_DEFAULT_WINSIZE = 2 ^ 23" by (simp add: XD3_DEFAULT_WINSIZE_def)
  then have mn: "min (unat XD3_DEFAULT_WINSIZE) (length D) = length D" using D(2) by simp
  have "flags ((decoder_stream m dfl None None)\<lparr>src := Some x\<rparr>) = dfl" by (simp add: decoder_stream_def)
  then show ?thesis using x(1) t config_decoder_ok [OF dfl(4), of m] eq mn
    by (simp add: xd3_decode_memory_def xd3_decode_stream_def xd3_process_stream_def Let_def)
qed

end
