(* ===== verification/Xd3_DecodeTotal.thy ===== *)
theory Xd3_DecodeTotal
  imports Xd3_DecodeMemory
begin

section \<open>Decoding ends on every input\<close>

text \<open>
  Whatever bytes the decoder is given, the loop of \<open>xd3_process_stream\<close> ends. Every call of
  \<open>xd3_decode_input\<close> that lets the loop go on takes input or moves the state machine forward, counted so
  that \<open>DEC_WININD\<close> is last; the emit loop in between reads no input.
\<close>

subsection \<open>The emit loop reads no input\<close>

definition stops :: "xd3_ret \<Rightarrow> bool" where
  "stops r \<longleftrightarrow> (\<forall>e. r = Some e \<longrightarrow> e \<notin> {XD3_INPUT, XD3_OUTPUT, XD3_GOTHEADER, XD3_WINSTART, XD3_WINFINISH})"

lemma stops_simps [simp]:
  "stops None" "stops (Some XD3_INVALID_INPUT)" "stops (Some XD3_INTERNAL)" "stops (Some XD3_UNIMPLEMENTED)" "stops (Some XD3_GETSRCBLK)"
  "stops (Some ENOMEM)"
  by (simp_all add: stops_def)

definition quiet :: "xd3_ret \<Rightarrow> xd3_dstream \<Rightarrow> xd3_dstream \<Rightarrow> bool" where
  "quiet r s t \<longleftrightarrow> getblk s = None \<longrightarrow> stops r \<and> getblk t = None \<and> next_in t = next_in s \<and> dec_state t = dec_state s"

lemma quiet_trans: "quiet None s t \<Longrightarrow> quiet r t u \<Longrightarrow> quiet r s u"
  by (simp add: quiet_def)

lemma output_halfinst_quiet:
  assumes "xd3_decode_output_halfinst inst s = Some (r, inst', t)"
  shows "quiet r s t"
proof -
  have w: "getblk t = getblk s \<and> next_in t = next_in s \<and> dec_state t = dec_state s" if "write_out bs s = Some t" for bs s t
    using that by (auto simp: write_out_def split: if_splits)
  have g: "r = None \<or> r = Some XD3_GETSRCBLK" if "xd3_getblk None b x = (r, x')" for b x r x'
    using that by (auto simp: xd3_getblk_def Let_def split: if_splits)
  have 1: "quiet r s t" if "output_run inst s = Some (r, inst', t)"
    using that w by (auto simp: quiet_def output_run_def split: list.splits option.splits dest: w)
  have 2: "quiet r s t" if "output_add inst s = Some (r, inst', t)"
    using that by (auto simp: quiet_def output_add_def Let_def split: if_splits option.splits dest: w)
  have 3: "quiet r s t" if "output_target_copy inst s = Some (r, inst', t)"
    using that by (auto simp: quiet_def output_target_copy_def split: if_splits option.splits)
  have 4: "quiet r s t" if "output_source_copy inst s = Some (r, inst', t)"
    unfolding quiet_def
  proof
    assume n: "getblk s = None"
    show "stops r \<and> getblk t = None \<and> next_in t = next_in s \<and> dec_state t = dec_state s"
      using that n by (auto simp: output_source_copy_def Let_def split: option.splits prod.splits if_splits dest!: w g)
  qed
  show ?thesis using assms 1 2 3 4 by (auto simp: xd3_decode_output_halfinst_def quiet_def split: if_splits)
qed

lemma quiet_upd [simp]: "quiet r s (t\<lparr>dec_current1 := x\<rparr>) = quiet r s t" "quiet r s (t\<lparr>dec_current2 := x\<rparr>) = quiet r s t"
  by (simp_all add: quiet_def)

lemma output_loop1_quiet: "output_loop1 s = Some (r, t) \<Longrightarrow> quiet r s t"
proof -
  have "quiet (fst x) s (snd x)" if e: "output_loop1 s = Some x" for x
  proof (rule output_loop1.raw_induct [where P = "\<lambda>s x. quiet (fst x) s (snd x)", OF _ e], goal_cases)
    case (1 f s x)
    show ?case
    proof (cases "htype (dec_current1 s) \<noteq> XD3_NOOP")
      case True
      then obtain q i u where h: "xd3_decode_output_halfinst (dec_current1 s) s = Some (q, i, u)"
        "(case q of None \<Rightarrow> f (u\<lparr>dec_current1 := i\<rparr>) | Some e \<Rightarrow> Some (Some e, u\<lparr>dec_current1 := i\<rparr>)) = Some x"
        using 1(2) by (auto simp: bind_eq_Some_conv)
      note q = output_halfinst_quiet [OF h(1)]
      show ?thesis
      proof (cases q)
        case None
        then have "quiet (fst x) (u\<lparr>dec_current1 := i\<rparr>) (snd x)" using 1(1) h(2) by simp
        moreover have "quiet None s (u\<lparr>dec_current1 := i\<rparr>)" using q None by simp
        ultimately show ?thesis by (rule quiet_trans [rotated])
      qed (use h(2) q in auto)
    qed (use 1(2) in \<open>auto simp: quiet_def\<close>)
  qed
  then show "output_loop1 s = Some (r, t) \<Longrightarrow> quiet r s t" by fastforce
qed

lemma output_loop2_quiet: "output_loop2 s = Some (r, t) \<Longrightarrow> quiet r s t"
proof -
  have "quiet (fst x) s (snd x)" if e: "output_loop2 s = Some x" for x
  proof (rule output_loop2.raw_induct [where P = "\<lambda>s x. quiet (fst x) s (snd x)", OF _ e], goal_cases)
    case (1 f s x)
    show ?case
    proof (cases "htype (dec_current2 s) \<noteq> XD3_NOOP")
      case True
      then obtain q i u where h: "xd3_decode_output_halfinst (dec_current2 s) s = Some (q, i, u)"
        "(case q of None \<Rightarrow> f (u\<lparr>dec_current2 := i\<rparr>) | Some e \<Rightarrow> Some (Some e, u\<lparr>dec_current2 := i\<rparr>)) = Some x"
        using 1(2) by (auto simp: bind_eq_Some_conv)
      note q = output_halfinst_quiet [OF h(1)]
      show ?thesis
      proof (cases q)
        case None
        then have "quiet (fst x) (u\<lparr>dec_current2 := i\<rparr>) (snd x)" using 1(1) h(2) by simp
        moreover have "quiet None s (u\<lparr>dec_current2 := i\<rparr>)" using q None by simp
        ultimately show ?thesis by (rule quiet_trans [rotated])
      qed (use h(2) q in auto)
    qed (use 1(2) in \<open>auto simp: quiet_def\<close>)
  qed
  then show "output_loop2 s = Some (r, t) \<Longrightarrow> quiet r s t" by fastforce
qed

lemma read_integer_code: "read_integer_loop v b = Inl e \<Longrightarrow> e = XD3_INVALID_INPUT"
  by (induction v b rule: read_integer_loop.induct) (auto simp: Let_def split: if_splits)

lemma parse_halfinst_quiet: "xd3_decode_parse_halfinst inst s = (r, inst', t) \<Longrightarrow> quiet r s t"
proof -
  have a: "e = XD3_INVALID_INPUT" if "xd3_decode_address h m c b = Inl e" for h m c b e
    using that by (auto simp: xd3_decode_address_def xd3_read_uint64_t_def Let_def split: if_splits sum.splits list.splits prod.splits
      dest: read_integer_code)
  have 1: "quiet None v u" if "parse_size j v = Inr (i, u)" for i u j v
    using that by (auto simp: parse_size_def quiet_def split: if_splits sum.splits)
  have p1: "quiet (Some e) v v" if "parse_size j v = Inl e" for e j v
    using that by (auto simp: parse_size_def quiet_def split: if_splits sum.splits)
  have 2: "quiet None v u" if "parse_address j v = Inr (i, u)" for i u j v
    using that by (auto simp: parse_address_def quiet_def split: if_splits sum.splits)
  have p2: "quiet (Some e) v v" if "parse_address j v = Inl e" for e j v
    using that by (auto simp: parse_address_def quiet_def split: if_splits sum.splits dest: a)
  assume "xd3_decode_parse_halfinst inst s = (r, inst', t)"
  then show ?thesis
    by (auto simp: xd3_decode_parse_halfinst_def split: sum.splits prod.splits if_splits dest!: 1 p1 2 p2)
      (auto simp: quiet_def)
qed

lemma next_instruction_quiet: "next_instruction s = (r, t) \<Longrightarrow> quiet r s t"
proof -
  have p1: "quiet q u v" if "parse_current1 u = (q, v)" for q u v
    using that by (auto simp: parse_current1_def split: if_splits prod.splits dest!: parse_halfinst_quiet) (simp add: quiet_def)
  have p2: "quiet q u v" if "parse_current2 u = (q, v)" for q u v
    using that by (auto simp: parse_current2_def split: if_splits prod.splits dest!: parse_halfinst_quiet) (simp add: quiet_def)
  have p: "quiet q u v" if "seqr parse_current1 parse_current2 u = (q, v)" for q u v
    using that by (auto simp: seqr_def split: prod.splits option.splits dest!: p1 p2 intro: quiet_trans)
  have x: "quiet q (s\<lparr>inst_sect := i, dec_current1 := a, dec_current2 := b\<rparr>) v = quiet q s v" for q v i a b
    by (simp add: quiet_def)
  have d: "quiet r s t" if "xd3_decode_instruction s = (r, t)"
    using that by (auto simp: xd3_decode_instruction_def Let_def split: list.splits dest!: p) (simp_all add: quiet_def)
  assume "next_instruction s = (r, t)"
  then show ?thesis using d by (auto simp: next_instruction_def quiet_def split: if_splits)
qed

lemma emit_loop_quiet: "emit_loop s = Some (r, t) \<Longrightarrow> quiet r s t"
proof -
  have "quiet (fst x) s (snd x)" if e: "emit_loop s = Some x" for x
  proof (rule emit_loop.raw_induct [where P = "\<lambda>s x. quiet (fst x) s (snd x)", OF _ e], goal_cases)
    case (1 f s x)
    show ?case
    proof (cases "more_instructions s")
      case True
      obtain q1 s1 where n: "next_instruction s = (q1, s1)" by force
      note nq = next_instruction_quiet [OF n]
      show ?thesis
      proof (cases q1)
        case None
        then obtain q2 s2 where o1: "output_loop1 s1 = Some (q2, s2)"
          "(case q2 of Some e \<Rightarrow> Some (Some e, s2) | None \<Rightarrow> Option.bind (output_loop2 s2) (\<lambda>(r3, s3). case r3 of
                  Some e \<Rightarrow> Some (Some e, s3) | None \<Rightarrow> f s3)) = Some x"
          using 1(2) True n by (auto simp: bind_eq_Some_conv)
        have q2: "quiet q2 s s2" using quiet_trans output_loop1_quiet [OF o1(1)] nq None by blast
        show ?thesis
        proof (cases q2)
          case None
          then obtain q3 s3 where o2: "output_loop2 s2 = Some (q3, s3)"
            "(case q3 of Some e \<Rightarrow> Some (Some e, s3) | None \<Rightarrow> f s3) = Some x"
            using o1(2) by (auto simp: bind_eq_Some_conv)
          have q3: "quiet q3 s s3" using quiet_trans output_loop2_quiet [OF o2(1)] q2 None by blast
          show ?thesis
          proof (cases q3)
            case None
            then have "quiet (fst x) s3 (snd x)" using 1(1) o2(2) by simp
            then show ?thesis using quiet_trans q3 None by blast
          qed (use o2(2) q3 in auto)
        qed (use o1(2) q2 in auto)
      qed (use 1(2) True n nq in auto)
    qed (use 1(2) in \<open>auto simp: quiet_def\<close>)
  qed
  then show "emit_loop s = Some (r, t) \<Longrightarrow> quiet r s t" by fastforce
qed

subsection \<open>Every call makes progress\<close>

text \<open>The states in the order in which a window passes them, with \<open>DEC_WININD\<close> last: from there the next
  window starts with a byte of input.\<close>

definition rank :: "xd3_decode_state \<Rightarrow> nat" where
  "rank st = (if st = DEC_WININD then 0 else 25 - dec_num st)"

definition nleft :: "xd3_dstream \<Rightarrow> nat" where
  "nleft s = length (next_in s)"

definition step_le :: "xd3_dstream \<Rightarrow> xd3_dstream \<Rightarrow> bool" where
  "step_le s t \<longleftrightarrow> nleft t < nleft s \<or> nleft t = nleft s \<and> rank (dec_state t) \<le> rank (dec_state s)"

definition step_lt :: "xd3_dstream \<Rightarrow> xd3_dstream \<Rightarrow> bool" where
  "step_lt s t \<longleftrightarrow> nleft t < nleft s \<or> nleft t = nleft s \<and> rank (dec_state t) < rank (dec_state s)"

definition outcome :: "xd3_ret \<Rightarrow> xd3_dstream \<Rightarrow> xd3_dstream \<Rightarrow> bool" where
  "outcome r s t \<longleftrightarrow> getblk t = getblk s \<and> nleft t \<le> nleft s
     \<and> (r = Some XD3_INPUT \<longrightarrow> step_le s t) \<and> (\<not> stops r \<longrightarrow> r \<noteq> Some XD3_INPUT \<longrightarrow> step_lt s t)"

definition advances :: "xd3_decode_state \<Rightarrow> dec_step \<Rightarrow> bool" where
  "advances X f \<longleftrightarrow> (\<forall>s r t. dec_state s = X \<longrightarrow> getblk s = None \<longrightarrow> f s = (r, t) \<longrightarrow> outcome r s t)"

text \<open>A step on the way from one state to another.\<close>

definition passes :: "xd3_decode_state \<Rightarrow> dec_step \<Rightarrow> xd3_decode_state \<Rightarrow> bool" where
  "passes X f Y \<longleftrightarrow> (\<forall>s r t. dec_state s = X \<longrightarrow> f s = (r, t) \<longrightarrow> getblk t = getblk s \<and> nleft t \<le> nleft s
     \<and> (case r of None \<Rightarrow> dec_state t = Y | Some e \<Rightarrow> stops (Some e) \<or> e = XD3_INPUT \<and> rank (dec_state t) \<le> rank X))"

lemma passesD:
  assumes "passes X f Y" "dec_state s = X" "f s = (r, t)"
  shows "getblk t = getblk s" "nleft t \<le> nleft s" "r = None \<Longrightarrow> dec_state t = Y" "r \<noteq> None \<Longrightarrow> stops r \<or> r = Some XD3_INPUT \<and> rank (dec_state t) \<le> rank X"
  using assms by (auto simp: passes_def split: option.splits)

lemma advances_seqr:
  assumes f: "passes X f Y" and g: "advances Y g" and r: "rank Y \<le> rank X"
  shows "advances X (seqr f g)"
  unfolding advances_def
proof (intro allI impI)
  fix s r t assume s: "dec_state s = X" "getblk s = None" "seqr f g s = (r, t)"
  obtain q u where u: "f s = (q, u)" by force
  note p = passesD [OF f s(1) u]
  show "outcome r s t"
  proof (cases q)
    case None
    then have "outcome r u t" using s u g p(1,3) by (simp add: seqr_def advances_def)
    then show ?thesis using p(1-3) None r s(1) by (auto simp: outcome_def step_le_def step_lt_def)
  next
    case (Some e)
    then have "r = q" "t = u" using s(3) u by (auto simp: seqr_def)
    then show ?thesis using p Some s(1) by (auto simp: outcome_def step_le_def stops_def)
  qed
qed

lemma passes_seqr:
  assumes f: "passes X f Y" and g: "passes Y g Z" and r: "rank Y \<le> rank X"
  shows "passes X (seqr f g) Z"
  unfolding passes_def
proof (intro allI impI)
  fix s r t assume s: "dec_state s = X" "seqr f g s = (r, t)"
  obtain q u where u: "f s = (q, u)" by force
  note p = passesD [OF f s(1) u]
  show "getblk t = getblk s \<and> nleft t \<le> nleft s
     \<and> (case r of None \<Rightarrow> dec_state t = Z | Some e \<Rightarrow> stops (Some e) \<or> e = XD3_INPUT \<and> rank (dec_state t) \<le> rank X)"
  proof (cases q)
    case None
    then have u': "dec_state u = Y" "g u = (r, t)" using p(3) s(2) u by (simp_all add: seqr_def)
    from passesD [OF g u'] show ?thesis using p assms(3) by (auto split: option.splits)
  next
    case (Some e)
    then have "r = q" "t = u" using s(2) u by (auto simp: seqr_def)
    then show ?thesis using p Some by auto
  qed
qed

lemma passes_fail_if: "stops (Some e) \<Longrightarrow> passes X (fail_if b e) X"
  by (simp add: passes_def fail_if_def)

lemma passes_modify: "(\<And>s. dec_state (f s) = dec_state s \<and> next_in (f s) = next_in s \<and> getblk (f s) = getblk s) \<Longrightarrow> passes X (modify f) X"
  by (simp add: passes_def modify_def nleft_def)

lemma passes_goto: "passes X (goto Y) Y"
  by (simp add: passes_def goto_def nleft_def)

lemma passes_if: "passes X f Y \<Longrightarrow> passes X g Y \<Longrightarrow> passes X (\<lambda>s. if c s then f s else g s) Y"
  by (simp add: passes_def)

lemma passes_ret: "passes X (\<lambda>s. (None, s)) X"
  by (simp add: passes_def)

definition plain_store :: "('v \<Rightarrow> xd3_dstream \<Rightarrow> xd3_dstream) \<Rightarrow> bool" where
  "plain_store st \<longleftrightarrow> (\<forall>v s. dec_state (st v s) = dec_state s \<and> next_in (st v s) = next_in s \<and> getblk (st v s) = getblk s)"

lemma passes_byte: "plain_store st \<Longrightarrow> passes X (xd3_decode_byte st) X"
  by (auto simp: passes_def xd3_decode_byte_def decode_input_advance_def nleft_def plain_store_def split: list.splits)

lemma passes_bytes: "plain_store st \<Longrightarrow> passes X (xd3_decode_bytes g st n) X"
  by (auto simp: passes_def xd3_decode_bytes_def decode_input_advance_def nleft_def plain_store_def Let_def split: if_splits)

lemma decode_uint64_codes: "xd3_decode_uint64_t p b = (r, p', v, rest) \<Longrightarrow> r = None \<or> r = Some XD3_INPUT \<or> r = Some XD3_INVALID_INPUT"
  by (induction p b rule: xd3_decode_uint64_t.induct) (auto simp: Let_def split: if_splits)

lemma passes_size: "plain_store st \<Longrightarrow> passes X (xd3_decode_size st) X"
  unfolding passes_def
proof (intro allI impI)
  fix s r t assume st: "plain_store st" and s: "dec_state s = X" "xd3_decode_size st s = (r, t)"
  obtain p v rest where d: "xd3_decode_uint64_t (dec_64part s) (next_in s) = (r, p, v, rest)"
    using s(2) by (auto simp: xd3_decode_size_def Let_def split: prod.splits)
  define s' where "s' = decode_input_advance (length (next_in s) - length rest) (s\<lparr>dec_64part := p\<rparr>)"
  have t: "t = (case v of None \<Rightarrow> s' | Some x \<Rightarrow> st x s')"
    unfolding s'_def using s(2) d by (simp add: xd3_decode_size_def Let_def)
  have s': "dec_state s' = X" "getblk s' = getblk s" "nleft s' \<le> nleft s" using s(1) by (simp_all add: s'_def decode_input_advance_def nleft_def)
  have "dec_state t = X" "getblk t = getblk s" "nleft t \<le> nleft s" using t s' st by (auto simp: plain_store_def nleft_def split: option.splits)
  then show "getblk t = getblk s \<and> nleft t \<le> nleft s
     \<and> (case r of None \<Rightarrow> dec_state t = X | Some e \<Rightarrow> stops (Some e) \<or> e = XD3_INPUT \<and> rank (dec_state t) \<le> rank X)"
    using decode_uint64_codes [OF d] by (auto split: option.splits)
qed

lemma passes_SIZE_CASE: "plain_store st \<Longrightarrow> passes X (SIZE_CASE c st Y) Y"
  unfolding SIZE_CASE_def by (intro passes_seqr [of _ _ X] passes_if passes_size passes_ret passes_goto order.refl)

lemma passes_BYTE_CASE: "plain_store st \<Longrightarrow> passes X (BYTE_CASE c st Y) Y"
  unfolding BYTE_CASE_def by (intro passes_seqr [of _ _ X] passes_if passes_byte passes_ret passes_goto order.refl)

lemma plain_stores [simp]:
  "plain_store (\<lambda>v. addr_sect_update (ssize_update (\<lambda>_. v)))" "plain_store (\<lambda>v. inst_sect_update (ssize_update (\<lambda>_. v)))"
  "plain_store (\<lambda>v. data_sect_update (ssize_update (\<lambda>_. v)))" "plain_store (\<lambda>v. dec_del_ind_update (\<lambda>_. v))"
  "plain_store (\<lambda>v. dec_tgtlen_update (\<lambda>_. v))" "plain_store (\<lambda>v. dec_enclen_update (\<lambda>_. v))"
  "plain_store (\<lambda>v. dec_cpyoff_update (\<lambda>_. v))" "plain_store (\<lambda>v. dec_cpylen_update (\<lambda>_. v))"
  "plain_store (\<lambda>v. dec_win_ind_update (\<lambda>_. v))" "plain_store (\<lambda>v. dec_appheader_update (\<lambda>_. Some v))"
  "plain_store (\<lambda>v. dec_appheadsz_update (\<lambda>_. v))" "plain_store (\<lambda>v. acache_update (s_same_update (\<lambda>_. v)))"
  "plain_store (\<lambda>v. acache_update (s_near_update (\<lambda>_. v)))" "plain_store (\<lambda>v. dec_codetblsz_update (\<lambda>_. v))"
  "plain_store (\<lambda>v. dec_secondid_update (\<lambda>_. v))" "plain_store (\<lambda>v. dec_hdr_ind_update (\<lambda>_. v))"
  "plain_store (\<lambda>v. dec_magic_update (\<lambda>_. v))" "plain_store (\<lambda>v. dec_cksum_update (\<lambda>_. v))"
  by (simp_all add: plain_store_def)

lemma ranks [simp]:
  "rank DEC_VCHEAD = 25" "rank DEC_HDRIND = 24" "rank DEC_SECONDID = 23" "rank DEC_TABLEN = 22" "rank DEC_NEAR = 21" "rank DEC_SAME = 20"
  "rank DEC_TABDAT = 19" "rank DEC_APPLEN = 18" "rank DEC_APPDAT = 17" "rank DEC_WININD = 0" "rank DEC_CPYLEN = 15" "rank DEC_CPYOFF = 14"
  "rank DEC_ENCLEN = 13" "rank DEC_TGTLEN = 12" "rank DEC_DELIND = 11" "rank DEC_DATALEN = 10" "rank DEC_INSTLEN = 9" "rank DEC_ADDRLEN = 8"
  "rank DEC_CKSUM = 7" "rank DEC_DATA = 6" "rank DEC_INST = 5" "rank DEC_ADDR = 4" "rank DEC_EMIT = 3" "rank DEC_FINISH = 2" "rank DEC_ABORTED = 1"
  by (simp_all add: rank_def)

lemma advances_CKSUM: "advances DEC_CKSUM state_CKSUM"
proof -
  have a: "passes DEC_CKSUM (\<lambda>s. if dec_win_ind s AND VCD_ADLER32 \<noteq> 0 then
        seqr (xd3_decode_bytes dec_cksum (\<lambda>v. dec_cksum_update (\<lambda>_. v)) 4)
             (modify (\<lambda>s. s\<lparr>dec_adler32 := adler32_of_bytes (dec_adler32 s) (dec_cksum s)\<rparr>)) s
      else (None, s)) DEC_CKSUM"
    by (intro passes_if passes_seqr [of _ _ DEC_CKSUM] passes_bytes passes_modify passes_ret) simp_all
  have g: "passes DEC_CKSUM (goto DEC_DATA) DEC_DATA" by (rule passes_goto)
  have f: "passes DEC_DATA (fail_if (\<lambda>s. dec_enclen s \<noteq> enclen_check s) XD3_INVALID_INPUT) DEC_DATA" by (rule passes_fail_if) simp
  show ?thesis unfolding advances_def
  proof (intro allI impI)
    fix s r t assume s: "dec_state s = DEC_CKSUM" "getblk s = None" "state_CKSUM s = (r, t)"
    obtain q1 s1 where 1: "(if dec_win_ind s AND VCD_ADLER32 \<noteq> 0 then
        seqr (xd3_decode_bytes dec_cksum (\<lambda>v. dec_cksum_update (\<lambda>_. v)) 4)
             (modify (\<lambda>s. s\<lparr>dec_adler32 := adler32_of_bytes (dec_adler32 s) (dec_cksum s)\<rparr>)) s
      else (None, s)) = (q1, s1)" by force
    note p = passesD [OF a s(1) 1]
    show "outcome r s t"
    proof (cases q1)
      case None
      then have r: "(if dec_enclen s1 \<noteq> enclen_check (s1\<lparr>dec_state := DEC_DATA\<rparr>) then (Some XD3_INVALID_INPUT, s1\<lparr>dec_state := DEC_DATA\<rparr>)
         else (Some (if current_window s1 = 0 then XD3_GOTHEADER else XD3_WINSTART), s1\<lparr>dec_state := DEC_DATA\<rparr>)) = (r, t)"
        using s(3) 1 by (simp add: state_CKSUM_def seqr_def goto_def fail_if_def split: if_splits)
      have "t = s1\<lparr>dec_state := DEC_DATA\<rparr>" "r \<noteq> Some XD3_INPUT" using r by (auto split: if_splits)
      moreover have "nleft t = nleft s1" using \<open>t = _\<close> by (simp add: nleft_def)
      ultimately show ?thesis using p(1-3) None s(1) by (auto simp: outcome_def step_lt_def)
    next
      case (Some e)
      have "state_CKSUM s = (q1, s1)" using 1 Some by (simp add: state_CKSUM_def seqr_def)
      then have "r = q1" "t = s1" using s(3) by auto
      then show ?thesis using p Some s(1) by (auto simp: outcome_def step_le_def stops_def)
    qed
  qed
qed

lemma advances_lengths:
  "advances DEC_ADDRLEN state_ADDRLEN" "advances DEC_INSTLEN state_INSTLEN" "advances DEC_DATALEN state_DATALEN"
  "advances DEC_DELIND state_DELIND" "advances DEC_TGTLEN state_TGTLEN" "advances DEC_ENCLEN state_ENCLEN"
  "advances DEC_CPYOFF state_CPYOFF" "advances DEC_CPYLEN state_CPYLEN"
proof -
  show a: "advances DEC_ADDRLEN state_ADDRLEN" unfolding state_ADDRLEN_def
    by (rule advances_seqr [OF passes_SIZE_CASE advances_CKSUM]) simp_all
  show b: "advances DEC_INSTLEN state_INSTLEN" unfolding state_INSTLEN_def
    by (rule advances_seqr [OF passes_SIZE_CASE a]) simp_all
  show c: "advances DEC_DATALEN state_DATALEN" unfolding state_DATALEN_def
    by (rule advances_seqr [OF passes_SIZE_CASE b]) simp_all
  show d: "advances DEC_DELIND state_DELIND" unfolding state_DELIND_def
    by (rule advances_seqr [OF passes_BYTE_CASE], simp, rule advances_seqr [OF passes_fail_if], simp,
      rule advances_seqr [OF passes_fail_if c]) simp_all
  show e: "advances DEC_TGTLEN state_TGTLEN" unfolding state_TGTLEN_def
    by (rule advances_seqr [OF passes_SIZE_CASE], simp, rule advances_seqr [OF passes_fail_if], simp,
      rule advances_seqr [OF passes_fail_if], simp, rule advances_seqr [OF passes_modify d]) simp_all
  show f: "advances DEC_ENCLEN state_ENCLEN" unfolding state_ENCLEN_def
    by (rule advances_seqr [OF passes_SIZE_CASE e]) simp_all
  show g: "advances DEC_CPYOFF state_CPYOFF" unfolding state_CPYOFF_def
    by (rule advances_seqr [OF passes_SIZE_CASE], simp, rule advances_seqr [OF passes_fail_if], simp,
      rule advances_seqr [OF passes_fail_if f]) simp_all
  show "advances DEC_CPYLEN state_CPYLEN" unfolding state_CPYLEN_def
    by (rule advances_seqr [OF passes_SIZE_CASE], simp, rule advances_seqr [OF passes_modify g]) simp_all
qed

lemma advances_any:
  assumes "\<And>s r t. dec_state s = X \<Longrightarrow> getblk s = None \<Longrightarrow> f s = (r, t) \<Longrightarrow> outcome r s t"
  shows "advances X f"
  using assms by (simp add: advances_def)

lemma outcome_shorter:
  assumes "outcome r u t" "getblk u = getblk s" "nleft u < nleft s"
  shows "outcome r s t"
  using assms by (auto simp: outcome_def step_le_def step_lt_def)

lemma advances_WININD: "advances DEC_WININD state_WININD"
proof (rule advances_any)
  fix s r t assume s: "dec_state s = DEC_WININD" "getblk s = None" "state_WININD s = (r, t)"
  show "outcome r s t"
  proof (cases "next_in s")
    case Nil
    then show ?thesis using s by (auto simp: state_WININD_def seqr_def xd3_decode_byte_def outcome_def step_le_def)
  next
    case (Cons b rest)
    define u where "u = decode_input_advance 1 (s\<lparr>dec_win_ind := ucast b\<rparr>)"
    define v where "v = u\<lparr>current_window := dec_window_count u, dec_winstart := dec_winstart u + dec_tgtlen u\<rparr>"
    define w where "w = (snd (xd3_decode_init_window v))\<lparr>dec_state := DEC_CPYLEN\<rparr>"
    have u: "nleft u < nleft s" "getblk u = None" using Cons s(2) by (simp_all add: u_def decode_input_advance_def nleft_def)
    have v: "nleft v = nleft u" "getblk v = None" using u by (simp_all add: v_def nleft_def)
    have w: "dec_state w = DEC_CPYLEN" "getblk w = None" "nleft w = nleft u" using v by (simp_all add: w_def xd3_decode_init_window_def nleft_def)
    have xb: "xd3_decode_byte (\<lambda>v. dec_win_ind_update (\<lambda>_. v)) s = (None, u)" using Cons by (simp add: xd3_decode_byte_def u_def)
    have r: "r = Some XD3_INVALID_INPUT \<and> nleft t = nleft u \<and> getblk t = None \<or> state_CPYLEN w = (r, t)"
      using s(3) u(2) by (auto simp: state_WININD_def seqr_def xb modify_def fail_if_def xd3_decode_init_window_def goto_def
        w_def v_def nleft_def split: if_splits)
    show ?thesis
    proof (cases "state_CPYLEN w = (r, t)")
      case True
      then have "outcome r w t" using advances_lengths(8) w by (simp add: advances_def)
      then show ?thesis using outcome_shorter [of r w t s] w u s(2) by simp
    next
      case False
      then show ?thesis using r u s(2) by (auto simp: outcome_def step_le_def)
    qed
  qed
qed

lemma passes_cong: "(\<And>s. dec_state s = X \<Longrightarrow> f s = g s) \<Longrightarrow> passes X g Y \<Longrightarrow> passes X f Y"
  by (simp add: passes_def)

lemma passes_dep: "(\<And>x. passes X (f x) Y) \<Longrightarrow> passes X (\<lambda>s. f (h s) s) Y"
  by (simp add: passes_def)

lemma advances_header:
  "advances DEC_APPDAT state_APPDAT" "advances DEC_APPLEN state_APPLEN" "advances DEC_TABDAT state_TABDAT" "advances DEC_SAME state_SAME"
  "advances DEC_NEAR state_NEAR" "advances DEC_TABLEN state_TABLEN" "advances DEC_SECONDID state_SECONDID" "advances DEC_HDRIND state_HDRIND"
  "advances DEC_VCHEAD state_VCHEAD"
proof -
  have al: "passes DEC_APPDAT alloc_appheader DEC_APPDAT"
    unfolding passes_def
  proof (intro allI impI, goal_cases)
    case (1 s r t)
    obtain ok m where "xd3_alloc (mem s) = (ok, m)" by force
    then show ?case using 1 by (cases "dec_appheader s"; cases ok) (auto simp: alloc_appheader_def nleft_def)
  qed
  have rd: "passes DEC_APPDAT read_appheader DEC_APPDAT"
    unfolding read_appheader_def [abs_def]
    by (rule passes_dep [where h = "\<lambda>s. unat (dec_appheadsz s)"]) (rule passes_bytes, simp)
  have ap: "passes DEC_APPDAT (\<lambda>s. if dec_hdr_ind s AND VCD_APPHEADER \<noteq> 0 then
                 seqr (fail_if (\<lambda>s. USIZE_T_OVERFLOW (dec_appheadsz s) 1) XD3_INVALID_INPUT)
                (seqr alloc_appheader read_appheader) s
               else (None, s)) DEC_APPDAT"
    by (intro passes_if passes_ret passes_seqr [of _ _ DEC_APPDAT] passes_fail_if al rd) simp_all
  show a: "advances DEC_APPDAT state_APPDAT" unfolding state_APPDAT_def
    by (rule advances_seqr [OF ap], rule advances_seqr [OF passes_modify], simp,
      rule advances_seqr [OF passes_goto advances_WININD]) simp_all
  show b: "advances DEC_APPLEN state_APPLEN" unfolding state_APPLEN_def
    by (rule advances_seqr [OF passes_SIZE_CASE a]) simp_all
  have ac: "passes DEC_TABDAT decode_alloc_cache DEC_TABDAT"
    by (auto simp: passes_def decode_alloc_cache_def xd3_alloc_cache_def Let_def nleft_def split: prod.splits if_splits)
  show c: "advances DEC_TABDAT state_TABDAT" unfolding state_TABDAT_def
    by (rule advances_seqr [OF passes_fail_if], simp, rule advances_seqr [OF passes_modify], simp,
      rule advances_seqr [OF ac], rule advances_seqr [OF passes_goto b]) simp_all
  show d: "advances DEC_SAME state_SAME" unfolding state_SAME_def by (rule advances_seqr [OF passes_BYTE_CASE c]) simp_all
  show e: "advances DEC_NEAR state_NEAR" unfolding state_NEAR_def by (rule advances_seqr [OF passes_BYTE_CASE d]) simp_all
  have f: "advances X state_TABLEN" if "rank DEC_NEAR \<le> rank X" for X
  proof -
    have "passes DEC_NEAR (modify (\<lambda>s. if dec_hdr_ind s AND VCD_CODETABLE \<noteq> 0 then s\<lparr>dec_codetblsz := dec_codetblsz s - 2\<rparr> else s)) DEC_NEAR"
      by (rule passes_modify) simp
    then show ?thesis unfolding state_TABLEN_def
      by (intro advances_seqr [OF passes_SIZE_CASE] advances_seqr [OF passes_fail_if] advances_seqr [OF _ e]) (use that in simp_all)
  qed
  show "advances DEC_TABLEN state_TABLEN" by (rule f) simp
  have "passes DEC_SECONDID (\<lambda>s. if dec_hdr_ind s AND VCD_SECONDARY \<noteq> 0 then
                 seqr (BYTE_CASE (\<lambda>_. True) (\<lambda>v. dec_secondid_update (\<lambda>_. v)) DEC_TABLEN)
                   (\<lambda>s. (Some (if dec_secondid s \<in> {16, 1, 2} then XD3_INTERNAL else XD3_INVALID_INPUT), s)) s
               else (None, s)) DEC_SECONDID"
  proof (intro passes_if passes_ret passes_seqr [of _ _ DEC_TABLEN] passes_BYTE_CASE)
    show "passes DEC_TABLEN (\<lambda>s. (Some (if dec_secondid s \<in> {16, 1, 2} then XD3_INTERNAL else XD3_INVALID_INPUT), s)) DEC_SECONDID"
      by (simp add: passes_def)
  qed simp_all
  then show g: "advances DEC_SECONDID state_SECONDID" unfolding state_SECONDID_def by (rule advances_seqr [OF _ f]) simp_all
  show h: "advances DEC_HDRIND state_HDRIND" unfolding state_HDRIND_def
    by (rule advances_seqr [OF passes_byte], simp, rule advances_seqr [OF passes_fail_if], simp,
      rule advances_seqr [OF passes_goto g]) simp_all
  show "advances DEC_VCHEAD state_VCHEAD" unfolding state_VCHEAD_def
    by (rule advances_seqr [OF passes_bytes], simp, rule advances_seqr [OF passes_fail_if], simp,
      rule advances_seqr [OF passes_fail_if], simp, rule advances_seqr [OF passes_goto h]) simp_all
qed

subsection \<open>The sections and the window\<close>

lemma passes_section:
  assumes p: "plain_store put"
  shows "passes X (xd3_decode_section sect put Y copy) Y"
proof -
  have zc: "passes X (section_zerocopy sect put) X"
    using p by (simp add: passes_def section_zerocopy_def Let_def decode_input_advance_def nleft_def plain_store_def)
  have sa: "passes X (section_allocate sect put) X"
    using p by (auto simp: passes_def section_allocate_def xd3_decode_allocate_def Let_def nleft_def plain_store_def
      split: if_splits prod.splits option.splits bool.splits)
  have ap: "passes X (section_append sect put) X"
    using p by (simp add: passes_def section_append_def Let_def decode_input_advance_def nleft_def plain_store_def)
  have "passes X (section_take sect put copy) X"
  proof -
    have "passes X (\<lambda>s. if spos (sect s) < ssize (sect s) then
        if next_in s = [] then (Some XD3_INPUT, s)
        else if \<not> copy \<and> spos (sect s) = 0 then section_zerocopy sect put s
        else seqr (section_allocate sect put) (section_append sect put) s
      else (None, s)) X"
      by (intro passes_if passes_ret zc passes_seqr [OF sa ap]) (simp_all add: passes_def)
    then show ?thesis by (simp add: section_take_def [abs_def])
  qed
  moreover have "passes X (section_done sect put Y) Y"
    using p by (auto simp: passes_def section_done_def Let_def nleft_def plain_store_def split: if_splits)
  ultimately show ?thesis unfolding xd3_decode_section_def by (rule passes_seqr) simp
qed

lemma passes_read:
  "passes DEC_ADDR (read_addr_sect c) DEC_EMIT" "passes DEC_INST (read_inst_sect c) DEC_EMIT" "passes DEC_DATA (read_data_sect c) DEC_EMIT"
proof -
  have p: "plain_store (\<lambda>v. addr_sect_update (\<lambda>_. v))" "plain_store (\<lambda>v. inst_sect_update (\<lambda>_. v))" "plain_store (\<lambda>v. data_sect_update (\<lambda>_. v))"
    by (simp_all add: plain_store_def)
  show a: "passes DEC_ADDR (read_addr_sect c) DEC_EMIT" unfolding read_addr_sect_def by (rule passes_section [OF p(1)])
  show b: "passes DEC_INST (read_inst_sect c) DEC_EMIT" unfolding read_inst_sect_def
    by (rule passes_seqr [OF passes_section a]) (use p in simp_all)
  show "passes DEC_DATA (read_data_sect c) DEC_EMIT" unfolding read_data_sect_def
    by (rule passes_seqr [OF passes_section b]) (use p in simp_all)
qed

lemma sections_outcome:
  assumes X: "dec_state s = X" "X \<in> {DEC_DATA, DEC_INST, DEC_ADDR}" and r: "xd3_decode_sections s = (r, t)"
  shows "if r = None then getblk t = getblk s \<and> nleft t \<le> nleft s \<and> dec_state t = DEC_EMIT else outcome r s t"
proof -
  have fin: "outcome q s u" if "xd3_decode_finish_window v = (q, u)" "getblk v = getblk s" "nleft v \<le> nleft s" for q u v
    using that X by (auto simp: xd3_decode_finish_window_def outcome_def step_lt_def nleft_def)
  have rs: "passes X (read_sections c) DEC_EMIT" for c
    using X(2) passes_cong [OF _ passes_read(1), of "read_sections c" c] passes_cong [OF _ passes_read(2), of "read_sections c" c]
      passes_cong [OF _ passes_read(3), of "read_sections c" c] by (auto simp: read_sections_def)
  have sb: "passes DEC_EMIT xd3_decode_setup_buffers DEC_EMIT"
    by (auto simp: passes_def xd3_decode_setup_buffers_def Let_def nleft_def split: if_splits prod.splits bool.splits)
  have read: ?thesis if e: "seqr (read_sections c) (\<lambda>s. if flags s AND XD3_SKIP_EMIT \<noteq> 0 then xd3_decode_finish_window s
                         else xd3_decode_setup_buffers s) s = (r, t)" for c
  proof -
    obtain q u where u: "read_sections c s = (q, u)" by force
    note p = passesD [OF rs X(1) u]
    show ?thesis
    proof (cases q)
      case (Some e')
      then have "r = q" "t = u" using e u by (auto simp: seqr_def)
      then show ?thesis using p Some X(1) by (auto simp: outcome_def step_le_def stops_def)
    next
      case None
      show ?thesis
      proof (cases "flags u AND XD3_SKIP_EMIT \<noteq> 0")
        case True
        then have "xd3_decode_finish_window u = (r, t)" using e u None by (simp add: seqr_def)
        then show ?thesis using fin [of u r t] p by (auto simp: xd3_decode_finish_window_def)
      next
        case False
        then have "xd3_decode_setup_buffers u = (r, t)" using e u None by (simp add: seqr_def)
        from passesD [OF sb p(3) [OF None] this] show ?thesis using p(1,2) X by (auto simp: outcome_def step_le_def stops_def)
      qed
    qed
  qed
  show ?thesis
  proof (cases "flags s AND XD3_JUST_HDR \<noteq> 0")
    case True
    then show ?thesis using r fin [of s r t] by (auto simp: xd3_decode_sections_def xd3_decode_finish_window_def)
  next
    case nj: False
    define need1 need2 where "need1 = ssize (inst_sect s)" and "need2 = need1 + ssize (addr_sect s)"
    define more where "more = need2 + ssize (data_sect s) - dec_winbytes s"
    define tk where "tk = min more (of_nat (length (next_in s)))"
    have eq: "(if USIZE_T_OVERFLOW need1 (ssize (addr_sect s)) then (Some XD3_INTERNAL, s)
           else if USIZE_T_OVERFLOW need2 (ssize (data_sect s)) then (Some XD3_INTERNAL, s)
           else if flags s AND XD3_SKIP_WINDOW \<noteq> 0 then
                  let s1 = decode_input_advance (unat tk) s; s2 = s1\<lparr>dec_winbytes := dec_winbytes s1 + tk\<rparr>
                  in if tk \<noteq> more then (Some XD3_INPUT, s2) else xd3_decode_finish_window s2
                else seqr (read_sections (tk \<noteq> more))
                    (\<lambda>s. if flags s AND XD3_SKIP_EMIT \<noteq> 0 then xd3_decode_finish_window s
                         else xd3_decode_setup_buffers s) s) = (r, t)"
      unfolding r [symmetric] xd3_decode_sections_def Let_def need1_def need2_def more_def tk_def using nj by (rule if_not_P [symmetric])
    have er: "outcome (Some XD3_INTERNAL) s s" by (simp add: outcome_def)
    show ?thesis
    proof (cases "USIZE_T_OVERFLOW need1 (ssize (addr_sect s)) \<or> USIZE_T_OVERFLOW need2 (ssize (data_sect s))")
      case True
      then have "r = Some XD3_INTERNAL" "t = s" using eq by (auto split: if_splits)
      then show ?thesis using er by simp
    next
      case no: False
      show ?thesis
      proof (cases "flags s AND XD3_SKIP_WINDOW \<noteq> 0")
        case True
        define s2 where "s2 = (decode_input_advance (unat tk) s)\<lparr>dec_winbytes := dec_winbytes (decode_input_advance (unat tk) s) + tk\<rparr>"
        have s2: "getblk s2 = getblk s" "nleft s2 \<le> nleft s" "dec_state s2 = X" using X(1) by (simp_all add: s2_def decode_input_advance_def nleft_def)
        have e2: "(if tk \<noteq> more then (Some XD3_INPUT, s2) else xd3_decode_finish_window s2) = (r, t)" using eq no True by (simp add: Let_def s2_def split: if_splits)
        show ?thesis
        proof (cases "tk = more")
          case True
          then have f: "xd3_decode_finish_window s2 = (r, t)" using e2 by simp
          have "outcome r s t" by (rule fin [OF f s2(1,2)])
          then show ?thesis using f by (auto simp: xd3_decode_finish_window_def)
        next
          case False
          then have "r = Some XD3_INPUT" "t = s2" using e2 by simp_all
          then show ?thesis using s2 X(1) by (auto simp: outcome_def step_le_def)
        qed
      next
        case False
        show ?thesis by (rule read) (use eq no False in simp)
      qed
    qed
  qed
qed

lemma emit_outcome:
  assumes s: "dec_state s = DEC_EMIT" "getblk s = None" and r: "state_EMIT s = Some (r, t)"
  shows "outcome r s t"
proof -
  define pre :: dec_step where "pre = (\<lambda>s. if dec_win_ind s AND VCD_SOURCE \<noteq> 0 then
                 case src s of
                   None \<Rightarrow> (Some XD3_INVALID_INPUT, s)
                 | Some source \<Rightarrow>
                     (case xd3_blksize_div (dec_cpyoff s) (unat (shiftby source)) (maskby source) of
                        (b, o') \<Rightarrow> (None, s\<lparr>src := Some (source\<lparr>cpyoff_blocks := b, cpyoff_blkoff := o'\<rparr>)\<rparr>))
               else (None, s))"
  obtain q u where u: "pre s = (q, u)" by force
  have pu: "getblk u = None" "nleft u = nleft s" "dec_state u = DEC_EMIT" "q = None \<or> q = Some XD3_INVALID_INPUT"
    using u s by (auto simp: pre_def nleft_def split: if_splits option.splits prod.splits)
  show ?thesis
  proof (cases q)
    case (Some e)
    then have "r = Some e" "t = u" "e = XD3_INVALID_INPUT"
      using r u pu(4) by (auto simp: state_EMIT_def Xd3_Decode.seqo_def pre_def [symmetric])
    then show ?thesis using pu s by (simp add: outcome_def)
  next
    case None
    obtain q2 v where v: "xd3_decode_emit u = Some (q2, v)" "r = q2"
      "t = (if q2 = Some XD3_OUTPUT then v\<lparr>total_out := total_out v + avail_out v\<rparr> else v)"
      using r u None by (auto simp: state_EMIT_def Xd3_Decode.seqo_def pre_def [symmetric] split: option.splits)
    obtain q3 w where w: "emit_loop u = Some (q3, w)" using v(1) by (auto simp: xd3_decode_emit_def split: option.splits)
    have qw: "stops q3" "getblk w = None" "next_in w = next_in u" "dec_state w = DEC_EMIT"
      using emit_loop_quiet [OF w] pu by (auto simp: quiet_def)
    show ?thesis
    proof (cases q3)
      case (Some e)
      then have "q2 = q3" "v = w" using v(1) w by (auto simp: xd3_decode_emit_def)
      then show ?thesis using qw pu v s by (auto simp: outcome_def nleft_def stops_def)
    next
      case n: None
      then have "decode_emit_checks w = (q2, v)" using v(1) w by (simp add: xd3_decode_emit_def)
      then have "q2 = Some XD3_INVALID_INPUT \<and> v = w \<or> q2 = Some XD3_OUTPUT \<and> v = snd (xd3_decode_finish_window w)"
        by (auto simp: decode_emit_checks_def seqr_def fail_if_def xd3_decode_finish_window_def split: if_splits)
      then show ?thesis using v(2,3) qw pu s
        by (auto simp: outcome_def step_lt_def nleft_def xd3_decode_finish_window_def)
    qed
  qed
qed

lemma decode_input_progress:
  assumes g: "getblk s = None" and r: "xd3_decode_input s = Some (r, t)"
  shows "outcome r s t"
proof (cases "encoding s")
  case True
  then show ?thesis using r by (auto simp: xd3_decode_input_def outcome_def)
next
  case ne: False
  have adv: "outcome r s t" if "advances (dec_state s) f" "Some (f s) = Some (r, t)" for f
    using that g by (simp add: advances_def)
  have dat: "outcome r s t" if X: "dec_state s \<in> {DEC_DATA, DEC_INST, DEC_ADDR}" and d: "state_DATA s = Some (r, t)"
  proof -
    obtain q u where u: "xd3_decode_sections s = (q, u)" by force
    note o = sections_outcome [OF refl X u]
    show ?thesis
    proof (cases q)
      case None
      then have e: "state_EMIT u = Some (r, t)" using d u by (simp add: state_DATA_def Xd3_Decode.seqo_def)
      have p: "getblk u = None" "nleft u \<le> nleft s" "dec_state u = DEC_EMIT" using o None g by simp_all
      have "outcome r u t" by (rule emit_outcome [OF p(3,1) e])
      moreover have "rank (dec_state u) \<le> rank (dec_state s)" using X p(3) by auto
      ultimately show ?thesis using p g by (auto simp: outcome_def step_le_def step_lt_def)
    next
      case (Some e)
      then show ?thesis using d u o by (auto simp: state_DATA_def Xd3_Decode.seqo_def)
    qed
  qed
  have fin: "outcome r s t" if "dec_state s = DEC_FINISH" "Some (state_FINISH s) = Some (r, t)"
    using that by (auto simp: state_FINISH_def outcome_def step_lt_def nleft_def)
  have ab: "outcome (Some XD3_INVALID_INPUT) s s" by (simp add: outcome_def)
  show ?thesis
    using r ne advances_header advances_WININD advances_lengths advances_CKSUM adv dat fin emit_outcome [OF _ g] ab
    by (cases "dec_state s") (auto simp: xd3_decode_input_def)
qed

subsection \<open>The loop over a buffer\<close>

lemma dec_wf_avail [simp]: "dec_wf (xd3_avail_input d s) = dec_wf s"
  by (simp add: xd3_avail_input_def wf_simps)

lemma dec_wf_flags [simp]: "dec_wf (s\<lparr>flags := f\<rparr>) = dec_wf s"
  by (simp add: wf_simps)

text \<open>The loop ends, whatever the input, and stays inside the output buffer.\<close>

definition bounded :: "usize_t \<Rightarrow> bytes \<Rightarrow> (xd3_ret \<times> bytes \<times> xd3_dstream) option \<Rightarrow> bool" where
  "bounded omax out x \<longleftrightarrow> (\<exists>r o' t. x = Some (r, o', t) \<and> (length out \<le> unat omax \<longrightarrow> unat omax \<le> 2 ^ 63 \<longrightarrow> length o' \<le> unat omax))"

lemma window_output_small:
  assumes "dec_wf (xd3_consume_output t)"
  shows "length (window_output t) \<le> 2 ^ 27"
proof -
  have "bufs_ok (xd3_consume_output t)" using assms by (simp add: dec_wf_def wf_at_def)
  then show ?thesis by (simp add: bufs_ok_def xd3_consume_output_def window_output_def min_le_iff_disj)
qed

lemma decode_loop_total:
  assumes "dec_wf s" "getblk s = None" "0 < unat wsz"
  shows "bounded omax out (decode_loop wsz omax rest out s)"
  using assms
proof (induction "(nleft s + length rest, rank (dec_state s), length rest)" arbitrary: s rest out
    rule: wf_induct_rule [OF wf_lex_prod [OF wf_less_than wf_lex_prod [OF wf_less_than wf_less_than]]])
  case (1 s rest out)
  obtain e t where t: "xd3_decode_input s = Some (Some e, t)" "resumable e \<longrightarrow> dec_wf (after_return e t)"
    using decode_input_total [OF 1(2)] by blast
  note o = decode_input_progress [OF 1(3) t(1)]
  have gt: "getblk t = None" using o 1(3) by (simp add: outcome_def)
  have ih: "bounded omax out' (decode_loop wsz omax rest' out' s')"
    if "((nleft s' + length rest', rank (dec_state s'), length rest'), (nleft s + length rest, rank (dec_state s), length rest))
         \<in> less_than <*lex*> less_than <*lex*> less_than" "dec_wf s'" "getblk s' = None" for s' rest' out'
    using 1(1) [OF that 1(4)] .
  have lt: "((nleft t + length rest, rank (dec_state t), length rest), (nleft s + length rest, rank (dec_state s), length rest))
         \<in> less_than <*lex*> less_than <*lex*> less_than" if "step_lt s t"
    using that by (auto simp: step_lt_def)
  have here: "bounded omax out (Some (r, out, u))" for r u by (simp add: bounded_def)
  consider "e = XD3_OUTPUT" | "e = XD3_INPUT" | "e = XD3_GOTHEADER \<or> e = XD3_WINSTART \<or> e = XD3_WINFINISH" | "stops (Some e)"
    by (auto simp: stops_def)
  then show ?case
  proof cases
    case 1
    let ?c = "xd3_consume_output t"
    have "step_lt s t" using o 1 by (simp add: outcome_def stops_def)
    then have "((nleft ?c + length rest, rank (dec_state ?c), length rest), (nleft s + length rest, rank (dec_state s), length rest))
         \<in> less_than <*lex*> less_than <*lex*> less_than" using lt by (simp add: xd3_consume_output_def nleft_def)
    then have b: "bounded omax (out @ window_output t) (decode_loop wsz omax rest (out @ window_output t) ?c)"
      by (rule ih) (use t(2) 1 gt in \<open>simp_all add: after_return_def resumable_def xd3_consume_output_def\<close>)
    have wo: "length (window_output t) \<le> 2 ^ 27" using t(2) 1 by (intro window_output_small) (simp add: after_return_def)
    show ?thesis
    proof (cases "of_nat (length out) + of_nat (length (window_output t)) > omax")
      case True
      then show ?thesis using t(1) 1 here by (subst process_loop.simps) simp
    next
      case False
      have "length (out @ window_output t) \<le> unat omax" if h: "length out \<le> unat omax" "unat omax \<le> 2 ^ 63"
      proof -
        have "unat (of_nat (length out) + of_nat (length (window_output t)) :: u64) = length out + length (window_output t)"
          using h wo by (simp add: of_nat_add [symmetric] unat_of_nat_less del: of_nat_add)
        then show ?thesis using False by (simp add: word_less_nat_alt)
      qed
      then have "bounded omax out (decode_loop wsz omax rest (out @ window_output t) ?c)" using b by (auto simp: bounded_def)
      then show ?thesis using t(1) 1 False by (subst process_loop.simps) simp
    qed
  next
    case 2
    let ?n = "min (unat wsz) (length rest)"
    let ?a = "xd3_avail_input (take ?n rest) t"
    have le: "step_le s t" using o 2 by (simp add: outcome_def)
    have w: "dec_wf ?a" "getblk ?a = None" using t(2) 2 gt by (simp_all add: after_return_def resumable_def) (simp add: xd3_avail_input_def)
    have "bounded omax out (decode_loop wsz omax (drop ?n rest) out ?a)" if "?n \<noteq> 0"
    proof (rule ih [OF _ w])
      have na: "nleft ?a + length (drop ?n rest) = length rest" "dec_state ?a = dec_state t" by (auto simp: xd3_avail_input_def nleft_def)
      show "((nleft ?a + length (drop ?n rest), rank (dec_state ?a), length (drop ?n rest)), (nleft s + length rest, rank (dec_state s), length rest))
         \<in> less_than <*lex*> less_than <*lex*> less_than"
        unfolding na using that le by (auto simp: step_le_def)
    qed
    then show ?thesis using t(1) 2 here by (subst process_loop.simps) (simp add: Let_def)
  next
    case 3
    have "step_lt s t" using o 3 by (auto simp: outcome_def stops_def)
    then have "bounded omax out (decode_loop wsz omax rest out t)"
      by (intro ih lt) (use t(2) 3 gt in \<open>auto simp: after_return_def resumable_def\<close>)
    then show ?thesis using t(1) 3 by (subst process_loop.simps) auto
  next
    case 4
    then show ?thesis using t(1) here by (subst process_loop.simps) (auto simp: stops_def)
  qed
qed

lemma memory_set_source_ok:
  assumes "\<And>S. source = Some S \<Longrightarrow> length S \<le> 2 ^ 63"
  obtains x where "memory_set_source source = Some x" "\<And>y. x = Some y \<Longrightarrow> source_wf y"
proof (cases source)
  case None
  then show thesis using that [of None] by (simp add: memory_set_source_def)
next
  case (Some S)
  obtain x where "xd3_set_source_and_size (memory_source S) (of_nat (length S)) = Some x" "source_wf x"
    using set_memory_source [OF assms [OF Some]] .
  then show thesis using that [of "Some x"] Some by (simp add: memory_set_source_def)
qed

lemma decode_memory_total:
  assumes "\<And>S. source = Some S \<Longrightarrow> length S \<le> 2 ^ 63"
  shows "\<exists>r out. xd3_decode_memory m D source omax fl = Some (r, out) \<and> (unat omax \<le> 2 ^ 63 \<longrightarrow> length out \<le> unat omax)"
proof (cases "config_decoder (zero_config fl) m")
  case (Inl e)
  then show ?thesis by (simp add: xd3_decode_memory_def)
next
  case (Inr s)
  then have s: "s = decoder_stream m fl None None" by (auto simp: config_decoder_def zero_config_def map_sum_def split: sum.splits)
  obtain x where x: "memory_set_source source = Some x" "\<And>y. x = Some y \<Longrightarrow> source_wf y"
    using memory_set_source_ok [OF assms] by blast
  define n where "n = min (unat XD3_DEFAULT_WINSIZE) (length D)"
  define s1 where "s1 = xd3_avail_input (take n D) (s\<lparr>src := x, flags := fl OR XD3_FLUSH\<rparr>)"
  have "s1 = xd3_avail_input (take n D) (decoder_stream m (fl OR XD3_FLUSH) x None)"
    by (simp add: s1_def s decoder_stream_def)
  then have w: "dec_wf s1" "getblk s1 = None" using decoder_stream_wf [of x None] x(2) by (auto simp: xd3_avail_input_def decoder_stream_def)
  have "0 < unat XD3_DEFAULT_WINSIZE" by (simp add: XD3_DEFAULT_WINSIZE_def)
  from decode_loop_total [OF w this, of omax "[]" "drop n D"] obtain r o' t
    where l: "decode_loop XD3_DEFAULT_WINSIZE omax (drop n D) [] s1 = Some (r, o', t)" "unat omax \<le> 2 ^ 63 \<longrightarrow> length o' \<le> unat omax"
    by (auto simp: bounded_def)
  have f: "flags (s\<lparr>src := x\<rparr>) = fl" by (simp add: s decoder_stream_def)
  have "xd3_decode_memory m D source omax fl = (case r of Some e \<Rightarrow> Some (Some e, o') | None \<Rightarrow> Some (decode_close_stream t, o'))"
    using Inr x(1) l(1) f by (simp add: xd3_decode_memory_def xd3_decode_stream_def xd3_process_stream_def Let_def n_def [symmetric] s1_def)
  then show ?thesis using l(2) by (cases r) simp_all
qed

end
