(* ===== verification/Xd3_Client.thy ===== *)
theory Xd3_Client
  imports Xd3_DecodeSafe Xd3_Stream Xd3_DecodeTotal Xd3_DecodeMemory
begin

section \<open>Sessions of a client and error behaviour\<close>

text \<open>
  A client drives a stream by calls in an order of its own: it supplies input, calls
  \<open>xd3_decode_input\<close>, consumes output, answers requests for source blocks and may abort. The sessions
  are an inductive relation; the invariant of the decoder holds in every state of a session, so no
  order of calls makes the decoder fault. The second half has the errors that configuration and the
  whole-buffer functions report, and the buffering of input on the encoder side.
\<close>

subsection \<open>Sessions of a decoder\<close>

text \<open>The answer to \<open>XD3_GETSRCBLK\<close>: the client sets \<open>curblk\<close>, \<open>curblkno\<close> and \<open>onblk\<close> (xdelta3.h,
  struct \<open>_xd3_source\<close>).\<close>

definition provide_block :: "bytes \<Rightarrow> xd3_dstream \<Rightarrow> xd3_dstream" where
  "provide_block b s =
     (case src s of
        None \<Rightarrow> s
      | Some x \<Rightarrow> s\<lparr>src := Some (x\<lparr>curblk := Some b, curblkno := getblkno x, onblk := of_nat (length b)\<rparr>)\<rparr>)"

inductive decoder_session :: "xd3_dstream \<Rightarrow> xd3_dstream \<Rightarrow> bool" for s0 where
  start: "decoder_session s0 s0"
| input: "decoder_session s0 s \<Longrightarrow> decoder_session s0 (xd3_avail_input idata s)"
| call: "decoder_session s0 s \<Longrightarrow> xd3_decode_input s = Some (Some e, t) \<Longrightarrow> resumable e \<Longrightarrow> decoder_session s0 (after_return e t)"
| block: "decoder_session s0 s \<Longrightarrow> xd3_decode_input s = Some (Some XD3_GETSRCBLK, t) \<Longrightarrow> src t = Some x
    \<Longrightarrow> length b \<le> unat (blksize x) \<Longrightarrow> decoder_session s0 (provide_block b t)"

lemma avail_input_wf: "dec_wf s \<Longrightarrow> dec_wf (xd3_avail_input idata s)"
  by (simp add: xd3_avail_input_def wf_simps)

lemma provide_block_source_wf:
  assumes "source_wf x" "length b \<le> unat (blksize x)"
  shows "source_wf (x\<lparr>curblk := Some b, curblkno := n, onblk := of_nat (length b)\<rparr>)"
proof -
  have "length b < 2 ^ 64" using le_less_trans [OF assms(2)] unat_u64_lt [of "blksize x"] by simp
  then have "unat (of_nat (length b) :: u64) = length b" by (intro unat_of_nat_less) simp
  then show ?thesis using assms by (simp add: source_wf_def word_le_nat_alt)
qed

lemma provide_block_wf:
  assumes "dec_wf s" "src s = Some x" "length b \<le> unat (blksize x)"
  shows "dec_wf (provide_block b s)"
proof -
  have "source_wf x" using assms(1,2) by (simp add: wf_simps)
  then show ?thesis using assms provide_block_source_wf [of x b] by (simp add: provide_block_def wf_simps)
qed

lemma session_wf:
  assumes "decoder_session s0 s" "dec_wf s0"
  shows "dec_wf s"
  using assms(1)
proof induction
  case start
  show ?case by (rule assms(2))
next
  case (input s idata)
  then show ?case by (intro avail_input_wf)
next
  case (call s e t)
  then show ?case using decode_input_total [OF call.IH] by auto
next
  case (block s t x b)
  then have "dec_wf (after_return XD3_GETSRCBLK t)" using decode_input_total [OF block.IH] by (auto simp: resumable_def)
  then show ?case using block by (intro provide_block_wf) (simp_all add: after_return_def)
qed

text \<open>A client that reads its blocks from a file in memory.\<close>

definition file_getblk :: "bytes \<Rightarrow> getblk_func" where
  "file_getblk file x blkno =
     (let b = take (unat (blksize x)) (drop (unat blkno * unat (blksize x)) file)
      in (None, x\<lparr>curblk := Some b, curblkno := blkno, onblk := of_nat (length b)\<rparr>))"

lemma file_getblk_wf: "getblk_wf (Some (file_getblk file))"
  unfolding getblk_wf_def
proof (intro allI impI, goal_cases)
  case (1 f x blkno r y)
  then show ?case
    using provide_block_source_wf [of x "take (unat (blksize x)) (drop (unat blkno * unat (blksize x)) file)" blkno]
    by (auto simp: file_getblk_def Let_def)
qed

subsection \<open>Codes of the whole-buffer functions\<close>

lemma process_loop_codes:
  assumes "process_loop f av op co w omax rest out s = Some res"
  shows "\<forall>e. fst res = Some e \<longrightarrow> \<not> resumable e"
proof (rule process_loop.raw_induct [where P = "\<lambda>f av op co w omax rest out s res. \<forall>e. fst res = Some e \<longrightarrow> \<not> resumable e",
    OF _ assms], goal_cases)
  case (1 pl f av op co w omax rest out s res)
  obtain q t where q: "f s = Some (q, t)" using 1(2) by (cases "f s") auto
  show ?case
  proof (cases q)
    case None
    then show ?thesis using 1(2) q by auto
  next
    case (Some c)
    show ?thesis using 1(2) q Some 1(1) by (auto simp: resumable_def Let_def split: if_splits)
  qed
qed

text \<open>The code of \<open>xd3_process_stream\<close>, when \<open>close_stream\<close> gives none of the codes of the state machine either.\<close>

lemma process_stream_codes:
  assumes "xd3_process_stream f sf av op co cl w inp omax s = Some (Some e, out)" "\<And>s e. cl s = Some e \<Longrightarrow> \<not> resumable e"
  shows "\<not> resumable e"
proof -
  obtain res where res: "process_loop f av op co w omax (drop (min (unat w) (length inp)) inp) []
      (av (take (min (unat w) (length inp)) inp) (sf s)) = Some res"
    "(case res of (r, output, s') \<Rightarrow> case r of Some e \<Rightarrow> Some (Some e, output) | None \<Rightarrow> Some (cl s', output)) = Some (Some e, out)"
    using assms(1) by (auto simp: xd3_process_stream_def Let_def bind_eq_Some_conv)
  show ?thesis using process_loop_codes [OF res(1)] res(2) assms(2) by (cases res) (auto split: option.splits)
qed

lemma close_codes: "decode_close_stream s = Some e \<Longrightarrow> \<not> resumable e" "fst (encode_close_stream t) = Some e \<Longrightarrow> \<not> resumable e"
  by (auto simp: decode_close_stream_def encode_close_stream_def Let_def split: if_splits)

lemma config_codes:
  assumes "xd3_config_stream cfg m = Inl e"
  shows "e = XD3_INTERNAL \<or> e = XD3_INVALID"
  using assms by (auto simp: xd3_config_stream_def config_smatcher_def Let_def map_sum_def
      split: if_splits sum.splits xd3_smatch_cfg.splits)

lemma encode_memory_codes:
  assumes "xd3_encode_memory m inp source omax fl = Some (Some e, out)"
  shows "\<not> resumable e"
proof -
  obtain cfg where c: "encode_config inp fl = Some cfg" using assms by (auto simp: xd3_encode_memory_def bind_eq_Some_conv)
  show ?thesis
  proof (cases "xd3_config_stream cfg m")
    case (Inl r)
    then show ?thesis using assms c config_codes [OF Inl] by (auto simp: xd3_encode_memory_def resumable_def)
  next
    case (Inr s)
    obtain x where "xd3_encode_stream inp omax (s\<lparr>esrc := x\<rparr>) = Some (Some e, out)"
      using assms c Inr by (auto simp: xd3_encode_memory_def bind_eq_Some_conv)
    then show ?thesis unfolding xd3_encode_stream_def by (rule process_stream_codes) (rule close_codes)
  qed
qed

lemma decode_memory_codes:
  assumes "xd3_decode_memory m inp source omax fl = Some (Some e, out)"
  shows "\<not> resumable e"
proof (cases "config_decoder (zero_config fl) m")
  case (Inl r)
  then have "xd3_config_stream (zero_config fl) m = Inl r" by (auto simp: config_decoder_def map_sum_def split: sum.splits)
  then show ?thesis using assms Inl config_codes by (auto simp: xd3_decode_memory_def resumable_def)
next
  case (Inr s)
  obtain x where "xd3_decode_stream inp omax (s\<lparr>src := x\<rparr>) = Some (Some e, out)"
    using assms Inr by (auto simp: xd3_decode_memory_def bind_eq_Some_conv)
  then show ?thesis unfolding xd3_decode_stream_def by (rule process_stream_codes) (rule close_codes)
qed

text \<open>The first state of the decoder.\<close>

definition vcdiff_magic :: bytes where
  "vcdiff_magic = [VCDIFF_MAGIC1, VCDIFF_MAGIC2, VCDIFF_MAGIC3, VCDIFF_VERSION]"

lemma state_VCHEAD_bad:
  assumes i: "5 \<le> length (next_in s)" and m: "dec_magic s = []"
    and b: "take 4 (next_in s) \<noteq> vcdiff_magic \<or> ucast (next_in s ! 4) AND VCD_INV \<noteq> (0 :: usize_t)"
  shows "fst (state_VCHEAD s) = Some XD3_INVALID_INPUT"
proof -
  have "next_in s \<noteq> []" "min 4 (length (next_in s)) = 4" using i by auto
  then have r: "xd3_decode_bytes dec_magic (\<lambda>v. dec_magic_update (\<lambda>_. v)) 4 s
      = (None, decode_input_advance 4 (s\<lparr>dec_magic := take 4 (next_in s)\<rparr>))"
    using m by (simp add: xd3_decode_bytes_def Let_def)
  obtain a b c d e rest where n: "next_in s = a # b # c # d # e # rest"
    using i by (auto simp: numeral_eq_Suc Suc_le_length_iff)
  show ?thesis using r b n
    by (auto simp: state_VCHEAD_def state_HDRIND_def seqr_def fail_if_def vcdiff_magic_def goto_def xd3_decode_byte_def
      decode_input_advance_def VCDIFF_VERSION_def)
qed

lemma decode_memory_bad_header:
  assumes c: "config_secondary fl" and S: "\<And>S. source = Some S \<Longrightarrow> length S \<le> 2 ^ 63" and l: "5 \<le> length D"
    and b: "take 4 D \<noteq> vcdiff_magic \<or> ucast (D ! 4) AND VCD_INV \<noteq> (0 :: usize_t)"
  shows "xd3_decode_memory m D source omax fl = Some (Some XD3_INVALID_INPUT, [])"
proof -
  obtain x where x: "memory_set_source source = Some x" using memory_set_source_ok [OF S] by blast
  define n where "n = min (unat XD3_DEFAULT_WINSIZE) (length D)"
  define s1 where "s1 = xd3_avail_input (take n D) ((decoder_stream m fl x None)\<lparr>flags := fl OR XD3_FLUSH\<rparr>)"
  have n5: "5 \<le> n" using l by (simp add: n_def XD3_DEFAULT_WINSIZE_def)
  have "take 4 (take n D) = take 4 D" "take n D ! 4 = D ! 4" using n5 l by simp_all
  then have "fst (state_VCHEAD s1) = Some XD3_INVALID_INPUT"
    using n5 l b by (intro state_VCHEAD_bad) (simp_all add: s1_def xd3_avail_input_def decoder_stream_def)
  moreover have "xd3_decode_input s1 = Some (state_VCHEAD s1)"
    by (simp add: xd3_decode_input_def s1_def xd3_avail_input_def decoder_stream_def)
  ultimately have "decode_loop XD3_DEFAULT_WINSIZE omax (drop n D) [] s1 = Some (Some XD3_INVALID_INPUT, [], snd (state_VCHEAD s1))"
    by (subst process_loop.simps) (simp add: case_prod_beta)
  moreover have "(decoder_stream m fl None None)\<lparr>src := x\<rparr> = decoder_stream m fl x None" "flags (decoder_stream m fl None None) = fl"
    by (simp_all add: decoder_stream_def)
  ultimately show ?thesis using x config_decoder_ok [OF c, of m]
    by (simp add: xd3_decode_memory_def xd3_decode_stream_def xd3_process_stream_def Let_def n_def [symmetric] s1_def)
qed

subsection \<open>Configuration\<close>

lemma check_pow2_ok: "fst (xd3_check_pow2 v) = None \<longleftrightarrow> (\<exists>k < 64. v = 2 ^ k)"
  by (metis check_pow2_spec fst_conv surj_pair)

lemma and_pow2_mask:
  assumes "k < 64"
  shows "(x :: u64) AND (2 ^ k - 1) < 2 ^ k"
proof -
  have "x AND (2 ^ k - 1) = take_bit k x" by (simp add: take_bit_eq_mask mask_eq_exp_minus_1)
  then show ?thesis using assms by (simp add: unsigned_take_bit_eq word_less_nat_alt unat_exp_u64)
qed

lemma config_smatcher_total:
  "(\<exists>sm. config_smatcher cfg = Inr sm) \<longleftrightarrow> (cfg_smatch cfg = XD3_SMATCH_SOFT \<longrightarrow> MIN_MATCH \<le> large_look (cfg_smatcher_soft cfg)
     \<and> large_step (cfg_smatcher_soft cfg) \<noteq> 0 \<and> MIN_MATCH \<le> small_look (cfg_smatcher_soft cfg))"
  by (auto simp: config_smatcher_def Let_def not_less split: xd3_smatch_cfg.split)

subsection \<open>Buffering the input of the encoder\<close>

definition held :: "xd3_estream \<Rightarrow> bytes" where
  "held s = (case buf_leftover s of None \<Rightarrow> buf s | Some rest \<Rightarrow> rest)"

definition buffer_wf :: "xd3_estream \<Rightarrow> bool" where
  "buffer_wf s \<longleftrightarrow> length (held s) \<le> unat (winsize s) \<and> length (ein s) \<le> unat (winsize s)"

lemma buffer_leftover_ok:
  assumes w: "buffer_wf s"
  shows "\<exists>r t. xd3_encode_buffer_leftover s = Some (r, t) \<and> winsize t = winsize s
     \<and> (case r of
          None \<Rightarrow> buffer_wf t \<and> buf t = [] \<and> ein t @ (case buf_leftover t of None \<Rightarrow> [] | Some rest \<Rightarrow> rest) = held s @ ein s
        | Some e \<Rightarrow> e = XD3_INPUT \<and> buf_leftover t = None \<and> buf t = held s @ ein s \<and> length (buf t) < unat (winsize s)
             \<or> e = ENOMEM \<and> held t = held s \<and> ein t = ein s \<and> \<not> mem_ok (emem s))"
proof -
  obtain r1 s1 where 1: "buffer_alloc s = (r1, s1)" by force
  have f: "held s1 = held s" "ein s1 = ein s" "winsize s1 = winsize s" "eflags s1 = eflags s" "buf_leftover s1 = buf_leftover s" "buf s1 = buf s"
    "r1 = None \<or> r1 = Some ENOMEM \<and> \<not> mem_ok (emem s)"
    using 1 by (auto simp: buffer_alloc_def held_def mem_ok_def xd3_alloc_def split: if_splits bool.splits option.split)
  show ?thesis
  proof (cases r1)
    case (Some e)
    then show ?thesis using 1 f by (auto simp: xd3_encode_buffer_leftover_def)
  next
    case None
    obtain s2 where 2: "take_leftover s1 = Some s2" "buf s2 = held s" "buf_leftover s2 = None" "ein s2 = ein s" "winsize s2 = winsize s"
      using w f by (auto simp: take_leftover_def held_def buffer_wf_def split: option.splits)
    let ?w = "unat (winsize s)"
    have lt: "?w < 2 ^ 64" using unat_u64_lt by simp
    have ub: "unat (of_nat k :: u64) = k" if "k \<le> ?w" for k using le_less_trans [OF that lt] by (intro unat_of_nat_less) simp
    define n where "n = min (?w - length (held s)) (length (ein s))"
    have n: "unat (min (winsize s - of_nat (length (held s))) (avail_in s2)) = n"
      using w ub by (simp add: n_def avail_in_def 2 buffer_wf_def min_def word_le_nat_alt unat_sub_le)
    have e: "xd3_encode_buffer_leftover s = Some (buffer_input s2)" using 1 None 2(1) by (simp add: xd3_encode_buffer_leftover_def)
    have l: "length (held s @ take n (ein s)) \<le> ?w" using w by (auto simp: n_def buffer_wf_def min_def)
    show ?thesis
    proof (cases "n < length (ein s)")
      case True
      then show ?thesis using e l w n unfolding buffer_input_def Let_def by (auto simp: 2 buffer_wf_def held_def)
    next
      case False
      then have "take n (ein s) = ein s" by simp
      then show ?thesis using e l w n False ub [of "length (held s @ ein s)"] unfolding buffer_input_def Let_def
        by (auto simp: 2 buffer_wf_def held_def word_less_nat_alt)
    qed
  qed
qed

text \<open>A client that supplies more than two windows at once.\<close>

lemma leftover_overflow:
  assumes s: "buf_in s" "buf s = []" "buf_leftover s = None" "2 * unat (winsize s) < length (ein s)" "length (ein s) < 2 ^ 64"
  shows "\<exists>t. xd3_encode_buffer_leftover s = Some (None, t) \<and> enc_postwin t = None"
proof -
  define n where "n = unat (winsize s)"
  define t where "t = s\<lparr>buf := [], buf_leftover := Some (drop n (ein s)), ein := take n (ein s)\<rparr>"
  have "unat (min (winsize s) (avail_in s)) = n"
    using s(4,5) by (simp add: avail_in_def min_def word_le_nat_alt n_def unat_of_nat_less)
  then have 1: "xd3_encode_buffer_leftover s = Some (None, t)"
    using s(1-4) by (simp add: xd3_encode_buffer_leftover_def buffer_alloc_def take_leftover_def buffer_input_def Let_def n_def t_def)
  let ?t = "(xd3_encode_reset t)\<lparr>ewindow := ewindow t + 1, enc_state := ENC_INPUT\<rparr>"
  have f: "buf_in ?t" "buf_leftover ?t = Some (drop n (ein s))" "winsize ?t = winsize s"
    using s(1) by (simp_all add: xd3_encode_reset_def reset_chains_def reset_source_def t_def split: option.split)
  then have "xd3_encode_buffer_leftover ?t = None"
    using s(4) by (simp add: xd3_encode_buffer_leftover_def buffer_alloc_def take_leftover_def n_def)
  then have "enc_postwin t = None" using f(2) by (simp add: enc_postwin_def enc_flush_label_def needs_buffer_def seqo_def Let_def)
  then show ?thesis using 1 by blast
qed

subsection \<open>Properties\<close>


definition small_source :: xd3_source where
  "small_source =
     \<lparr>blksize = 4, max_winsize = 16384, curblkno = 0, onblk = 0, curblk = None, srclen = 0, srcbase = 0, shiftby = 2, maskby = 3,
      cpyoff_blocks = 0, cpyoff_blkoff = 0, getblkno = 0, max_blkno = 0, onlastblk = 0, eof_known = False\<rparr>"


text \<open>C13. Decoding ends: for every delta, source, allocator and flags, \<open>xd3_decode_memory\<close> returns, and writes no
  more than \<open>output_size_max\<close> bytes. In particular no delta makes it loop, although every window may repeat the
  header states and every instruction may be resumed.\<close>

theorem decode_memory_returns:
  assumes "\<forall>S. source = Some S \<longrightarrow> length S \<le> 2 ^ 63" "unat omax \<le> 2 ^ 63"
  shows "\<exists>r out. xd3_decode_memory m D source omax fl = Some (r, out) \<and> length out \<le> unat omax"
  using decode_memory_total [of source m D omax fl] assms by auto

theorem decode_memory_returns_witness:
  "\<exists>r out. xd3_decode_memory \<lparr>alloc_ok = \<lambda>n. n < 2, alloc_cnt = 0, enc_free = 0\<rparr> [0xd6, 0xc3, 0xc4, 0, 0, 1, 5, 0] (Some [1, 2, 3]) 10 0
     = Some (r, out) \<and> length out \<le> unat (10 :: u64)"
  by (rule decode_memory_returns) simp_all



text \<open>C34. Errors of the whole-buffer functions: the codes with which the state machine talks to its client
  (\<open>XD3_INPUT\<close>, \<open>XD3_OUTPUT\<close>, \<open>XD3_GETSRCBLK\<close>, \<open>XD3_GOTHEADER\<close>, \<open>XD3_WINSTART\<close>, \<open>XD3_WINFINISH\<close>) never
  reach the caller of \<open>xd3_encode_memory\<close> or \<open>xd3_decode_memory\<close>: a code other than 0 is an error.\<close>

theorem memory_codes_are_errors:
  assumes "xd3_encode_memory m inp source omax fl = Some (Some e, out) \<or> xd3_decode_memory m inp source omax fl = Some (Some e, out)"
  shows "e \<notin> {XD3_INPUT, XD3_OUTPUT, XD3_GETSRCBLK, XD3_GOTHEADER, XD3_WINSTART, XD3_WINFINISH}"
  using assms encode_memory_codes decode_memory_codes unfolding resumable_def by blast

theorem memory_codes_are_errors_witness:
  "XD3_INVALID_INPUT \<notin> {XD3_INPUT, XD3_OUTPUT, XD3_GETSRCBLK, XD3_GOTHEADER, XD3_WINSTART, XD3_WINFINISH}
   \<and> xd3_decode_memory \<lparr>alloc_ok = \<lambda>_. True, alloc_cnt = 0, enc_free = 0\<rparr> [1, 2, 3, 4, 5] None 10 0 = Some (Some XD3_INVALID_INPUT, [])"
proof -
  have c: "config_secondary 0" "vcdiff_magic \<noteq> [1, 2, 3, 4]" by code_simp+
  have "xd3_decode_memory \<lparr>alloc_ok = \<lambda>_. True, alloc_cnt = 0, enc_free = 0\<rparr> [1, 2, 3, 4, 5] None 10 0 = Some (Some XD3_INVALID_INPUT, [])"
    by (rule decode_memory_bad_header [OF c(1)]) (use c(2) in auto)
  then show ?thesis using memory_codes_are_errors [OF disjI2] by blast
qed

text \<open>C33. Malformed headers: when the input does not start with the VCDIFF magic and version, or the header indicator
  has reserved bits, \<open>xd3_decode_memory\<close> reports \<open>XD3_INVALID_INPUT\<close> and writes nothing.\<close>

theorem decode_memory_rejects_header:
  assumes "config_secondary fl" "\<forall>S. source = Some S \<longrightarrow> length S \<le> 2 ^ 63" "5 \<le> length D"
    "take 4 D \<noteq> [0xd6, 0xc3, 0xc4, 0x00] \<or> ucast (D ! 4) AND VCD_INV \<noteq> (0 :: usize_t)"
  shows "xd3_decode_memory m D source omax fl = Some (Some XD3_INVALID_INPUT, [])"
proof -
  have "vcdiff_magic = [0xd6, 0xc3, 0xc4, 0x00]" by code_simp
  then show ?thesis using decode_memory_bad_header [of fl source D m omax] assms by auto
qed

theorem decode_memory_rejects_header_witness:
  "xd3_decode_memory \<lparr>alloc_ok = \<lambda>_. True, alloc_cnt = 0, enc_free = 0\<rparr> [0xd6, 0xc3, 0xc4, 0x53, 0, 0] (Some [1]) 10 0
     = Some (Some XD3_INVALID_INPUT, [])"
proof -
  have "config_secondary 0" by code_simp
  then show ?thesis by (intro decode_memory_rejects_header) simp_all
qed

text \<open>C32. Configuration: \<open>xd3_config_stream\<close> succeeds exactly when no secondary compressor is asked for, the size of the
  \<open>small_prev\<close> array is 0 (the default) or a power of two, and a matcher supplied by the client looks at 4 bytes or
  more and steps; it reports \<open>XD3_INTERNAL\<close> or \<open>XD3_INVALID\<close> otherwise. In the stream it returns, every position
  masked with \<open>sprevmask\<close> is an index of that array.\<close>

theorem config_stream_valid:
  "case xd3_config_stream cfg m of
     Inr s \<Rightarrow> config_secondary (cfg_flags cfg) \<and> (cfg_sprevsz cfg = 0 \<or> (\<exists>k < 64. cfg_sprevsz cfg = 2 ^ k))
       \<and> (cfg_smatch cfg = XD3_SMATCH_SOFT \<longrightarrow> MIN_MATCH \<le> large_look (smatcher s) \<and> large_step (smatcher s) \<noteq> 0 \<and> MIN_MATCH \<le> small_look (smatcher s))
       \<and> enc_state s = ENC_INIT \<and> winsize s \<noteq> 0 \<and> (\<forall>p. p AND sprevmask s < sprevsz s)
   | Inl e \<Rightarrow> (e = XD3_INTERNAL \<and> (\<not> config_secondary (cfg_flags cfg) \<or> cfg_sprevsz cfg \<noteq> 0 \<and> (\<nexists>k. k < 64 \<and> cfg_sprevsz cfg = 2 ^ k)))
       \<or> (e = XD3_INVALID \<and> cfg_smatch cfg = XD3_SMATCH_SOFT \<and> (large_look (cfg_smatcher_soft cfg) < MIN_MATCH
            \<or> large_step (cfg_smatcher_soft cfg) = 0 \<or> small_look (cfg_smatcher_soft cfg) < MIN_MATCH))"
proof -
  define psz where "psz = (if cfg_sprevsz cfg \<noteq> 0 then cfg_sprevsz cfg else XD3_DEFAULT_SPREVSZ)"
  have d: "XD3_DEFAULT_SPREVSZ = 2 ^ 18" by (simp add: XD3_DEFAULT_SPREVSZ_def)
  then have p: "(\<exists>k < 64. psz = 2 ^ k) \<longleftrightarrow> cfg_sprevsz cfg = 0 \<or> (\<exists>k < 64. cfg_sprevsz cfg = 2 ^ k)"
    unfolding psz_def by (cases "cfg_sprevsz cfg = 0") (auto intro!: exI [of _ 18])
  have m: "\<forall>x. x AND (psz - 1) < psz" if "\<exists>k < 64. psz = 2 ^ k" using that and_pow2_mask by blast
  have z: "XD3_DEFAULT_WINSIZE \<noteq> 0" by code_simp
  have sm: "config_smatcher cfg = Inr sm \<Longrightarrow> cfg_smatch cfg = XD3_SMATCH_SOFT \<Longrightarrow> sm = cfg_smatcher_soft cfg" for sm
    by (auto simp: config_smatcher_def Let_def split: if_splits)
  have sl: "config_smatcher cfg = Inl e \<Longrightarrow> e = XD3_INVALID" for e
    by (auto simp: config_smatcher_def Let_def split: if_splits xd3_smatch_cfg.splits)
  show ?thesis
  proof (cases "config_secondary (cfg_flags cfg) \<and> (\<exists>k < 64. psz = 2 ^ k)")
    case False
    then have "xd3_config_stream cfg m = Inl XD3_INTERNAL"
      by (auto simp: xd3_config_stream_def psz_def [symmetric] check_pow2_ok)
    then show ?thesis using False p by auto
  next
    case True
    then have c: "xd3_config_stream cfg m = map_sum id (encoder_stream cfg m) (config_smatcher cfg)"
      by (auto simp: xd3_config_stream_def psz_def [symmetric] check_pow2_ok)
    show ?thesis
    proof (cases "config_smatcher cfg")
      case (Inl e)
      then show ?thesis using c sl [OF Inl] config_smatcher_total [of cfg] by (auto simp: not_le)
    next
      case (Inr sm)
      have s: "smatcher (encoder_stream cfg m sm) = sm" "enc_state (encoder_stream cfg m sm) = ENC_INIT" "winsize (encoder_stream cfg m sm) \<noteq> 0"
        "sprevsz (encoder_stream cfg m sm) = psz" "sprevmask (encoder_stream cfg m sm) = psz - 1"
        using z by (simp_all add: encoder_stream_def Let_def psz_def)
      show ?thesis using c Inr sm [OF Inr] config_smatcher_total [of cfg] True p m s by auto
    qed
  qed
qed

theorem config_stream_valid_witness:
  "case xd3_config_stream (zero_config 3) \<lparr>alloc_ok = \<lambda>_. True, alloc_cnt = 0, enc_free = 0\<rparr> of
     Inr s \<Rightarrow> config_secondary (cfg_flags (zero_config 3)) \<and> (cfg_sprevsz (zero_config 3) = 0 \<or> (\<exists>k < 64. cfg_sprevsz (zero_config 3) = 2 ^ k))
       \<and> (cfg_smatch (zero_config 3) = XD3_SMATCH_SOFT \<longrightarrow> MIN_MATCH \<le> large_look (smatcher s) \<and> large_step (smatcher s) \<noteq> 0 \<and> MIN_MATCH \<le> small_look (smatcher s))
       \<and> enc_state s = ENC_INIT \<and> winsize s \<noteq> 0 \<and> (\<forall>p. p AND sprevmask s < sprevsz s)
   | Inl e \<Rightarrow> (e = XD3_INTERNAL \<and> (\<not> config_secondary (cfg_flags (zero_config 3)) \<or> cfg_sprevsz (zero_config 3) \<noteq> 0 \<and> (\<nexists>k. k < 64 \<and> cfg_sprevsz (zero_config 3) = 2 ^ k)))
       \<or> (e = XD3_INVALID \<and> cfg_smatch (zero_config 3) = XD3_SMATCH_SOFT \<and> (large_look (cfg_smatcher_soft (zero_config 3)) < MIN_MATCH
            \<or> large_step (cfg_smatcher_soft (zero_config 3)) = 0 \<or> small_look (cfg_smatcher_soft (zero_config 3)) < MIN_MATCH))"
  by (rule config_stream_valid)

text \<open>C35. Buffering of input: while a client supplies at most \<open>winsize\<close> bytes at a time,
  \<open>xd3_encode_buffer_leftover\<close> stays inside its buffer of \<open>winsize\<close> bytes and loses no byte: what it held and the
  new input are the next window and the leftover, or are all kept in the buffer when it asks for more.\<close>

theorem buffer_leftover_keeps_bytes:
  assumes "length (held s) \<le> unat (winsize s)" "length (ein s) \<le> unat (winsize s)"
  shows "\<exists>r t. xd3_encode_buffer_leftover s = Some (r, t) \<and> winsize t = winsize s
     \<and> (case r of
          None \<Rightarrow> length (held t) \<le> unat (winsize t) \<and> length (ein t) \<le> unat (winsize t) \<and> buf t = []
            \<and> ein t @ (case buf_leftover t of None \<Rightarrow> [] | Some rest \<Rightarrow> rest) = held s @ ein s
        | Some e \<Rightarrow> e = XD3_INPUT \<and> buf_leftover t = None \<and> buf t = held s @ ein s \<and> length (buf t) < unat (winsize s)
             \<or> e = ENOMEM \<and> held t = held s \<and> ein t = ein s \<and> \<not> mem_ok (emem s))"
  using buffer_leftover_ok [of s] assms unfolding buffer_wf_def conj_assoc by blast

definition two_windows :: xd3_estream where
  "two_windows = (encoder_stream ((zero_config 0)\<lparr>cfg_winsize := 2\<rparr>) \<lparr>alloc_ok = \<lambda>_. True, alloc_cnt = 0, enc_free = 0\<rparr> smatcher_default)
     \<lparr>buf_in := True, buf := [9], ein := [1, 2]\<rparr>"

theorem buffer_leftover_keeps_bytes_witness:
  "\<exists>r t. xd3_encode_buffer_leftover two_windows = Some (r, t) \<and> winsize t = winsize two_windows
     \<and> (case r of
          None \<Rightarrow> length (held t) \<le> unat (winsize t) \<and> length (ein t) \<le> unat (winsize t) \<and> buf t = []
            \<and> ein t @ (case buf_leftover t of None \<Rightarrow> [] | Some rest \<Rightarrow> rest) = held two_windows @ ein two_windows
        | Some e \<Rightarrow> e = XD3_INPUT \<and> buf_leftover t = None \<and> buf t = held two_windows @ ein two_windows
             \<and> length (buf t) < unat (winsize two_windows)
             \<or> e = ENOMEM \<and> held t = held two_windows \<and> ein t = ein two_windows \<and> \<not> mem_ok (emem two_windows))"
  by (rule buffer_leftover_keeps_bytes) (simp_all add: two_windows_def held_def encoder_stream_def Let_def zero_config_def)



end
