(* ===== verification/Dedup_Backend.thy ===== *)
theory Dedup_Backend
  imports Prelude
begin

section \<open>The server's backend (server/src/backend)\<close>

text \<open>
  The share index in the key-value store with its write batch, the containers that hold share data, the
  dispenser of container names and the recipe files. LevelDB is a map: \<open>Write\<close> applies a batch in order
  and \<open>Get\<close> reads what has been written (LevelDB's own documentation); I/O failures of the store and of
  the file system, and the mutexes, are not modelled. A container is a memory-mapped file of
  \<open>CONTAINER_SIZE\<close> bytes; the read-only mappings of the container cache see the same file. The values of
  the index are records instead of the byte images of the C++ structures.

  An operation maps a state to \<open>Some (result, state')\<close>; a result \<open>Inl e\<close> is an exception, which leaves
  the state as it was at the throw, and \<open>None\<close> is a memory fault. \<open>PARANOID_CHECK\<close> and
  \<open>LOOP_PARALLEL\<close> are false and \<open>FORCE_LOCAL\<close> is true in config.hpp.
\<close>

datatype dedup_error =
    Name_space_exhausted | Container_exists | Container_not_exists | Bad_numeric_cast
  | Recipe_not_in_cache | Recipe_not_open | No_such_share_index | Base_index_not_exists | Bad_file_name

type_synonym ('s, 'a) act = "'s \<Rightarrow> ((dedup_error + 'a) \<times> 's) option"

definition returnM :: "'a \<Rightarrow> ('s, 'a) act" where
  "returnM x s = Some (Inr x, s)"

definition throw :: "dedup_error \<Rightarrow> ('s, 'a) act" where
  "throw e s = Some (Inl e, s)"

definition andThen :: "('s, 'a) act \<Rightarrow> ('a \<Rightarrow> ('s, 'b) act) \<Rightarrow> ('s, 'b) act" where
  "andThen f g s = (case f s of None \<Rightarrow> None | Some (Inl e, s') \<Rightarrow> Some (Inl e, s') | Some (Inr x, s') \<Rightarrow> g x s')"

subsection \<open>Types (def/struct.hpp, def/config.hpp)\<close>

type_synonym fingerprint_t = bytes
type_synonym key_t = bytes
type_synonym user_id_t = "32 word"

definition CONTAINER_SIZE :: nat where "CONTAINER_SIZE = 262144"
definition INTERNAL_FILE_NAME_SIZE :: nat where "INTERNAL_FILE_NAME_SIZE = 16"
definition BATCH_SIZE :: int where "BATCH_SIZE = 512"
definition MAX_DELTA_DEPTH :: u8 where "MAX_DELTA_DEPTH = 1"

datatype IndexPrefix = RECIPE | SHARE_INDEX

definition ToIndexKey :: "IndexPrefix \<Rightarrow> fingerprint_t \<Rightarrow> key_t" where
  "ToIndexKey pre fp = (case pre of RECIPE \<Rightarrow> 0 | SHARE_INDEX \<Rightarrow> 1) # fp"

text \<open>\<open>shareIndexHead_t\<close> followed by the user references; \<open>shareSize\<close> is an \<open>int\<close> set by
  \<open>boost::numeric_cast\<close>.\<close>

record shareIndex =
  shareSize :: int
  numOfUsers :: nat
  deltaDepth :: u8
  deltaSize :: nat
  baseFP :: fingerprint_t
  containerName :: string
  shareOffset :: nat
  userRefs :: "user_id_t list"

text \<open>\<open>fileRecipeHead_t\<close> and \<open>fileRecipeEntry_t\<close>; the buffer has room for all entries of the file.\<close>

record fileRecipeEntry =
  entryFP :: fingerprint_t
  secretID :: int
  secretSize :: int
  entryShareSize :: int

record fileRecipe =
  recipeUser :: user_id_t
  recipeFileSize :: int
  numOfShares :: nat
  recipeEntries :: "fileRecipeEntry list"

text \<open>The fields of \<open>fileShareMetaHead_t\<close> that the backend reads.\<close>

record fileShareMetaHead =
  metaFileSize :: int
  numOfPastSecrets :: nat
  numOfComingSecrets :: nat

record backend =
  db :: "key_t \<rightharpoonup> shareIndex"
  writeBatch :: "(key_t \<times> shareIndex) list"
  batchCnt :: int
  dispenserName :: string
  shareContainer :: "string option"
  shareContainerName :: string
  shareContainerOffset :: nat
  containers :: "string \<rightharpoonup> bytes"
  unfinishedRecipes :: "key_t \<rightharpoonup> (fileRecipe \<times> nat)"
  recipeFiles :: "key_t \<rightharpoonup> fileRecipe"

subsection \<open>The name dispenser\<close>

text \<open>The first character that is not \<open>z\<close> is incremented and the ones before it become \<open>a\<close>;
  \<open>None\<close> when all are \<open>z\<close>.\<close>

definition char_succ :: "char \<Rightarrow> char" where
  "char_succ c = char_of (of_char c + 1 :: nat)"

fun next_name :: "string \<Rightarrow> string option" where
  "next_name [] = None"
| "next_name (c # cs) =
     (if c = CHR ''z'' then map_option ((#) (CHR ''a'')) (next_name cs) else Some (char_succ c # cs))"

definition first_name :: string where
  "first_name = replicate INTERNAL_FILE_NAME_SIZE (CHR ''a'')"

definition dispenser_get :: "(backend, string) act" where
  "dispenser_get b =
     (case next_name (dispenserName b) of
        None \<Rightarrow> throw Name_space_exhausted b
      | Some n \<Rightarrow> returnM (dispenserName b) (b\<lparr>dispenserName := n\<rparr>))"

subsection \<open>Containers\<close>

text \<open>\<open>MutableContainer::create\<close>: a new file of zeros, mapped in place of the old one.\<close>

definition container_create :: "string \<Rightarrow> (backend, unit) act" where
  "container_create fileName b =
     (if containers b fileName \<noteq> None then throw Container_exists b
      else returnM () (b\<lparr>containers := (containers b)(fileName \<mapsto> replicate CONTAINER_SIZE 0), shareContainer := Some fileName\<rparr>))"

definition createShareContainer :: "(backend, unit) act" where
  "createShareContainer =
     andThen dispenser_get (\<lambda>n b.
       andThen (container_create n) (\<lambda>_ b'. returnM () (b'\<lparr>shareContainerOffset := 0\<rparr>)) (b\<lparr>shareContainerName := n\<rparr>))"

definition splice :: "bytes \<Rightarrow> nat \<Rightarrow> bytes \<Rightarrow> bytes" where
  "splice buf off xs = take off buf @ xs @ drop (off + length xs) buf"

text \<open>The copy into the mapped region; \<open>None\<close> when it leaves the region or nothing is mapped.\<close>

definition container_write :: "bytes \<Rightarrow> (backend, string \<times> nat) act" where
  "container_write shareData b =
     (case shareContainer b of
        None \<Rightarrow> None
      | Some n \<Rightarrow>
          (case containers b n of
             None \<Rightarrow> None
           | Some region \<Rightarrow>
               if shareContainerOffset b + length shareData \<le> length region
               then returnM (shareContainerName b, shareContainerOffset b)
                      (b\<lparr>containers := (containers b)(n \<mapsto> splice region (shareContainerOffset b) shareData),
                        shareContainerOffset := shareContainerOffset b + length shareData\<rparr>)
               else None))"

definition container_size :: "backend \<Rightarrow> nat" where
  "container_size b =
     (case shareContainer b of None \<Rightarrow> 0 | Some n \<Rightarrow> (case containers b n of None \<Rightarrow> 0 | Some region \<Rightarrow> length region))"

definition putShareData :: "bytes \<Rightarrow> (backend, string \<times> nat) act" where
  "putShareData shareData b =
     andThen (if shareContainerOffset b + length shareData > container_size b then createShareContainer else returnM ())
       (\<lambda>_. container_write shareData) b"

text \<open>\<open>getShareData\<close> fills a span, here of \<open>n\<close> bytes; \<open>None\<close> when the read leaves the region.\<close>

definition getShareData :: "string \<Rightarrow> nat \<Rightarrow> nat \<Rightarrow> backend \<Rightarrow> (dedup_error + bytes) option" where
  "getShareData fileName off n b =
     (case containers b fileName of
        None \<Rightarrow> Some (Inl Container_not_exists)
      | Some region \<Rightarrow> if off + n \<le> length region then Some (Inr (take n (drop off region))) else None)"

subsection \<open>The share index\<close>

definition BatchFlush :: "backend \<Rightarrow> backend" where
  "BatchFlush b = b\<lparr>db := foldl (\<lambda>m (k, v). m(k \<mapsto> v)) (db b) (writeBatch b), writeBatch := [], batchCnt := 0\<rparr>"

definition Put :: "key_t \<Rightarrow> shareIndex \<Rightarrow> backend \<Rightarrow> backend" where
  "Put k v b =
     (let b1 = b\<lparr>writeBatch := writeBatch b @ [(k, v)], batchCnt := batchCnt b + 1\<rparr>
      in if batchCnt b1 > BATCH_SIZE then BatchFlush b1 else b1)"

definition getShareIndex :: "key_t \<Rightarrow> backend \<Rightarrow> shareIndex option" where
  "getShareIndex k b = db b k"

definition putShareIndex :: "key_t \<Rightarrow> shareIndex \<Rightarrow> backend \<Rightarrow> backend" where
  "putShareIndex k v b = Put k v b"

definition updateShareIndex :: "user_id_t \<Rightarrow> key_t \<Rightarrow> shareIndex \<Rightarrow> backend \<Rightarrow> backend" where
  "updateShareIndex userID k v b =
     Put k (v\<lparr>userRefs := take (numOfUsers v) (userRefs v) @ [userID], numOfUsers := numOfUsers v + 1\<rparr>) b"

subsection \<open>Recipes\<close>

text \<open>\<open>putRecipeFile\<close> returns the position of the first entry to write. \<open>emplace\<close> leaves an entry that is
  there already, but its head is set again.\<close>

definition zero_entry :: fileRecipeEntry where
  "zero_entry = \<lparr>entryFP = replicate 32 0, secretID = 0, secretSize = 0, entryShareSize = 0\<rparr>"

definition empty_recipe :: "nat \<Rightarrow> fileRecipe" where
  "empty_recipe totalNumOfShares = \<lparr>recipeUser = 0, recipeFileSize = 0, numOfShares = 0, recipeEntries = replicate totalNumOfShares zero_entry\<rparr>"

definition putRecipeFile :: "user_id_t \<Rightarrow> key_t \<Rightarrow> fileShareMetaHead \<Rightarrow> nat \<Rightarrow> (backend, nat) act" where
  "putRecipeFile userID k head totalNumOfShares b =
     (if numOfPastSecrets head = 0 then
        let (r, n) = (case unfinishedRecipes b k of Some x \<Rightarrow> x | None \<Rightarrow> (empty_recipe totalNumOfShares, totalNumOfShares));
            r' = r\<lparr>recipeUser := userID, recipeFileSize := metaFileSize head, numOfShares := 0\<rparr>
        in returnM 0 (b\<lparr>unfinishedRecipes := (unfinishedRecipes b)(k \<mapsto> (r', n))\<rparr>)
      else
        case unfinishedRecipes b k of
          None \<Rightarrow> throw Recipe_not_in_cache b
        | Some _ \<Rightarrow> returnM (numOfPastSecrets head) b)"

text \<open>One entry of the span that \<open>putRecipeFile\<close> returned; \<open>None\<close> when it lies outside the buffer.\<close>

definition setRecipeEntry :: "key_t \<Rightarrow> nat \<Rightarrow> fileRecipeEntry \<Rightarrow> (backend, unit) act" where
  "setRecipeEntry k i e b =
     (case unfinishedRecipes b k of
        None \<Rightarrow> None
      | Some (r, n) \<Rightarrow>
          if i < length (recipeEntries r)
          then returnM () (b\<lparr>unfinishedRecipes := (unfinishedRecipes b)(k \<mapsto> (r\<lparr>recipeEntries := (recipeEntries r)[i := e]\<rparr>, n))\<rparr>)
          else None)"

definition finishRecipeFile :: "key_t \<Rightarrow> fileShareMetaHead \<Rightarrow> (backend, unit) act" where
  "finishRecipeFile k head b =
     (case unfinishedRecipes b k of
        None \<Rightarrow> throw Recipe_not_in_cache b
      | Some (r, n) \<Rightarrow>
          let r' = r\<lparr>numOfShares := numOfShares r + numOfComingSecrets head\<rparr>;
              b' = (if n = numOfShares r'
                    then b\<lparr>recipeFiles := (recipeFiles b)(k \<mapsto> r'), unfinishedRecipes := (unfinishedRecipes b)(k := None)\<rparr>
                    else b\<lparr>unfinishedRecipes := (unfinishedRecipes b)(k \<mapsto> (r', n))\<rparr>)
          in returnM () (BatchFlush b'))"

text \<open>\<open>getRecipeData\<close>. The cache of recipes is a \<open>boost\<close> class: its lookup is the argument \<open>cached\<close>.\<close>

definition getRecipeData :: "(key_t \<Rightarrow> fileRecipe option) \<Rightarrow> key_t \<Rightarrow> backend \<Rightarrow> dedup_error + fileRecipe" where
  "getRecipeData cached k b =
     (case cached k of
        Some r \<Rightarrow> Inr r
      | None \<Rightarrow> (case recipeFiles b k of None \<Rightarrow> Inl Recipe_not_open | Some r \<Rightarrow> Inr r))"

subsection \<open>Construction\<close>

definition empty_backend :: backend where
  "empty_backend = \<lparr>db = Map.empty, writeBatch = [], batchCnt = 0, dispenserName = first_name, shareContainer = None, shareContainerName = '''',
     shareContainerOffset = 0, containers = Map.empty, unfinishedRecipes = Map.empty, recipeFiles = Map.empty\<rparr>"

text \<open>The constructor of \<open>BackendFacade\<close>, over a container directory and a store that may not be empty.\<close>

definition BackendFacade :: "(string \<rightharpoonup> bytes) \<Rightarrow> (key_t \<rightharpoonup> shareIndex) \<Rightarrow> (key_t \<rightharpoonup> fileRecipe) \<Rightarrow> ((dedup_error + unit) \<times> backend) option" where
  "BackendFacade dir store rf = createShareContainer (empty_backend\<lparr>containers := dir, db := store, recipeFiles := rf\<rparr>)"

end
