(* ===== verification/Dedup_Core.thy ===== *)
theory Dedup_Core
  imports Prelude Dedup_Backend Xd3_Stream
begin

section \<open>The deduplication core (server/src/dedup)\<close>

text \<open>
  Storing shares as unique data or as deltas of a similar share, finding a similar share by its super
  features, the two stages of an upload and the restoration of shares and of files. \<open>PeerMediator\<close> calls
  the local core (\<open>FORCE_LOCAL\<close>). Parameters: the two allocators of the delta codec (\<open>mc\<close> for encoding,
  \<open>mr\<close> for decoding), \<open>malloc_ok\<close> for the unchecked \<open>malloc\<close> of \<open>compute_delta\<close>, the super
  features \<open>gen\<close> of a share (theory \<open>Rabin\<close> models \<open>finesse_super_feature\<close>, whose result also depends on memory
  behind the share, so that every upload may have its own \<open>gen\<close>), the hash
  \<open>toFP\<close> of OpenSSL.
\<close>

subsection \<open>The index of super features (delta.hpp)\<close>

record superF =
  sf1 :: u64
  sf2 :: u64
  sf3 :: u64

record Delta =
  superFeature1Map :: "u64 \<rightharpoonup> fingerprint_t"
  superFeature2Map :: "u64 \<rightharpoonup> fingerprint_t"
  superFeature3Map :: "u64 \<rightharpoonup> fingerprint_t"

definition superFeatureIndexUpdate :: "superF \<Rightarrow> fingerprint_t \<Rightarrow> Delta \<Rightarrow> Delta" where
  "superFeatureIndexUpdate features fp d =
     d\<lparr>superFeature1Map := (superFeature1Map d)(sf1 features \<mapsto> fp),
       superFeature2Map := (superFeature2Map d)(sf2 features \<mapsto> fp),
       superFeature3Map := (superFeature3Map d)(sf3 features \<mapsto> fp)\<rparr>"

definition superFeatureIndex :: "superF \<Rightarrow> Delta \<Rightarrow> fingerprint_t option" where
  "superFeatureIndex features d =
     (case superFeature1Map d (sf1 features) of
        Some fp \<Rightarrow> Some fp
      | None \<Rightarrow>
          (case superFeature2Map d (sf2 features) of
             Some fp \<Rightarrow> Some fp
           | None \<Rightarrow> superFeature3Map d (sf3 features)))"

text \<open>\<open>ComputeDelta\<close> returns an empty vector when there is no delta.\<close>

definition ComputeDelta :: "xd3_mem \<Rightarrow> bool \<Rightarrow> bytes \<Rightarrow> bytes \<Rightarrow> bytes option" where
  "ComputeDelta mc malloc_ok base_data src_data =
     map_option (\<lambda>r. case r of None \<Rightarrow> [] | Some d \<Rightarrow> delta_data d) (compute_delta mc malloc_ok base_data src_data)"

definition RestoreSrc :: "xd3_mem \<Rightarrow> bytes \<Rightarrow> bytes \<Rightarrow> nat \<Rightarrow> bytes option" where
  "RestoreSrc mr base_data delta_bytes srcSize =
     map_option (\<lambda>(r, out). case r of None \<Rightarrow> out | Some _ \<Rightarrow> [])
       (restore_delta mr base_data \<lparr>delta_data = delta_bytes, delta_srcSize = of_nat srcSize\<rparr>)"

subsection \<open>Restoring a share\<close>

text \<open>\<open>std::copy\<close> of the restored bytes to the start of a span; \<open>None\<close> when they do not fit.\<close>

definition copy_into :: "bytes \<Rightarrow> bytes \<Rightarrow> bytes option" where
  "copy_into dst xs = (if length xs \<le> length dst then Some (xs @ drop (length xs) dst) else None)"

partial_function (option) restoreDeltaShare :: "xd3_mem \<Rightarrow> backend \<Rightarrow> shareIndex \<Rightarrow> bytes \<Rightarrow> (dedup_error + bytes) option" where
  "restoreDeltaShare mr b head dst =
     (case getShareIndex (ToIndexKey SHARE_INDEX (baseFP head)) b of
        None \<Rightarrow> Some (Inl Base_index_not_exists)
      | Some bi \<Rightarrow>
          Option.bind
            (if deltaDepth bi = 0 then getShareData (containerName bi) (shareOffset bi) (nat (shareSize bi)) b
             else restoreDeltaShare mr b bi (replicate (nat (shareSize bi)) 0))
            (\<lambda>rb. case rb of Inl e \<Rightarrow> Some (Inl e) | Inr base_data \<Rightarrow>
               Option.bind (getShareData (containerName head) (shareOffset head) (deltaSize head) b)
                 (\<lambda>rd. case rd of Inl e \<Rightarrow> Some (Inl e) | Inr delta_bytes \<Rightarrow>
                    Option.bind (RestoreSrc mr base_data delta_bytes (nat (shareSize head)))
                      (\<lambda>xs. map_option Inr (copy_into dst xs)))))"

definition restoreShare :: "xd3_mem \<Rightarrow> fingerprint_t \<Rightarrow> bytes \<Rightarrow> backend \<Rightarrow> (dedup_error + bytes) option" where
  "restoreShare mr shareFP dst b =
     (case getShareIndex (ToIndexKey SHARE_INDEX shareFP) b of
        None \<Rightarrow> Some (Inl No_such_share_index)
      | Some i \<Rightarrow>
          if deltaDepth i > 0 then restoreDeltaShare mr b i dst
          else getShareData (containerName i) (shareOffset i) (length dst) b)"

subsection \<open>Storing a share\<close>

record core =
  core_backend :: backend
  core_delta :: Delta

definition on_backend :: "(backend, 'a) act \<Rightarrow> (core, 'a) act" where
  "on_backend f s = map_option (\<lambda>(r, b). (r, s\<lparr>core_backend := b\<rparr>)) (f (core_backend s))"

definition modifyM :: "('s \<Rightarrow> 's) \<Rightarrow> ('s, unit) act" where
  "modifyM f s = returnM () (f s)"

text \<open>\<open>boost::numeric_cast\<close> to \<open>int\<close>.\<close>

definition numeric_cast_int :: "nat \<Rightarrow> ('s, int) act" where
  "numeric_cast_int n = (if n < 2 ^ 31 then returnM (int n) else throw Bad_numeric_cast)"

text \<open>The part that the two ways of storing share: write the data, then the index value, then the features.\<close>

definition storeShare :: "superF \<Rightarrow> fingerprint_t \<Rightarrow> user_id_t \<Rightarrow> nat \<Rightarrow> bytes \<Rightarrow> u8 \<Rightarrow> fingerprint_t \<Rightarrow> nat \<Rightarrow> (core, unit) act" where
  "storeShare features shareFP userID sz written depth baseFP' dsize =
     andThen (on_backend (putShareData written)) (\<lambda>(cn, off).
       andThen (numeric_cast_int sz) (\<lambda>n.
         modifyM (\<lambda>s. s\<lparr>core_backend := putShareIndex (ToIndexKey SHARE_INDEX shareFP)
                           \<lparr>shareSize = n, numOfUsers = 1, deltaDepth = depth, deltaSize = dsize, baseFP = baseFP',
                            containerName = cn, shareOffset = off, userRefs = [userID]\<rparr> (core_backend s),
                       core_delta := superFeatureIndexUpdate features shareFP (core_delta s)\<rparr>)))"

text \<open>The base of a share and the delta against it; \<open>Inr None\<close> when the share is not compressed.\<close>

definition findDelta :: "xd3_mem \<Rightarrow> xd3_mem \<Rightarrow> bool \<Rightarrow> superF \<Rightarrow> bytes \<Rightarrow> core
    \<Rightarrow> (dedup_error + (fingerprint_t \<times> shareIndex \<times> bytes) option) option" where
  "findDelta mc mr malloc_ok features shareData s =
     (case superFeatureIndex features (core_delta s) of
        None \<Rightarrow> Some (Inr None)
      | Some fp \<Rightarrow>
          (case getShareIndex (ToIndexKey SHARE_INDEX fp) (core_backend s) of
             None \<Rightarrow> Some (Inr None)
           | Some bi \<Rightarrow>
               if deltaDepth bi < MAX_DELTA_DEPTH then
                 Option.bind
                   (if deltaDepth bi = 0
                    then getShareData (containerName bi) (shareOffset bi) (nat (shareSize bi)) (core_backend s)
                    else restoreDeltaShare mr (core_backend s) bi (replicate (nat (shareSize bi)) 0))
                   (\<lambda>rb. case rb of Inl e \<Rightarrow> Some (Inl e) | Inr base_data \<Rightarrow>
                      map_option (\<lambda>d. Inr (if d \<noteq> [] then Some (fp, bi, d) else None))
                        (ComputeDelta mc malloc_ok base_data shareData))
               else Some (Inr None)))"

definition interUserIndexUpdate :: "xd3_mem \<Rightarrow> xd3_mem \<Rightarrow> bool \<Rightarrow> (bytes \<Rightarrow> superF) \<Rightarrow> fingerprint_t \<Rightarrow> user_id_t \<Rightarrow> bytes
    \<Rightarrow> (core, unit) act" where
  "interUserIndexUpdate mc mr malloc_ok gen shareFP userID shareData s =
     (case getShareIndex (ToIndexKey SHARE_INDEX shareFP) (core_backend s) of
        None \<Rightarrow>
          (case findDelta mc mr malloc_ok (gen shareData) shareData s of
             None \<Rightarrow> None
           | Some (Inl e) \<Rightarrow> throw e s
           | Some (Inr (Some (fp, bi, d))) \<Rightarrow>
               storeShare (gen shareData) shareFP userID (length shareData) d (deltaDepth bi + 1) fp (length d) s
           | Some (Inr None) \<Rightarrow>
               storeShare (gen shareData) shareFP userID (length shareData) shareData 0 (replicate 32 0) 0 s)
      | Some i \<Rightarrow>
          if userID \<notin> set (take (numOfUsers i) (userRefs i))
          then returnM () (s\<lparr>core_backend := updateShareIndex userID (ToIndexKey SHARE_INDEX shareFP) i (core_backend s)\<rparr>)
          else returnM () s)"

definition intraUserIndexUpdate :: "fingerprint_t \<Rightarrow> user_id_t \<Rightarrow> core \<Rightarrow> bool" where
  "intraUserIndexUpdate shareFP userID s =
     (case getShareIndex (ToIndexKey SHARE_INDEX shareFP) (core_backend s) of
        None \<Rightarrow> False
      | Some i \<Rightarrow> userID \<in> set (take (numOfUsers i) (userRefs i)))"

subsection \<open>Uploading a file\<close>

text \<open>\<open>shareMetaEntry_t\<close>. \<open>ParseFileShareMeta\<close> splits the buffer into the head, the name and the entries, which are arguments
  here; it throws for a negative number of entries.\<close>

record shareMetaEntry =
  metaShareFP :: fingerprint_t
  metaSecretID :: int
  metaSecretSize :: int
  metaShareSize :: int

definition FormatFullFileName :: "string \<Rightarrow> dedup_error + string" where
  "FormatFullFileName fullFileName =
     (if fullFileName = [] then Inl Bad_file_name
      else if List.hd fullFileName \<noteq> CHR ''/'' then
        if take 2 fullFileName = ''./'' \<or> take 3 fullFileName = ''../'' then Inl Bad_file_name
        else Inr (CHR ''/'' # fullFileName)
      else Inr fullFileName)"

definition le_bytes :: "nat \<Rightarrow> int \<Rightarrow> bytes" where
  "le_bytes k x = map (\<lambda>i. word_of_int (x div 256 ^ i)) [0..<k]"

definition ToRecipeFP :: "(bytes \<Rightarrow> fingerprint_t) \<Rightarrow> string \<Rightarrow> user_id_t \<Rightarrow> fingerprint_t" where
  "ToRecipeFP toFP fullFileName userID = toFP (map of_char fullFileName @ le_bytes 4 (uint userID))"

definition firstStageDedup :: "user_id_t \<Rightarrow> shareMetaEntry list \<Rightarrow> core \<Rightarrow> bool list" where
  "firstStageDedup userID entries s = map (\<lambda>e. intraUserIndexUpdate (metaShareFP e) userID s) entries"

text \<open>One turn of the loop of \<open>secondStageDedup\<close>: \<open>off\<close> is \<open>shareDataBufferOffset\<close>, whose new value is the result, and \<open>pos\<close>
  the position of the entry in the recipe. \<open>None\<close> also when the sizes in the metadata lead out of the share data.\<close>

definition secondStageStep :: "xd3_mem \<Rightarrow> xd3_mem \<Rightarrow> bool \<Rightarrow> (bytes \<Rightarrow> superF) \<Rightarrow> user_id_t \<Rightarrow> key_t \<Rightarrow> bytes
    \<Rightarrow> shareMetaEntry \<Rightarrow> bool \<Rightarrow> nat \<Rightarrow> nat \<Rightarrow> (core, nat) act" where
  "secondStageStep mc mr malloc_ok gen userID recipeKey shareData e dup off pos =
     andThen
       (if dup then returnM off
        else if metaShareSize e < 0 then throw Bad_numeric_cast
        else if off + nat (metaShareSize e) \<le> length shareData then
          andThen (interUserIndexUpdate mc mr malloc_ok gen (metaShareFP e) userID (take (nat (metaShareSize e)) (drop off shareData)))
            (\<lambda>_. returnM (off + nat (metaShareSize e)))
        else (\<lambda>_. None))
       (\<lambda>off'. andThen (on_backend (setRecipeEntry recipeKey pos
                     \<lparr>entryFP = metaShareFP e, secretID = metaSecretID e, secretSize = metaSecretSize e, entryShareSize = metaShareSize e\<rparr>))
            (\<lambda>_. returnM off'))"

primrec secondStageLoop :: "xd3_mem \<Rightarrow> xd3_mem \<Rightarrow> bool \<Rightarrow> (bytes \<Rightarrow> superF) \<Rightarrow> user_id_t \<Rightarrow> key_t \<Rightarrow> bytes
    \<Rightarrow> shareMetaEntry list \<Rightarrow> bool list \<Rightarrow> nat \<Rightarrow> nat \<Rightarrow> (core, unit) act" where
  "secondStageLoop mc mr malloc_ok gen userID recipeKey shareData [] dupStat off pos = returnM ()"
| "secondStageLoop mc mr malloc_ok gen userID recipeKey shareData (e # es) dupStat off pos =
     (case dupStat of
        [] \<Rightarrow> (\<lambda>_. None)
      | dup # ds \<Rightarrow>
          andThen (secondStageStep mc mr malloc_ok gen userID recipeKey shareData e dup off pos)
            (\<lambda>off'. secondStageLoop mc mr malloc_ok gen userID recipeKey shareData es ds off' (pos + 1)))"

definition secondStageDedup :: "xd3_mem \<Rightarrow> xd3_mem \<Rightarrow> bool \<Rightarrow> (bytes \<Rightarrow> superF) \<Rightarrow> (bytes \<Rightarrow> fingerprint_t) \<Rightarrow> user_id_t
    \<Rightarrow> fileShareMetaHead \<Rightarrow> string \<Rightarrow> shareMetaEntry list \<Rightarrow> bytes \<Rightarrow> bool list \<Rightarrow> nat \<Rightarrow> (core, unit) act" where
  "secondStageDedup mc mr malloc_ok gen toFP userID head fullFileName entries shareData dupStat totalNumOfShares s =
     (case FormatFullFileName fullFileName of
        Inl e \<Rightarrow> throw e s
      | Inr fn \<Rightarrow>
          let recipeKey = ToIndexKey RECIPE (ToRecipeFP toFP fn userID)
          in andThen (on_backend (putRecipeFile userID recipeKey head totalNumOfShares)) (\<lambda>start.
               andThen (secondStageLoop mc mr malloc_ok gen userID recipeKey shareData
                          (take (numOfComingSecrets head) entries) dupStat 0 start)
                 (\<lambda>_. on_backend (finishRecipeFile recipeKey head))) s)"

subsection \<open>Downloading a file\<close>

definition SHARE_ENTRY_SIZE :: nat where "SHARE_ENTRY_SIZE = 12"
definition SHARE_FILE_HEAD_SIZE :: nat where "SHARE_FILE_HEAD_SIZE = 16"

text \<open>\<open>shareFileHead_t\<close> (a \<open>long\<close> and an \<open>int\<close>, with four bytes of padding that are not written) and \<open>shareEntry_t\<close>.\<close>

definition head_image :: "fileRecipe \<Rightarrow> bytes" where
  "head_image r = le_bytes 8 (recipeFileSize r) @ le_bytes 4 (int (numOfShares r))"

definition entry_image :: "fileRecipeEntry \<Rightarrow> bytes" where
  "entry_image e = le_bytes 4 (secretID e) @ le_bytes 4 (secretSize e) @ le_bytes 4 (entryShareSize e)"

definition write_at :: "bytes \<Rightarrow> nat \<Rightarrow> bytes \<Rightarrow> bytes option" where
  "write_at arr off xs = (if off + length xs \<le> length arr then Some (splice arr off xs) else None)"

text \<open>The loop of \<open>restoreShareFile\<close>: the buffer, \<open>shareFileBufferOffset\<close> and the parts flushed so far. The result is the exception,
  if any, and the flushed parts. The size with the entry is a sum of two \<open>int\<close> (\<open>None\<close> when it overflows) that is converted to 64 bits for the test for
  room; a negative size passes through there and is refused later.\<close>

primrec restoreLoop :: "xd3_mem \<Rightarrow> backend \<Rightarrow> fileRecipeEntry list \<Rightarrow> bytes \<Rightarrow> nat \<Rightarrow> bytes list \<Rightarrow> (dedup_error option \<times> bytes list) option" where
  "restoreLoop mr b [] arr off out = Some (None, if 0 < off then out @ [take off arr] else out)"
| "restoreLoop mr b (e # es) arr off out =
     (let kFileShareSize = int SHARE_ENTRY_SIZE + entryShareSize e;
          full = (off + nat (kFileShareSize mod 2 ^ 64)) mod 2 ^ 64 \<ge> length arr;
          out1 = (if full then out @ [take off arr] else out);
          off1 = (if full then 0 else off)
      in if kFileShareSize \<ge> 2 ^ 31 then None else
         case write_at arr off1 (entry_image e) of
           None \<Rightarrow> None
         | Some arr1 \<Rightarrow>
             if entryShareSize e < 0 then Some (Some Bad_numeric_cast, out1)
             else
               let n = nat (entryShareSize e); at = off1 + SHARE_ENTRY_SIZE
               in if at + n \<le> length arr1 then
                    (case restoreShare mr (entryFP e) (take n (drop at arr1)) b of
                       None \<Rightarrow> None
                     | Some (Inl err) \<Rightarrow> Some (Some err, out1)
                     | Some (Inr xs) \<Rightarrow> restoreLoop mr b es (splice arr1 at xs) (at + n) out1)
                  else None)"

definition restoreShareFile :: "xd3_mem \<Rightarrow> (key_t \<Rightarrow> fileRecipe option) \<Rightarrow> (bytes \<Rightarrow> fingerprint_t) \<Rightarrow> user_id_t \<Rightarrow> string \<Rightarrow> bytes \<Rightarrow> backend
    \<Rightarrow> (dedup_error option \<times> bytes list) option" where
  "restoreShareFile mr cached toFP userID fullFileName shareFileData b =
     (case FormatFullFileName fullFileName of
        Inl e \<Rightarrow> Some (Some e, [])
      | Inr fn \<Rightarrow>
          (case getRecipeData cached (ToIndexKey RECIPE (ToRecipeFP toFP fn userID)) b of
             Inl e \<Rightarrow> Some (Some e, [])
           | Inr r \<Rightarrow>
               (case write_at shareFileData 0 (head_image r) of
                  None \<Rightarrow> None
                | Some arr \<Rightarrow> restoreLoop mr b (take (numOfShares r) (recipeEntries r)) arr SHARE_FILE_HEAD_SIZE [])))"

text \<open>The loop is executable.\<close>

declare restoreDeltaShare.simps [code]

end
