(* ===== verification/Delta_Chunks.thy ===== *)
theory Delta_Chunks
  imports Xd3_DecodeMemory
begin

section \<open>Deltas of chunks (delta.c)\<close>

text \<open>The round trip of \<open>compute_delta\<close> and \<open>restore_delta\<close>, from the round trip of the codec.\<close>

definition restores :: "bytes \<Rightarrow> bytes \<Rightarrow> nat \<Rightarrow> bytes \<Rightarrow> bool" where
  "restores chunk_base d n chunk \<longleftrightarrow>
     (\<forall>m. mem_ok m \<longrightarrow> restore_delta m chunk_base \<lparr>delta_data = d, delta_srcSize = of_nat n\<rparr> = Some (None, chunk))"

lemma compute_delta_ok:
  assumes "length chunk_base \<le> 2 ^ 31" "length chunk \<le> 128 * 1024"
  shows "\<exists>r. compute_delta m True chunk_base chunk = Some r
     \<and> (\<forall>d. r = Some d \<longrightarrow> delta_srcSize d = of_nat (length chunk) \<and> length (delta_data d) \<le> length chunk
          \<and> restores chunk_base (delta_data d) (length chunk) chunk)"
proof (cases "length chunk_base < 1024 \<or> length chunk < 512")
  case True
  then show ?thesis by (simp add: compute_delta_def)
next
  case False
  let ?n = "of_nat (length chunk) :: u64"
  have un: "unat ?n = length chunk" using assms(2) by (intro unat_of_nat_less) simp
  have ne: "chunk \<noteq> []" "length chunk \<le> 2 ^ 23" "unat ?n \<le> 2 ^ 63" using False assms(2) un by auto
  have c: "config_secondary 0" "(0 :: u32) AND XD3_BEGREEDY = 0" "(0 :: u32) AND XD3_ADLER32_RECODE = 0" by code_simp+
  have d: "restores chunk_base (page_bytes (all_pages u)) (length chunk) chunk"
    if e: "encodes chunk_base chunk 0 u" "length (page_bytes (all_pages u)) \<le> length chunk" for u
  proof -
    have "xd3_decode_memory m' (page_bytes (all_pages u)) (Some chunk_base) ?n 0 = Some (None, chunk)" if "mem_ok m'" for m'
      by (rule decode_memory_encoded [OF e(1) ne(1,2) assms(1) c(3) refl _ that]) (use e(2) assms(2) un c(1) in simp_all)
    then show ?thesis by (simp add: restores_def restore_delta_def)
  qed
  show ?thesis
    using encode_memory_ok [OF ne(1,2) assms(1) c(2,1) ne(3), of m] d False un assms(2)
    by (auto simp: encoder_result_def compute_delta_def split: if_splits)
qed

end
