(* ===== verification/Dedup_Safe.thy ===== *)
theory Dedup_Safe
  imports Dedup_Core Delta_Chunks
begin

section \<open>Correctness of the store\<close>

text \<open>
  The names of containers never repeat, data once written stays where the index says, and every index
  value leads back to bytes that were uploaded under its fingerprint. The history of successful uploads
  is a set of pairs of a fingerprint and the bytes.
\<close>

subsection \<open>Names of containers\<close>

text \<open>The number of a name: the letters are digits, the first the least significant.\<close>

fun name_rank :: "string \<Rightarrow> nat" where
  "name_rank [] = 0"
| "name_rank (c # cs) = (of_char c - 97) + 26 * name_rank cs"

definition letters :: "string \<Rightarrow> bool" where
  "letters n \<longleftrightarrow> list_all (\<lambda>c. 97 \<le> (of_char c :: nat) \<and> (of_char c :: nat) \<le> 122) n"

lemma of_char_succ: "(of_char c :: nat) < 122 \<Longrightarrow> (of_char (char_succ c) :: nat) = of_char c + 1"
  by (simp add: char_succ_def of_char_of)

lemma not_z: "c \<noteq> CHR ''z'' \<Longrightarrow> (of_char c :: nat) \<noteq> 122"
proof
  assume "c \<noteq> CHR ''z''" "(of_char c :: nat) = 122"
  then have "c = char_of (122 :: nat)" by (metis char_of_char)
  moreover have "char_of (122 :: nat) = CHR ''z''" by code_simp
  ultimately show False using \<open>c \<noteq> CHR ''z''\<close> by simp
qed

lemma next_name_rank:
  assumes "letters n" "next_name n = Some n'"
  shows "letters n' \<and> length n' = length n \<and> name_rank n' = name_rank n + 1"
  using assms
proof (induction n arbitrary: n')
  case (Cons c cs)
  show ?case
  proof (cases "c = CHR ''z''")
    case True
    then obtain m where m: "next_name cs = Some m" "n' = CHR ''a'' # m" using Cons.prems(2) by auto
    have "letters cs" using Cons.prems(1) by (simp add: letters_def)
    from Cons.IH [OF this m(1)] show ?thesis using m(2) True by (simp add: letters_def)
  next
    case False
    have lc: "97 \<le> (of_char c :: nat)" "(of_char c :: nat) < 122"
      using Cons.prems(1) not_z [OF False] by (auto simp: letters_def)
    show ?thesis using Cons.prems False of_char_succ [OF lc(2)] lc by (auto simp: letters_def)
  qed
qed simp

lemma first_name_letters: "letters first_name" "length first_name = INTERNAL_FILE_NAME_SIZE"
  by (simp_all add: first_name_def letters_def list_all_iff)

text \<open>The names that the dispenser hands out, one after the other.\<close>

fun dispensed :: "nat \<Rightarrow> string \<Rightarrow> string list" where
  "dispensed 0 n = []"
| "dispensed (Suc k) n = (case next_name n of None \<Rightarrow> [] | Some n' \<Rightarrow> n # dispensed k n')"

lemma dispensed_ranks:
  assumes "letters n"
  shows "(\<forall>m \<in> set (dispensed k n). letters m \<and> length m = length n \<and> name_rank n \<le> name_rank m) \<and> distinct (dispensed k n)"
  using assms
proof (induction k n rule: dispensed.induct)
  case (2 k n)
  show ?case
  proof (cases "next_name n")
    case (Some n')
    note r = next_name_rank [OF 2(2) Some]
    note IH = 2(1) [OF Some conjunct1 [OF r]]
    have "n \<notin> set (dispensed k n')" using IH r by auto
    then show ?thesis using IH r Some 2(2) by auto
  qed simp
qed simp

lemma next_name_None:
  assumes "letters n" "next_name n = None"
  shows "name_rank n + 1 = 26 ^ length n"
  using assms
proof (induction n)
  case (Cons c cs)
  have "letters cs" "c = CHR ''z''" "next_name cs = None" using Cons.prems by (auto simp: letters_def split: if_splits)
  then have "c = CHR ''z''" "name_rank cs + 1 = 26 ^ length cs" using Cons.IH by auto
  then show ?case by simp
qed simp

lemma dispensed_length: "letters n \<Longrightarrow> name_rank n + k < 26 ^ length n \<Longrightarrow> length (dispensed k n) = k"
proof (induction k n rule: dispensed.induct)
  case (2 k n)
  then show ?case
  proof (cases "next_name n")
    case (Some n')
    then show ?thesis using 2 next_name_rank [OF 2(2) Some] by simp
  qed (use 2 next_name_None in fastforce)
qed simp

subsection \<open>Containers\<close>

definition placed :: "backend \<Rightarrow> string \<Rightarrow> nat \<Rightarrow> bytes \<Rightarrow> bool" where
  "placed b cn off xs \<longleftrightarrow>
     (\<exists>region. containers b cn = Some region \<and> off + length xs \<le> length region \<and> take (length xs) (drop off region) = xs)
     \<and> (shareContainer b = Some cn \<longrightarrow> off + length xs \<le> shareContainerOffset b)"

definition containers_wf :: "backend \<Rightarrow> bool" where
  "containers_wf b \<longleftrightarrow> letters (dispenserName b) \<and> (\<forall>n \<in> dom (containers b). name_rank n < name_rank (dispenserName b))
     \<and> (\<forall>n region. containers b n = Some region \<longrightarrow> length region = CONTAINER_SIZE)
     \<and> (\<exists>n \<in> dom (containers b). shareContainer b = Some n \<and> shareContainerName b = n)
     \<and> shareContainerOffset b \<le> CONTAINER_SIZE"

text \<open>\<open>keeps b b'\<close>: data stays in place, and nothing but the containers changes.\<close>

definition keeps_data :: "backend \<Rightarrow> backend \<Rightarrow> bool" where
  "keeps_data b b' \<longleftrightarrow> (\<forall>cn off xs. placed b cn off xs \<longrightarrow> placed b' cn off xs) \<and> db b' = db b \<and> writeBatch b' = writeBatch b
     \<and> batchCnt b' = batchCnt b \<and> unfinishedRecipes b' = unfinishedRecipes b \<and> recipeFiles b' = recipeFiles b"

lemma length_splice: "off + length xs \<le> length arr \<Longrightarrow> length (splice arr off xs) = length arr"
  by (simp add: splice_def)

lemma splice_at: "off + length xs \<le> length arr \<Longrightarrow> take (length xs) (drop off (splice arr off xs)) = xs"
  by (simp add: splice_def)

lemma splice_below:
  assumes "i + n \<le> off" "off + length xs \<le> length arr"
  shows "take n (drop i (splice arr off xs)) = take n (drop i arr)"
  using assms by (intro nth_equalityI) (auto simp: splice_def nth_append)

lemma createShareContainer_ok:
  assumes "containers_wf b \<or> shareContainer b = None \<and> containers b = Map.empty \<and> letters (dispenserName b)"
  shows "\<exists>r b'. createShareContainer b = Some (r, b') \<and> keeps_data b b'
     \<and> (r = Inr () \<and> containers_wf b' \<and> shareContainerOffset b' = 0 \<or> r = Inl Name_space_exhausted \<and> b' = b)"
proof (cases "next_name (dispenserName b)")
  case None
  then show ?thesis by (simp add: createShareContainer_def andThen_def dispenser_get_def throw_def keeps_data_def)
next
  case (Some n')
  let ?n = "dispenserName b"
  have l: "letters ?n" using assms by (auto simp: containers_wf_def)
  have fresh: "containers b ?n = None" using assms by (auto simp: containers_wf_def dom_def)
  define b' where "b' = b\<lparr>dispenserName := n', shareContainerName := ?n, containers := (containers b)(?n \<mapsto> replicate CONTAINER_SIZE 0),
      shareContainer := Some ?n, shareContainerOffset := 0\<rparr>"
  have e: "createShareContainer b = Some (Inr (), b')"
    using Some fresh by (simp add: createShareContainer_def andThen_def dispenser_get_def returnM_def container_create_def b'_def)
  note r = next_name_rank [OF l Some]
  have "\<forall>n \<in> dom (containers b). name_rank n < name_rank ?n" using assms by (auto simp: containers_wf_def)
  then have "containers_wf b'"
    using r assms by (auto simp: containers_wf_def b'_def less_Suc_eq split: if_splits)
  moreover have "keeps_data b b'" using fresh by (auto simp: keeps_data_def placed_def b'_def)
  ultimately show ?thesis using e by (auto simp: b'_def)
qed

lemma container_write_ok:
  assumes w: "containers_wf b" and l: "shareContainerOffset b + length xs \<le> CONTAINER_SIZE"
  shows "\<exists>b'. container_write xs b = Some (Inr (shareContainerName b, shareContainerOffset b), b') \<and> containers_wf b' \<and> keeps_data b b'
     \<and> placed b' (shareContainerName b) (shareContainerOffset b) xs"
proof -
  obtain n region where n: "shareContainer b = Some n" "shareContainerName b = n" "containers b n = Some region" "length region = CONTAINER_SIZE"
    using w by (auto simp: containers_wf_def)
  define o1 where "o1 = shareContainerOffset b"
  define b' where "b' = b\<lparr>containers := (containers b)(n \<mapsto> splice region o1 xs), shareContainerOffset := o1 + length xs\<rparr>"
  have l': "o1 + length xs \<le> length region" using l n(4) by (simp add: o1_def)
  have e: "container_write xs b = Some (Inr (n, o1), b')"
    using n l' by (simp add: container_write_def returnM_def o1_def b'_def)
  have "containers_wf b'" using w n l' l by (auto simp: containers_wf_def b'_def o1_def length_splice split: if_splits)
  moreover have "placed b' cn off ys" if p: "placed b cn off ys" for cn off ys
  proof (cases "cn = n")
    case True
    then have "off + length ys \<le> o1" "off + length ys \<le> length region" "take (length ys) (drop off region) = ys"
      using p n by (auto simp: placed_def o1_def)
    then show ?thesis using True l' n(1) by (simp add: placed_def b'_def length_splice splice_below [OF _ l'])
  qed (use p n in \<open>auto simp: placed_def b'_def\<close>)
  moreover have "placed b' n o1 xs" using l' by (simp add: placed_def b'_def length_splice splice_at)
  ultimately show ?thesis using e n(2) by (auto simp: keeps_data_def b'_def o1_def)
qed

lemma putShareData_ok:
  assumes w: "containers_wf b" and l: "length xs \<le> CONTAINER_SIZE"
  shows "\<exists>r b'. putShareData xs b = Some (r, b') \<and> containers_wf b' \<and> keeps_data b b'
     \<and> (case r of Inr (cn, off) \<Rightarrow> placed b' cn off xs | Inl e \<Rightarrow> e = Name_space_exhausted)"
proof -
  have cs: "container_size b = CONTAINER_SIZE" using w by (auto simp: containers_wf_def container_size_def)
  have tr: "keeps_data b b'' " if "keeps_data b b'" "keeps_data b' b''" for b' b''
    using that by (auto simp: keeps_data_def)
  show ?thesis
  proof (cases "shareContainerOffset b + length xs > CONTAINER_SIZE")
    case False
    then show ?thesis using container_write_ok [OF w, of xs] cs by (auto simp: putShareData_def andThen_def returnM_def)
  next
    case True
    obtain r b1 where 1: "createShareContainer b = Some (r, b1)" "keeps_data b b1"
      "r = Inr () \<and> containers_wf b1 \<and> shareContainerOffset b1 = 0 \<or> r = Inl Name_space_exhausted \<and> b1 = b"
      using createShareContainer_ok [of b] w by blast
    show ?thesis
    proof (cases r)
      case (Inl e)
      then show ?thesis using 1 True cs w by (auto simp: putShareData_def andThen_def)
    next
      case (Inr u)
      then have w1: "containers_wf b1" "shareContainerOffset b1 = 0" using 1(3) by auto
      obtain b2 where "container_write xs b1 = Some (Inr (shareContainerName b1, shareContainerOffset b1), b2)" "containers_wf b2"
        "keeps_data b1 b2" "placed b2 (shareContainerName b1) (shareContainerOffset b1) xs"
        using container_write_ok [OF w1(1), of xs] w1(2) l by auto
      then show ?thesis using 1(1,2) Inr True cs tr by (auto simp: putShareData_def andThen_def)
    qed
  qed
qed

lemma getShareData_placed: "placed b cn off xs \<Longrightarrow> getShareData cn off (length xs) b = Some (Inr xs)"
  by (auto simp: placed_def getShareData_def)

subsection \<open>The containers as a store of byte strings\<close>

text \<open>What the core relies on: a write returns a location, and from then on a read at that location gives
  the bytes written, whatever is written later.\<close>

locale blob_store =
  fixes wf :: "'s \<Rightarrow> bool"
    and fits :: "bytes \<Rightarrow> bool"
    and put :: "bytes \<Rightarrow> ('s, 'loc) act"
    and get :: "'loc \<Rightarrow> nat \<Rightarrow> 's \<Rightarrow> (dedup_error + bytes) option"
    and stored :: "'s \<Rightarrow> 'loc \<Rightarrow> bytes \<Rightarrow> bool"
  assumes put_total: "wf s \<Longrightarrow> fits xs \<Longrightarrow> \<exists>r s'. put xs s = Some (r, s')"
    and put_wf: "wf s \<Longrightarrow> fits xs \<Longrightarrow> put xs s = Some (r, s') \<Longrightarrow> wf s'"
    and put_keeps: "wf s \<Longrightarrow> fits xs \<Longrightarrow> put xs s = Some (r, s') \<Longrightarrow> stored s l ys \<Longrightarrow> stored s' l ys"
    and put_stores: "wf s \<Longrightarrow> fits xs \<Longrightarrow> put xs s = Some (Inr l, s') \<Longrightarrow> stored s' l xs"
    and get_stored: "stored s l xs \<Longrightarrow> get l (length xs) s = Some (Inr xs)"
begin

text \<open>A sequence of writes, with the locations of those that succeeded.\<close>

fun put_all :: "bytes list \<Rightarrow> 's \<Rightarrow> (('loc \<times> bytes) list \<times> 's) option" where
  "put_all [] s = Some ([], s)"
| "put_all (xs # xss) s =
     (case put xs s of
        None \<Rightarrow> None
      | Some (Inl e, s') \<Rightarrow> put_all xss s'
      | Some (Inr l, s') \<Rightarrow> map_option (\<lambda>(ls, t). ((l, xs) # ls, t)) (put_all xss s'))"

lemma put_all_total: "wf s \<Longrightarrow> list_all fits xss \<Longrightarrow> \<exists>ls t. put_all xss s = Some (ls, t)"
proof (induction xss arbitrary: s)
  case (Cons xs xss)
  obtain r s' where r: "put xs s = Some (r, s')" using put_total Cons.prems by fastforce
  then have w: "wf s'" using put_wf Cons.prems by fastforce
  obtain ls t where "put_all xss s' = Some (ls, t)" using Cons.IH [OF w] Cons.prems by auto
  then show ?case using r by (cases r) auto
qed simp

lemma put_all_keeps:
  "wf s \<Longrightarrow> list_all fits xss \<Longrightarrow> put_all xss s = Some (ls, t) \<Longrightarrow> stored s l ys \<Longrightarrow> stored t l ys"
proof (induction xss arbitrary: s ls)
  case (Cons xs xss)
  obtain r s' where r: "put xs s = Some (r, s')" using put_total Cons.prems by fastforce
  have w: "wf s'" "stored s' l ys" using put_wf put_keeps r Cons.prems by fastforce+
  show ?case using Cons.IH [OF w(1)] w(2) Cons.prems r by (cases r) auto
qed simp

lemma put_all_get:
  "wf s \<Longrightarrow> list_all fits xss \<Longrightarrow> put_all xss s = Some (ls, t) \<Longrightarrow> (l, xs) \<in> set ls \<Longrightarrow> get l (length xs) t = Some (Inr xs)"
proof (induction xss arbitrary: s ls)
  case (Cons ys xss)
  obtain r s' where r: "put ys s = Some (r, s')" using put_total Cons.prems by fastforce
  have w: "wf s'" using put_wf r Cons.prems by fastforce
  show ?case
  proof (cases r)
    case (Inl e)
    then show ?thesis using Cons.IH [OF w] Cons.prems r by auto
  next
    case (Inr k)
    then obtain ls' where ls: "put_all xss s' = Some (ls', t)" "ls = (k, ys) # ls'" using Cons.prems(3) r by auto
    have "stored s' k ys" using put_stores r Inr Cons.prems by fastforce
    then have "stored t k ys" using put_all_keeps [OF w _ ls(1)] Cons.prems(2) by auto
    then show ?thesis using Cons.IH [OF w _ ls(1)] Cons.prems ls(2) get_stored by auto
  qed
qed simp

end

definition read_at :: "string \<times> nat \<Rightarrow> nat \<Rightarrow> backend \<Rightarrow> (dedup_error + bytes) option" where
  "read_at l n b = getShareData (fst l) (snd l) n b"

definition stored_at :: "backend \<Rightarrow> string \<times> nat \<Rightarrow> bytes \<Rightarrow> bool" where
  "stored_at b l xs \<longleftrightarrow> placed b (fst l) (snd l) xs"

interpretation containers: blob_store containers_wf "\<lambda>xs. length xs \<le> CONTAINER_SIZE" putShareData read_at stored_at
proof (unfold_locales, goal_cases)
  case (1 s xs)
  then show ?case using putShareData_ok by blast
next
  case (2 s xs r s')
  then show ?case using putShareData_ok [of s xs] by auto
next
  case (3 s xs r s' l ys)
  then show ?case using putShareData_ok [of s xs] by (auto simp: keeps_data_def stored_at_def)
next
  case (4 s xs l s')
  then show ?case using putShareData_ok [of s xs] by (auto simp: stored_at_def)
next
  case (5 s l xs)
  then show ?case by (simp add: read_at_def stored_at_def getShareData_placed)
qed

subsection \<open>The index\<close>

abbreviation "share_key \<equiv> ToIndexKey SHARE_INDEX"

lemma share_key_inj [simp]: "share_key fp = share_key fp' \<longleftrightarrow> fp = fp'"
  by (simp add: ToIndexKey_def)

definition max_share :: nat where "max_share = 128 * 1024"

definition plain :: "backend \<Rightarrow> shareIndex \<Rightarrow> bytes \<Rightarrow> bool" where
  "plain b i xs \<longleftrightarrow> deltaDepth i = 0 \<and> shareSize i = int (length xs) \<and> length xs \<le> max_share
     \<and> placed b (containerName i) (shareOffset i) xs"

definition compressed :: "backend \<Rightarrow> shareIndex \<Rightarrow> bytes \<Rightarrow> bool" where
  "compressed b i xs \<longleftrightarrow> deltaDepth i = 1 \<and> shareSize i = int (length xs) \<and> length xs \<le> max_share
     \<and> (\<exists>bi base_data d. db b (share_key (baseFP i)) = Some bi \<and> plain b bi base_data
          \<and> placed b (containerName i) (shareOffset i) d \<and> deltaSize i = length d \<and> restores base_data d (length xs) xs)"

definition entry_ok :: "backend \<Rightarrow> shareIndex \<Rightarrow> bytes \<Rightarrow> bool" where
  "entry_ok b i xs \<longleftrightarrow> plain b i xs \<or> compressed b i xs"

text \<open>The fields that say where the data is; the users of a share may change.\<close>

definition same_data :: "shareIndex \<Rightarrow> shareIndex \<Rightarrow> bool" where
  "same_data i j \<longleftrightarrow> shareSize i = shareSize j \<and> deltaDepth i = deltaDepth j \<and> deltaSize i = deltaSize j \<and> baseFP i = baseFP j
     \<and> containerName i = containerName j \<and> shareOffset i = shareOffset j"

lemma plain_same_data: "plain b i xs \<Longrightarrow> same_data i j \<Longrightarrow> plain b j xs"
  by (simp add: plain_def same_data_def)

lemma entry_ok_same_data: "entry_ok b i xs \<Longrightarrow> same_data i j \<Longrightarrow> entry_ok b j xs"
  by (auto simp: entry_ok_def plain_def compressed_def same_data_def)

definition visible :: "backend \<Rightarrow> fingerprint_t \<Rightarrow> shareIndex \<Rightarrow> bool" where
  "visible b fp i \<longleftrightarrow> db b (share_key fp) = Some i \<or> (share_key fp, i) \<in> set (writeBatch b)"

text \<open>The invariant of the store, for the history \<open>H\<close> of uploads: every value in the database or in the batch leads to uploaded
  bytes, every upload has a value, and a pending value agrees with the one it will replace.\<close>

definition store_inv :: "(fingerprint_t \<times> bytes) set \<Rightarrow> backend \<Rightarrow> bool" where
  "store_inv H b \<longleftrightarrow> containers_wf b
     \<and> (\<forall>fp i. visible b fp i \<longrightarrow> (\<exists>xs. (fp, xs) \<in> H \<and> entry_ok b i xs))
     \<and> (\<forall>(fp, xs) \<in> H. \<exists>i. visible b fp i)
     \<and> (\<forall>fp i j. db b (share_key fp) = Some i \<longrightarrow> (share_key fp, j) \<in> set (writeBatch b) \<longrightarrow> same_data i j)"

lemma store_invI:
  assumes "containers_wf b" "\<And>fp i. visible b fp i \<Longrightarrow> \<exists>xs. (fp, xs) \<in> H \<and> entry_ok b i xs"
    "\<And>fp xs. (fp, xs) \<in> H \<Longrightarrow> \<exists>i. visible b fp i"
    "\<And>fp i j. db b (share_key fp) = Some i \<Longrightarrow> (share_key fp, j) \<in> set (writeBatch b) \<Longrightarrow> same_data i j"
  shows "store_inv H b"
  using assms unfolding store_inv_def by fast

lemma store_invD:
  assumes "store_inv H b"
  shows "containers_wf b" "visible b fp i \<Longrightarrow> \<exists>xs. (fp, xs) \<in> H \<and> entry_ok b i xs"
    "(fp, xs) \<in> H \<Longrightarrow> \<exists>i. visible b fp i"
    "db b (share_key fp) = Some i \<Longrightarrow> (share_key fp, j) \<in> set (writeBatch b) \<Longrightarrow> same_data i j"
  using assms unfolding store_inv_def by fast+

text \<open>\<open>extends b b'\<close>: data stays, and the database keeps what leads to data.\<close>

definition extends :: "backend \<Rightarrow> backend \<Rightarrow> bool" where
  "extends b b' \<longleftrightarrow> (\<forall>cn off xs. placed b cn off xs \<longrightarrow> placed b' cn off xs)
     \<and> (\<forall>fp i. db b (share_key fp) = Some i \<longrightarrow> (\<exists>j. db b' (share_key fp) = Some j \<and> same_data i j))"

lemma plain_extends: "plain b i xs \<Longrightarrow> extends b b' \<Longrightarrow> plain b' i xs"
  by (simp add: plain_def extends_def)

lemma entry_ok_extends:
  assumes "entry_ok b i xs" "extends b b'"
  shows "entry_ok b' i xs"
proof (cases "plain b i xs")
  case True
  then show ?thesis using plain_extends assms(2) by (auto simp: entry_ok_def)
next
  case False
  then obtain bi base_data d where c: "deltaDepth i = 1" "shareSize i = int (length xs)" "length xs \<le> max_share"
    "db b (share_key (baseFP i)) = Some bi" "plain b bi base_data" "placed b (containerName i) (shareOffset i) d" "deltaSize i = length d"
    "restores base_data d (length xs) xs" using assms(1) by (auto simp: entry_ok_def compressed_def)
  obtain bj where "db b' (share_key (baseFP i)) = Some bj" "same_data bi bj" using c(4) assms(2) unfolding extends_def by blast
  then show ?thesis using c plain_same_data plain_extends [OF c(5) assms(2)] assms(2)
    by (auto simp: entry_ok_def compressed_def extends_def)
qed

lemma foldl_puts: "foldl (\<lambda>m (k, v). m(k \<mapsto> v)) m xs = m ++ map_of (rev xs)"
proof (induction xs rule: rev_induct)
  case (snoc x xs)
  then show ?case by (cases x) (auto simp: map_add_def fun_eq_iff)
qed simp

lemma BatchFlush_fields [simp]:
  "containers (BatchFlush b) = containers b" "shareContainer (BatchFlush b) = shareContainer b"
  "shareContainerOffset (BatchFlush b) = shareContainerOffset b" "writeBatch (BatchFlush b) = []"
  "placed (BatchFlush b) = placed b" "containers_wf (BatchFlush b) = containers_wf b"
  "db (BatchFlush b) = db b ++ map_of (rev (writeBatch b))"
  by (simp_all add: BatchFlush_def placed_def containers_wf_def foldl_puts fun_eq_iff)

lemma store_inv_flush:
  assumes "store_inv H b"
  shows "store_inv H (BatchFlush b)"
proof -
  let ?b = "BatchFlush b"
  have ex: "extends b ?b"
    unfolding extends_def
  proof (intro conjI allI impI)
    fix fp i assume i: "db b (share_key fp) = Some i"
    show "\<exists>j. db ?b (share_key fp) = Some j \<and> same_data i j"
    proof (cases "map_of (rev (writeBatch b)) (share_key fp)")
      case None
      then show ?thesis using i by (simp add: map_add_def same_data_def)
    next
      case (Some j)
      then have "(share_key fp, j) \<in> set (writeBatch b)" by (auto dest: map_of_SomeD)
      then show ?thesis using assms i Some by (auto simp: store_inv_def map_add_def)
    qed
  qed simp
  have v: "visible b fp i" if "visible ?b fp i" for fp i
    using that by (auto simp: visible_def map_add_def split: option.splits dest: map_of_SomeD)
  have v': "\<exists>j. visible ?b fp j" if "visible b fp i" for fp i
  proof (cases "map_of (rev (writeBatch b)) (share_key fp)")
    case None
    then have "(share_key fp, i) \<notin> set (writeBatch b)" by (force simp: map_of_eq_None_iff)
    then show ?thesis using None that by (simp add: visible_def map_add_def)
  next
    case (Some j)
    then have "visible ?b fp j" by (simp add: visible_def map_add_def)
    then show ?thesis by blast
  qed
  show ?thesis
  proof (rule store_invI)
    show "containers_wf ?b" using store_invD(1) [OF assms] by simp
    show "\<exists>xs. (fp, xs) \<in> H \<and> entry_ok ?b i xs" if "visible ?b fp i" for fp i
      using store_invD(2) [OF assms v [OF that]] entry_ok_extends [OF _ ex] by blast
    show "\<exists>i. visible ?b fp i" if "(fp, xs) \<in> H" for fp xs
      using store_invD(3) [OF assms that] v' by blast
  qed simp
qed

lemma store_inv_put:
  assumes s: "store_inv H b" and e: "entry_ok b i xs" and d: "\<forall>j. db b (share_key fp) = Some j \<longrightarrow> same_data j i"
  shows "store_inv (insert (fp, xs) H) (Put (share_key fp) i b)"
proof -
  define b1 where "b1 = b\<lparr>writeBatch := writeBatch b @ [(share_key fp, i)], batchCnt := batchCnt b + 1\<rparr>"
  have pl: "placed b1 = placed b" "containers_wf b1 = containers_wf b" "db b1 = db b"
    by (simp_all add: b1_def placed_def containers_wf_def fun_eq_iff)
  have ex: "extends b b1" using pl by (simp add: extends_def same_data_def)
  have v: "visible b1 fp' j \<longleftrightarrow> visible b fp' j \<or> fp' = fp \<and> j = i" for fp' j by (auto simp: visible_def b1_def)
  have "store_inv (insert (fp, xs) H) b1"
  proof (rule store_invI)
    show "containers_wf b1" using store_invD(1) [OF s] pl by simp
    show "\<exists>ys. (fp', ys) \<in> insert (fp, xs) H \<and> entry_ok b1 j ys" if "visible b1 fp' j" for fp' j
      using that v store_invD(2) [OF s] e entry_ok_extends [OF _ ex] by (metis insertCI)
    show "\<exists>j. visible b1 fp' j" if "(fp', ys) \<in> insert (fp, xs) H" for fp' ys
      using that v store_invD(3) [OF s] by blast
    show "same_data j k" if "db b1 (share_key fp') = Some j" "(share_key fp', k) \<in> set (writeBatch b1)" for fp' j k
      using that store_invD(4) [OF s] d pl(3) by (auto simp: b1_def)
  qed
  then show ?thesis using store_inv_flush by (simp add: Put_def b1_def Let_def)
qed

lemma store_inv_data:
  assumes "store_inv H b" "keeps_data b b'" "containers_wf b'"
  shows "store_inv H b'"
proof -
  have ex: "extends b b'" using assms(2) by (auto simp: extends_def keeps_data_def same_data_def)
  have v: "visible b' = visible b" using assms(2) by (simp add: visible_def keeps_data_def fun_eq_iff)
  show ?thesis
    using store_invD [OF assms(1)] assms(2,3) entry_ok_extends [OF _ ex] v
    by (intro store_invI) (auto simp: keeps_data_def, blast)
qed

lemma store_inv_insert:
  assumes "store_inv H b" "visible b fp i"
  shows "store_inv (insert (fp, xs) H) b"
  using store_invD [OF assms(1)] assms(2) by (intro store_invI) blast+

subsection \<open>Storing a share\<close>

lemma storeShare_ok:
  assumes s: "store_inv H (core_backend s)" and l: "length written \<le> max_share" "length xs \<le> max_share"
    and e: "\<And>b cn off i. extends (core_backend s) b \<Longrightarrow> placed b cn off written \<Longrightarrow>
       i = \<lparr>shareSize = int (length xs), numOfUsers = 1, deltaDepth = depth, deltaSize = dsize, baseFP = fp',
            containerName = cn, shareOffset = off, userRefs = [userID]\<rparr> \<Longrightarrow> entry_ok b i xs"
    and n: "db (core_backend s) (share_key fp) = None"
  shows "\<exists>r t. storeShare feats fp userID (length xs) written depth fp' dsize s = Some (r, t)
     \<and> (r = Inr () \<and> store_inv (insert (fp, xs) H) (core_backend t) \<or> r = Inl Name_space_exhausted \<and> store_inv H (core_backend t))"
proof -
  have "length written \<le> CONTAINER_SIZE" using l by (simp add: max_share_def CONTAINER_SIZE_def)
  then obtain q b where q: "putShareData written (core_backend s) = Some (q, b)" "containers_wf b" "keeps_data (core_backend s) b"
    "case q of Inr (cn, off) \<Rightarrow> placed b cn off written | Inl e \<Rightarrow> e = Name_space_exhausted"
    using putShareData_ok store_invD(1) [OF s] by blast
  have b: "store_inv H b" by (rule store_inv_data [OF s q(3,2)])
  have pu: "on_backend (putShareData written) s = Some (q, s\<lparr>core_backend := b\<rparr>)" using q(1) by (simp add: on_backend_def)
  show ?thesis
  proof (cases q)
    case (Inl er)
    then show ?thesis using pu q(4) b by (simp add: storeShare_def andThen_def)
  next
    case (Inr loc)
    obtain cn off where loc: "loc = (cn, off)" by force
    define i where "i = \<lparr>shareSize = int (length xs), numOfUsers = 1, deltaDepth = depth, deltaSize = dsize, baseFP = fp',
            containerName = cn, shareOffset = off, userRefs = [userID]\<rparr>"
    have lt: "length xs < 2 ^ 31" using l(2) by (simp add: max_share_def)
    have ex: "extends (core_backend s) b" using q(3) by (auto simp: extends_def keeps_data_def same_data_def)
    have "entry_ok b i xs" using e [OF ex _ i_def] q(4) Inr loc by simp
    moreover have "db b (share_key fp) = None" using q(3) n by (simp add: keeps_data_def)
    ultimately have "store_inv (insert (fp, xs) H) (Put (share_key fp) i b)" by (intro store_inv_put [OF b]) simp_all
    moreover have "storeShare feats fp userID (length xs) written depth fp' dsize s
        = Some (Inr (), s\<lparr>core_backend := Put (share_key fp) i b, core_delta := superFeatureIndexUpdate feats fp (core_delta s)\<rparr>)"
      using pu Inr loc lt by (simp add: storeShare_def andThen_def numeric_cast_int_def returnM_def modifyM_def putShareIndex_def i_def)
    ultimately show ?thesis by simp
  qed
qed

lemma depth_cases:
  assumes "entry_ok b i xs"
  shows "deltaDepth i < MAX_DELTA_DEPTH \<Longrightarrow> plain b i xs" "deltaDepth i = 0 \<Longrightarrow> plain b i xs" "deltaDepth i \<noteq> 0 \<Longrightarrow> compressed b i xs"
  using assms by (auto simp: entry_ok_def compressed_def plain_def MAX_DELTA_DEPTH_def)

lemma plain_read: "plain b i xs \<Longrightarrow> getShareData (containerName i) (shareOffset i) (nat (shareSize i)) b = Some (Inr xs)"
  using getShareData_placed by (auto simp: plain_def)

lemma findDelta_ok:
  assumes s: "store_inv H (core_backend s)" and l: "length xs \<le> max_share"
  shows "\<exists>r. findDelta mc mr True feats xs s = Some (Inr r) \<and> (\<forall>fp bi d. r = Some (fp, bi, d) \<longrightarrow>
     db (core_backend s) (share_key fp) = Some bi \<and> length d \<le> length xs \<and> deltaDepth bi = 0
     \<and> (\<exists>base_data. plain (core_backend s) bi base_data \<and> restores base_data d (length xs) xs))"
proof -
  define b where "b = core_backend s"
  define base where "base = Option.bind (superFeatureIndex feats (core_delta s)) (\<lambda>fp. map_option (Pair fp) (db b (share_key fp)))"
  consider (none) "base = None \<or> (\<exists>fp bi. base = Some (fp, bi) \<and> \<not> deltaDepth bi < MAX_DELTA_DEPTH)"
    | (base) fp bi where "superFeatureIndex feats (core_delta s) = Some fp" "db b (share_key fp) = Some bi" "deltaDepth bi < MAX_DELTA_DEPTH"
    unfolding base_def by (cases "superFeatureIndex feats (core_delta s)"; cases "db b (share_key (the (superFeatureIndex feats (core_delta s))))") auto
  then show ?thesis
  proof cases
    case base
    have "visible b fp bi" using base(2) by (simp add: visible_def)
    then obtain ys where "entry_ok b bi ys" using store_invD(2) [OF s [folded b_def]] by blast
    then have p: "plain b bi ys" using depth_cases(1) base(3) by blast
    then have ly: "length ys \<le> 2 ^ 31" "deltaDepth bi = 0" by (simp_all add: plain_def max_share_def)
    obtain r where r: "compute_delta mc True ys xs = Some r"
      "\<And>d. r = Some d \<Longrightarrow> length (delta_data d) \<le> length xs \<and> restores ys (delta_data d) (length xs) xs"
      using compute_delta_ok [OF ly(1), of xs mc] l by (auto simp: max_share_def)
    have "findDelta mc mr True feats xs s = Some (Inr (case r of None \<Rightarrow> None | Some d \<Rightarrow> if delta_data d \<noteq> [] then Some (fp, bi, delta_data d) else None))"
      using base plain_read [OF p] ly(2) r(1) by (simp add: findDelta_def getShareIndex_def b_def ComputeDelta_def split: option.split)
    then show ?thesis using r(2) base(2) p ly(2) by (auto simp: b_def split: option.splits if_splits)
  next
    case none
    then have "findDelta mc mr True feats xs s = Some (Inr None)"
      by (auto simp: findDelta_def getShareIndex_def b_def base_def split: option.splits)
    then show ?thesis by simp
  qed
qed

lemma interUserIndexUpdate_ok:
  assumes s: "store_inv H (core_backend s)" and l: "length xs \<le> max_share"
  shows "\<exists>r t. interUserIndexUpdate mc mr True gen fp userID xs s = Some (r, t)
     \<and> (r = Inr () \<and> store_inv (insert (fp, xs) H) (core_backend t) \<or> r = Inl Name_space_exhausted \<and> store_inv H (core_backend t))"
proof (cases "db (core_backend s) (share_key fp)")
  case None
  obtain r where r: "findDelta mc mr True (gen xs) xs s = Some (Inr r)" "\<And>fp' bi d. r = Some (fp', bi, d) \<Longrightarrow>
     db (core_backend s) (share_key fp') = Some bi \<and> length d \<le> length xs \<and> deltaDepth bi = 0
     \<and> (\<exists>base_data. plain (core_backend s) bi base_data \<and> restores base_data d (length xs) xs)"
    using findDelta_ok [OF s l] by blast
  show ?thesis
  proof (cases r)
    case rn: None
    have "\<exists>r t. storeShare (gen xs) fp userID (length xs) xs 0 (replicate 32 0) 0 s = Some (r, t)
       \<and> (r = Inr () \<and> store_inv (insert (fp, xs) H) (core_backend t) \<or> r = Inl Name_space_exhausted \<and> store_inv H (core_backend t))"
      by (rule storeShare_ok [OF s l l _ None]) (use l in \<open>simp add: entry_ok_def plain_def\<close>)
    then show ?thesis using None r(1) rn by (simp add: interUserIndexUpdate_def getShareIndex_def)
  next
    case (Some x)
    then obtain fp' bi d where x: "r = Some (fp', bi, d)" by (cases x) auto
    note c = r(2) [OF x]
    have "\<exists>r t. storeShare (gen xs) fp userID (length xs) d (deltaDepth bi + 1) fp' (length d) s = Some (r, t)
       \<and> (r = Inr () \<and> store_inv (insert (fp, xs) H) (core_backend t) \<or> r = Inl Name_space_exhausted \<and> store_inv H (core_backend t))"
    proof (rule storeShare_ok [OF s _ l _ None])
      show "length d \<le> max_share" using c l by simp
      show "entry_ok b i xs" if ex: "extends (core_backend s) b" "placed b cn off d"
        and i: "i = \<lparr>shareSize = int (length xs), numOfUsers = 1, deltaDepth = deltaDepth bi + 1, deltaSize = length d, baseFP = fp',
            containerName = cn, shareOffset = off, userRefs = [userID]\<rparr>" for b cn off i
      proof -
        obtain base_data where bd: "plain (core_backend s) bi base_data" "restores base_data d (length xs) xs" using c by blast
        obtain bj where "db b (share_key fp') = Some bj" "same_data bi bj" using ex(1) c unfolding extends_def by blast
        then have "db b (share_key fp') = Some bj \<and> plain b bj base_data" using plain_same_data plain_extends [OF bd(1) ex(1)] by blast
        then show ?thesis using bd(2) ex(2) c l by (auto simp: entry_ok_def compressed_def i)
      qed
    qed
    then show ?thesis using None r(1) x by (simp add: interUserIndexUpdate_def getShareIndex_def)
  qed
next
  case (Some i)
  then have v: "visible (core_backend s) fp i" by (simp add: visible_def)
  then obtain ys where y: "(fp, ys) \<in> H" "entry_ok (core_backend s) i ys" using store_invD(2) [OF s] by blast
  show ?thesis
  proof (cases "userID \<in> set (take (numOfUsers i) (userRefs i))")
    case True
    then show ?thesis using Some store_inv_insert [OF s v] by (simp add: interUserIndexUpdate_def getShareIndex_def returnM_def)
  next
    case False
    define j where "j = i\<lparr>userRefs := take (numOfUsers i) (userRefs i) @ [userID], numOfUsers := numOfUsers i + 1\<rparr>"
    have sd: "same_data i j" by (simp add: same_data_def j_def)
    have "store_inv (insert (fp, ys) H) (Put (share_key fp) j (core_backend s))"
      using Some sd entry_ok_same_data [OF y(2) sd] by (intro store_inv_put [OF s]) auto
    then have "store_inv H (Put (share_key fp) j (core_backend s))" using y(1) by (simp add: insert_absorb)
    from store_invD(3) [OF this y(1)] store_inv_insert [OF this]
    have "store_inv (insert (fp, xs) H) (Put (share_key fp) j (core_backend s))" by blast
    then show ?thesis using Some False by (simp add: interUserIndexUpdate_def getShareIndex_def returnM_def updateShareIndex_def j_def)
  qed
qed

subsection \<open>Restoring a share\<close>

lemma restoreShare_ok:
  assumes s: "store_inv H b" and m: "mem_ok mr" and i: "db b (share_key fp) = Some i"
  obtains xs where "(fp, xs) \<in> H" "shareSize i = int (length xs)" "\<And>dst. length dst = length xs \<Longrightarrow> restoreShare mr fp dst b = Some (Inr xs)"
proof -
  have "visible b fp i" using i by (simp add: visible_def)
  then obtain xs where xs: "(fp, xs) \<in> H" "entry_ok b i xs" using store_invD(2) [OF s] by blast
  show thesis
  proof (cases "deltaDepth i = 0")
    case True
    then have p: "plain b i xs" using depth_cases(2) xs(2) by blast
    then show thesis using that [OF xs(1)] plain_read [OF p] i True by (simp add: plain_def restoreShare_def getShareIndex_def)
  next
    case False
    then have "compressed b i xs" using depth_cases(3) xs(2) by blast
    then obtain bi base_data d where c: "db b (share_key (baseFP i)) = Some bi" "plain b bi base_data" "deltaSize i = length d"
      "placed b (containerName i) (shareOffset i) d" "restores base_data d (length xs) xs" "shareSize i = int (length xs)"
      by (auto simp: compressed_def)
    have d0: "deltaDepth bi = 0" using c(2) by (simp add: plain_def)
    have "restoreDeltaShare mr b i dst = Some (Inr xs)" if "length dst = length xs" for dst
      using c(1,3,5,6) d0 plain_read [OF c(2)] getShareData_placed [OF c(4)] m that
      by (subst restoreDeltaShare.simps) (simp add: getShareIndex_def RestoreSrc_def restores_def copy_into_def)
    then show thesis using that [OF xs(1) c(6)] i False by (simp add: restoreShare_def getShareIndex_def word_gt_0)
  qed
qed

subsection \<open>Uploads\<close>

text \<open>A server from its start on an empty container directory and an empty store: uploads of shares by any users with any features
  and allocators, flushes of the write batch and any change of the recipes. The set is the history of the uploads that
  succeeded.\<close>

inductive uploads :: "core \<Rightarrow> (fingerprint_t \<times> bytes) set \<Rightarrow> bool" where
  start: "BackendFacade Map.empty Map.empty Map.empty = Some (Inr (), b) \<Longrightarrow>
    uploads \<lparr>core_backend = b, core_delta = \<lparr>superFeature1Map = Map.empty, superFeature2Map = Map.empty, superFeature3Map = Map.empty\<rparr>\<rparr> {}"
| stored: "uploads s H \<Longrightarrow> length xs \<le> max_share \<Longrightarrow> interUserIndexUpdate mc mr True gen fp userID xs s = Some (Inr (), t)
    \<Longrightarrow> uploads t (insert (fp, xs) H)"
| refused: "uploads s H \<Longrightarrow> length xs \<le> max_share \<Longrightarrow> interUserIndexUpdate mc mr True gen fp userID xs s = Some (Inl e, t)
    \<Longrightarrow> uploads t H"
| flushed: "uploads s H \<Longrightarrow> uploads (s\<lparr>core_backend := BatchFlush (core_backend s)\<rparr>) H"
| recipes: "uploads s H \<Longrightarrow> uploads (s\<lparr>core_backend := (core_backend s)\<lparr>unfinishedRecipes := u, recipeFiles := f\<rparr>\<rparr>) H"

lemma store_inv_recipes [simp]:
  "store_inv H (b\<lparr>unfinishedRecipes := u\<rparr>) \<longleftrightarrow> store_inv H b" "store_inv H (b\<lparr>recipeFiles := f\<rparr>) \<longleftrightarrow> store_inv H b"
  by (simp_all add: store_inv_def containers_wf_def visible_def entry_ok_def plain_def compressed_def placed_def cong: conj_cong)

lemma start_inv:
  assumes "BackendFacade Map.empty Map.empty Map.empty = Some (Inr (), b)"
  shows "store_inv {} b"
proof -
  let ?b = "empty_backend\<lparr>containers := Map.empty, db := Map.empty, recipeFiles := Map.empty\<rparr>"
  have "createShareContainer ?b = Some (Inr (), b)" using assms by (simp add: BackendFacade_def)
  then have "keeps_data ?b b" "containers_wf b"
    using createShareContainer_ok [of ?b] first_name_letters by (auto simp: empty_backend_def)
  then show ?thesis by (intro store_invI) (auto simp: keeps_data_def visible_def empty_backend_def)
qed

lemma uploads_inv: "uploads s H \<Longrightarrow> store_inv H (core_backend s)"
proof (induction rule: uploads.induct)
  case (start b)
  then show ?case using start_inv by simp
next
  case (stored s H xs mc mr gen fp userID t)
  then show ?case using interUserIndexUpdate_ok [OF stored.IH stored.hyps(2), of mc mr gen fp userID] by auto
next
  case (refused s H xs mc mr gen fp userID e t)
  then show ?case using interUserIndexUpdate_ok [OF refused.IH refused.hyps(2), of mc mr gen fp userID] by auto
next
  case (flushed s H)
  then show ?case using store_inv_flush by simp
next
  case (recipes s H u f)
  then show ?case by simp
qed

end
