(* ===== verification/Dedup_Files.thy ===== *)
theory Dedup_Files
  imports Prelude Dedup_Backend Dedup_Core Dedup_Safe
begin

section \<open>Files on the server: an upload and the restoration of it\<close>

text \<open>
  What \<open>secondStageDedup\<close> leaves in the recipe and in the store, and that \<open>restoreShareFile\<close> streams the
  shares of a file back in order, in parts that fit its buffer.
\<close>

subsection \<open>Operations that leave the recipes alone\<close>

definition keeps_recipes :: "(backend, 'a) act \<Rightarrow> bool" where
  "keeps_recipes f \<longleftrightarrow> (\<forall>b r b'. f b = Some (r, b') \<longrightarrow> unfinishedRecipes b' = unfinishedRecipes b \<and> recipeFiles b' = recipeFiles b)"

lemma keeps_recipes_andThen: "keeps_recipes f \<Longrightarrow> (\<And>x. keeps_recipes (g x)) \<Longrightarrow> keeps_recipes (andThen f g)"
  unfolding keeps_recipes_def andThen_def by (auto split: option.splits sum.splits prod.splits)

lemma keeps_recipes_create: "keeps_recipes createShareContainer"
  by (auto simp: keeps_recipes_def createShareContainer_def andThen_def dispenser_get_def container_create_def throw_def returnM_def
      split: option.splits if_splits)

lemma keeps_recipes_write: "keeps_recipes (container_write xs)"
  by (auto simp: keeps_recipes_def container_write_def returnM_def split: option.splits if_splits)

lemma keeps_recipes_put: "keeps_recipes (putShareData xs)"
proof -
  have "keeps_recipes (andThen createShareContainer (\<lambda>_. container_write xs))"
    by (intro keeps_recipes_andThen keeps_recipes_create keeps_recipes_write)
  then show ?thesis using keeps_recipes_write [of xs]
    by (auto simp: keeps_recipes_def putShareData_def andThen_def returnM_def split: if_splits)
qed

lemma Put_recipes [simp]:
  "unfinishedRecipes (Put k v b) = unfinishedRecipes b" "recipeFiles (Put k v b) = recipeFiles b"
  by (simp_all add: Put_def BatchFlush_def Let_def)

lemma storeShare_recipes:
  assumes "storeShare feats fp userID n written depth fp' dsize s = Some (r, t)"
  shows "unfinishedRecipes (core_backend t) = unfinishedRecipes (core_backend s) \<and> recipeFiles (core_backend t) = recipeFiles (core_backend s)"
  using assms keeps_recipes_put [of written]
  by (auto simp: storeShare_def andThen_def on_backend_def numeric_cast_int_def modifyM_def putShareIndex_def returnM_def throw_def
      keeps_recipes_def split: option.splits sum.splits prod.splits if_splits)

lemma interUserIndexUpdate_recipes:
  assumes "interUserIndexUpdate mc mr malloc_ok gen fp userID xs s = Some (r, t)"
  shows "unfinishedRecipes (core_backend t) = unfinishedRecipes (core_backend s) \<and> recipeFiles (core_backend t) = recipeFiles (core_backend s)"
  using assms storeShare_recipes
  by (fastforce simp: interUserIndexUpdate_def throw_def returnM_def updateShareIndex_def split: option.splits sum.splits if_splits)

subsection \<open>The second stage of an upload\<close>

text \<open>A packet of an upload: each entry with its duplicate status and the data of its share. Only the data of shares that are
  not duplicates is sent.\<close>

type_synonym packet = "(shareMetaEntry \<times> bool \<times> bytes) list"

definition well_sized :: "packet \<Rightarrow> bool" where
  "well_sized items = list_all (\<lambda>(e, dup, xs). metaShareSize e = int (length xs) \<and> length xs \<le> max_share) items"

definition sent :: "packet \<Rightarrow> bytes" where
  "sent items = concat (map (\<lambda>(e, dup, xs). if dup then [] else xs) items)"

definition uploaded :: "packet \<Rightarrow> (fingerprint_t \<times> bytes) set" where
  "uploaded items = {(metaShareFP e, xs) | e xs. (e, False, xs) \<in> set items}"

definition recipe_entry :: "shareMetaEntry \<Rightarrow> fileRecipeEntry" where
  "recipe_entry e = \<lparr>entryFP = metaShareFP e, secretID = metaSecretID e, secretSize = metaSecretSize e, entryShareSize = metaShareSize e\<rparr>"

definition overwrite :: "'a list \<Rightarrow> nat \<Rightarrow> 'a list \<Rightarrow> 'a list" where
  "overwrite l pos xs = take pos l @ xs @ drop (pos + length xs) l"

lemma overwrite_Nil [simp]: "overwrite l pos [] = l"
  by (simp add: overwrite_def)

lemma overwrite_Cons: "pos < length l \<Longrightarrow> overwrite (l[pos := x]) (pos + 1) xs = overwrite l pos (x # xs)"
  by (simp add: overwrite_def take_Suc_conv_app_nth upd_conv_take_nth_drop add.commute)

lemma uploaded_simps [simp]: "uploaded [] = {}" "uploaded ((e, dup, xs) # items) = (if dup then {} else {(metaShareFP e, xs)}) \<union> uploaded items"
  by (auto simp: uploaded_def)

text \<open>The result of storing: the invariant holds for the old history and what succeeded.\<close>

lemma secondStageStep_ok:
  assumes s: "store_inv H (core_backend s)" and u: "unfinishedRecipes (core_backend s) k = Some (r, n)" "pos < length (recipeEntries r)"
    and e: "metaShareSize e = int (length xs)" "length xs \<le> max_share"
    and d: "take (length xs) (drop off shareData) = xs \<or> dup" "off + length xs \<le> length shareData \<or> dup"
  shows "\<exists>res t. secondStageStep mc mr True gen userID k shareData e dup off pos s = Some (res, t)
     \<and> (res = Inr (if dup then off else off + length xs) \<and> store_inv (uploaded [(e, dup, xs)] \<union> H) (core_backend t)
          \<and> unfinishedRecipes (core_backend t) = (unfinishedRecipes (core_backend s))(k \<mapsto> (r\<lparr>recipeEntries := (recipeEntries r)[pos := recipe_entry e]\<rparr>, n))
          \<and> recipeFiles (core_backend t) = recipeFiles (core_backend s)
        \<or> res = Inl Name_space_exhausted \<and> store_inv H (core_backend t))"
proof (cases dup)
  case True
  then show ?thesis using s u
    by (simp add: secondStageStep_def andThen_def returnM_def on_backend_def setRecipeEntry_def recipe_entry_def)
next
  case False
  obtain res t where 1: "interUserIndexUpdate mc mr True gen (metaShareFP e) userID xs s = Some (res, t)"
    "res = Inr () \<and> store_inv (insert (metaShareFP e, xs) H) (core_backend t) \<or> res = Inl Name_space_exhausted \<and> store_inv H (core_backend t)"
    using interUserIndexUpdate_ok [OF s e(2)] by blast
  note 2 = interUserIndexUpdate_recipes [OF 1(1)]
  show ?thesis using 1 2 False u d e(1)
    by (auto simp: secondStageStep_def andThen_def returnM_def on_backend_def setRecipeEntry_def recipe_entry_def)
qed

lemma secondStageLoop_ok:
  assumes "store_inv H (core_backend s)" "unfinishedRecipes (core_backend s) k = Some (r, n)"
    and "pos + length items \<le> length (recipeEntries r)" "well_sized items" "drop off shareData = sent items @ rest" "off \<le> length shareData"
  shows "\<exists>res t. secondStageLoop mc mr True gen userID k shareData (map fst items) (map (fst \<circ> snd) items) off pos s = Some (res, t)
     \<and> (res = Inr () \<and> store_inv (uploaded items \<union> H) (core_backend t)
          \<and> unfinishedRecipes (core_backend t) = (unfinishedRecipes (core_backend s))
              (k \<mapsto> (r\<lparr>recipeEntries := overwrite (recipeEntries r) pos (map (recipe_entry \<circ> fst) items)\<rparr>, n))
          \<and> recipeFiles (core_backend t) = recipeFiles (core_backend s)
        \<or> res = Inl Name_space_exhausted \<and> (\<exists>H'. H \<subseteq> H' \<and> store_inv H' (core_backend t)))"
  using assms
proof (induction items arbitrary: s H r off pos)
  case Nil
  then show ?case by (simp add: returnM_def fun_upd_idem)
next
  case (Cons it items)
  obtain e dup xs where it: "it = (e, dup, xs)" by (cases it) auto
  have w: "metaShareSize e = int (length xs)" "length xs \<le> max_share" "well_sized items" "pos < length (recipeEntries r)"
    using Cons.prems(3,4) it by (auto simp: well_sized_def)
  define off' where "off' = (if dup then off else off + length xs)"
  have off: "drop off' shareData = sent items @ rest" "off' \<le> length shareData" "take (length xs) (drop off shareData) = xs \<or> dup"
    "off + length xs \<le> length shareData \<or> dup"
  proof -
    have d: "drop off shareData = xs @ sent items @ rest" if "\<not> dup" using Cons.prems(5) it that by (simp add: sent_def)
    have l: "off + length xs \<le> length shareData" if "\<not> dup" using arg_cong [OF d [OF that], of length] Cons.prems(6) by simp
    show "take (length xs) (drop off shareData) = xs \<or> dup" "off + length xs \<le> length shareData \<or> dup" using d l by auto
    have "drop (off + length xs) shareData = sent items @ rest" if "\<not> dup"
      using arg_cong [OF d [OF that], of "drop (length xs)"] by (simp add: add.commute)
    then show "drop off' shareData = sent items @ rest" "off' \<le> length shareData"
      using Cons.prems(5,6) it l by (auto simp: off'_def sent_def)
  qed
  define r1 where "r1 = r\<lparr>recipeEntries := (recipeEntries r)[pos := recipe_entry e]\<rparr>"
  obtain res t where 1: "secondStageStep mc mr True gen userID k shareData e dup off pos s = Some (res, t)"
    "res = Inr off' \<and> store_inv (uploaded [(e, dup, xs)] \<union> H) (core_backend t)
          \<and> unfinishedRecipes (core_backend t) = (unfinishedRecipes (core_backend s))(k \<mapsto> (r1, n))
          \<and> recipeFiles (core_backend t) = recipeFiles (core_backend s)
        \<or> res = Inl Name_space_exhausted \<and> store_inv H (core_backend t)"
    using secondStageStep_ok [OF Cons.prems(1,2) w(4,1,2) off(3,4), of mc mr gen userID] by (auto simp: off'_def r1_def)
  show ?case
  proof (cases res)
    case (Inl er)
    then show ?thesis using 1 it by (auto simp: andThen_def)
  next
    case (Inr o2)
    then have 2: "store_inv (uploaded [(e, dup, xs)] \<union> H) (core_backend t)" "o2 = off'"
      "unfinishedRecipes (core_backend t) = (unfinishedRecipes (core_backend s))(k \<mapsto> (r1, n))"
      "recipeFiles (core_backend t) = recipeFiles (core_backend s)" using 1(2) by auto
    have u: "unfinishedRecipes (core_backend t) k = Some (r1, n)" "(pos + 1) + length items \<le> length (recipeEntries r1)"
      using 2(3) Cons.prems(3) by (simp_all add: r1_def)
    have o: "overwrite (recipeEntries r1) (pos + 1) (map (recipe_entry \<circ> fst) items) = overwrite (recipeEntries r) pos (map (recipe_entry \<circ> fst) (it # items))"
      using overwrite_Cons [OF w(4)] it by (simp add: r1_def)
    obtain res2 t2 where 3: "secondStageLoop mc mr True gen userID k shareData (map fst items) (map (fst \<circ> snd) items) off' (pos + 1) t = Some (res2, t2)"
      "res2 = Inr () \<and> store_inv (uploaded items \<union> (uploaded [(e, dup, xs)] \<union> H)) (core_backend t2)
          \<and> unfinishedRecipes (core_backend t2) = (unfinishedRecipes (core_backend t))
              (k \<mapsto> (r1\<lparr>recipeEntries := overwrite (recipeEntries r1) (pos + 1) (map (recipe_entry \<circ> fst) items)\<rparr>, n))
          \<and> recipeFiles (core_backend t2) = recipeFiles (core_backend t)
        \<or> res2 = Inl Name_space_exhausted \<and> (\<exists>H'. uploaded [(e, dup, xs)] \<union> H \<subseteq> H' \<and> store_inv H' (core_backend t2))"
      using Cons.IH [OF 2(1) u w(3) off(1,2)] by blast
    have 4: "secondStageLoop mc mr True gen userID k shareData (map fst (it # items)) (map (fst \<circ> snd) (it # items)) off pos s = Some (res2, t2)"
      using 3(1) 1(1) Inr 2(2) it by (simp add: andThen_def)
    have 5: "uploaded items \<union> (uploaded [(e, dup, xs)] \<union> H) = uploaded (it # items) \<union> H" using it by auto
    have 6: "(unfinishedRecipes (core_backend t)) (k \<mapsto> (r1\<lparr>recipeEntries := x\<rparr>, n)) = (unfinishedRecipes (core_backend s)) (k \<mapsto> (r\<lparr>recipeEntries := x\<rparr>, n))" for x
      using 2(3) by (simp add: r1_def)
    show ?thesis using 3(2) unfolding o 5 6 2(4) by - (intro exI conjI, rule 4, blast)
  qed
qed

subsection \<open>Uploading a file in packets\<close>

text \<open>The exchange of an upload: the client asks for the duplicate status of the shares of a packet (the first stage) and then
  sends the packet with the data of the other shares (the second stage). A packet is here a list of entries with the data
  of their shares.\<close>

definition packet_head :: "int \<Rightarrow> nat \<Rightarrow> (shareMetaEntry \<times> bytes) list \<Rightarrow> fileShareMetaHead" where
  "packet_head fsize past p = \<lparr>metaFileSize = fsize, numOfPastSecrets = past, numOfComingSecrets = length p\<rparr>"

definition statuses :: "user_id_t \<Rightarrow> (shareMetaEntry \<times> bytes) list \<Rightarrow> core \<Rightarrow> packet" where
  "statuses userID p s = map (\<lambda>(e, xs). (e, intraUserIndexUpdate (metaShareFP e) userID s, xs)) p"

primrec upload_packets :: "xd3_mem \<Rightarrow> xd3_mem \<Rightarrow> (bytes \<Rightarrow> superF) \<Rightarrow> (bytes \<Rightarrow> fingerprint_t) \<Rightarrow> user_id_t \<Rightarrow> string \<Rightarrow> int \<Rightarrow> nat
    \<Rightarrow> (shareMetaEntry \<times> bytes) list list \<Rightarrow> nat \<Rightarrow> (core, unit) act" where
  "upload_packets mc mr gen toFP userID fn fsize n [] past = returnM ()"
| "upload_packets mc mr gen toFP userID fn fsize n (p # ps) past =
     andThen (\<lambda>s. secondStageDedup mc mr True gen toFP userID (packet_head fsize past p) fn (map fst p)
                    (sent (statuses userID p s)) (firstStageDedup userID (map fst p) s) n s)
       (\<lambda>_. upload_packets mc mr gen toFP userID fn fsize n ps (past + length p))"

definition shares_of :: "(shareMetaEntry \<times> bytes) list \<Rightarrow> (fingerprint_t \<times> bytes) set" where
  "shares_of p = (\<lambda>(e, xs). (metaShareFP e, xs)) ` set p"

definition sized :: "(shareMetaEntry \<times> bytes) list \<Rightarrow> bool" where
  "sized p = list_all (\<lambda>(e, xs). metaShareSize e = int (length xs) \<and> length xs \<le> max_share) p"

definition recipe_of :: "user_id_t \<Rightarrow> int \<Rightarrow> (shareMetaEntry \<times> bytes) list \<Rightarrow> fileRecipe" where
  "recipe_of userID fsize p = \<lparr>recipeUser = userID, recipeFileSize = fsize, numOfShares = length p, recipeEntries = map (recipe_entry \<circ> fst) p\<rparr>"

text \<open>The recipe of a file of which the entries \<open>done\<close> have come.\<close>

definition in_progress :: "user_id_t \<Rightarrow> int \<Rightarrow> nat \<Rightarrow> (shareMetaEntry \<times> bytes) list \<Rightarrow> fileRecipe \<Rightarrow> bool" where
  "in_progress userID fsize n p r \<longleftrightarrow> recipeUser r = userID \<and> recipeFileSize r = fsize \<and> numOfShares r = length p
     \<and> length (recipeEntries r) = n \<and> take (length p) (recipeEntries r) = map (recipe_entry \<circ> fst) p"

lemma statuses_facts:
  "map fst (statuses userID p s) = map fst p" "map (fst \<circ> snd) (statuses userID p s) = firstStageDedup userID (map fst p) s"
  "length (statuses userID p s) = length p" "well_sized (statuses userID p s) = sized p"
  "map (recipe_entry \<circ> fst) (statuses userID p s) = map (recipe_entry \<circ> fst) p"
  by (auto simp: statuses_def firstStageDedup_def well_sized_def sized_def list_all_iff split: prod.splits)

text \<open>A duplicate is a share that the index already has.\<close>

lemma store_inv_dups:
  assumes "store_inv (uploaded (statuses userID p s) \<union> H) b" "store_inv H (core_backend s)"
  shows "store_inv (shares_of p \<union> H) b"
proof (rule store_invI)
  note i = store_invD [OF assms(1)]
  have sub: "uploaded (statuses userID p s) \<subseteq> shares_of p" by (force simp: uploaded_def statuses_def shares_of_def)
  show "containers_wf b" by (rule i)
  show "\<exists>xs. (fp, xs) \<in> shares_of p \<union> H \<and> entry_ok b j xs" if "visible b fp j" for fp j using i(2) [OF that] sub by blast
  show "same_data j k" if "db b (share_key fp) = Some j" "(share_key fp, k) \<in> set (writeBatch b)" for fp j k using i(4) that by blast
  show "\<exists>j. visible b fp j" if mem: "(fp, xs) \<in> shares_of p \<union> H" for fp xs
  proof (cases "(fp, xs) \<in> H")
    case False
    then obtain e where e: "(e, xs) \<in> set p" "fp = metaShareFP e" using mem by (auto simp: shares_of_def)
    show ?thesis
    proof (cases "intraUserIndexUpdate fp userID s")
      case True
      then obtain j where "visible (core_backend s) fp j"
        by (auto simp: intraUserIndexUpdate_def getShareIndex_def visible_def split: option.splits)
      then show ?thesis using store_invD(2) [OF assms(2)] i(3) by blast
    next
      case nd: False
      have "(e, False, xs) \<in> set (statuses userID p s)" using e nd by (force simp: statuses_def)
      then have "(fp, xs) \<in> uploaded (statuses userID p s)" using e(2) by (auto simp: uploaded_def)
      then show ?thesis using i(3) by blast
    qed
  qed (use i(3) in blast)
qed

lemma BatchFlush_recipes [simp]: "unfinishedRecipes (BatchFlush b) = unfinishedRecipes b" "recipeFiles (BatchFlush b) = recipeFiles b"
  by (simp_all add: BatchFlush_def)

text \<open>The recipe that \<open>putRecipeFile\<close> opens or finds.\<close>

lemma putRecipeFile_ok:
  assumes "past = 0 \<and> unfinishedRecipes b k = None \<and> pre = [] \<or> 0 < past \<and> length pre = past \<and> (\<exists>r. unfinishedRecipes b k = Some (r, n) \<and> in_progress userID fsize n pre r)"
  shows "\<exists>r. putRecipeFile userID k (packet_head fsize past p) n b = Some (Inr past, b\<lparr>unfinishedRecipes := (unfinishedRecipes b)(k \<mapsto> (r, n))\<rparr>)
     \<and> in_progress userID fsize n pre r \<and> length pre = past"
  using assms
proof
  assume "0 < past \<and> length pre = past \<and> (\<exists>r. unfinishedRecipes b k = Some (r, n) \<and> in_progress userID fsize n pre r)"
  then obtain r where r: "0 < past" "length pre = past" "unfinishedRecipes b k = Some (r, n)" "in_progress userID fsize n pre r" by blast
  then have "b\<lparr>unfinishedRecipes := (unfinishedRecipes b)(k \<mapsto> (r, n))\<rparr> = b" by (simp add: fun_upd_idem)
  then show ?thesis using r by (intro exI [of _ r]) (simp add: putRecipeFile_def packet_head_def returnM_def)
qed (auto simp: putRecipeFile_def packet_head_def returnM_def in_progress_def empty_recipe_def
  intro!: exI [of _ "\<lparr>recipeUser = userID, recipeFileSize = fsize, numOfShares = 0, recipeEntries = replicate n zero_entry\<rparr>"])

lemma in_progress_add:
  assumes "in_progress userID fsize n pre r" "length pre + length p \<le> n"
  shows "in_progress userID fsize n (pre @ p)
    (r\<lparr>recipeEntries := overwrite (recipeEntries r) (length pre) (map (recipe_entry \<circ> fst) p), numOfShares := numOfShares r + length p\<rparr>)"
  using assms by (auto simp: in_progress_def overwrite_def)

lemma in_progress_full: "in_progress userID fsize n p r \<Longrightarrow> length p = n \<Longrightarrow> r = recipe_of userID fsize p"
  by (cases r) (auto simp: in_progress_def recipe_of_def)

lemma finishRecipeFile_ok:
  assumes "unfinishedRecipes b k = Some (r, n)"
  shows "\<exists>b'. finishRecipeFile k (packet_head fsize past p) b = Some (Inr (), b') \<and> writeBatch b' = [] \<and> (store_inv H b \<longrightarrow> store_inv H b')
     \<and> (if numOfShares r + length p = n
        then recipeFiles b' = (recipeFiles b)(k \<mapsto> r\<lparr>numOfShares := numOfShares r + length p\<rparr>) \<and> unfinishedRecipes b' = (unfinishedRecipes b)(k := None)
        else unfinishedRecipes b' = (unfinishedRecipes b)(k \<mapsto> (r\<lparr>numOfShares := numOfShares r + length p\<rparr>, n)) \<and> recipeFiles b' = recipeFiles b)"
  using assms store_inv_flush by (auto simp: finishRecipeFile_def packet_head_def returnM_def Let_def)

definition file_key :: "(bytes \<Rightarrow> fingerprint_t) \<Rightarrow> user_id_t \<Rightarrow> string \<Rightarrow> key_t" where
  "file_key toFP userID fn = ToIndexKey RECIPE (ToRecipeFP toFP fn userID)"

text \<open>Where an upload stands when the entries \<open>pre\<close> have come and more are expected.\<close>

definition awaiting :: "user_id_t \<Rightarrow> int \<Rightarrow> nat \<Rightarrow> key_t \<Rightarrow> (shareMetaEntry \<times> bytes) list \<Rightarrow> backend \<Rightarrow> bool" where
  "awaiting userID fsize n k pre b \<longleftrightarrow> pre = [] \<and> unfinishedRecipes b k = None
     \<or> pre \<noteq> [] \<and> (\<exists>r. unfinishedRecipes b k = Some (r, n) \<and> in_progress userID fsize n pre r)"

lemma packet_ok:
  assumes s: "store_inv H (core_backend s)" and p: "sized p" "p \<noteq> []" "length pre + length p \<le> n"
    and fn: "FormatFullFileName fn = Inr fn'" and a: "awaiting userID fsize n (file_key toFP userID fn') pre (core_backend s)"
  shows "\<exists>res t. secondStageDedup mc mr True gen toFP userID (packet_head fsize (length pre) p) fn (map fst p)
         (sent (statuses userID p s)) (firstStageDedup userID (map fst p) s) n s = Some (res, t)
     \<and> (res = Inr () \<and> store_inv (shares_of p \<union> H) (core_backend t) \<and> writeBatch (core_backend t) = []
          \<and> (if length pre + length p = n then recipeFiles (core_backend t) (file_key toFP userID fn') = Some (recipe_of userID fsize (pre @ p))
             else awaiting userID fsize n (file_key toFP userID fn') (pre @ p) (core_backend t))
        \<or> res = Inl Name_space_exhausted \<and> (\<exists>H'. H \<subseteq> H' \<and> store_inv H' (core_backend t)))"
proof -
  define k where "k = file_key toFP userID fn'"
  define its where "its = statuses userID p s"
  note st = statuses_facts [of userID p s, folded its_def]
  obtain r where r: "putRecipeFile userID k (packet_head fsize (length pre) p) n (core_backend s)
      = Some (Inr (length pre), (core_backend s)\<lparr>unfinishedRecipes := (unfinishedRecipes (core_backend s))(k \<mapsto> (r, n))\<rparr>)"
    "in_progress userID fsize n pre r"
    using putRecipeFile_ok [of "length pre" "core_backend s" k pre n userID fsize p] a by (auto simp: awaiting_def k_def)
  define s1 where "s1 = s\<lparr>core_backend := (core_backend s)\<lparr>unfinishedRecipes := (unfinishedRecipes (core_backend s))(k \<mapsto> (r, n))\<rparr>\<rparr>"
  have s1: "store_inv H (core_backend s1)" "unfinishedRecipes (core_backend s1) k = Some (r, n)" "length pre + length its \<le> length (recipeEntries r)"
    using s p(3) r(2) st(3) by (simp_all add: s1_def in_progress_def)
  obtain res t where l: "secondStageLoop mc mr True gen userID k (sent its) (map fst its) (map (fst \<circ> snd) its) 0 (length pre) s1 = Some (res, t)"
    "res = Inr () \<and> store_inv (uploaded its \<union> H) (core_backend t)
          \<and> unfinishedRecipes (core_backend t) = (unfinishedRecipes (core_backend s1))
              (k \<mapsto> (r\<lparr>recipeEntries := overwrite (recipeEntries r) (length pre) (map (recipe_entry \<circ> fst) its)\<rparr>, n))
          \<and> recipeFiles (core_backend t) = recipeFiles (core_backend s1)
        \<or> res = Inl Name_space_exhausted \<and> (\<exists>H'. H \<subseteq> H' \<and> store_inv H' (core_backend t))"
    using secondStageLoop_ok [OF s1, of 0 "sent its" "[]" mc mr gen userID] p(1) st(4) by auto
  have go: "secondStageDedup mc mr True gen toFP userID (packet_head fsize (length pre) p) fn (map fst p)
         (sent its) (firstStageDedup userID (map fst p) s) n s
      = andThen (\<lambda>_. Some (res, t)) (\<lambda>_. on_backend (finishRecipeFile k (packet_head fsize (length pre) p))) s1"
    using r(1) l(1) fn st(1,2)
    by (simp add: secondStageDedup_def k_def [symmetric] file_key_def [symmetric] andThen_def on_backend_def s1_def [symmetric] packet_head_def)
  show ?thesis
  proof (cases res)
    case (Inl er)
    then show ?thesis using go l(2) unfolding its_def by (auto simp: andThen_def)
  next
    case (Inr u)
    define r2 where "r2 = r\<lparr>recipeEntries := overwrite (recipeEntries r) (length pre) (map (recipe_entry \<circ> fst) p)\<rparr>"
    have t: "store_inv (shares_of p \<union> H) (core_backend t)" "unfinishedRecipes (core_backend t) k = Some (r2, n)"
      using l(2) Inr st(5) store_inv_dups [of userID p s H "core_backend t"] s by (auto simp: its_def r2_def)
    obtain b where b: "finishRecipeFile k (packet_head fsize (length pre) p) (core_backend t) = Some (Inr (), b)" "writeBatch b = []"
      "store_inv (shares_of p \<union> H) b"
      "if numOfShares r2 + length p = n then recipeFiles b = (recipeFiles (core_backend t))(k \<mapsto> r2\<lparr>numOfShares := numOfShares r2 + length p\<rparr>)
       else unfinishedRecipes b = (unfinishedRecipes (core_backend t))(k \<mapsto> (r2\<lparr>numOfShares := numOfShares r2 + length p\<rparr>, n))"
      using finishRecipeFile_ok [OF t(2), of fsize "length pre" p "shares_of p \<union> H"] t(1) by (auto split: if_splits)
    have ip: "in_progress userID fsize n (pre @ p) (r2\<lparr>numOfShares := numOfShares r2 + length p\<rparr>)" "numOfShares r2 = length pre"
      using in_progress_add [OF r(2) p(3)] r(2) by (simp_all add: r2_def in_progress_def)
    have go2: "secondStageDedup mc mr True gen toFP userID (packet_head fsize (length pre) p) fn (map fst p)
         (sent its) (firstStageDedup userID (map fst p) s) n s = Some (Inr (), t\<lparr>core_backend := b\<rparr>)"
      using go Inr b(1) by (simp add: andThen_def on_backend_def)
    have fin: "if length pre + length p = n then recipeFiles b k = Some (recipe_of userID fsize (pre @ p)) else awaiting userID fsize n k (pre @ p) b"
      using b(4) ip p(2) in_progress_full [OF ip(1)] by (auto simp: awaiting_def split: if_splits)
    show ?thesis using go2 [unfolded its_def] b(2,3) fin [unfolded k_def]
      by (intro exI [of _ "Inr ()"] exI [of _ "t\<lparr>core_backend := b\<rparr>"]) simp
  qed
qed

lemma upload_packets_ok:
  assumes "store_inv H (core_backend s)" "list_all sized ps" "[] \<notin> set ps" "ps \<noteq> []" "length pre + length (concat ps) = n"
    and "FormatFullFileName fn = Inr fn'" "awaiting userID fsize n (file_key toFP userID fn') pre (core_backend s)"
  shows "\<exists>res t. upload_packets mc mr gen toFP userID fn fsize n ps (length pre) s = Some (res, t)
     \<and> (res = Inr () \<and> store_inv (shares_of (concat ps) \<union> H) (core_backend t) \<and> writeBatch (core_backend t) = []
          \<and> recipeFiles (core_backend t) (file_key toFP userID fn') = Some (recipe_of userID fsize (pre @ concat ps))
        \<or> res = Inl Name_space_exhausted \<and> (\<exists>H'. H \<subseteq> H' \<and> store_inv H' (core_backend t)))"
  using assms
proof (induction ps arbitrary: s H pre)
  case (Cons p ps)
  have p: "sized p" "p \<noteq> []" "length pre + length p \<le> n" using Cons.prems by auto
  obtain res t where 1: "secondStageDedup mc mr True gen toFP userID (packet_head fsize (length pre) p) fn (map fst p)
         (sent (statuses userID p s)) (firstStageDedup userID (map fst p) s) n s = Some (res, t)"
    "res = Inr () \<and> store_inv (shares_of p \<union> H) (core_backend t) \<and> writeBatch (core_backend t) = []
          \<and> (if length pre + length p = n then recipeFiles (core_backend t) (file_key toFP userID fn') = Some (recipe_of userID fsize (pre @ p))
             else awaiting userID fsize n (file_key toFP userID fn') (pre @ p) (core_backend t))
        \<or> res = Inl Name_space_exhausted \<and> (\<exists>H'. H \<subseteq> H' \<and> store_inv H' (core_backend t))"
    using packet_ok [OF Cons.prems(1) p Cons.prems(6,7), of mc mr gen] by (elim exE conjE) (rule that)
  show ?case
  proof (cases res)
    case (Inl er)
    then show ?thesis using 1 by (auto simp: andThen_def)
  next
    case (Inr u)
    have run: "upload_packets mc mr gen toFP userID fn fsize n (p # ps) (length pre) s
        = upload_packets mc mr gen toFP userID fn fsize n ps (length (pre @ p)) t"
      using 1(1) Inr by (simp add: andThen_def)
    have t: "store_inv (shares_of p \<union> H) (core_backend t)" "writeBatch (core_backend t) = []" using 1(2) Inr by auto
    show ?thesis
    proof (cases "ps = []")
      case True
      then have "recipeFiles (core_backend t) (file_key toFP userID fn') = Some (recipe_of userID fsize (pre @ p))"
        using 1(2) Inr Cons.prems(5) by auto
      then show ?thesis using run t True by (simp add: returnM_def)
    next
      case False
      then have "concat ps \<noteq> []" using Cons.prems(3) by (cases ps) auto
      then have a: "awaiting userID fsize n (file_key toFP userID fn') (pre @ p) (core_backend t)"
        using 1(2) Inr Cons.prems(5) by (auto split: if_splits)
      obtain res2 t2 where 2: "upload_packets mc mr gen toFP userID fn fsize n ps (length (pre @ p)) t = Some (res2, t2)"
        "res2 = Inr () \<and> store_inv (shares_of (concat ps) \<union> (shares_of p \<union> H)) (core_backend t2) \<and> writeBatch (core_backend t2) = []
          \<and> recipeFiles (core_backend t2) (file_key toFP userID fn') = Some (recipe_of userID fsize ((pre @ p) @ concat ps))
         \<or> res2 = Inl Name_space_exhausted \<and> (\<exists>H'. shares_of p \<union> H \<subseteq> H' \<and> store_inv H' (core_backend t2))"
        using Cons.IH [OF t(1) _ _ False _ Cons.prems(6) a] Cons.prems(2,3,5) by auto
      have "shares_of (concat ps) \<union> (shares_of p \<union> H) = shares_of (concat (p # ps)) \<union> H" by (auto simp: shares_of_def)
      then show ?thesis using 2 run by auto
    qed
  qed
qed simp

subsection \<open>Restoring a file\<close>

lemma length_images [simp]: "length (entry_image e) = SHARE_ENTRY_SIZE" "length (head_image r) = 12"
  by (simp_all add: entry_image_def head_image_def le_bytes_def SHARE_ENTRY_SIZE_def)

text \<open>The stream that a client receives for the entries of a recipe.\<close>

definition share_stream :: "(fileRecipeEntry \<times> bytes) list \<Rightarrow> bytes" where
  "share_stream es = concat (map (\<lambda>(e, xs). entry_image e @ xs) es)"

lemma take_splice_more: "off + length xs \<le> length arr \<Longrightarrow> take (off + length xs) (splice arr off xs) = take off arr @ xs"
  by (simp add: splice_def)

lemma restoreLoop_ok:
  assumes "list_all (\<lambda>(e, xs). entryShareSize e = int (length xs) \<and> length xs \<le> max_share \<and> SHARE_ENTRY_SIZE + length xs \<le> length arr
      \<and> (\<forall>dst. length dst = length xs \<longrightarrow> restoreShare mr (entryFP e) dst b = Some (Inr xs))) es"
    and "off \<le> length arr" "length arr < 2 ^ 63" "list_all (\<lambda>part. length part \<le> length arr) out"
  shows "\<exists>outs. restoreLoop mr b (map fst es) arr off out = Some (None, outs) \<and> concat outs = concat out @ take off arr @ share_stream es
     \<and> list_all (\<lambda>part. length part \<le> length arr) outs"
  using assms
proof (induction es arbitrary: arr off out)
  case Nil
  then show ?case by (auto simp: share_stream_def)
next
  case (Cons it es)
  obtain e xs where it: "it = (e, xs)" by force
  have c: "entryShareSize e = int (length xs)" "SHARE_ENTRY_SIZE + length xs \<le> length arr"
    "\<And>dst. length dst = length xs \<Longrightarrow> restoreShare mr (entryFP e) dst b = Some (Inr xs)" "int SHARE_ENTRY_SIZE + entryShareSize e < 2 ^ 31"
    using Cons.prems(1) it by (auto simp: max_share_def SHARE_ENTRY_SIZE_def)
  define out1 where "out1 = (if off + (SHARE_ENTRY_SIZE + length xs) \<ge> length arr then out @ [take off arr] else out)"
  define off1 where "off1 = (if off + (SHARE_ENTRY_SIZE + length xs) \<ge> length arr then 0 else off)"
  have o: "off1 + SHARE_ENTRY_SIZE + length xs \<le> length arr" using c(2) by (simp add: off1_def)
  define arr1 where "arr1 = splice arr off1 (entry_image e)"
  define arr2 where "arr2 = splice arr1 (off1 + SHARE_ENTRY_SIZE) xs"
  have l: "length arr1 = length arr" "length arr2 = length arr" using o by (simp_all add: arr1_def arr2_def length_splice)
  have tk: "concat out1 @ take (off1 + SHARE_ENTRY_SIZE + length xs) arr2 = concat out @ take off arr @ entry_image e @ xs"
    using o l take_splice_more [of "off1 + SHARE_ENTRY_SIZE" xs arr1] take_splice_more [of off1 "entry_image e" arr]
    by (simp add: arr2_def arr1_def [symmetric]) (simp add: out1_def off1_def)
  have m: "nat ((int SHARE_ENTRY_SIZE + entryShareSize e) mod 2 ^ 64) = SHARE_ENTRY_SIZE + length xs"
    "(off + (SHARE_ENTRY_SIZE + length xs)) mod 2 ^ 64 = off + (SHARE_ENTRY_SIZE + length xs)"
    using c(1,2) Cons.prems(2,3) by (simp_all add: nat_mod_distrib nat_add_distrib)
  have step: "restoreLoop mr b (map fst (it # es)) arr off out = restoreLoop mr b (map fst es) arr2 (off1 + SHARE_ENTRY_SIZE + length xs) out1"
    using c(1,3,4) o l m it by (simp add: Let_def write_at_def out1_def [symmetric] off1_def [symmetric] arr1_def [symmetric] arr2_def [symmetric])
  have ih: "\<exists>outs. restoreLoop mr b (map fst es) arr2 (off1 + SHARE_ENTRY_SIZE + length xs) out1 = Some (None, outs)
     \<and> concat outs = concat out1 @ take (off1 + SHARE_ENTRY_SIZE + length xs) arr2 @ share_stream es \<and> list_all (\<lambda>part. length part \<le> length arr2) outs"
    using Cons.IH [of arr2 "off1 + SHARE_ENTRY_SIZE + length xs" out1] Cons.prems l o by (auto simp: out1_def)
  show ?case unfolding step using ih tk l it by (auto simp: share_stream_def)
qed

text \<open>The stream of a whole file: the head with its padding, then the entries with their shares.\<close>

definition file_stream :: "bytes \<Rightarrow> user_id_t \<Rightarrow> int \<Rightarrow> (shareMetaEntry \<times> bytes) list \<Rightarrow> bytes" where
  "file_stream arr userID fsize p = head_image (recipe_of userID fsize p) @ take 4 (drop 12 arr) @ share_stream (map (\<lambda>(e, xs). (recipe_entry e, xs)) p)"

definition collision_free :: "(fingerprint_t \<times> bytes) set \<Rightarrow> bool" where
  "collision_free H \<longleftrightarrow> (\<forall>fp xs ys. (fp, xs) \<in> H \<longrightarrow> (fp, ys) \<in> H \<longrightarrow> xs = ys)"

lemma share_restored:
  assumes "store_inv H b" "writeBatch b = []" "collision_free H" "mem_ok mr" "(fp, xs) \<in> H" "length dst = length xs"
  shows "restoreShare mr fp dst b = Some (Inr xs)"
proof -
  obtain i where i: "db b (share_key fp) = Some i" using store_invD(3) [OF assms(1,5)] assms(2) by (auto simp: visible_def)
  obtain ys where y: "(fp, ys) \<in> H" "\<And>dst. length dst = length ys \<Longrightarrow> restoreShare mr fp dst b = Some (Inr ys)"
    using restoreShare_ok [OF assms(1,4) i] by blast
  have "ys = xs" using assms(3,5) y(1) by (auto simp: collision_free_def)
  then show ?thesis using y(2) assms(6) by simp
qed

lemma restoreShareFile_ok:
  assumes s: "store_inv H b" "writeBatch b = []" "collision_free H" "mem_ok mr" and p: "shares_of p \<subseteq> H" "sized p"
    and fn: "FormatFullFileName fn = Inr fn'" and f: "recipeFiles b (file_key toFP userID fn') = Some (recipe_of userID fsize p)"
    and c: "cached (file_key toFP userID fn') = None \<or> cached (file_key toFP userID fn') = recipeFiles b (file_key toFP userID fn')"
    and l: "16 \<le> length arr" "length arr < 2 ^ 63" "list_all (\<lambda>(e, xs). SHARE_ENTRY_SIZE + length xs \<le> length arr) p"
  shows "\<exists>parts. restoreShareFile mr cached toFP userID fn arr b = Some (None, parts) \<and> concat parts = file_stream arr userID fsize p
     \<and> list_all (\<lambda>part. length part \<le> length arr) parts"
proof -
  let ?r = "recipe_of userID fsize p" and ?es = "map (\<lambda>(e, xs). (recipe_entry e, xs)) p"
  define arr1 where "arr1 = splice arr 0 (head_image ?r)"
  have a: "length arr1 = length arr" "take 16 arr1 = head_image ?r @ take 4 (drop 12 arr)" "write_at arr 0 (head_image ?r) = Some arr1"
    using l(1) by (simp_all add: arr1_def length_splice write_at_def) (simp add: splice_def)
  have "restoreShare mr (metaShareFP e) dst b = Some (Inr xs)" if "(e, xs) \<in> set p" "length dst = length xs" for e xs dst
    using share_restored [OF s] p(1) that by (force simp: shares_of_def)
  then have "list_all (\<lambda>(e, xs). entryShareSize e = int (length xs) \<and> length xs \<le> max_share \<and> SHARE_ENTRY_SIZE + length xs \<le> length arr1
      \<and> (\<forall>dst. length dst = length xs \<longrightarrow> restoreShare mr (entryFP e) dst b = Some (Inr xs))) ?es"
    using p(2) l(3) a(1) by (auto simp: list_all_iff sized_def recipe_entry_def)
  from restoreLoop_ok [OF this, of 16 "[]"] obtain parts where
    "restoreLoop mr b (map fst ?es) arr1 16 [] = Some (None, parts)" "concat parts = take 16 arr1 @ share_stream ?es"
    "list_all (\<lambda>part. length part \<le> length arr) parts" using l(1,2) a(1) by auto
  moreover have "restoreShareFile mr cached toFP userID fn arr b = restoreLoop mr b (map fst ?es) arr1 16 []"
  proof -
    have "getRecipeData cached (file_key toFP userID fn') b = Inr ?r" using f c by (auto simp: getRecipeData_def)
    moreover have "take (numOfShares ?r) (recipeEntries ?r) = map fst ?es" by (auto simp: recipe_of_def)
    ultimately show ?thesis using fn a(3)
      by (simp add: restoreShareFile_def SHARE_FILE_HEAD_SIZE_def file_key_def)
  qed
  ultimately show ?thesis using a(2) by (auto simp: file_stream_def)
qed

text \<open>An upload keeps a server within the states of \<^const>\<open>uploads\<close>.\<close>

lemma uploads_setRecipe:
  assumes "uploads s H" "on_backend (setRecipeEntry k pos e) s = Some (r, t)"
  shows "uploads t H"
  using assms uploads.recipes [OF assms(1), where f = "recipeFiles (core_backend s)"]
  by (auto simp: on_backend_def setRecipeEntry_def returnM_def split: option.splits if_splits)

lemma uploads_step:
  assumes u: "uploads s H" "metaShareSize e \<le> int max_share"
    and e: "secondStageStep mc mr True gen userID k shareData e dup off pos s = Some (r, t)"
  shows "\<exists>H'. H \<subseteq> H' \<and> uploads t H'"
proof -
  define xs where "xs = take (nat (metaShareSize e)) (drop off shareData)"
  have xs: "length xs \<le> max_share" using u(2) by (simp add: xs_def)
  have i: "\<exists>H'. H \<subseteq> H' \<and> uploads s' H'" if "interUserIndexUpdate mc mr True gen (metaShareFP e) userID xs s = Some (q, s')" for q s'
    using uploads.stored [OF u(1) xs, of mc mr gen "metaShareFP e" userID s'] uploads.refused [OF u(1) xs, of mc mr gen "metaShareFP e" userID] that
    by (cases q) auto
  let ?set = "on_backend (setRecipeEntry k pos \<lparr>entryFP = metaShareFP e, secretID = metaSecretID e, secretSize = metaSecretSize e, entryShareSize = metaShareSize e\<rparr>)"
  have st: "\<exists>H'. H \<subseteq> H' \<and> uploads t' H'" if h: "andThen ?set (\<lambda>_. returnM x) s' = Some (q, t')" "uploads s' H1" "H \<subseteq> H1" for s' t' q H1 and x :: nat
  proof -
    obtain q' where "?set s' = Some (q', t')" using h(1) by (auto simp: andThen_def returnM_def split: option.splits sum.splits)
    then show ?thesis using uploads_setRecipe [OF h(2)] h(3) by blast
  qed
  show ?thesis
  proof (cases "dup \<or> metaShareSize e < 0")
    case True
    then show ?thesis using st [of off s r t H] e u(1) by (auto simp: secondStageStep_def andThen_def [of "returnM off"] andThen_def [of "throw _"] returnM_def throw_def split: if_splits)
  next
    case False
    then obtain q s' where q: "interUserIndexUpdate mc mr True gen (metaShareFP e) userID xs s = Some (q, s')"
      using e by (auto simp: secondStageStep_def andThen_def xs_def split: option.splits if_splits)
    obtain H1 where H1: "H \<subseteq> H1" "uploads s' H1" using i [OF q] by blast
    show ?thesis
    proof (cases q)
      case (Inl er)
      then have "t = s'" using e q False by (simp add: secondStageStep_def andThen_def xs_def split: if_splits)
      then show ?thesis using H1 by blast
    next
      case (Inr u)
      then have "andThen ?set (\<lambda>_. returnM (off + nat (metaShareSize e))) s' = Some (r, t)"
        using e q False by (simp add: secondStageStep_def andThen_def [of _ _ s] xs_def returnM_def split: if_splits)
      then show ?thesis using st H1 by blast
    qed
  qed
qed

lemma uploads_loop:
  assumes "uploads s H" "list_all (\<lambda>e. metaShareSize e \<le> int max_share) es"
    and "secondStageLoop mc mr True gen userID k shareData es dupStat off pos s = Some (r, t)"
  shows "\<exists>H'. H \<subseteq> H' \<and> uploads t H'"
  using assms
proof (induction es arbitrary: dupStat off pos s H)
  case (Cons e es)
  obtain dup ds where d: "dupStat = dup # ds" using Cons.prems(3) by (cases dupStat) auto
  obtain q s' where q: "secondStageStep mc mr True gen userID k shareData e dup off pos s = Some (q, s')"
    "case q of Inl _ \<Rightarrow> t = s' | Inr off' \<Rightarrow> secondStageLoop mc mr True gen userID k shareData es ds off' (pos + 1) s' = Some (r, t)"
    using Cons.prems(3) d by (auto simp: andThen_def split: option.splits sum.splits)
  have e: "metaShareSize e \<le> int max_share" "list_all (\<lambda>e. metaShareSize e \<le> int max_share) es" using Cons.prems(2) by auto
  obtain H1 where H1: "H \<subseteq> H1" "uploads s' H1" using uploads_step [OF Cons.prems(1) e(1) q(1)] by blast
  show ?case
  proof (cases q)
    case (Inr off')
    then obtain H2 where "H1 \<subseteq> H2" "uploads t H2" using Cons.IH [OF H1(2) e(2), of ds off' "pos + 1"] q(2) by auto
    then show ?thesis using H1(1) by blast
  qed (use H1 q(2) in auto)
qed (auto simp: returnM_def)

lemma uploads_packet:
  assumes u: "uploads s H" and l: "list_all (\<lambda>e. metaShareSize e \<le> int max_share) entries"
    and e: "secondStageDedup mc mr True gen toFP userID head fn entries shareData dupStat n s = Some (r, t)"
  shows "\<exists>H'. H \<subseteq> H' \<and> uploads t H'"
proof (cases "FormatFullFileName fn")
  case (Inl er)
  then show ?thesis using e u by (auto simp: secondStageDedup_def throw_def)
next
  case (Inr fn')
  define k where "k = ToIndexKey RECIPE (ToRecipeFP toFP fn' userID)"
  have recipes: "uploads (s\<lparr>core_backend := b\<rparr>) H" if "b = (core_backend s)\<lparr>unfinishedRecipes := u, recipeFiles := f\<rparr>" "uploads s H" for s b u f H
    using uploads.recipes that by simp
  obtain q b where q: "putRecipeFile userID k head n (core_backend s) = Some (q, b)"
    using e Inr by (auto simp: secondStageDedup_def Let_def andThen_def on_backend_def k_def split: option.splits)
  have b: "b = (core_backend s)\<lparr>unfinishedRecipes := unfinishedRecipes b, recipeFiles := recipeFiles (core_backend s)\<rparr>"
    using q by (auto simp: putRecipeFile_def returnM_def throw_def Let_def split: if_splits option.splits prod.splits)
  have s1: "uploads (s\<lparr>core_backend := b\<rparr>) H" using recipes [OF b u] .
  show ?thesis
  proof (cases q)
    case (Inl er)
    then show ?thesis using e \<open>FormatFullFileName fn = Inr fn'\<close> q s1 by (auto simp: secondStageDedup_def Let_def andThen_def on_backend_def k_def)
  next
    case start: (Inr start)
    obtain q2 t1 where 1: "secondStageLoop mc mr True gen userID k shareData (take (numOfComingSecrets head) entries) dupStat 0 start (s\<lparr>core_backend := b\<rparr>) = Some (q2, t1)"
      "case q2 of Inl _ \<Rightarrow> t = t1 | Inr _ \<Rightarrow> on_backend (finishRecipeFile k head) t1 = Some (r, t)"
      using e Inr q start
      by (auto simp: secondStageDedup_def Let_def andThen_def on_backend_def k_def split: option.splits sum.splits prod.splits)
    obtain H1 where H1: "H \<subseteq> H1" "uploads t1 H1"
      using uploads_loop [OF s1 _ 1(1)] l by (auto simp: list_all_iff dest: in_set_takeD)
    have "uploads t H1"
    proof (cases q2)
      case u2: (Inr u2)
      obtain b2 where b2: "finishRecipeFile k head (core_backend t1) = Some (r, b2)" "t = t1\<lparr>core_backend := b2\<rparr>"
        using 1(2) u2 by (auto simp: on_backend_def)
      then consider "b2 = core_backend t1"
        | b' where "b2 = BatchFlush b'" "b' = (core_backend t1)\<lparr>unfinishedRecipes := unfinishedRecipes b', recipeFiles := recipeFiles b'\<rparr>"
        by (auto simp: finishRecipeFile_def throw_def returnM_def Let_def split: option.splits if_splits)
      then show ?thesis
      proof cases
        case 2
        then show ?thesis using uploads.flushed [OF recipes [OF 2(2) H1(2)]] b2(2) by simp
      qed (use b2(2) H1(2) in simp)
    qed (use 1(2) H1 in auto)
    then show ?thesis using H1(1) by blast
  qed
qed

text \<open>An allocator that never fails, for the witnesses.\<close>

definition full_mem :: xd3_mem where
  "full_mem = \<lparr>alloc_ok = \<lambda>_. True, alloc_cnt = 0, enc_free = 0\<rparr>"

lemma full_mem_ok [simp]: "mem_ok full_mem"
  by (simp add: full_mem_def mem_ok_def)

end
