(* ===== verification/Dedup_Server.thy ===== *)
theory Dedup_Server
  imports Prelude Dedup_Backend Dedup_Core Dedup_Safe Dedup_Files
begin

section \<open>The server: properties of uploads and restorations\<close>

text \<open>
  The properties of the storage server, over the states that a server reaches from its start on an empty
  directory (\<open>uploads\<close>), with witnesses on a concrete server.
\<close>

definition server_start :: core where
  "server_start = \<lparr>core_backend = snd (the (BackendFacade Map.empty Map.empty Map.empty)),
     core_delta = \<lparr>superFeature1Map = Map.empty, superFeature2Map = Map.empty, superFeature3Map = Map.empty\<rparr>\<rparr>"

lemma server_start_image:
  "core_backend server_start = \<lparr>db = Map.empty, writeBatch = [], batchCnt = 0, dispenserName = char_succ (CHR ''a'') # replicate 15 (CHR ''a''),
     shareContainer = Some first_name, shareContainerName = first_name, shareContainerOffset = 0,
     containers = [first_name \<mapsto> replicate CONTAINER_SIZE 0], unfinishedRecipes = Map.empty, recipeFiles = Map.empty\<rparr>"
  "BackendFacade Map.empty Map.empty Map.empty = Some (Inr (), core_backend server_start)"
  "core_delta server_start = \<lparr>superFeature1Map = Map.empty, superFeature2Map = Map.empty, superFeature3Map = Map.empty\<rparr>"
  by (simp_all add: server_start_def BackendFacade_def createShareContainer_def andThen_def dispenser_get_def empty_backend_def
      first_name_def INTERNAL_FILE_NAME_SIZE_def numeral_eq_Suc returnM_def container_create_def)

lemma server_start_uploads: "uploads server_start {}"
  using uploads.start [OF server_start_image(2)] by (simp add: server_start_def)

definition demo_features :: "bytes \<Rightarrow> superF" where
  "demo_features xs = \<lparr>sf1 = 1, sf2 = 2, sf3 = 3\<rparr>"

definition demo_server :: core where
  "demo_server = snd (the (interUserIndexUpdate full_mem full_mem True demo_features (replicate 32 7) 1 [1, 2, 3] server_start))"

lemma demo_server_upload:
  "interUserIndexUpdate full_mem full_mem True demo_features (replicate 32 7) 1 [1, 2, 3] server_start = Some (Inr (), demo_server)"
  by (simp add: server_start_image(1,3) demo_server_def interUserIndexUpdate_def getShareIndex_def findDelta_def superFeatureIndex_def
      storeShare_def andThen_def on_backend_def putShareData_def container_size_def CONTAINER_SIZE_def container_write_def returnM_def
      numeric_cast_int_def modifyM_def)

lemma demo_server_uploads: "uploads demo_server {(replicate 32 7, [1, 2, 3])}"
  using uploads.stored [OF server_start_uploads _ demo_server_upload] by (simp add: max_share_def)



text \<open>C3. The store returns what was stored: in every state a server reaches, after the write batch is flushed, \<open>restoreShare\<close> gives for
  every fingerprint that was uploaded the bytes uploaded under it, whether they are kept as they are or as a delta, as long as no two
  uploads had the same fingerprint and different bytes.\<close>

theorem share_roundtrip:
  assumes "uploads s H" "(fp, xs) \<in> H" "collision_free H" "mem_ok mr" "length dst = length xs"
  shows "restoreShare mr fp dst (BatchFlush (core_backend s)) = Some (Inr xs)"
  by (rule share_restored [OF store_inv_flush [OF uploads_inv [OF assms(1)]] _ assms(3,4,2,5)]) simp

theorem share_roundtrip_witness:
  "restoreShare full_mem (replicate 32 7) [0, 0, 0] (BatchFlush (core_backend demo_server)) = Some (Inr [1, 2, 3])"
  by (rule share_roundtrip [OF demo_server_uploads]) (simp_all add: collision_free_def)

text \<open>C4. Files: a client uploads a file in packets, each through both stages, to a server in any state it reaches where no upload of
  this file is open. The upload ends without a fault; unless the names of containers are used up it succeeds, and then
  \<open>restoreShareFile\<close> hands to its callback, in parts no longer than its buffer, the head of the file and every share in order with
  its entry. Its buffer has to hold the head and each share with its entry; the cache of recipes is empty or up to date for
  the file.\<close>

theorem file_roundtrip:
  assumes "uploads s H" "FormatFullFileName fn = Inr fn'" "unfinishedRecipes (core_backend s) (file_key toFP userID fn') = None"
    and "list_all sized ps" "[] \<notin> set ps" "ps \<noteq> []" "collision_free (shares_of (concat ps) \<union> H)" "mem_ok m"
    and "16 \<le> length arr" "length arr < 2 ^ 63" "list_all (\<lambda>(e, xs). 12 + length xs \<le> length arr) (concat ps)"
  shows "\<exists>r t. upload_packets mc mr gen toFP userID fn fsize (length (concat ps)) ps 0 s = Some (r, t)
     \<and> (r = Inl Name_space_exhausted
        \<or> r = Inr () \<and> (\<forall>cached. cached (file_key toFP userID fn') = None
              \<or> cached (file_key toFP userID fn') = recipeFiles (core_backend t) (file_key toFP userID fn')
            \<longrightarrow> (\<exists>parts. restoreShareFile m cached toFP userID fn arr (core_backend t) = Some (None, parts)
                 \<and> concat parts = file_stream arr userID fsize (concat ps) \<and> list_all (\<lambda>part. length part \<le> length arr) parts)))"
proof -
  have "awaiting userID fsize (length (concat ps)) (file_key toFP userID fn') [] (core_backend s)" using assms(3) by (simp add: awaiting_def)
  from upload_packets_ok [OF uploads_inv [OF assms(1)] assms(4-6) _ assms(2) this, of mc mr gen] obtain r t where
    t: "upload_packets mc mr gen toFP userID fn fsize (length (concat ps)) ps 0 s = Some (r, t)"
      "r = Inr () \<and> store_inv (shares_of (concat ps) \<union> H) (core_backend t) \<and> writeBatch (core_backend t) = []
          \<and> recipeFiles (core_backend t) (file_key toFP userID fn') = Some (recipe_of userID fsize (concat ps)) \<or> r = Inl Name_space_exhausted"
    by auto
  have z: "sized (concat ps)" using assms(4) by (auto simp: sized_def list_all_iff)
  show ?thesis
    using t restoreShareFile_ok [OF _ _ assms(7,8) _ z assms(2) _ _ assms(9,10), of "core_backend t" toFP userID fsize] assms(11)
    by (auto simp: SHARE_ENTRY_SIZE_def)
qed

definition demo_packets :: "(shareMetaEntry \<times> bytes) list list" where
  "demo_packets = [[(\<lparr>metaShareFP = replicate 32 1, metaSecretID = 0, metaSecretSize = 5, metaShareSize = 3\<rparr>, [4, 5, 6])],
     [(\<lparr>metaShareFP = replicate 32 7, metaSecretID = 1, metaSecretSize = 5, metaShareSize = 3\<rparr>, [1, 2, 3])]]"

theorem file_roundtrip_witness:
  "\<exists>r t. upload_packets full_mem full_mem demo_features (take 32) 1 ''a'' 10 2 demo_packets 0 server_start = Some (r, t)
     \<and> (r = Inl Name_space_exhausted
        \<or> r = Inr () \<and> (\<forall>cached. cached (file_key (take 32) 1 ''/a'') = None
              \<or> cached (file_key (take 32) 1 ''/a'') = recipeFiles (core_backend t) (file_key (take 32) 1 ''/a'')
            \<longrightarrow> (\<exists>parts. restoreShareFile full_mem cached (take 32) 1 ''a'' (replicate 32 0) (core_backend t) = Some (None, parts)
                 \<and> concat parts = file_stream (replicate 32 0) 1 10 (concat demo_packets)
                 \<and> list_all (\<lambda>part. length part \<le> length (replicate 32 (0 :: u8))) parts)))"
proof -
  have p: "list_all sized demo_packets" "[] \<notin> set demo_packets" "demo_packets \<noteq> []" "collision_free (shares_of (concat demo_packets) \<union> {})"
    "list_all (\<lambda>(e, xs). 12 + length xs \<le> length (replicate 32 (0 :: u8))) (concat demo_packets)" "length (concat demo_packets) = 2"
    by (auto simp: demo_packets_def sized_def max_share_def collision_free_def shares_of_def replicate_eq_replicate)
  have f: "FormatFullFileName ''a'' = Inr ''/a''" by (simp add: FormatFullFileName_def)
  show ?thesis
    using file_roundtrip [OF server_start_uploads f _ p(1-4) full_mem_ok _ _ p(5), of "take 32" 1 full_mem full_mem demo_features 10] p(6)
    by (simp add: server_start_image(1))
qed

text \<open>C16. Containers: any sequence of writes of byte strings that each fit a container succeeds without a fault, and afterwards
  \<open>getShareData\<close> reads at every location that a write returned the bytes of that write; later writes do not change them.\<close>

theorem container_writes_kept:
  assumes "containers_wf b" "list_all (\<lambda>xs. length xs \<le> CONTAINER_SIZE) xss"
  shows "\<exists>ls t. containers.put_all xss b = Some (ls, t)
     \<and> list_all (\<lambda>((cn, off), xs). getShareData cn off (length xs) t = Some (Inr xs)) ls"
  using containers.put_all_total [OF assms] containers.put_all_get [OF assms] by (fastforce simp: list_all_iff read_at_def)

theorem container_writes_kept_witness:
  "\<exists>ls t. containers.put_all [[1, 2], replicate 262144 3, [4]] (core_backend server_start) = Some (ls, t)
     \<and> list_all (\<lambda>((cn, off), xs). getShareData cn off (length xs) t = Some (Inr xs)) ls"
  by (rule container_writes_kept) (use store_invD(1) [OF uploads_inv [OF server_start_uploads]] in \<open>simp_all add: CONTAINER_SIZE_def\<close>)

text \<open>C15. Deduplication: the upload of a share that the index has writes no data and no feature; it succeeds, and after a flush
  the user is one of the users of the share, so that the first stage reports a duplicate from then on. The batch has nothing
  pending before.\<close>

theorem share_deduplicated:
  assumes "getShareIndex (ToIndexKey SHARE_INDEX fp) (core_backend s) = Some i" "numOfUsers i = length (userRefs i)"
    "writeBatch (core_backend s) = []"
  shows "\<exists>t. interUserIndexUpdate mc mr malloc_ok gen fp userID xs s = Some (Inr (), t) \<and> containers (core_backend t) = containers (core_backend s)
     \<and> core_delta t = core_delta s \<and> intraUserIndexUpdate fp userID (t\<lparr>core_backend := BatchFlush (core_backend t)\<rparr>)"
proof (cases "userID \<in> set (userRefs i)")
  case True
  then show ?thesis using assms by (simp add: interUserIndexUpdate_def getShareIndex_def returnM_def intraUserIndexUpdate_def)
next
  case False
  define j where "j = i\<lparr>userRefs := userRefs i @ [userID], numOfUsers := numOfUsers i + 1\<rparr>"
  define t where "t = s\<lparr>core_backend := Put (ToIndexKey SHARE_INDEX fp) j (core_backend s)\<rparr>"
  have "interUserIndexUpdate mc mr malloc_ok gen fp userID xs s = Some (Inr (), t)"
    using assms(1,2) False by (simp add: interUserIndexUpdate_def returnM_def t_def j_def updateShareIndex_def)
  moreover have "db (BatchFlush (core_backend t)) (ToIndexKey SHARE_INDEX fp) = Some j" "containers (core_backend t) = containers (core_backend s)"
    using assms(3) by (simp_all add: t_def Put_def Let_def)
  ultimately show ?thesis using assms(2) by (simp add: t_def intraUserIndexUpdate_def getShareIndex_def j_def)
qed

definition demo_index :: shareIndex where
  "demo_index = \<lparr>shareSize = 3, numOfUsers = 1, deltaDepth = 0, deltaSize = 0, baseFP = [], containerName = first_name, shareOffset = 0, userRefs = [1]\<rparr>"

definition demo_shared :: core where
  "demo_shared = server_start\<lparr>core_backend := (core_backend server_start)\<lparr>db := [ToIndexKey SHARE_INDEX (replicate 32 7) \<mapsto> demo_index]\<rparr>\<rparr>"

theorem share_deduplicated_witness:
  "\<exists>t. interUserIndexUpdate full_mem full_mem True demo_features (replicate 32 7) 2 [1, 2, 3] demo_shared = Some (Inr (), t)
     \<and> containers (core_backend t) = containers (core_backend demo_shared) \<and> core_delta t = core_delta demo_shared
     \<and> intraUserIndexUpdate (replicate 32 7) 2 (t\<lparr>core_backend := BatchFlush (core_backend t)\<rparr>)"
  by (rule share_deduplicated [where i = demo_index])
    (simp_all add: demo_shared_def demo_index_def getShareIndex_def server_start_image(1))

text \<open>C37. A lost reference: \<open>updateShareIndex\<close> extends the index value that was read from the database, not a value that is still in
  the batch. When two users who do not have a share upload it before the batch is flushed, only the second becomes a user of the
  share; the first stage then tells the first user that the share is not there.\<close>

theorem user_reference_lost:
  assumes "getShareIndex (ToIndexKey SHARE_INDEX fp) (core_backend s) = Some i" "numOfUsers i = length (userRefs i)"
    "batchCnt (core_backend s) < BATCH_SIZE - 1" "u1 \<notin> set (userRefs i)" "u2 \<notin> set (userRefs i)" "u1 \<noteq> u2"
  shows "\<exists>t t'. interUserIndexUpdate mc mr malloc_ok gen fp u1 xs s = Some (Inr (), t) \<and> interUserIndexUpdate mc mr malloc_ok gen fp u2 xs t = Some (Inr (), t')
     \<and> \<not> intraUserIndexUpdate fp u1 (t'\<lparr>core_backend := BatchFlush (core_backend t')\<rparr>)
     \<and> intraUserIndexUpdate fp u2 (t'\<lparr>core_backend := BatchFlush (core_backend t')\<rparr>)"
proof -
  define j where "j u = i\<lparr>userRefs := userRefs i @ [u], numOfUsers := numOfUsers i + 1\<rparr>" for u
  define t where "t = s\<lparr>core_backend := Put (ToIndexKey SHARE_INDEX fp) (j u1) (core_backend s)\<rparr>"
  define t' where "t' = t\<lparr>core_backend := Put (ToIndexKey SHARE_INDEX fp) (j u2) (core_backend t)\<rparr>"
  have b: "db (core_backend t) = db (core_backend s)" "batchCnt (core_backend t) < BATCH_SIZE"
    using assms(3) by (simp_all add: t_def Put_def Let_def)
  have 1: "interUserIndexUpdate mc mr malloc_ok gen fp u1 xs s = Some (Inr (), t)"
    using assms(1,2,4) by (simp add: interUserIndexUpdate_def returnM_def t_def j_def updateShareIndex_def)
  have 2: "interUserIndexUpdate mc mr malloc_ok gen fp u2 xs t = Some (Inr (), t')"
    using assms(1,2,5) b by (simp add: interUserIndexUpdate_def getShareIndex_def returnM_def t'_def j_def updateShareIndex_def)
  have 3: "db (BatchFlush (core_backend t')) (ToIndexKey SHARE_INDEX fp) = Some (j u2)"
    using b by (simp add: t'_def Put_def Let_def)
  show ?thesis
    by (rule exI [of _ t], rule exI [of _ t']) (use 1 2 3 assms(2,4-6) in \<open>simp add: intraUserIndexUpdate_def getShareIndex_def j_def\<close>)
qed

theorem user_reference_lost_witness:
  "\<exists>t t'. interUserIndexUpdate full_mem full_mem True demo_features (replicate 32 7) 2 [1, 2, 3] demo_shared = Some (Inr (), t)
     \<and> interUserIndexUpdate full_mem full_mem True demo_features (replicate 32 7) 3 [1, 2, 3] t = Some (Inr (), t')
     \<and> \<not> intraUserIndexUpdate (replicate 32 7) 2 (t'\<lparr>core_backend := BatchFlush (core_backend t')\<rparr>)
     \<and> intraUserIndexUpdate (replicate 32 7) 3 (t'\<lparr>core_backend := BatchFlush (core_backend t')\<rparr>)"
  by (rule user_reference_lost [where i = demo_index])
    (simp_all add: demo_shared_def demo_index_def getShareIndex_def server_start_image(1) BATCH_SIZE_def)

lemma loop_overflow:
  assumes "unfinishedRecipes (core_backend s) k = Some (r, n)" "length (recipeEntries r) < pos + length es" "pos \<le> length (recipeEntries r)"
  shows "secondStageLoop mc mr malloc_ok gen userID k shareData es (replicate (length es) True) off pos s = None"
  using assms
proof (induction es arbitrary: s r pos)
  case (Cons e es)
  show ?case
  proof (cases "pos < length (recipeEntries r)")
    case False
    then show ?thesis using Cons.prems by (simp add: secondStageStep_def andThen_def returnM_def on_backend_def setRecipeEntry_def)
  next
    case True
    define r1 where "r1 = r\<lparr>recipeEntries := (recipeEntries r)[pos := recipe_entry e]\<rparr>"
    define t where "t = s\<lparr>core_backend := (core_backend s)\<lparr>unfinishedRecipes := (unfinishedRecipes (core_backend s))(k \<mapsto> (r1, n))\<rparr>\<rparr>"
    have "secondStageStep mc mr malloc_ok gen userID k shareData e True off pos s = Some (Inr off, t)"
      using True Cons.prems(1) by (simp add: secondStageStep_def andThen_def returnM_def on_backend_def setRecipeEntry_def t_def r1_def recipe_entry_def)
    moreover have "secondStageLoop mc mr malloc_ok gen userID k shareData es (replicate (length es) True) off (pos + 1) t = None"
      by (rule Cons.IH [of _ r1]) (use True Cons.prems in \<open>simp_all add: t_def r1_def\<close>)
    ultimately show ?thesis by (simp add: andThen_def)
  qed
qed simp

text \<open>C38. An abandoned upload: \<open>putRecipeFile\<close> keeps the buffer of an upload of the same file that was not finished, even when the new
  upload has more shares. Entries then are written behind the end of that buffer, a memory fault; here all shares are
  duplicates, so that only the recipe is written.\<close>

theorem abandoned_upload_overflow:
  assumes "FormatFullFileName fn = Inr fn'" "unfinishedRecipes (core_backend s) (file_key toFP userID fn') = Some (r, n)"
    "length (recipeEntries r) < length entries"
  shows "secondStageDedup mc mr malloc_ok gen toFP userID
     \<lparr>metaFileSize = fsize, numOfPastSecrets = 0, numOfComingSecrets = length entries\<rparr> fn entries shareData (replicate (length entries) True)
     (length entries) s = None"
  using assms
  by (simp add: secondStageDedup_def file_key_def [symmetric] putRecipeFile_def andThen_def [of "on_backend _"] on_backend_def returnM_def)
    (simp add: andThen_def loop_overflow)

definition demo_abandoned :: core where
  "demo_abandoned = server_start\<lparr>core_backend := (core_backend server_start)\<lparr>unfinishedRecipes := [file_key (take 32) 1 ''/a'' \<mapsto> (empty_recipe 1, 1)]\<rparr>\<rparr>"

theorem abandoned_upload_overflow_witness:
  "secondStageDedup full_mem full_mem True demo_features (take 32) 1
     \<lparr>metaFileSize = 10, numOfPastSecrets = 0, numOfComingSecrets = length (map fst (concat demo_packets))\<rparr> ''a'' (map fst (concat demo_packets)) []
     (replicate (length (map fst (concat demo_packets))) True) (length (map fst (concat demo_packets))) demo_abandoned = None"
  by (rule abandoned_upload_overflow [where r = "empty_recipe 1" and n = 1 and fn' = "''/a''"])
    (simp_all add: demo_abandoned_def FormatFullFileName_def empty_recipe_def demo_packets_def)



end
