(* ===== verification/Spooky.thy ===== *)
theory Spooky
  imports Prelude
begin

unbundle bit_operations_syntax

section \<open>SpookyHash (server/lib/delta/src/spook.c)\<close>

text \<open>
  The hash that turns groups of features into super features, and its streaming interface. The twelve
  variables of the long hash and the four of the short hash are lists; the rows of \<open>mix\<close>, \<open>endPartial\<close>,
  \<open>short_mix\<close> and \<open>short_end\<close> repeat one pattern with other rotations and with the indices moved on by one.
  Messages are byte lists, read as little-endian words (\<open>ALLOW_UNALIGNED_READS\<close> is 1 on x86-64), and
  lengths are natural numbers, since no message has \<open>2 ^ 64\<close> bytes. The streaming interface gives the
  one-shot hash however the message is cut.
\<close>

definition SC_CONST :: u64 where "SC_CONST = 0xdeadbeefdeadbeef"
definition SC_NUMVARS :: nat where "SC_NUMVARS = 12"
definition SC_BLOCKSIZE :: nat where "SC_BLOCKSIZE = 8 * SC_NUMVARS"
definition SC_BUFSIZE :: nat where "SC_BUFSIZE = 2 * SC_BLOCKSIZE"

definition rot64 :: "u64 \<Rightarrow> nat \<Rightarrow> u64" where
  "rot64 x k = push_bit k x OR drop_bit (64 - k) x"

text \<open>A little-endian number of up to eight bytes, and the words of a block.\<close>

definition le_word :: "bytes \<Rightarrow> u64" where
  "le_word xs = foldr (\<lambda>b v. ucast b + 256 * v) xs 0"

definition p64 :: "bytes \<Rightarrow> nat \<Rightarrow> u64" where
  "p64 xs i = le_word (take 8 (drop (8 * i) xs))"

definition p32 :: "bytes \<Rightarrow> nat \<Rightarrow> u64" where
  "p32 xs i = le_word (take 4 (drop (4 * i) xs))"

subsection \<open>The long hash\<close>

definition mix_rotations :: "nat list" where
  "mix_rotations = [11, 32, 43, 31, 17, 28, 39, 57, 55, 54, 22, 46]"

definition mix_row :: "bytes \<Rightarrow> nat \<Rightarrow> u64 list \<Rightarrow> u64 list" where
  "mix_row block i s =
     (let j2 = (i + 2) mod 12; j10 = (i + 10) mod 12; j11 = (i + 11) mod 12; j1 = (i + 1) mod 12;
          s1 = s[i := s ! i + p64 block i];
          s2 = s1[j2 := s1 ! j2 XOR s1 ! j10];
          s3 = s2[j11 := s2 ! j11 XOR s2 ! i];
          s4 = s3[i := rot64 (s3 ! i) (mix_rotations ! i)]
      in s4[j11 := s4 ! j11 + s4 ! j1])"

definition mix :: "bytes \<Rightarrow> u64 list \<Rightarrow> u64 list" where
  "mix block s = fold (mix_row block) [0..<12] s"

definition end_rotations :: "nat list" where
  "end_rotations = [44, 15, 34, 21, 38, 33, 10, 13, 38, 53, 42, 54]"

definition end_row :: "nat \<Rightarrow> u64 list \<Rightarrow> u64 list" where
  "end_row i h =
     (let j11 = (i + 11) mod 12; j1 = (i + 1) mod 12; j2 = (i + 2) mod 12;
          h1 = h[j11 := h ! j11 + h ! j1];
          h2 = h1[j2 := h1 ! j2 XOR h1 ! j11]
      in h2[j1 := rot64 (h2 ! j1) (end_rotations ! i)])"

definition endPartial :: "u64 list \<Rightarrow> u64 list" where
  "endPartial h = fold end_row [0..<12] h"

definition end_mix :: "u64 list \<Rightarrow> u64 list" where
  "end_mix h = endPartial (endPartial (endPartial h))"

subsection \<open>The short hash\<close>

definition short_mix_row :: "nat \<times> nat \<Rightarrow> u64 list \<Rightarrow> u64 list" where
  "short_mix_row = (\<lambda>(r, k) h.
     let x = (r + 2) mod 4; y = (r + 3) mod 4; z = r mod 4;
         h1 = h[x := rot64 (h ! x) k];
         h2 = h1[x := h1 ! x + h1 ! y]
     in h2[z := h2 ! z XOR h2 ! x])"

definition short_mix :: "u64 list \<Rightarrow> u64 list" where
  "short_mix h = fold short_mix_row (enumerate 0 [50, 52, 30, 41, 54, 48, 38, 37, 62, 34, 5, 36]) h"

definition short_end_row :: "nat \<times> nat \<Rightarrow> u64 list \<Rightarrow> u64 list" where
  "short_end_row = (\<lambda>(r, k) h.
     let y = (r + 3) mod 4; x = (r + 2) mod 4;
         h1 = h[y := h ! y XOR h ! x];
         h2 = h1[x := rot64 (h1 ! x) k]
     in h2[y := h2 ! y + h2 ! x])"

definition short_end :: "u64 list \<Rightarrow> u64 list" where
  "short_end h = fold short_end_row (enumerate 0 [15, 52, 26, 51, 28, 9, 47, 54, 32, 25, 63]) h"

text \<open>The loop over sets of 32 bytes.\<close>

function short_loop :: "bytes \<Rightarrow> u64 list \<Rightarrow> bytes \<times> u64 list" where
  "short_loop xs h =
     (if 32 \<le> length xs then
        let h1 = short_mix (h[2 := h ! 2 + p64 xs 0, 3 := h ! 3 + p64 xs 1])
        in short_loop (drop 32 xs) (h1[0 := h1 ! 0 + p64 xs 2, 1 := h1 ! 1 + p64 xs 3])
      else (xs, h))"
  by pat_completeness auto
termination by (relation "measure (\<lambda>(xs, h). length xs)") auto

declare short_loop.simps [simp del]

text \<open>The \<open>switch\<close> over the last bytes, which falls through: the byte at position \<open>i\<close> is added when there is one.\<close>

definition add_byte :: "bytes \<Rightarrow> nat \<Rightarrow> nat \<Rightarrow> u64 \<Rightarrow> u64" where
  "add_byte r i k v = (if i < length r then v + push_bit k (ucast (r ! i)) else v)"

definition last_bytes :: "bytes \<Rightarrow> u64 \<Rightarrow> u64 \<Rightarrow> u64 \<times> u64" where
  "last_bytes r c d =
     (if 12 \<le> length r then (c + p64 r 0, add_byte r 12 32 (add_byte r 13 40 (add_byte r 14 48 d)) + p32 r 2)
      else if 8 \<le> length r then (c + p64 r 0, add_byte r 8 0 (add_byte r 9 8 (add_byte r 10 16 d)))
      else if 4 \<le> length r then (add_byte r 4 32 (add_byte r 5 40 (add_byte r 6 48 c)) + p32 r 0, d)
      else if r \<noteq> [] then (add_byte r 0 0 (add_byte r 1 8 (add_byte r 2 16 c)), d)
      else (c + SC_CONST, d + SC_CONST))"

definition spooky_shorthash :: "bytes \<Rightarrow> u64 \<Rightarrow> u64 \<Rightarrow> u64 \<times> u64" where
  "spooky_shorthash message hash1 hash2 =
     (let (xs, h) = (if length message > 15 then short_loop message [hash1, hash2, SC_CONST, SC_CONST]
                     else (message, [hash1, hash2, SC_CONST, SC_CONST]));
          (r, h1) = (if length message > 15 \<and> 16 \<le> length xs
                     then (drop 16 xs, short_mix (h[2 := h ! 2 + p64 xs 0, 3 := h ! 3 + p64 xs 1])) else (xs, h));
          (c, d) = last_bytes r (h1 ! 2) (push_bit 56 (of_nat (length message)));
          h2 = short_end (h1[2 := c, 3 := d])
      in (h2 ! 0, h2 ! 1))"

subsection \<open>One-shot hashes\<close>

definition init_vars :: "u64 \<Rightarrow> u64 \<Rightarrow> u64 list" where
  "init_vars s1 s2 = [s1, s2, SC_CONST, s1, s2, SC_CONST, s1, s2, SC_CONST, s1, s2, SC_CONST]"

function mix_blocks :: "bytes \<Rightarrow> u64 list \<Rightarrow> bytes \<times> u64 list" where
  "mix_blocks xs h = (if SC_BLOCKSIZE \<le> length xs then mix_blocks (drop SC_BLOCKSIZE xs) (mix (take SC_BLOCKSIZE xs) h) else (xs, h))"
  by pat_completeness auto
termination by (relation "measure (\<lambda>(xs, h). length xs)") (auto simp: SC_BLOCKSIZE_def SC_NUMVARS_def)

declare mix_blocks.simps [simp del]

text \<open>The last, partial block: padded with zeros, its length in the last byte.\<close>

definition last_block :: "bytes \<Rightarrow> bytes" where
  "last_block r = (r @ replicate (SC_BLOCKSIZE - length r) 0)[SC_BLOCKSIZE - 1 := of_nat (length r)]"

definition spooky_hash128 :: "bytes \<Rightarrow> u64 \<Rightarrow> u64 \<Rightarrow> u64 \<times> u64" where
  "spooky_hash128 message hash1 hash2 =
     (if length message < SC_BUFSIZE then spooky_shorthash message hash1 hash2
      else
        let (r, h) = mix_blocks message (init_vars hash1 hash2);
            h' = end_mix (mix (last_block r) h)
        in (h' ! 0, h' ! 1))"

definition spooky_hash64 :: "bytes \<Rightarrow> u64 \<Rightarrow> u64" where
  "spooky_hash64 message seed = fst (spooky_hash128 message seed seed)"

definition spooky_hash32 :: "bytes \<Rightarrow> u32 \<Rightarrow> u32" where
  "spooky_hash32 message seed = ucast (fst (spooky_hash128 message (ucast seed) (ucast seed)))"

subsection \<open>Streaming\<close>

record spooky_state =
  m_data :: bytes
  m_state :: "u64 list"
  m_length :: nat
  m_remainder :: nat

text \<open>\<open>m_data\<close> is the array of \<open>SC_BUFSIZE\<close> bytes; \<open>memcpy\<close> overwrites a part of it, which is \<open>None\<close> behind its end.\<close>

definition memcpy_at :: "nat \<Rightarrow> bytes \<Rightarrow> bytes \<Rightarrow> bytes option" where
  "memcpy_at off xs arr = (if off + length xs \<le> length arr then Some (take off arr @ xs @ drop (off + length xs) arr) else None)"

definition spooky_init :: "u64 \<Rightarrow> u64 \<Rightarrow> spooky_state \<Rightarrow> spooky_state" where
  "spooky_init seed1 seed2 st = st\<lparr>m_length := 0, m_remainder := 0, m_state := (m_state st)[0 := seed1, 1 := seed2]\<rparr>"

definition spooky_update :: "bytes \<Rightarrow> spooky_state \<Rightarrow> spooky_state option" where
  "spooky_update message st =
     (let newLength = length message + m_remainder st
      in if newLength < SC_BUFSIZE then
           map_option (\<lambda>arr. st\<lparr>m_data := arr, m_length := length message + m_length st, m_remainder := newLength mod 256\<rparr>)
             (memcpy_at (m_remainder st) message (m_data st))
         else
           let h0 = (if m_length st < SC_BUFSIZE then init_vars (m_state st ! 0) (m_state st ! 1) else take SC_NUMVARS (m_state st));
               prefix = (SC_BUFSIZE - m_remainder st) mod 256
           in Option.bind
                (if m_remainder st \<noteq> 0 then
                   map_option (\<lambda>arr. (arr, drop prefix message, mix (drop SC_BLOCKSIZE arr) (mix (take SC_BLOCKSIZE arr) h0)))
                     (memcpy_at (m_remainder st) (take prefix message) (m_data st))
                 else Some (m_data st, message, h0))
                (\<lambda>(arr, xs, h1).
                   let (r, h2) = mix_blocks xs h1
                   in map_option (\<lambda>arr'. st\<lparr>m_data := arr', m_state := h2, m_length := length message + m_length st, m_remainder := length r mod 256\<rparr>)
                        (memcpy_at 0 r arr)))"

text \<open>\<open>spooky_final\<close>: \<open>hash1\<close> and \<open>hash2\<close> are also read, as the seeds of the short hash. It pads the block in \<open>m_data\<close>, so that the
  state cannot be used afterwards; only the hash is returned here.\<close>

definition spooky_final :: "spooky_state \<Rightarrow> u64 \<Rightarrow> u64 \<Rightarrow> u64 \<times> u64" where
  "spooky_final st hash1 hash2 =
     (if m_length st < SC_BUFSIZE then spooky_shorthash (take (m_length st) (m_data st)) hash1 hash2
      else
        let full = m_remainder st \<ge> SC_BLOCKSIZE;
            h = (if full then mix (take SC_BLOCKSIZE (m_data st)) (take SC_NUMVARS (m_state st)) else take SC_NUMVARS (m_state st));
            dat = (if full then drop SC_BLOCKSIZE (m_data st) else m_data st);
            rem = (if full then m_remainder st - SC_BLOCKSIZE else m_remainder st);
            h' = end_mix (mix (last_block (take rem dat)) h)
        in (h' ! 0, h' ! 1))"

subsection \<open>Cutting a message at blocks\<close>

lemma length_mix [simp]: "length (mix block s) = length s"
proof -
  have "length (fold (mix_row block) js s) = length s" for js
    by (induction js arbitrary: s) (simp_all add: mix_row_def Let_def)
  then show ?thesis by (simp add: mix_def)
qed

lemma SC_sizes [simp]: "SC_BLOCKSIZE = 96" "SC_BUFSIZE = 192" "SC_NUMVARS = 12"
  by (simp_all add: SC_BLOCKSIZE_def SC_BUFSIZE_def SC_NUMVARS_def)

lemma length_mix_blocks: "length (snd (mix_blocks xs h)) = length h"
proof (induction xs h rule: mix_blocks.induct)
  case (1 xs h)
  then show ?case by (subst mix_blocks.simps) simp
qed

lemma mix_blocks_append: "length xs mod 96 = 0 \<Longrightarrow> mix_blocks (xs @ ys) h = mix_blocks ys (snd (mix_blocks xs h))"
proof (induction xs h rule: mix_blocks.induct)
  case (1 xs h)
  show ?case
  proof (cases "96 \<le> length xs")
    case True
    have "mix_blocks (xs @ ys) h = mix_blocks (drop 96 xs @ ys) (mix (take 96 xs) h)" using True by (subst mix_blocks.simps) simp
    moreover have "mix_blocks xs h = mix_blocks (drop 96 xs) (mix (take 96 xs) h)" using True by (subst mix_blocks.simps) simp
    moreover have "length (drop 96 xs) mod 96 = 0" using 1(2) True by (metis length_drop mod_if not_less)
    ultimately show ?thesis using 1(1) True by simp
  next
    case False
    then have "xs = []" using 1(2) by simp
    then show ?thesis by (simp add: mix_blocks.simps [of "[]"])
  qed
qed

lemma mix_blocks_short: "length xs < 96 \<Longrightarrow> mix_blocks xs h = (xs, h)"
  by (subst mix_blocks.simps) simp

lemma mix_blocks_split:
  defines "k xs \<equiv> length xs - length xs mod 96"
  shows "mix_blocks xs h = (drop (k xs) xs, snd (mix_blocks (take (k xs) xs) h))"
proof -
  have "length (take (k xs) xs) mod 96 = 0" "length (drop (k xs) xs) < 96" by (simp_all add: k_def minus_mod_eq_mult_div)
  then show ?thesis using mix_blocks_append [of "take (k xs) xs" "drop (k xs) xs" h] mix_blocks_short [of "drop (k xs) xs"] by simp
qed

subsection \<open>The streaming interface\<close>

text \<open>The state after the message \<open>M\<close> has come: the last bytes are kept, the blocks before them are mixed in.\<close>

definition stream_inv :: "u64 \<Rightarrow> u64 \<Rightarrow> bytes \<Rightarrow> spooky_state \<Rightarrow> bool" where
  "stream_inv s1 s2 M st \<longleftrightarrow> length (m_data st) = SC_BUFSIZE \<and> length (m_state st) = SC_NUMVARS \<and> m_length st = length M
     \<and> m_remainder st < SC_BUFSIZE \<and> m_remainder st \<le> length M \<and> take (m_remainder st) (m_data st) = drop (length M - m_remainder st) M
     \<and> (if length M < SC_BUFSIZE then m_remainder st = length M \<and> m_state st ! 0 = s1 \<and> m_state st ! 1 = s2
        else (length M - m_remainder st) mod SC_BLOCKSIZE = 0
          \<and> m_state st = snd (mix_blocks (take (length M - m_remainder st) M) (init_vars s1 s2)))"

lemma stream_vars:
  assumes "stream_inv s1 s2 M st"
  shows "(if m_length st < SC_BUFSIZE then init_vars (m_state st ! 0) (m_state st ! 1) else take SC_NUMVARS (m_state st))
      = snd (mix_blocks (take (length M - m_remainder st) M) (init_vars s1 s2))" "(length M - m_remainder st) mod 96 = 0"
  using assms by (auto simp: stream_inv_def mix_blocks_short split: if_splits)

text \<open>Mixing the kept bytes and what follows is mixing the whole message.\<close>

lemma stream_mix:
  assumes "stream_inv s1 s2 M st"
  shows "mix_blocks (take (m_remainder st) (m_data st) @ xs) (snd (mix_blocks (take (length M - m_remainder st) M) (init_vars s1 s2)))
    = mix_blocks (M @ xs) (init_vars s1 s2)"
proof -
  have "M @ xs = take (length M - m_remainder st) M @ take (m_remainder st) (m_data st) @ xs"
    using assms by (simp add: stream_inv_def)
  moreover have "length (take (length M - m_remainder st) M) mod 96 = 0" using stream_vars(2) [OF assms] assms by (simp add: stream_inv_def)
  ultimately show ?thesis using mix_blocks_append by metis
qed

lemma spooky_update_ok:
  assumes i: "stream_inv s1 s2 M st"
  shows "\<exists>t. spooky_update xs st = Some t \<and> stream_inv s1 s2 (M @ xs) t"
proof (cases "length xs + m_remainder st < 192")
  case True
  then show ?thesis using i by (auto simp: spooky_update_def memcpy_at_def stream_inv_def split: if_splits)
next
  case False
  let ?r = "m_remainder st" and ?h = "snd (mix_blocks (take (length M - m_remainder st) M) (init_vars s1 s2))"
  obtain r h where rh: "mix_blocks (M @ xs) (init_vars s1 s2) = (r, h)" by force
  have r: "r = drop (length (M @ xs) - length (M @ xs) mod 96) (M @ xs)" "length r = length (M @ xs) mod 96"
    "h = snd (mix_blocks (take (length (M @ xs) - length (M @ xs) mod 96) (M @ xs)) (init_vars s1 s2))"
    using rh mix_blocks_split [of "M @ xs" "init_vars s1 s2"] by auto
  have lr: "length r < 96" using r(2) by simp
  have lh: "length h = 12" using length_mix_blocks [of "M @ xs" "init_vars s1 s2"] rh by (simp add: init_vars_def)
  have upd: "\<exists>arr. length arr = 192 \<and> take (length r) arr = r
      \<and> spooky_update xs st = Some (st\<lparr>m_data := arr, m_state := h, m_length := length xs + m_length st, m_remainder := length r\<rparr>)"
  proof (cases "?r = 0")
    case True
    then have "mix_blocks xs ?h = (r, h)" using stream_mix [OF i, of xs] rh by simp
    then show ?thesis using False True stream_vars(1) [OF i] lr i
      by (auto simp: spooky_update_def memcpy_at_def stream_inv_def Let_def intro!: exI [of _ "r @ drop (length r) (m_data st)"])
  next
    case kept: False
    define p where "p = 192 - ?r"
    define arr where "arr = take ?r (m_data st) @ take p xs"
    have p: "p \<le> length xs" "p < 192" "?r < 192" "length (m_data st) = 192" using False kept i by (auto simp: p_def stream_inv_def)
    have la: "length arr = 192" using p by (simp add: arr_def p_def)
    have "mix_blocks arr ?h = ([], mix (drop 96 arr) (mix (take 96 arr) ?h))"
      using la by (subst mix_blocks.simps, simp, subst mix_blocks.simps, simp) (simp add: mix_blocks_short)
    then have m: "mix_blocks (drop p xs) (mix (drop 96 arr) (mix (take 96 arr) ?h)) = (r, h)"
      using mix_blocks_append [of arr "drop p xs" ?h] stream_mix [OF i, of xs] rh la by (simp add: arr_def)
    have c: "memcpy_at ?r (take p xs) (m_data st) = Some arr" using p by (simp add: memcpy_at_def arr_def p_def)
    show ?thesis using False kept stream_vars(1) [OF i] m c lr p(2,3) la
      by (auto simp: spooky_update_def Let_def p_def [symmetric] memcpy_at_def [of 0] intro!: exI [of _ "r @ drop (length r) arr"])
  qed
  then obtain arr where a: "length arr = 192" "take (length r) arr = r"
    "spooky_update xs st = Some (st\<lparr>m_data := arr, m_state := h, m_length := length xs + m_length st, m_remainder := length r\<rparr>)" by blast
  have "\<not> length M + length xs < 192" using False i by (simp add: stream_inv_def)
  moreover have "(length (M @ xs) - length r) mod 96 = 0" unfolding r(2) by (simp add: minus_mod_eq_mult_div)
  moreover have "drop (length (M @ xs) - length r) (M @ xs) = r" "length r \<le> length (M @ xs)"
    "h = snd (mix_blocks (take (length (M @ xs) - length r) (M @ xs)) (init_vars s1 s2))"
    using r(1,3) unfolding r(2) by auto
  moreover have "m_length st = length M" using i by (simp add: stream_inv_def)
  ultimately have "stream_inv s1 s2 (M @ xs) (st\<lparr>m_data := arr, m_state := h, m_length := length xs + m_length st, m_remainder := length r\<rparr>)"
    unfolding stream_inv_def using a(1,2) lh lr by (simp del: drop_append take_append)
  then show ?thesis using a(3) by blast
qed

lemma spooky_init_ok: "length (m_data st) = SC_BUFSIZE \<Longrightarrow> length (m_state st) = SC_NUMVARS \<Longrightarrow> stream_inv s1 s2 [] (spooky_init s1 s2 st)"
  by (simp add: stream_inv_def spooky_init_def)

lemma spooky_final_ok:
  assumes i: "stream_inv s1 s2 M st"
  shows "spooky_final st s1 s2 = spooky_hash128 M s1 s2"
proof (cases "length M < 192")
  case True
  then have "take (m_length st) (m_data st) = M" "m_length st = length M" using i by (auto simp: stream_inv_def)
  then show ?thesis using True by (simp add: spooky_final_def spooky_hash128_def)
next
  case False
  let ?R = "take (m_remainder st) (m_data st)" and ?h = "m_state st"
  have f: "mix_blocks M (init_vars s1 s2) = mix_blocks ?R ?h" "length ?R = m_remainder st" "m_remainder st < 192" "length ?h = 12"
    "m_length st = length M"
    using stream_mix [OF i, of "[]"] False i by (auto simp: stream_inv_def)
  show ?thesis
  proof (cases "96 \<le> m_remainder st")
    case True
    then have "mix_blocks ?R ?h = mix_blocks (drop 96 ?R) (mix (take 96 ?R) ?h)" using f(2) by (subst mix_blocks.simps) simp
    also have "\<dots> = (drop 96 ?R, mix (take 96 ?R) ?h)" using f(2,3) by (intro mix_blocks_short) simp
    finally show ?thesis using f True False by (simp add: spooky_final_def spooky_hash128_def Let_def drop_take min_def)
  next
    case short: False
    then have "mix_blocks ?R ?h = (?R, ?h)" using f(2) by (intro mix_blocks_short) simp
    then show ?thesis using f short False by (simp add: spooky_final_def spooky_hash128_def Let_def)
  qed
qed

text \<open>Updates with the parts of a message, one after the other.\<close>

primrec update_all :: "bytes list \<Rightarrow> spooky_state \<Rightarrow> spooky_state option" where
  "update_all [] st = Some st"
| "update_all (xs # xss) st = Option.bind (spooky_update xs st) (update_all xss)"

lemma update_all_ok: "stream_inv s1 s2 M st \<Longrightarrow> \<exists>t. update_all xss st = Some t \<and> stream_inv s1 s2 (M @ concat xss) t"
proof (induction xss arbitrary: M st)
  case (Cons xs xss)
  obtain t where "spooky_update xs st = Some t" "stream_inv s1 s2 (M @ xs) t" using spooky_update_ok [OF Cons.prems] by blast
  then show ?case using Cons.IH by fastforce
qed simp

text \<open>C28. SpookyHash in parts: however a message is cut into parts, \<open>spooky_update\<close> on them stays inside the buffer of the state, and
  \<open>spooky_final\<close> gives the hash of \<open>spooky_hash128\<close> on the whole message, provided the two hash variables hold the seeds
  when \<open>spooky_final\<close> is called.\<close>

theorem spooky_streaming:
  assumes "length (m_data st) = SC_BUFSIZE" "length (m_state st) = SC_NUMVARS"
  shows "\<exists>t. update_all parts (spooky_init seed1 seed2 st) = Some t \<and> spooky_final t seed1 seed2 = spooky_hash128 (concat parts) seed1 seed2"
  using update_all_ok [OF spooky_init_ok [OF assms], of parts seed1 seed2] spooky_final_ok by fastforce

theorem spooky_streaming_witness:
  "\<exists>t. update_all [replicate 100 1, replicate 150 2] (spooky_init 3 4 \<lparr>m_data = replicate 192 0, m_state = replicate 12 0, m_length = 7, m_remainder = 9\<rparr>) = Some t
     \<and> spooky_final t 3 4 = spooky_hash128 (concat [replicate 100 1, replicate 150 2]) 3 4"
  by (rule spooky_streaming) simp_all

end
