(* ===== verification/Rabin.thy ===== *)
theory Rabin
  imports Prelude Spooky Dedup_Core
begin

unbundle bit_operations_syntax

section \<open>Rabin fingerprints and super features (server/lib/delta/src/rabin.c)\<close>

text \<open>
  The arithmetic of polynomials over GF(2) in 64-bit words, the tables for appending and removing a byte,
  the rolling fingerprint of a window of 48 bytes, and the super features of a share. The global variables
  are a record. \<open>SLIDE\<close> and \<open>append8\<close> index the table \<open>T\<close> with \<open>fp >> shift\<close>, which is below 256 because a
  fingerprint has degree below 63; a fingerprint is shown to be the remainder of the polynomial of the last 48
  bytes, computed bit by bit.
\<close>

subsection \<open>Polynomials\<close>

definition bytemsb :: "nat list" where
  "bytemsb = [0, 1, 2, 2] @ replicate 4 3 @ replicate 8 4 @ replicate 16 5 @ replicate 32 6 @ replicate 64 7 @ replicate 128 8"

definition fls32 :: "u32 \<Rightarrow> nat" where
  "fls32 v =
     (if v AND 0xffff0000 \<noteq> 0 then
        if v AND 0xff000000 \<noteq> 0 then 24 + bytemsb ! unat (drop_bit 24 v) else 16 + bytemsb ! unat (drop_bit 16 v)
      else if v AND 0x0000ff00 \<noteq> 0 then 8 + bytemsb ! unat (drop_bit 8 v)
      else bytemsb ! unat v)"

definition fls64 :: "u64 \<Rightarrow> nat" where
  "fls64 v = (if drop_bit 32 v \<noteq> 0 then 32 + fls32 (ucast (drop_bit 32 v)) else fls32 (ucast v))"

text \<open>\<open>polymod\<close>: the loops over the bits of the high and of the low word. The divisor is not 0.\<close>

definition mod_high :: "u64 \<Rightarrow> nat \<Rightarrow> u64 \<times> u64 \<Rightarrow> u64 \<times> u64" where
  "mod_high d i n = (if bit (fst n) i then (fst n XOR drop_bit (63 - i) d, snd n XOR push_bit (i + 1) d) else n)"

definition mod_low :: "u64 \<Rightarrow> nat \<Rightarrow> u64 \<Rightarrow> u64" where
  "mod_low d i nl = (if bit nl i then nl XOR drop_bit (63 - i) d else nl)"

definition polymod :: "u64 \<Rightarrow> u64 \<Rightarrow> u64 \<Rightarrow> u64" where
  "polymod nh nl d =
     (let k = fls64 d - 1;
          d' = push_bit (63 - k) d;
          nl' = (if nh \<noteq> 0 then snd (fold (mod_high d') (rev [0..<63]) (if bit nh 63 then nh XOR d' else nh, nl)) else nl)
      in fold (mod_low d') (rev [k..<64]) nl')"

definition mult_bit :: "u64 \<Rightarrow> u64 \<Rightarrow> nat \<Rightarrow> u64 \<times> u64 \<Rightarrow> u64 \<times> u64" where
  "mult_bit x y i p = (if bit x i then (fst p XOR drop_bit (64 - i) y, snd p XOR push_bit i y) else p)"

definition polymult :: "u64 \<Rightarrow> u64 \<Rightarrow> u64 \<times> u64" where
  "polymult x y = fold (mult_bit x y) [1..<64] (0, if bit x 0 then y else 0)"

definition polymmult :: "u64 \<Rightarrow> u64 \<Rightarrow> u64 \<Rightarrow> u64" where
  "polymmult x y d = (case polymult x y of (h, l) \<Rightarrow> polymod h l d)"

subsection \<open>The tables\<close>

definition FINGERPRINT_PT :: u64 where "FINGERPRINT_PT = 0xbfe6b8a5bf378d83"
definition WINDOW :: nat where "WINDOW = 48"

record rabin =
  poly :: u64
  Tshift :: nat
  Ttab :: "u64 list"
  Utab :: "u64 list"
  fp :: u64
  bufpos :: int
  wbuf :: bytes

definition append8 :: "rabin \<Rightarrow> u64 \<Rightarrow> u8 \<Rightarrow> u64" where
  "append8 g p m = (push_bit 8 p OR ucast m) XOR Ttab g ! unat (drop_bit (Tshift g) p)"

definition slide8 :: "u8 \<Rightarrow> rabin \<Rightarrow> rabin" where
  "slide8 m g =
     (let pos = (if bufpos g + 1 \<ge> int WINDOW then 0 else bufpos g + 1);
          om = wbuf g ! nat pos
      in g\<lparr>bufpos := pos, wbuf := (wbuf g)[nat pos := m], fp := append8 g (fp g XOR Utab g ! unat om) m\<rparr>)"

definition calcT :: "u64 \<Rightarrow> rabin \<Rightarrow> rabin" where
  "calcT p g =
     (let xshift = fls64 p - 1;
          T1 = polymod 0 (push_bit xshift 1) p
      in g\<lparr>Tshift := xshift - 8, Ttab := map (\<lambda>j. polymmult (of_nat j) T1 p OR push_bit xshift (of_nat j)) [0..<256]\<rparr>)"

definition rabinpoly_init :: "u64 \<Rightarrow> rabin \<Rightarrow> rabin" where
  "rabinpoly_init p g = calcT p (g\<lparr>poly := p\<rparr>)"

definition window_init :: "u64 \<Rightarrow> rabin \<Rightarrow> rabin" where
  "window_init p g =
     (let g1 = rabinpoly_init p g;
          sizeshift = fold (\<lambda>_ s. append8 g1 s 0) [1..<WINDOW] 1
      in g1\<lparr>fp := 0, bufpos := -1, Utab := map (\<lambda>i. polymmult (of_nat i) sizeshift p) [0..<256], wbuf := replicate WINDOW 0\<rparr>)"

definition windows_reset :: "rabin \<Rightarrow> rabin" where
  "windows_reset g = g\<lparr>fp := 0\<rparr>"

definition chunkAlg_init :: "rabin \<Rightarrow> rabin" where
  "chunkAlg_init g = windows_reset (window_init FINGERPRINT_PT g)"

text \<open>The macro \<open>SLIDE\<close> on local variables: the fingerprint, the position and the buffer of the window.\<close>

definition SLIDE :: "rabin \<Rightarrow> u8 \<Rightarrow> u64 \<times> int \<times> bytes \<Rightarrow> u64 \<times> int \<times> bytes" where
  "SLIDE g m = (\<lambda>(f, bufPos, arr).
     let pos = (if bufPos + 1 \<ge> int WINDOW then 0 else bufPos + 1);
         om = arr ! nat pos;
         f1 = f XOR Utab g ! unat om;
         x = drop_bit (Tshift g) f1
     in ((push_bit 8 f1 OR ucast m) XOR Ttab g ! unat x, pos, arr[nat pos := m]))"

subsection \<open>Super features\<close>

text \<open>The memory from the address of the share on is a list; reading behind its end is \<open>None\<close>. The argument \<open>n\<close> is an \<open>int\<close> that
  is not negative (the size of the share).\<close>

definition word_bytes :: "u64 \<Rightarrow> bytes" where
  "word_bytes x = map (\<lambda>i. ucast (drop_bit (8 * i) x)) [0..<8]"

definition group_hash :: "u64 \<Rightarrow> u64 \<Rightarrow> u64" where
  "group_hash a b = spooky_hash64 (word_bytes a @ word_bytes b) 12345678"

definition MiAi :: "(u64 \<times> u64) list" where
  "MiAi = [(5652377, 45673472), (24423617, 146512310), (16341615, 142364781), (3526234, 1225434201), (654410, 324130), (3124312, 359840125)]"

text \<open>\<open>super_feature\<close>: the first 47 bytes are read whatever \<open>n\<close> is.\<close>

definition feature_step :: "rabin \<Rightarrow> u8 \<Rightarrow> (u64 \<times> int \<times> bytes) \<times> u64 list \<Rightarrow> (u64 \<times> int \<times> bytes) \<times> u64 list" where
  "feature_step g b = (\<lambda>(st, features).
     let st' = SLIDE g b st
     in (st', map2 (\<lambda>(a, c) f. max f ((a * fst st' + c) AND 0xffffffff)) MiAi features))"

definition super_feature :: "rabin \<Rightarrow> bytes \<Rightarrow> nat \<Rightarrow> superF option" where
  "super_feature g ram n =
     (if max 47 n \<le> length ram then
        let st = fold (SLIDE g) (take 47 ram) (0, -1, replicate 128 0);
            f = snd (fold (feature_step g) (take (n - 47) (drop 47 ram)) (st, replicate 6 0))
        in Some \<lparr>sf1 = group_hash (f ! 0) (f ! 1), sf2 = group_hash (f ! 2) (f ! 3), sf3 = group_hash (f ! 4) (f ! 5)\<rparr>
      else None)"

text \<open>\<open>finesse_super_feature\<close>: the maximal fingerprint of each of six parts of the share. The local \<open>bufPos\<close> goes on from part to
  part (the code resets the global \<open>bufpos\<close> instead).\<close>

definition max_step :: "rabin \<Rightarrow> u8 \<Rightarrow> (u64 \<times> int \<times> bytes) \<times> u64 \<Rightarrow> (u64 \<times> int \<times> bytes) \<times> u64" where
  "max_step g b = (\<lambda>(st, f). let st' = SLIDE g b st in (st', max f (fst st')))"

definition finesse_part :: "rabin \<Rightarrow> bytes \<Rightarrow> nat \<Rightarrow> nat \<Rightarrow> int \<Rightarrow> (u64 \<times> int) option" where
  "finesse_part g ram sublength m bufPos =
     (let start = 48 + m * sublength
      in if start + sublength \<le> length ram then
           let st = fold (SLIDE g) (take 47 (drop (start - 48) ram)) (0, bufPos, replicate 128 0);
               (st', f) = fold (max_step g) (take (sublength + 1) (drop (start - 1) ram)) (st, 0)
           in Some (f, fst (snd st'))
         else None)"

primrec finesse_parts :: "rabin \<Rightarrow> bytes \<Rightarrow> nat \<Rightarrow> nat list \<Rightarrow> int \<Rightarrow> u64 list option" where
  "finesse_parts g ram sublength [] bufPos = Some []"
| "finesse_parts g ram sublength (m # ms) bufPos =
     Option.bind (finesse_part g ram sublength m bufPos)
       (\<lambda>(f, bufPos'). map_option ((#) f) (finesse_parts g ram sublength ms bufPos'))"

text \<open>The three conditional exchanges of three features.\<close>

definition swap3 :: "u64 \<times> u64 \<times> u64 \<Rightarrow> u64 \<times> u64 \<times> u64" where
  "swap3 = (\<lambda>(a, b, c).
     let (a1, b1) = (if a > b then (b, a) else (a, b));
         (a2, c1) = (if a1 > c then (c, a1) else (a1, c));
         (b2, c2) = (if b1 > c1 then (c1, b1) else (b1, c1))
     in (a2, b2, c2))"

definition finesse_super_feature :: "bytes \<Rightarrow> nat \<Rightarrow> rabin \<Rightarrow> (superF \<times> rabin) option" where
  "finesse_super_feature ram n g =
     map_option (\<lambda>f.
       let (f0, f1, f2) = swap3 (f ! 0, f ! 1, f ! 2);
           (f3, f4, f5) = swap3 (f ! 3, f ! 4, f ! 5)
       in (\<lparr>sf1 = group_hash f2 f5, sf2 = group_hash f1 f4, sf3 = group_hash f0 f3\<rparr>, g\<lparr>bufpos := -1\<rparr>))
       (finesse_parts g ram (n div 6) [0, 1, 2, 3, 4, 5] (-1))"

subsection \<open>The reference: a remainder, bit by bit\<close>

definition append1 :: "u64 \<Rightarrow> bool \<Rightarrow> u64" where
  "append1 p b = (let q = push_bit 1 p OR of_bool b in if bit q 63 then q XOR FINGERPRINT_PT else q)"

definition append_ref :: "u64 \<Rightarrow> u8 \<Rightarrow> u64" where
  "append_ref p m = foldl append1 p (map (bit m) [7, 6, 5, 4, 3, 2, 1, 0])"

lemma fls64_PT: "fls64 FINGERPRINT_PT = 64"
  by (simp add: FINGERPRINT_PT_def fls64_def fls32_def bytemsb_def nth_append)

lemma push_bit_or: "0 < k \<Longrightarrow> push_bit k (p :: u64) OR of_bool b = push_bit k p XOR of_bool b"
  by (rule bit_eqI) (auto simp: bit_simps)

lemma append1_xor: "append1 (p XOR q) (b = (\<not> c)) = append1 p b XOR append1 q c"
proof -
  have x: "push_bit 1 (p XOR q) OR of_bool (b = (\<not> c)) = (push_bit 1 p OR of_bool b) XOR (push_bit 1 q OR of_bool c)"
    unfolding push_bit_or [OF zero_less_one] unfolding push_bit_xor by (cases b; cases c) (simp_all add: ac_simps)
  show ?thesis unfolding append1_def Let_def x by (auto simp: bit_xor_iff ac_simps)
qed

lemma append_ref_xor: "append_ref (p XOR q) (m XOR n) = append_ref p m XOR append_ref q n"
proof -
  have "foldl append1 (p XOR q) (map (bit (m XOR n)) js) = foldl append1 p (map (bit m) js) XOR foldl append1 q (map (bit n) js)" for js
    by (induction js arbitrary: p q) (simp_all add: bit_xor_iff append1_xor)
  then show ?thesis by (simp only: append_ref_def)
qed

lemma append1_degree: "\<not> bit (append1 p b) 63"
  by (auto simp: append1_def Let_def bit_xor_iff FINGERPRINT_PT_def)

lemma append_ref_degree: "\<not> bit (append_ref p m) 63"
  using append1_degree by (simp add: append_ref_def)

text \<open>Two additive functions of a byte agree when they agree on the eight bits.\<close>

lemma byte_bits:
  fixes m :: u8
  shows "m = push_bit 0 (of_bool (bit m 0)) XOR push_bit 1 (of_bool (bit m 1)) XOR push_bit 2 (of_bool (bit m 2)) XOR push_bit 3 (of_bool (bit m 3))
    XOR push_bit 4 (of_bool (bit m 4)) XOR push_bit 5 (of_bool (bit m 5)) XOR push_bit 6 (of_bool (bit m 6)) XOR push_bit 7 (of_bool (bit m 7))"
    (is "_ = ?r")
proof (rule bit_eqI)
  fix n assume "possible_bit TYPE(u8) n"
  then have "n < 8" by simp
  then consider "n = 0" | "n = 1" | "n = 2" | "n = 3" | "n = 4" | "n = 5" | "n = 6" | "n = 7" by linarith
  then show "bit m n = bit ?r n" by cases (auto simp: bit_simps)
qed

lemma byte_additive_eq:
  fixes f g :: "u8 \<Rightarrow> u64"
  assumes f: "\<And>a b. f (a XOR b) = f a XOR f b" and g: "\<And>a b. g (a XOR b) = g a XOR g b"
    and e: "f 1 = g 1" "f 2 = g 2" "f 4 = g 4" "f 8 = g 8" "f 16 = g 16" "f 32 = g 32" "f 64 = g 64" "f 128 = g 128"
  shows "f m = g m"
proof -
  have z: "f 0 = g 0" using f [of 0 0] g [of 0 0] by simp
  have "f (push_bit i (of_bool b)) = g (push_bit i (of_bool b))" if h: "i < 8" for i b
  proof -
    consider "i = 0" | "i = 1" | "i = 2" | "i = 3" | "i = 4" | "i = 5" | "i = 6" | "i = 7" using h by linarith
    then show ?thesis by cases (cases b; simp add: e z)+
  qed
  from this [of 0] this [of 1] this [of 2] this [of 3] this [of 4] this [of 5] this [of 6] this [of 7] show ?thesis
    by (subst (1 2) byte_bits [of m]) (simp only: f g)
qed

lemma ucast_xor: "(ucast (a XOR b :: u8) :: u64) = ucast a XOR ucast b"
  by (rule bit_eqI) (simp add: bit_simps)

lemma append_ref_zero: "append_ref 0 m = ucast m"
  by (rule byte_additive_eq)
    (use append_ref_xor [of 0 0] in \<open>simp_all add: ucast_xor append_ref_def append1_def FINGERPRINT_PT_def\<close>)

subsection \<open>The tables hold what the reference computes\<close>

abbreviation "mulx p \<equiv> append1 p False"

lemma mulx_xor: "mulx (p XOR q) = mulx p XOR mulx q"
  using append1_xor [of p q False False] by simp

lemma append_ref_mulx: "append_ref p 0 = (mulx ^^ 8) p"
  by (simp add: append_ref_def numeral_eq_Suc)

lemma append_ref_split: "append_ref p m = append_ref p 0 XOR ucast m"
  using append_ref_xor [of p 0 0 m] by (simp add: append_ref_zero)

text \<open>Multiplying by a power of \<open>x\<close> that keeps the degree below 63 is a shift.\<close>

lemma mulx_shift: "\<not> bit p 62 \<Longrightarrow> mulx p = push_bit 1 p"
proof -
  assume "\<not> bit p 62"
  then have "\<not> bit (push_bit 1 p) 63" unfolding bit_push_bit_iff by simp
  then show ?thesis by (simp only: append1_def Let_def of_bool_eq or.right_neutral if_False)
qed

lemma mulx_pow_shift: "k \<le> 8 \<Longrightarrow> (mulx ^^ k) (take_bit 55 p) = push_bit k (take_bit 55 p)"
proof (induction k)
  case (Suc k)
  then have "\<not> bit (push_bit k (take_bit 55 p)) 62" by (auto simp: bit_simps)
  then show ?case using Suc by (simp add: mulx_shift)
qed simp

text \<open>\<open>polymult\<close>, \<open>polymod\<close> and \<open>polymmult\<close> are additive.\<close>

lemma polymult_xor: "polymult (x XOR x') y = (fst (polymult x y) XOR fst (polymult x' y), snd (polymult x y) XOR snd (polymult x' y))"
proof -
  have "fold (mult_bit (x XOR x') y) js (fst a XOR fst b, snd a XOR snd b)
      = (fst (fold (mult_bit x y) js a) XOR fst (fold (mult_bit x' y) js b), snd (fold (mult_bit x y) js a) XOR snd (fold (mult_bit x' y) js b))" for js a b
  proof (induction js arbitrary: a b)
    case (Cons j js)
    have "mult_bit (x XOR x') y j (fst a XOR fst b, snd a XOR snd b)
        = (fst (mult_bit x y j a) XOR fst (mult_bit x' y j b), snd (mult_bit x y j a) XOR snd (mult_bit x' y j b))"
      by (auto simp: mult_bit_def bit_xor_iff ac_simps)
    then show ?case using Cons.IH by simp
  qed simp
  from this [of "[1..<64]" "(0, if bit x 0 then y else 0)" "(0, if bit x' 0 then y else 0)"] show ?thesis
    by (auto simp: polymult_def bit_xor_iff)
qed

lemma polymod_xor: "polymod (nh XOR nh') (nl XOR nl') d = polymod nh nl d XOR polymod nh' nl' d"
proof -
  have low: "fold (mod_low e) js (a XOR b) = fold (mod_low e) js a XOR fold (mod_low e) js b" for e js a b
    by (induction js arbitrary: a b) (auto simp: mod_low_def bit_xor_iff ac_simps)
  have high: "fold (mod_high e) js (fst a XOR fst b, snd a XOR snd b)
      = (fst (fold (mod_high e) js a) XOR fst (fold (mod_high e) js b), snd (fold (mod_high e) js a) XOR snd (fold (mod_high e) js b))" for e js a b
  proof (induction js arbitrary: a b)
    case (Cons j js)
    have "mod_high e j (fst a XOR fst b, snd a XOR snd b)
        = (fst (mod_high e j a) XOR fst (mod_high e j b), snd (mod_high e j a) XOR snd (mod_high e j b))"
      by (auto simp: mod_high_def bit_xor_iff ac_simps)
    then show ?case using Cons.IH by simp
  qed simp
  have zero: "fold (mod_high e) js (0, nl) = (0, nl)" for e js nl
    by (induction js) (simp_all add: mod_high_def)
  define e where "e = push_bit (63 - (fls64 d - 1)) d"
  define start where "start n l = (if bit n 63 then n XOR e else n, l)" for n l :: u64
  have st: "start (nh XOR nh') (nl XOR nl') = (fst (start nh nl) XOR fst (start nh' nl'), snd (start nh nl) XOR snd (start nh' nl'))"
    by (auto simp: start_def bit_xor_iff ac_simps)
  have pm: "polymod n l d = fold (mod_low e) (rev [fls64 d - 1..<64]) (snd (fold (mod_high e) (rev [0..<63]) (start n l)))" for n l
    by (auto simp: polymod_def Let_def e_def start_def zero)
  show ?thesis unfolding pm st high snd_conv low ..
qed

lemma polymmult_xor: "polymmult (x XOR x') y d = polymmult x y d XOR polymmult x' y d"
  by (simp add: polymmult_def case_prod_beta polymult_xor polymod_xor)

text \<open>The remainders of the powers of \<open>x\<close> from 63 on, which the table \<open>T\<close> holds for single bits.\<close>

definition T1_PT :: u64 where "T1_PT = 0x3fe6b8a5bf378d83"

text \<open>The index lists of the loops, for evaluation.\<close>

lemma polymult_unrolled:
  "polymult x y = fold (mult_bit x y) [1, 2, 3, 4, 5, 6, 7, 8, 9, 10, 11, 12, 13, 14, 15, 16, 17, 18, 19, 20, 21, 22, 23, 24, 25, 26, 27, 28, 29, 30, 31, 32, 
    33, 34, 35, 36, 37, 38, 39, 40, 41, 42, 43, 44, 45, 46, 47, 48, 49, 50, 51, 52, 53, 54, 55, 56, 57, 58, 59, 60, 61, 62, 
    63]
     (0, if bit x 0 then y else 0)"
proof -
  have "[1..<64] = [1, 2, 3, 4, 5, 6, 7, 8, 9, 10, 11, 12, 13, 14, 15, 16, 17, 18, 19, 20, 21, 22, 23, 24, 25, 26, 27, 28, 29, 30, 31, 32, 
    33, 34, 35, 36, 37, 38, 39, 40, 41, 42, 43, 44, 45, 46, 47, 48, 49, 50, 51, 52, 53, 54, 55, 56, 57, 58, 59, 60, 61, 62, 
    63]" by code_simp
  then show ?thesis by (simp only: polymult_def)
qed

lemma polymod_unrolled:
  "polymod nh nl FINGERPRINT_PT = mod_low FINGERPRINT_PT 63 (if nh \<noteq> 0
     then snd (fold (mod_high FINGERPRINT_PT) [62, 61, 60, 59, 58, 57, 56, 55, 54, 53, 52, 51, 50, 49, 48, 47, 46, 45, 44, 43, 42, 41, 40, 39, 38, 37, 36, 35, 34, 33, 
    32, 31, 30, 29, 28, 27, 26, 25, 24, 23, 22, 21, 20, 19, 18, 17, 16, 15, 14, 13, 12, 11, 10, 9, 8, 7, 6, 5, 4, 3, 2, 1, 
    0]
       (if bit nh 63 then nh XOR FINGERPRINT_PT else nh, nl)) else nl)"
proof -
  have "rev [0..<63] = [62, 61, 60, 59, 58, 57, 56, 55, 54, 53, 52, 51, 50, 49, 48, 47, 46, 45, 44, 43, 42, 41, 40, 39, 38, 37, 36, 35, 34, 33, 
    32, 31, 30, 29, 28, 27, 26, 25, 24, 23, 22, 21, 20, 19, 18, 17, 16, 15, 14, 13, 12, 11, 10, 9, 8, 7, 6, 5, 4, 3, 2, 1, 
    0]" "rev [63..<64] = [63]" by code_simp+
  moreover have "64 - 1 = (63 :: nat)" by simp
  ultimately show ?thesis by (simp only: polymod_def fls64_PT Let_def diff_self_eq_0 push_bit_0_id id_apply fold_simps)
qed

lemma polymmult_pair: "polymmult x y d = polymod (fst (polymult x y)) (snd (polymult x y)) d"
  by (simp add: polymmult_def case_prod_beta)

lemmas polymmult_eval = polymmult_pair polymult_unrolled polymod_unrolled [unfolded FINGERPRINT_PT_def] mult_bit_def mod_high_def mod_low_def
  FINGERPRINT_PT_def append1_def

lemma T1_PT_polymod: "polymod 0 (push_bit 63 1) FINGERPRINT_PT = T1_PT"
  by (simp add: polymmult_eval T1_PT_def)

lemma high_byte: "append_ref (push_bit 55 (ucast h)) 0 = polymmult (ucast (h :: u8)) T1_PT FINGERPRINT_PT"
proof (rule byte_additive_eq [where m = h])
  show "append_ref (push_bit 55 (ucast (a XOR b))) 0 = append_ref (push_bit 55 (ucast a)) 0 XOR append_ref (push_bit 55 (ucast b)) 0" for a b :: u8
    using append_ref_xor [of _ _ 0 0] by (simp add: ucast_xor push_bit_xor)
  show "polymmult (ucast (a XOR b)) T1_PT FINGERPRINT_PT = polymmult (ucast a) T1_PT FINGERPRINT_PT XOR polymmult (ucast b) T1_PT FINGERPRINT_PT" for a b :: u8
    by (simp add: ucast_xor polymmult_xor)
qed (simp_all add: polymmult_eval append_ref_def T1_PT_def)

lemma bit_or_xor: "(\<And>n. bit a n \<Longrightarrow> bit b n \<Longrightarrow> False) \<Longrightarrow> a OR b = a XOR (b :: u64)"
  by (rule bit_eqI) (auto simp: bit_simps)

lemma calcT_PT:
  "Tshift (calcT FINGERPRINT_PT g) = 55"
  "Ttab (calcT FINGERPRINT_PT g) ! unat (h :: u8) = polymmult (ucast h) T1_PT FINGERPRINT_PT XOR push_bit 63 (ucast h)"
proof -
  show "Tshift (calcT FINGERPRINT_PT g) = 55" by (simp add: calcT_def fls64_PT)
  have "unat h < 256" by simp
  moreover have "of_nat (unat h) = (ucast h :: u64)" by simp
  ultimately have "Ttab (calcT FINGERPRINT_PT g) ! unat h = polymmult (ucast h) T1_PT FINGERPRINT_PT OR push_bit 63 (ucast h)"
    using T1_PT_polymod by (simp add: calcT_def fls64_PT Let_def)
  also have "\<dots> = polymmult (ucast h) T1_PT FINGERPRINT_PT XOR push_bit 63 (ucast h)"
  proof (rule bit_or_xor)
    fix n assume "bit (polymmult (ucast h) T1_PT FINGERPRINT_PT) n" "bit (push_bit 63 (ucast h :: u64)) n"
    moreover from this have "n = 63" using bit_imp_le_length by (fastforce simp: bit_push_bit_iff)
    ultimately show False using append_ref_degree high_byte by metis
  qed
  finally show "Ttab (calcT FINGERPRINT_PT g) ! unat h = polymmult (ucast h) T1_PT FINGERPRINT_PT XOR push_bit 63 (ucast h)" .
qed

text \<open>The index of the table, and the two parts of a fingerprint.\<close>

lemma high_index:
  fixes p :: u64
  assumes "\<not> bit p 63"
  shows "unat (drop_bit 55 p) = unat (ucast (drop_bit 55 p) :: u8)" "p = push_bit 55 (ucast (ucast (drop_bit 55 p) :: u8)) XOR take_bit 55 p"
proof -
  have u: "ucast (ucast (drop_bit 55 p) :: u8) = drop_bit 55 p"
  proof (rule bit_eqI)
    fix n assume "possible_bit TYPE(u64) n"
    show "bit (ucast (ucast (drop_bit 55 p) :: u8) :: u64) n = bit (drop_bit 55 p) n"
    proof (cases "n < 8")
      case False
      then have "\<not> bit p (55 + n)" using assms bit_imp_le_length [of p "55 + n"] by (cases "n = 8") auto
      then show ?thesis using False by (simp add: bit_simps)
    qed (simp add: bit_simps)
  qed
  show "unat (drop_bit 55 p) = unat (ucast (drop_bit 55 p) :: u8)" using arg_cong [OF u, of unat] unat_ucast_up by metis
  show "p = push_bit 55 (ucast (ucast (drop_bit 55 p) :: u8)) XOR take_bit 55 p"
    unfolding u by (rule bit_eqI) (auto simp: bit_simps)
qed

lemma append8_ref:
  assumes p: "\<not> bit p 63"
  shows "append8 (calcT FINGERPRINT_PT g) p m = append_ref p m"
proof -
  define h where "h = (ucast (drop_bit 55 p) :: u8)"
  note hi = high_index [OF p, folded h_def]
  have o: "push_bit 8 p OR ucast m = push_bit 8 p XOR ucast m"
  proof (rule bit_or_xor)
    show False if "bit (push_bit 8 p) n" "bit (ucast m :: u64) n" for n
      using that bit_imp_le_length [of m n] by (auto simp: bit_simps)
  qed
  have "append_ref (take_bit 55 p) 0 = push_bit 8 (take_bit 55 p)" using mulx_pow_shift [of 8 p] append_ref_mulx by simp
  then have "append_ref p m = (polymmult (ucast h) T1_PT FINGERPRINT_PT XOR push_bit 8 (take_bit 55 p)) XOR ucast m"
    using append_ref_xor [of "push_bit 55 (ucast h)" "take_bit 55 p" 0 0] hi(2) append_ref_split [of p m] high_byte [of h] by simp
  moreover have "push_bit 8 p = push_bit 63 (ucast h) XOR push_bit 8 (take_bit 55 p)"
    using arg_cong [OF hi(2), of "push_bit 8"] by (simp add: push_bit_xor)
  ultimately show ?thesis
    using calcT_PT [of g] hi(1) o by (simp add: append8_def ac_simps)
qed

text \<open>The remainder of \<open>x ^ 376\<close>, the place of the oldest byte of a window.\<close>

definition place_PT :: u64 where "place_PT = 0x30ce60d7420a4013"

lemma place_PT_ref: "foldl append_ref 1 (replicate 47 0) = place_PT"
proof -
  have "replicate 47 (0 :: u8) = [0, 0, 0, 0, 0, 0, 0, 0, 0, 0, 0, 0, 0, 0, 0, 0, 0, 0, 0, 0, 0, 0, 0, 0, 0, 0, 0, 0, 0, 0, 0, 0, 0, 0, 0, 0, 0, 0, 0, 0, 0, 0, 0, 0, 0, 0, 0]" by (simp add: numeral_eq_Suc)
  then show ?thesis by (simp only:) (simp add: append_ref_def append1_def FINGERPRINT_PT_def place_PT_def)
qed

lemma foldl_append_xor: "foldl append_ref (p XOR q) ms = foldl append_ref p ms XOR foldl append_ref q (replicate (length ms) 0)"
proof (induction ms arbitrary: p q)
  case (Cons m ms)
  have "append_ref (p XOR q) m = append_ref p m XOR append_ref q 0" using append_ref_xor [of p q m 0] by simp
  then show ?case using Cons.IH by simp
qed simp

lemma zeros_mulx: "foldl append_ref p (replicate n 0) = (mulx ^^ (8 * n)) p"
proof (induction n arbitrary: p)
  case (Suc n)
  have "(mulx ^^ (8 * Suc n)) p = (mulx ^^ (8 * n)) ((mulx ^^ 8) p)" by (simp only: mult_Suc_right add.commute [of 8] funpow_add o_apply)
  then show ?case using Suc append_ref_mulx by simp
qed simp

lemma zeros_shift: "foldl append_ref (mulx p) (replicate n 0) = mulx (foldl append_ref p (replicate n 0))"
  unfolding zeros_mulx by (rule funpow_swap1 [symmetric])

lemma place_bits:
  "foldl append_ref 2 (replicate 47 0) = mulx place_PT" "foldl append_ref 4 (replicate 47 0) = mulx (mulx place_PT)"
  "foldl append_ref 8 (replicate 47 0) = mulx (mulx (mulx place_PT))" "foldl append_ref 16 (replicate 47 0) = mulx (mulx (mulx (mulx place_PT)))"
  "foldl append_ref 32 (replicate 47 0) = mulx (mulx (mulx (mulx (mulx place_PT))))"
  "foldl append_ref 64 (replicate 47 0) = mulx (mulx (mulx (mulx (mulx (mulx place_PT)))))"
  "foldl append_ref 128 (replicate 47 0) = mulx (mulx (mulx (mulx (mulx (mulx (mulx place_PT))))))"
proof -
  have s: "(2 :: u64) = mulx 1" "(4 :: u64) = mulx 2" "(8 :: u64) = mulx 4" "(16 :: u64) = mulx 8" "(32 :: u64) = mulx 16" "(64 :: u64) = mulx 32"
    "(128 :: u64) = mulx 64"
    by (simp_all add: append1_def)
  show 1: "foldl append_ref 2 (replicate 47 0) = mulx place_PT" by (subst s(1)) (simp only: zeros_shift place_PT_ref)
  show 2: "foldl append_ref 4 (replicate 47 0) = mulx (mulx place_PT)" by (subst s(2)) (simp only: zeros_shift 1)
  show 3: "foldl append_ref 8 (replicate 47 0) = mulx (mulx (mulx place_PT))" by (subst s(3)) (simp only: zeros_shift 2)
  show 4: "foldl append_ref 16 (replicate 47 0) = mulx (mulx (mulx (mulx place_PT)))" by (subst s(4)) (simp only: zeros_shift 3)
  show 5: "foldl append_ref 32 (replicate 47 0) = mulx (mulx (mulx (mulx (mulx place_PT))))" by (subst s(5)) (simp only: zeros_shift 4)
  show 6: "foldl append_ref 64 (replicate 47 0) = mulx (mulx (mulx (mulx (mulx (mulx place_PT)))))" by (subst s(6)) (simp only: zeros_shift 5)
  show "foldl append_ref 128 (replicate 47 0) = mulx (mulx (mulx (mulx (mulx (mulx (mulx place_PT))))))" by (subst s(7)) (simp only: zeros_shift 6)
qed

lemma oldest_byte: "foldl append_ref (ucast (b :: u8)) (replicate 47 0) = polymmult (ucast b) place_PT FINGERPRINT_PT"
proof (rule byte_additive_eq [where m = b])
  show "foldl append_ref (ucast (x XOR y :: u8)) (replicate 47 0)
      = foldl append_ref (ucast x) (replicate 47 0) XOR foldl append_ref (ucast y) (replicate 47 0)" for x y :: u8
    by (simp add: ucast_xor foldl_append_xor)
  show "polymmult (ucast (x XOR y :: u8)) place_PT FINGERPRINT_PT
      = polymmult (ucast x) place_PT FINGERPRINT_PT XOR polymmult (ucast y) place_PT FINGERPRINT_PT" for x y :: u8
    by (simp add: ucast_xor polymmult_xor)
qed (simp_all add: place_bits place_PT_ref polymmult_eval place_PT_def)

subsection \<open>The rolling window\<close>

text \<open>Tables as \<open>chunkAlg_init\<close> leaves them.\<close>

definition tables_ok :: "rabin \<Rightarrow> bool" where
  "tables_ok g \<longleftrightarrow> Tshift g = 55 \<and> Ttab g = Ttab (calcT FINGERPRINT_PT g)
     \<and> Utab g = map (\<lambda>i. polymmult (of_nat i) place_PT FINGERPRINT_PT) [0..<256]"

lemma append8_tables: "tables_ok g \<Longrightarrow> \<not> bit p 63 \<Longrightarrow> append8 g p m = append_ref p m"
  using append8_ref [of p g m] calcT_PT(1) [of g] by (simp add: tables_ok_def append8_def)

lemma Utab_tables: "tables_ok g \<Longrightarrow> Utab g ! unat (b :: u8) = foldl append_ref (ucast b) (replicate 47 0)"
  by (simp add: tables_ok_def oldest_byte)

lemma sizeshift_ref:
  assumes "\<And>p. \<not> bit p 63 \<Longrightarrow> append8 g p 0 = append_ref p 0" "\<not> bit p 63"
  shows "fold (\<lambda>_ s. append8 g s 0) xs p = foldl append_ref p (replicate (length xs) 0)"
  using assms by (induction xs arbitrary: p) (simp_all add: append_ref_degree)

lemma chunkAlg_tables: "tables_ok (chunkAlg_init g)"
proof -
  define g1 where "g1 = rabinpoly_init FINGERPRINT_PT g"
  have g1: "g1 = calcT FINGERPRINT_PT (g\<lparr>poly := FINGERPRINT_PT\<rparr>)" by (simp add: g1_def rabinpoly_init_def)
  have "fold (\<lambda>_ s. append8 g1 s 0) [1..<WINDOW] 1 = foldl append_ref 1 (replicate (length [1..<WINDOW]) 0)"
    by (rule sizeshift_ref) (simp_all add: g1 append8_ref)
  then have s: "fold (\<lambda>_ s. append8 g1 s 0) [1..<WINDOW] 1 = place_PT" using place_PT_ref by (simp add: WINDOW_def)
  have T: "Ttab (calcT FINGERPRINT_PT g') = Ttab (calcT FINGERPRINT_PT g'')" for g' g'' by (simp add: calcT_def Let_def)
  show ?thesis
    unfolding chunkAlg_init_def windows_reset_def window_init_def Let_def g1_def [symmetric] s
    using T calcT_PT(1) by (simp add: tables_ok_def g1)
qed

text \<open>The local variables of a rolling fingerprint: the ring buffer holds the last 48 bytes \<open>w\<close>, oldest first from the next position.\<close>

definition roll_inv :: "bytes \<Rightarrow> u64 \<times> int \<times> bytes \<Rightarrow> bool" where
  "roll_inv w = (\<lambda>(f, pos, arr). length w = WINDOW \<and> WINDOW \<le> length arr \<and> - 1 \<le> pos \<and> pos < int WINDOW
     \<and> f = foldl append_ref 0 w \<and> (\<forall>j < WINDOW. w ! j = arr ! ((nat (pos + 1) + j) mod WINDOW)))"

lemma window_degree: "w \<noteq> [] \<Longrightarrow> \<not> bit (foldl append_ref p w) 63"
  by (cases w rule: rev_cases) (simp_all add: append_ref_degree)

text \<open>Dropping the oldest byte with the table \<open>U\<close>.\<close>

lemma drop_oldest:
  assumes "tables_ok g" "length w = 48"
  shows "foldl append_ref 0 w XOR Utab g ! unat (w ! 0) = foldl append_ref 0 (tl w)"
proof -
  obtain b ws where w: "w = b # ws" "length ws = 47" using assms(2) by (cases w) auto
  have "foldl append_ref 0 w = foldl append_ref (ucast b) ws" using w by (simp add: append_ref_zero)
  also have "\<dots> = foldl append_ref 0 ws XOR foldl append_ref (ucast b) (replicate 47 0)" using foldl_append_xor [of 0 "ucast b" ws] w(2) by simp
  finally show ?thesis using Utab_tables [OF assms(1)] w by (simp add: ac_simps)
qed

lemma SLIDE_append8: "SLIDE g m (f, bufPos, arr) =
   (let pos = (if bufPos + 1 \<ge> int WINDOW then 0 else bufPos + 1) in (append8 g (f XOR Utab g ! unat (arr ! nat pos)) m, pos, arr[nat pos := m]))"
  by (simp add: SLIDE_def append8_def Let_def)

lemma SLIDE_ok:
  assumes g: "tables_ok g" and i: "roll_inv w st"
  shows "roll_inv (tl w @ [m]) (SLIDE g m st)"
proof -
  obtain f bp arr where st: "st = (f, bp, arr)" by (cases st)
  have w: "length w = 48" "48 \<le> length arr" "-1 \<le> bp" "bp < 48" "f = foldl append_ref 0 w"
    "\<And>j. j < 48 \<Longrightarrow> w ! j = arr ! ((nat (bp + 1) + j) mod 48)" using i by (auto simp: roll_inv_def st WINDOW_def)
  define pos where "pos = (if bp + 1 \<ge> 48 then 0 else bp + 1)"
  define k where "k = nat pos"
  have k: "k < 48" "pos = int k" "\<And>j. (nat (bp + 1) + j) mod 48 = (k + j) mod 48"
  proof -
    have "nat (bp + 1) = k \<or> nat (bp + 1) = 48 \<and> k = 0" using w(3,4) by (auto simp: k_def pos_def)
    then show "(nat (bp + 1) + j) mod 48 = (k + j) mod 48" for j by auto
  qed (use w(3,4) in \<open>auto simp: k_def pos_def\<close>)
  have om: "arr ! k = w ! 0" using w(6) [of 0] k(1) k(3) [of 0] by simp
  have deg: "\<not> bit (foldl append_ref 0 (tl w)) 63" using w(1) by (intro window_degree) (cases w; auto)
  have s: "SLIDE g m st = (append_ref (foldl append_ref 0 (tl w)) m, int k, arr[k := m])"
  proof -
    have "(if bp + 1 \<ge> int WINDOW then 0 else bp + 1) = int k" using k(2) by (simp add: pos_def WINDOW_def)
    then show ?thesis
      using drop_oldest [OF g w(1)] append8_tables [OF g deg] om w(5) unfolding st SLIDE_append8 by (simp add: Let_def)
  qed
  have "(tl w @ [m]) ! j = arr[k := m] ! ((k + 1 + j) mod 48)" if j: "j < 48" for j
  proof (cases "j = 47")
    case True
    then have "(k + 1 + j) mod 48 = k" using k(1) by simp
    then show ?thesis using True w(1,2) k(1) by (simp add: nth_append)
  next
    case False
    then have "(k + 1 + j) mod 48 \<noteq> k" using j k(1) by (cases "k + 1 + j < 48") (auto simp: mod_if)
    then show ?thesis using False j w(1) w(6) [of "j + 1"] k(3) [of "j + 1"] by (simp add: nth_append nth_tl add.assoc)
  qed
  then show ?thesis using s w(1,2) k(1) by (simp add: roll_inv_def WINDOW_def nat_add_distrib)
qed

text \<open>\<open>slide8\<close> is the same on the global variables.\<close>

lemma slide8_ok:
  assumes "tables_ok g" "roll_inv w (fp g, bufpos g, wbuf g)"
  shows "roll_inv (tl w @ [m]) (fp (slide8 m g), bufpos (slide8 m g), wbuf (slide8 m g))"
  using SLIDE_ok [OF assms, of m] by (simp add: SLIDE_append8 slide8_def Let_def)

lemma slides_ok: "tables_ok g \<Longrightarrow> roll_inv w st \<Longrightarrow> roll_inv (drop (length xs) (w @ xs)) (fold (SLIDE g) xs st)"
proof (induction xs arbitrary: w st)
  case (Cons x xs)
  have e: "drop (length xs) ((tl w @ [x]) @ xs) = drop (length (x # xs)) (w @ x # xs)"
    using Cons.prems(2) by (cases w) (auto simp: roll_inv_def WINDOW_def)
  show ?case using Cons.IH [OF Cons.prems(1) SLIDE_ok [OF Cons.prems, of x], unfolded e] by (simp only: fold_simps)
qed simp

lemma roll_start: "-1 \<le> pos \<Longrightarrow> pos < int WINDOW \<Longrightarrow> WINDOW \<le> n \<Longrightarrow> roll_inv (replicate WINDOW 0) (0, pos, replicate n 0)"
proof -
  have "foldl append_ref 0 (replicate WINDOW 0) = 0" using foldl_append_xor [of 0 0 "replicate WINDOW 0"] by simp
  then show "-1 \<le> pos \<Longrightarrow> pos < int WINDOW \<Longrightarrow> WINDOW \<le> n \<Longrightarrow> roll_inv (replicate WINDOW 0) (0, pos, replicate n 0)"
    by (auto simp: roll_inv_def WINDOW_def)
qed

subsection \<open>The features of a share\<close>

text \<open>The fingerprint of the 48 bytes from position \<open>i\<close> on.\<close>

definition window_fp :: "bytes \<Rightarrow> nat \<Rightarrow> u64" where
  "window_fp xs i = foldl append_ref 0 (take 48 (drop i xs))"

lemma max_steps:
  assumes "tables_ok g" "roll_inv w st"
  shows "fold (max_step g) xs (st, f) = (fold (SLIDE g) xs st, foldl max f (map (\<lambda>i. window_fp (w @ xs) (i + 1)) [0..<length xs]))"
  using assms(2)
proof (induction xs arbitrary: w st f)
  case (Cons x xs)
  have w: "length w = 48" using Cons.prems by (auto simp: roll_inv_def WINDOW_def)
  have r: "roll_inv (tl w @ [x]) (SLIDE g x st)" by (rule SLIDE_ok [OF assms(1) Cons.prems])
  then have "fst (SLIDE g x st) = foldl append_ref 0 (tl w @ [x])" by (auto simp: roll_inv_def)
  moreover have sh: "w @ x # xs = hd w # (tl w @ [x]) @ xs" using w by (cases w) auto
  ultimately have s: "max_step g x (st, f) = (SLIDE g x st, max f (window_fp (w @ x # xs) 1))"
    using w by (simp add: max_step_def window_fp_def drop_Suc)
  have i: "window_fp (w @ x # xs) (i + 2) = window_fp ((tl w @ [x]) @ xs) (i + 1)" for i unfolding sh by (simp add: window_fp_def)
  have "[0..<length (x # xs)] = 0 # map Suc [0..<length xs]" by (simp only: list.size map_Suc_upt upt_conv_Cons) simp
  then have m: "map (\<lambda>i. window_fp (w @ x # xs) (i + 1)) [0..<length (x # xs)] = window_fp (w @ x # xs) 1 # map (\<lambda>i. window_fp ((tl w @ [x]) @ xs) (i + 1)) [0..<length xs]"
    using i by simp
  show ?case unfolding m using Cons.IH [OF r, of "max f (window_fp (w @ x # xs) 1)"] s by simp
qed simp

lemma foldl_max: "foldl max (f :: u64) xs = Max (insert f (set xs))"
proof (induction xs arbitrary: f)
  case (Cons a xs)
  then show ?case by (cases "set xs = {}") (simp_all add: ac_simps)
qed simp

definition part_max :: "bytes \<Rightarrow> nat \<Rightarrow> nat \<Rightarrow> u64" where
  "part_max xs lo s = Max ((\<lambda>i. window_fp xs (lo + i)) ` {0..s})"

lemma finesse_part_ok:
  assumes g: "tables_ok g" and l: "48 + m * s + s \<le> length ram" and b: "-1 \<le> pos" "pos < 48"
  shows "\<exists>pos'. finesse_part g ram s m pos = Some (part_max ram (m * s) s, pos') \<and> -1 \<le> pos' \<and> pos' < 48"
proof -
  define lo where "lo = m * s"
  define xs where "xs = take 47 (drop lo ram)"
  define ys where "ys = take (s + 1) (drop (lo + 47) ram)"
  have len: "length xs = 47" "length ys = s + 1" using l by (simp_all add: xs_def ys_def lo_def)
  define st where "st = fold (SLIDE g) xs (0, pos, replicate 128 0)"
  have "roll_inv (drop (length xs) (replicate WINDOW 0 @ xs)) st"
    unfolding st_def by (rule slides_ok [OF g roll_start]) (use b in \<open>simp_all add: WINDOW_def\<close>)
  then have r: "roll_inv (0 # xs) st" using len(1) by (simp add: WINDOW_def drop_replicate)
  have xy: "xs @ ys = take (48 + s) (drop lo ram)"
    unfolding xs_def ys_def using take_add [of 47 "s + 1" "drop lo ram"] by (simp add: add.commute)
  have w: "window_fp ((0 # xs) @ ys) (i + 1) = window_fp ram (lo + i)" if "i < s + 1" for i
    using that by (simp add: window_fp_def xy drop_take min_def add.commute)
  have "fold (max_step g) ys (st, 0) = (fold (SLIDE g) ys st, foldl max 0 (map (\<lambda>i. window_fp ram (lo + i)) [0..<s + 1]))"
  proof -
    have "map (\<lambda>i. window_fp ((0 # xs) @ ys) (i + 1)) [0..<length ys] = map (\<lambda>i. window_fp ram (lo + i)) [0..<s + 1]"
      unfolding len(2) by (rule map_cong [OF refl]) (rule w, auto)
    then show ?thesis using max_steps [OF g r, of ys 0] by (simp only:)
  qed
  also have "foldl max 0 (map (\<lambda>i. window_fp ram (lo + i)) [0..<s + 1]) = part_max ram lo s"
  proof -
    have "set (map (\<lambda>i. window_fp ram (lo + i)) [0..<s + 1]) = (\<lambda>i. window_fp ram (lo + i)) ` {0..s}"
      by (simp only: set_map set_upt Suc_eq_plus1 [symmetric] atLeastLessThanSuc_atLeastAtMost)
    then show ?thesis unfolding foldl_max part_max_def by simp
  qed
  finally have f: "fold (max_step g) ys (st, 0) = (fold (SLIDE g) ys st, part_max ram lo s)" .
  have "roll_inv (drop (length ys) ((0 # xs) @ ys)) (fold (SLIDE g) ys st)" by (rule slides_ok [OF g r])
  then have "-1 \<le> fst (snd (fold (SLIDE g) ys st))" "fst (snd (fold (SLIDE g) ys st)) < 48" by (auto simp: roll_inv_def WINDOW_def)
  moreover have "finesse_part g ram s m pos = Some (part_max ram lo s, fst (snd (fold (SLIDE g) ys st)))"
  proof -
    have "take (s + 1) (drop (48 + lo - 1) ram) = ys" "take 47 (drop (48 + lo - 48) ram) = xs" by (simp_all add: xs_def ys_def add.commute)
    then show ?thesis using l f unfolding finesse_part_def Let_def lo_def [symmetric] by (simp only: st_def [symmetric]) simp
  qed
  ultimately show ?thesis unfolding lo_def by blast
qed

lemma finesse_parts_ok:
  assumes "tables_ok g" "\<forall>m \<in> set ms. 48 + m * s + s \<le> length ram" "-1 \<le> pos" "pos < 48"
  shows "finesse_parts g ram s ms pos = Some (map (\<lambda>m. part_max ram (m * s) s) ms)"
  using assms(2-4)
proof (induction ms arbitrary: pos)
  case (Cons m ms)
  then obtain pos' where "finesse_part g ram s m pos = Some (part_max ram (m * s) s, pos')" "-1 \<le> pos'" "pos' < 48"
    using finesse_part_ok [OF assms(1)] by (metis list.set_intros(1))
  then show ?case using Cons by simp
qed simp

lemma swap3_sort: "swap3 (a, b, c) = (let s = sort [a, b, c] in (s ! 0, s ! 1, s ! 2))"
  by (auto simp: swap3_def Let_def split: if_splits)

text \<open>C27. Super features: \<open>finesse_super_feature\<close>, with the tables of \<open>chunkAlg_init\<close>, takes from each of six equal parts of the share
  the largest fingerprint of a window of 48 bytes that begins in it, where a fingerprint is the remainder of the window as a
  polynomial over GF(2) modulo \<open>FINGERPRINT_PT\<close>, bit by bit; the features of either half are sorted, and the features of equal
  rank are hashed together. The rolling update, its tables and the position from which the ring buffer starts have no influence.\<close>

theorem finesse_features:
  fixes n :: nat and ram :: bytes
  defines "s \<equiv> n div 6"
  defines "lo \<equiv> sort (map (\<lambda>m. part_max ram (m * s) s) [0, 1, 2])" and "hi \<equiv> sort (map (\<lambda>m. part_max ram (m * s) s) [3, 4, 5])"
  assumes "48 + 6 * s \<le> length ram"
  shows "finesse_super_feature ram n (chunkAlg_init g) =
    Some (\<lparr>sf1 = group_hash (lo ! 2) (hi ! 2), sf2 = group_hash (lo ! 1) (hi ! 1), sf3 = group_hash (lo ! 0) (hi ! 0)\<rparr>,
          (chunkAlg_init g)\<lparr>bufpos := -1\<rparr>)"
proof -
  have "finesse_parts (chunkAlg_init g) ram s [0, 1, 2, 3, 4, 5] (-1) = Some (map (\<lambda>m. part_max ram (m * s) s) [0, 1, 2, 3, 4, 5])"
    by (rule finesse_parts_ok [OF chunkAlg_tables]) (use assms(4) in auto)
  then show ?thesis
    by (simp add: finesse_super_feature_def s_def [symmetric] swap3_sort Let_def lo_def hi_def)
qed

theorem finesse_features_witness:
  "finesse_super_feature (replicate 60 1) 13 (chunkAlg_init \<lparr>poly = 0, Tshift = 0, Ttab = [], Utab = [], fp = 0, bufpos = 0, wbuf = []\<rparr>) =
    Some (\<lparr>sf1 = group_hash (sort (map (\<lambda>m. part_max (replicate 60 1) (m * (13 div 6)) (13 div 6)) [0, 1, 2]) ! 2)
                            (sort (map (\<lambda>m. part_max (replicate 60 1) (m * (13 div 6)) (13 div 6)) [3, 4, 5]) ! 2),
           sf2 = group_hash (sort (map (\<lambda>m. part_max (replicate 60 1) (m * (13 div 6)) (13 div 6)) [0, 1, 2]) ! 1)
                            (sort (map (\<lambda>m. part_max (replicate 60 1) (m * (13 div 6)) (13 div 6)) [3, 4, 5]) ! 1),
           sf3 = group_hash (sort (map (\<lambda>m. part_max (replicate 60 1) (m * (13 div 6)) (13 div 6)) [0, 1, 2]) ! 0)
                            (sort (map (\<lambda>m. part_max (replicate 60 1) (m * (13 div 6)) (13 div 6)) [3, 4, 5]) ! 0)\<rparr>,
          (chunkAlg_init \<lparr>poly = 0, Tshift = 0, Ttab = [], Utab = [], fp = 0, bufpos = 0, wbuf = []\<rparr>)\<lparr>bufpos := -1\<rparr>)"
  by (rule finesse_features) simp

text \<open>C40. Reads behind the share: \<open>finesse_super_feature\<close> reads up to 48 bytes behind the end of every share, whatever its length; it
  runs without a fault exactly when that memory can be read.\<close>

theorem finesse_overreads:
  "(finesse_super_feature ram n (chunkAlg_init g) = None) = (length ram < 48 + 6 * (n div 6))
     \<and> finesse_super_feature share (length share) (chunkAlg_init g) = None"
proof -
  have 1: "(finesse_super_feature ram n (chunkAlg_init g) = None) = (length ram < 48 + 6 * (n div 6))" for ram n
  proof (cases "48 + 6 * (n div 6) \<le> length ram")
    case True
    then have "finesse_parts (chunkAlg_init g) ram (n div 6) [0, 1, 2, 3, 4, 5] (-1) \<noteq> None"
      using finesse_parts_ok [OF chunkAlg_tables, of "[0, 1, 2, 3, 4, 5]" "n div 6" ram "-1" g] by auto
    then show ?thesis using True by (simp add: finesse_super_feature_def)
  next
    case False
    then have "finesse_part g' ram (n div 6) 5 pos = None" for g' pos by (simp add: finesse_part_def Let_def)
    then show ?thesis using False by (auto simp: finesse_super_feature_def split: option.splits prod.splits bind_splits)
  qed
  have "finesse_super_feature share (length share) (chunkAlg_init g) = None" unfolding 1 by linarith
  then show ?thesis using 1 by blast
qed

end
