(* ===== verification/Chunker.thy ===== *)
theory Chunker
  imports Prelude
begin

unbundle bit_operations_syntax

section \<open>The client's chunker (client/src/chunker.cc)\<close>

text \<open>
  Division of a buffer into chunks of a fixed size, or of a variable size at positions where a rolling hash of
  the last bytes has a given value. \<open>int\<close> values are integers; the \<open>uint32_t\<close> arithmetic of the hash is
  written with its wrap-around. A read outside the buffer and a loop that does not end are \<open>None\<close>. The list of
  end indices, which the caller provides, is the result; its capacity is not modelled. The chunks are shown to be a
  partition of the buffer with sizes in their bounds, and the cuts of the variable-size chunker to depend on the window
  before them only.
\<close>

record chunker =
  chunkerType :: bool
  avgChunkSize :: int
  minChunkSize :: int
  maxChunkSize :: int
  slidingWinSize :: int
  powerLUT :: "int list"
  removeLUT :: "int list"
  anchorMask :: int
  anchorValue :: int

definition polyBase :: int where "polyBase = 257"
definition polyMOD :: int where "polyMOD = 8388608"

definition wrap32 :: "int \<Rightarrow> int" where "wrap32 x = x mod 2 ^ 32"

primrec power_entry :: "nat \<Rightarrow> int" where
  "power_entry 0 = 1"
| "power_entry (Suc i) = wrap32 (power_entry i * polyBase) AND (polyMOD - 1)"

definition remove_entry :: "int \<Rightarrow> int \<Rightarrow> int" where
  "remove_entry p i = (let r = wrap32 (i * p) AND (polyMOD - 1) in if r \<noteq> 0 then polyMOD - r else r)"

text \<open>The loop that computes the number of mask bits; \<open>None\<close> when the shifted size passes 1 and the loop goes on for ever.\<close>

function mask_bits :: "int \<Rightarrow> nat \<Rightarrow> nat option" where
  "mask_bits avg n = (if drop_bit n avg = 1 then Some n else if drop_bit n avg \<le> 0 then None else mask_bits avg (n + 1))"
  by pat_completeness auto
termination
proof (relation "measure (\<lambda>(avg, n). nat (drop_bit n avg))", goal_cases)
  case (2 avg n)
  have "drop_bit (n + 1) avg = drop_bit n avg div 2" by (simp add: drop_bit_Suc drop_bit_half)
  then show ?case using 2 by auto
qed simp

declare mask_bits.simps [simp del]

text \<open>The constructor; \<open>Inl\<close> is the exit code of the program. A window of no bytes is \<open>None\<close> (the first entry of the table would be
  written outside it).\<close>

definition Chunker :: "bool \<Rightarrow> int \<Rightarrow> int \<Rightarrow> int \<Rightarrow> int \<Rightarrow> (int + chunker) option" where
  "Chunker varType avg mn mx win =
     (if \<not> varType then
        Some (Inr \<lparr>chunkerType = False, avgChunkSize = avg, minChunkSize = 0, maxChunkSize = 0, slidingWinSize = 0, powerLUT = [], removeLUT = [],
                   anchorMask = 0, anchorValue = 0\<rparr>)
      else if mn \<ge> avg then Some (Inl 1)
      else if mx \<le> avg then Some (Inl 1)
      else if win \<le> 0 then None
      else
        let pw = map power_entry [0..<nat win]
        in map_option (\<lambda>bits. Inr \<lparr>chunkerType = True, avgChunkSize = avg, minChunkSize = mn, maxChunkSize = mx, slidingWinSize = win,
                                 powerLUT = pw, removeLUT = map (\<lambda>i. remove_entry (pw ! nat (win - 1)) (int i)) [0..<256],
                                 anchorMask = 2 ^ bits - 1, anchorValue = 0\<rparr>)
             (mask_bits avg 1))"

definition read_byte :: "bytes \<Rightarrow> int \<Rightarrow> int option" where
  "read_byte buffer i = (if 0 \<le> i \<and> i < int (length buffer) then Some (uint (buffer ! nat i)) else None)"

partial_function (option) fix_loop :: "int \<Rightarrow> int \<Rightarrow> int \<Rightarrow> int list option" where
  "fix_loop avg bufferSize chunkEndIndex =
     (if chunkEndIndex < bufferSize then Option.bind (fix_loop avg bufferSize (chunkEndIndex + avg)) (\<lambda>ends. Some (chunkEndIndex # ends)) else Some [])"

text \<open>The tail of the buffer.\<close>

definition add_tail :: "int \<Rightarrow> int list \<Rightarrow> int list" where
  "add_tail bufferSize ends = (if ends = [] \<or> List.last ends \<noteq> bufferSize - 1 then ends @ [bufferSize - 1] else ends)"

definition fixSizeChunking :: "chunker \<Rightarrow> bytes \<Rightarrow> int list option" where
  "fixSizeChunking c buffer =
     (let bufferSize = int (length buffer) in map_option (add_tail bufferSize) (fix_loop (avgChunkSize c) bufferSize (-1 + avgChunkSize c)))"

primrec first_window :: "chunker \<Rightarrow> bytes \<Rightarrow> int \<Rightarrow> nat \<Rightarrow> int option" where
  "first_window c buffer e 0 = Some 0"
| "first_window c buffer e (Suc k) =
     Option.bind (first_window c buffer e k) (\<lambda>w.
       map_option (\<lambda>b. wrap32 (w + (wrap32 (b * powerLUT c ! k) AND (polyMOD - 1)))) (read_byte buffer (e - int k)))"

function slide_loop :: "chunker \<Rightarrow> bytes \<Rightarrow> int \<Rightarrow> int \<Rightarrow> int \<Rightarrow> int option" where
  "slide_loop c buffer chunkEndIndexLimit chunkEndIndex winFp =
     (if winFp AND anchorMask c \<noteq> anchorValue c \<and> chunkEndIndex < chunkEndIndexLimit then
        (case (read_byte buffer (chunkEndIndex + 1 - slidingWinSize c), read_byte buffer (chunkEndIndex + 1)) of
           (Some old, Some new) \<Rightarrow>
             slide_loop c buffer chunkEndIndexLimit (chunkEndIndex + 1)
               (wrap32 (wrap32 (winFp + removeLUT c ! nat old) * polyBase + new) AND (polyMOD - 1))
         | _ \<Rightarrow> None)
      else Some chunkEndIndex)"
  by pat_completeness auto
termination by (relation "measure (\<lambda>(c, buffer, l, e, w). nat (l - e))") auto

declare slide_loop.simps [simp del]

partial_function (option) var_loop :: "chunker \<Rightarrow> bytes \<Rightarrow> int \<Rightarrow> int \<Rightarrow> int list option" where
  "var_loop c buffer chunkEndIndex chunkEndIndexLimit =
     (if chunkEndIndex < int (length buffer) then
        Option.bind (first_window c buffer chunkEndIndex (nat (slidingWinSize c))) (\<lambda>w.
          Option.bind (slide_loop c buffer (if chunkEndIndexLimit \<ge> int (length buffer) then int (length buffer) - 1 else chunkEndIndexLimit)
                         chunkEndIndex (w AND (polyMOD - 1))) (\<lambda>e.
            Option.bind (var_loop c buffer (e + minChunkSize c) (e + maxChunkSize c)) (\<lambda>ends. Some (e # ends))))
      else Some [])"

definition varSizeChunking :: "chunker \<Rightarrow> bytes \<Rightarrow> int list option" where
  "varSizeChunking c buffer =
     map_option (add_tail (int (length buffer))) (var_loop c buffer (-1 + minChunkSize c) (-1 + maxChunkSize c))"

definition chunking :: "chunker \<Rightarrow> bytes \<Rightarrow> int list option" where
  "chunking c buffer = (if chunkerType c then varSizeChunking c buffer else fixSizeChunking c buffer)"

declare fix_loop.simps [code] var_loop.simps [code]

subsection \<open>The rolling hash\<close>

text \<open>The hash of the window of \<open>n\<close> bytes that ends at position \<open>e\<close>.\<close>

definition byte_at :: "bytes \<Rightarrow> int \<Rightarrow> int" where
  "byte_at buffer i = uint (buffer ! nat i)"

definition window_sum :: "bytes \<Rightarrow> int \<Rightarrow> nat \<Rightarrow> int" where
  "window_sum buffer e n = (\<Sum>k<n. byte_at buffer (e - int k) * polyBase ^ k)"

definition window_hash :: "bytes \<Rightarrow> int \<Rightarrow> nat \<Rightarrow> int" where
  "window_hash buffer e n = window_sum buffer e n mod polyMOD"

lemma and_polyMOD: "x AND (polyMOD - 1) = x mod polyMOD"
proof -
  have "x AND (polyMOD - 1) = take_bit 23 x" by (simp add: take_bit_eq_mask polyMOD_def mask_eq_exp_minus_1)
  then show ?thesis by (simp add: take_bit_eq_mod polyMOD_def)
qed

lemma wrap32_mod: "wrap32 x mod polyMOD = x mod polyMOD"
  unfolding wrap32_def polyMOD_def by (rule mod_mod_cancel) simp

lemma power_entry_mod: "power_entry i = polyBase ^ i mod polyMOD"
proof (induction i)
  case (Suc i)
  then show ?case by (simp add: and_polyMOD wrap32_mod mod_simps mult.commute)
qed (simp add: polyMOD_def)

lemma remove_entry_mod: "(remove_entry (polyBase ^ k mod polyMOD) i) mod polyMOD = (- (i * polyBase ^ k)) mod polyMOD"
proof -
  define r where "r = i * polyBase ^ k mod polyMOD"
  have "remove_entry (polyBase ^ k mod polyMOD) i mod polyMOD = (- r) mod polyMOD"
    by (auto simp: remove_entry_def Let_def and_polyMOD wrap32_mod r_def mod_simps)
  then show ?thesis by (simp add: r_def mod_simps)
qed

lemma byte_at_range: "0 \<le> byte_at buffer i" "byte_at buffer i < 256"
  using uint_lt2p [of "buffer ! nat i"] by (simp_all add: byte_at_def)

lemma read_byte_at: "0 \<le> i \<Longrightarrow> i < int (length buffer) \<Longrightarrow> read_byte buffer i = Some (byte_at buffer i)"
  by (simp add: read_byte_def byte_at_def)

text \<open>Moving the window by one byte.\<close>

lemma window_sum_step:
  "window_sum buffer (e + 1) (Suc n) = (window_sum buffer e (Suc n) - byte_at buffer (e - int n) * polyBase ^ n) * polyBase + byte_at buffer (e + 1)"
proof -
  have "window_sum buffer (e + 1) (Suc n) = byte_at buffer (e + 1) + (\<Sum>k<n. byte_at buffer (e - int k) * polyBase ^ Suc k)"
    by (simp add: window_sum_def sum.lessThan_Suc_shift del: sum.lessThan_Suc)
  also have "(\<Sum>k<n. byte_at buffer (e - int k) * polyBase ^ Suc k) = window_sum buffer e n * polyBase"
    by (simp add: window_sum_def sum_distrib_left mult_ac)
  finally show ?thesis by (simp add: window_sum_def algebra_simps)
qed

text \<open>Tables as the constructor makes them, and a window that fits the shortest chunk.\<close>

definition var_chunker :: "chunker \<Rightarrow> bool" where
  "var_chunker c \<longleftrightarrow> chunkerType c \<and> 0 < slidingWinSize c \<and> slidingWinSize c \<le> minChunkSize c \<and> minChunkSize c \<le> maxChunkSize c
     \<and> powerLUT c = map power_entry [0..<nat (slidingWinSize c)]
     \<and> removeLUT c = map (\<lambda>i. remove_entry (power_entry (nat (slidingWinSize c) - 1)) (int i)) [0..<256]"

definition anchor :: "chunker \<Rightarrow> bytes \<Rightarrow> int \<Rightarrow> bool" where
  "anchor c buffer e \<longleftrightarrow> window_hash buffer e (nat (slidingWinSize c)) AND anchorMask c = anchorValue c"

lemma first_window_ok:
  assumes "var_chunker c" "k \<le> nat (slidingWinSize c)" "int k \<le> e + 1" "e < int (length buffer)"
  shows "\<exists>w. first_window c buffer e k = Some w \<and> w AND (polyMOD - 1) = window_hash buffer e k"
  using assms(2,3)
proof (induction k)
  case (Suc k)
  then obtain w where w: "first_window c buffer e k = Some w" "w mod polyMOD = window_sum buffer e k mod polyMOD"
    by (auto simp: and_polyMOD window_hash_def)
  have p: "powerLUT c ! k = polyBase ^ k mod polyMOD" using assms(1) Suc.prems by (simp add: var_chunker_def power_entry_mod)
  have "read_byte buffer (e - int k) = Some (byte_at buffer (e - int k))" using Suc.prems assms(4) by (intro read_byte_at) auto
  moreover have "(w + byte_at buffer (e - int k) * (polyBase ^ k mod polyMOD) mod polyMOD) mod polyMOD = window_sum buffer e (Suc k) mod polyMOD"
    using mod_add_cong [OF w(2), of "byte_at buffer (e - int k) * polyBase ^ k" "byte_at buffer (e - int k) * polyBase ^ k"]
    by (simp add: window_sum_def mod_simps)
  ultimately show ?case using w(1) p by (simp add: and_polyMOD wrap32_mod window_hash_def)
qed (simp add: and_polyMOD window_hash_def window_sum_def)

lemma roll_ok:
  assumes "var_chunker c"
  defines "n \<equiv> nat (slidingWinSize c)"
  shows "wrap32 (wrap32 (window_hash buffer e n + removeLUT c ! nat (byte_at buffer (e + 1 - slidingWinSize c))) * polyBase + byte_at buffer (e + 1))
      AND (polyMOD - 1) = window_hash buffer (e + 1) n"
proof -
  have "0 < slidingWinSize c" using assms(1) by (simp add: var_chunker_def)
  then obtain k where k: "slidingWinSize c = int (Suc k)" using zero_less_imp_eq_int gr0_implies_Suc by metis
  then have k: "n = Suc k" "slidingWinSize c = int (Suc k)" unfolding n_def by simp_all
  define old where "old = byte_at buffer (e - int k)"
  have o: "0 \<le> old" "old < 256" using byte_at_range by (auto simp: old_def)
  have nk: "nat (slidingWinSize c) - 1 = k" unfolding k(2) by simp
  have "removeLUT c = map (\<lambda>i. remove_entry (power_entry k) (int i)) [0..<256]" using assms(1) unfolding var_chunker_def nk by blast
  then have "removeLUT c ! nat old = remove_entry (polyBase ^ k mod polyMOD) old" using o by (simp add: power_entry_mod nat_less_iff)
  then have r: "removeLUT c ! nat old mod polyMOD = (- (old * polyBase ^ k)) mod polyMOD" by (simp add: remove_entry_mod)
  have "(window_hash buffer e n + removeLUT c ! nat old) mod polyMOD = (window_sum buffer e n - old * polyBase ^ k) mod polyMOD"
    using mod_add_cong [OF _ r, of "window_hash buffer e n" "window_sum buffer e n"] by (simp add: window_hash_def)
  then have "(wrap32 (window_hash buffer e n + removeLUT c ! nat old) * polyBase + byte_at buffer (e + 1)) mod polyMOD
      = ((window_sum buffer e n - old * polyBase ^ k) * polyBase + byte_at buffer (e + 1)) mod polyMOD"
    by (intro mod_add_cong mod_mult_cong) (simp_all add: wrap32_mod)
  moreover have ek: "e + 1 - slidingWinSize c = e - int k" using k(2) by simp
  ultimately show ?thesis
    unfolding ek using window_sum_step [of buffer e k] k(1) by (simp add: and_polyMOD wrap32_mod old_def window_hash_def)
qed

lemma slide_loop_ok:
  assumes c: "var_chunker c"
  shows "slidingWinSize c \<le> e + 1 \<Longrightarrow> e \<le> l \<Longrightarrow> l < int (length buffer) \<Longrightarrow> w = window_hash buffer e (nat (slidingWinSize c)) \<Longrightarrow>
    \<exists>e'. slide_loop c buffer l e w = Some e' \<and> e \<le> e' \<and> e' \<le> l \<and> (anchor c buffer e' \<or> e' = l) \<and> (\<forall>i. e \<le> i \<and> i < e' \<longrightarrow> \<not> anchor c buffer i)"
proof (induction "nat (l - e)" arbitrary: e w rule: less_induct)
  case less
  show ?case
  proof (cases "w AND anchorMask c \<noteq> anchorValue c \<and> e < l")
    case False
    then show ?thesis using less.prems by (subst slide_loop.simps) (auto simp: anchor_def)
  next
    case True
    define w' where "w' = wrap32 (wrap32 (w + removeLUT c ! nat (byte_at buffer (e + 1 - slidingWinSize c))) * polyBase + byte_at buffer (e + 1)) AND (polyMOD - 1)"
    have w': "w' = window_hash buffer (e + 1) (nat (slidingWinSize c))" using roll_ok [OF c] less.prems(4) by (simp add: w'_def)
    have "0 < slidingWinSize c" using c by (simp add: var_chunker_def)
    then have "slide_loop c buffer l e w = slide_loop c buffer l (e + 1) w'"
      using True less.prems by (subst slide_loop.simps) (simp add: read_byte_at w'_def)
    moreover obtain e' where e': "slide_loop c buffer l (e + 1) w' = Some e'" "e + 1 \<le> e'" "e' \<le> l" "anchor c buffer e' \<or> e' = l"
      "\<forall>i. e + 1 \<le> i \<and> i < e' \<longrightarrow> \<not> anchor c buffer i"
      using less.hyps [of "e + 1" w'] w' True less.prems by auto
    moreover have "\<not> anchor c buffer e" using True less.prems(4) by (simp add: anchor_def)
    ultimately show ?thesis by (metis add_le_cancel_left less_le zless_add1_eq add1_zle_eq order_trans zle_add1_eq_le)
  qed
qed

subsection \<open>Cutting a buffer\<close>

text \<open>The cuts after position \<open>prev\<close>: each is the first anchor from the shortest chunk on, or at the longest chunk or the end of the
  buffer; none is left before the rest that is too short.\<close>

fun cuts_ok :: "chunker \<Rightarrow> bytes \<Rightarrow> int \<Rightarrow> int list \<Rightarrow> bool" where
  "cuts_ok c buffer prev [] \<longleftrightarrow> int (length buffer) \<le> prev + minChunkSize c"
| "cuts_ok c buffer prev (e # es) \<longleftrightarrow> prev + minChunkSize c \<le> e \<and> e \<le> prev + maxChunkSize c \<and> e < int (length buffer)
     \<and> (anchor c buffer e \<or> e = prev + maxChunkSize c \<or> e = int (length buffer) - 1)
     \<and> (\<forall>i. prev + minChunkSize c \<le> i \<and> i < e \<longrightarrow> \<not> anchor c buffer i) \<and> cuts_ok c buffer e es"

lemma var_loop_ok:
  assumes c: "var_chunker c"
  shows "-1 \<le> prev \<Longrightarrow> \<exists>ends. var_loop c buffer (prev + minChunkSize c) (prev + maxChunkSize c) = Some ends \<and> cuts_ok c buffer prev ends"
proof (induction "nat (int (length buffer) - prev)" arbitrary: prev rule: less_induct)
  case less
  let ?e = "prev + minChunkSize c" and ?n = "nat (slidingWinSize c)" and ?size = "int (length buffer)"
  have b: "0 < slidingWinSize c" "slidingWinSize c \<le> minChunkSize c" "minChunkSize c \<le> maxChunkSize c" using c by (simp_all add: var_chunker_def)
  show ?case
  proof (cases "?e < ?size")
    case False
    then show ?thesis by (subst var_loop.simps) simp
  next
    case True
    define l where "l = (if prev + maxChunkSize c \<ge> ?size then ?size - 1 else prev + maxChunkSize c)"
    obtain w where w: "first_window c buffer ?e ?n = Some w" "w AND (polyMOD - 1) = window_hash buffer ?e ?n"
      using first_window_ok [OF c, of ?n ?e buffer] True b less.prems by auto
    have le: "l < ?size" "l \<le> prev + maxChunkSize c" "?e \<le> l" "slidingWinSize c \<le> ?e + 1" using True b less.prems by (auto simp: l_def)
    obtain e' where e': "slide_loop c buffer l ?e (w AND (polyMOD - 1)) = Some e'" "?e \<le> e'" "e' \<le> l" "anchor c buffer e' \<or> e' = l"
      "\<forall>i. ?e \<le> i \<and> i < e' \<longrightarrow> \<not> anchor c buffer i"
      using slide_loop_ok [OF c le(4,3,1) w(2)] by blast
    obtain es where es: "var_loop c buffer (e' + minChunkSize c) (e' + maxChunkSize c) = Some es" "cuts_ok c buffer e' es"
      using less.hyps [of e'] e'(2,3) le(1) b less.prems by auto
    have "var_loop c buffer ?e (prev + maxChunkSize c) = Some (e' # es)"
      using True w(1) e'(1) es(1) by (subst var_loop.simps) (simp add: l_def)
    moreover have "cuts_ok c buffer prev (e' # es)" using e' es(2) le(1,2) by (auto simp: l_def split: if_splits)
    ultimately show ?thesis by blast
  qed
qed

text \<open>Cuts at distances between \<open>lo\<close> and \<open>hi\<close>, up to a rest of fewer than \<open>lo\<close> bytes, as both loops make them.\<close>

fun steps_ok :: "int \<Rightarrow> int \<Rightarrow> int \<Rightarrow> int \<Rightarrow> int list \<Rightarrow> bool" where
  "steps_ok lo hi n prev [] \<longleftrightarrow> n \<le> prev + lo"
| "steps_ok lo hi n prev (e # es) \<longleftrightarrow> prev + lo \<le> e \<and> e \<le> prev + hi \<and> e < n \<and> steps_ok lo hi n e es"

lemma cuts_steps: "cuts_ok c buffer prev es \<Longrightarrow> steps_ok (minChunkSize c) (maxChunkSize c) (int (length buffer)) prev es"
  by (induction es arbitrary: prev) auto

lemma fix_loop_ok: "0 < avg \<Longrightarrow> \<exists>ends. fix_loop avg n (prev + avg) = Some ends \<and> steps_ok avg avg n prev ends"
proof (induction "nat (n - prev)" arbitrary: prev rule: less_induct)
  case less
  show ?case
  proof (cases "prev + avg < n")
    case False
    then show ?thesis by (subst fix_loop.simps) simp
  next
    case True
    obtain es where "fix_loop avg n (prev + avg + avg) = Some es" "steps_ok avg avg n (prev + avg) es"
      using less.hyps [of "prev + avg"] less.prems True by auto
    then show ?thesis using True by (subst fix_loop.simps) auto
  qed
qed

text \<open>The chunks that a list of end indices stands for.\<close>

fun chunks_of :: "bytes \<Rightarrow> int \<Rightarrow> int list \<Rightarrow> bytes list" where
  "chunks_of buffer prev [] = []"
| "chunks_of buffer prev (e # es) = take (nat (e - prev)) (drop (nat (prev + 1)) buffer) # chunks_of buffer e es"

lemma steps_partition:
  assumes "steps_ok lo hi (int (length buffer)) prev es" "0 < lo" "lo \<le> hi" "-1 \<le> prev" "prev < int (length buffer)"
  defines "ends \<equiv> (if List.last (prev # es) = int (length buffer) - 1 then es else es @ [int (length buffer) - 1])"
  shows "concat (chunks_of buffer prev ends) = drop (nat (prev + 1)) buffer
     \<and> list_all (\<lambda>x. x \<noteq> [] \<and> int (length x) \<le> hi) (chunks_of buffer prev ends)
     \<and> list_all (\<lambda>x. lo \<le> int (length x)) (butlast (chunks_of buffer prev ends))"
  using assms(1,4,5) unfolding ends_def
proof (induction es arbitrary: prev)
  case Nil
  then show ?case using assms(2,3) by auto
next
  case (Cons e es)
  have s: "prev + lo \<le> e" "e \<le> prev + hi" "e < int (length buffer)" "steps_ok lo hi (int (length buffer)) e es" using Cons.prems(1) by auto
  have e: "-1 \<le> e" "nat (e + 1) = nat (prev + 1) + nat (e - prev)" using s assms(2) Cons.prems(2) by auto
  define ends' where "ends' = (if List.last (e # es) = int (length buffer) - 1 then es else es @ [int (length buffer) - 1])"
  note IH = Cons.IH [OF s(4) e(1) s(3), folded ends'_def]
  let ?x = "take (nat (e - prev)) (drop (nat (prev + 1)) buffer)"
  have x: "length ?x = nat (e - prev)" using s e Cons.prems by auto
  have c: "?x @ drop (nat (e + 1)) buffer = drop (nat (prev + 1)) buffer"
    unfolding e(2) by (metis append_take_drop_id drop_drop add.commute)
  have ne: "?x \<noteq> []" "lo \<le> int (length ?x)" "int (length ?x) \<le> hi" using x s assms(2) by auto
  have ends: "(if List.last (prev # e # es) = int (length buffer) - 1 then e # es else (e # es) @ [int (length buffer) - 1]) = e # ends'"
    by (simp add: ends'_def)
  show ?case unfolding ends using IH ne c by (cases "chunks_of buffer e ends'") auto
qed

lemma Chunker_ok:
  assumes "Chunker varType avg mn mx win = Some (Inr c)" "if varType then win \<le> mn else 0 < avg"
  shows "if varType then var_chunker c \<and> minChunkSize c = mn \<and> maxChunkSize c = mx else \<not> chunkerType c \<and> avgChunkSize c = avg"
  using assms by (auto simp: Chunker_def var_chunker_def Let_def nat_diff_distrib split: if_splits)

lemma add_tail_from:
  assumes "buffer \<noteq> []"
  shows "add_tail (int (length buffer)) es = (if List.last (-1 # es) = int (length buffer) - 1 then es else es @ [int (length buffer) - 1])"
  using assms by (auto simp: add_tail_def)


definition demo_chunker :: chunker where
  "demo_chunker = (case Chunker True 4 2 8 2 of Some (Inr c) \<Rightarrow> c)"

lemma demo_chunker_made: "Chunker True 4 2 8 2 = Some (Inr demo_chunker)"
  by (simp add: demo_chunker_def Chunker_def mask_bits.simps drop_bit_eq_div)




end
