(* ===== verification/Spec2Isabelle.thy ===== *)
theory Spec2Isabelle
  imports Prelude Xd3_Integer Xd3_CodeTable Xd3_Util Xd3_Output Xd3_AddrCache Xd3_Source Xd3_Decode
    Xd3_DecodeSafe Xd3_Hash Xd3_Iopt Vcdiff_Spec Xd3_EncodeWindow Xd3_DecodeRefines
    Xd3_Match Xd3_MatchSafe Xd3_MatchLoop Xd3_Encode Xd3_EncodeSafe Xd3_Stream Xd3_EncodeMemory Xd3_DecodeMemory Xd3_DecodeTotal
    Xd3_Client Dedup_Backend Dedup_Core Delta_Chunks Dedup_Safe Dedup_Files
    Dedup_Server Spooky Rabin Chunker
begin

text \<open>
  \<^bold>\<open>edelta: verification of the deduplicating store and its delta codec.\<close>

  The program is a storage server that keeps shares (chunks of files) once, and keeps a share that is
  similar to another as a delta of it. A client uploads the metadata and the data of shares; the server
  (server/src/dedup/dedup_core.hpp) looks the fingerprint up in its index, finds a base by super
  features (server/lib/delta/src/rabin.c, spook.c), computes a delta (server/lib/delta/src/delta.c) with
  the VCDIFF codec xdelta3 (server/lib/delta/lib/xdelta3) and writes data and index through its backend
  (server/src/backend). A download reads the recipe of a file and restores its shares.

  \<^bold>\<open>The codec.\<close> \<open>struct _xd3_stream\<close> is modelled by two records, \<open>xd3_dstream\<close> for decoding and
  \<open>xd3_estream\<close> for encoding. A C function that returns 0 or a code and changes the stream is a function
  from streams to a pair of \<open>xd3_ret\<close> (\<open>None\<close> is 0) and a stream, chained by \<open>seqr\<close>; where a call
  could fault or loop the result is in \<open>option\<close>, and \<open>None\<close> is that outcome. Sizes are 64-bit words, as
  in the build. The allocator is a value \<open>xd3_mem\<close> whose answers are arbitrary.

  \<^item> Prelude: machine types, return codes, \<open>seqr\<close>, facts on words and lists.
  \<^item> Xd3_Integer (xdelta3-internal.h): the base-128 integers; locale \<open>prefix_codec\<close> and its
    interpretation on the emitter and the reader.
  \<^item> Xd3_CodeTable: the instruction table, its construction and the choice of codes.
  \<^item> Xd3_Util: powers of two, block arithmetic, Adler-32, runs.
  \<^item> Xd3_Output: pages of output; locale \<open>append_buffer\<close> (an append-only buffer), interpreted on a
    section with its allocator.
  \<^item> Xd3_AddrCache: near and same caches; locale \<open>lockstep_codec\<close>, interpreted on the encoder and
    decoder of addresses.
  \<^item> Xd3_Source: the block-wise source and its callback, a parameter with the hypothesis \<open>getblk_wf\<close>.
  \<^item> Xd3_Decode (xdelta3-decode.h): the whole of \<open>xd3_decode_input\<close>. Xd3_DecodeSafe shows its
    invariant and that no input makes it fault, Xd3_DecodeRefines that it implements the reference
    semantics of Vcdiff_Spec, Xd3_DecodeTotal that decoding a buffer ends.
  \<^item> Xd3_Hash, Xd3_Iopt, Xd3_Match, Xd3_Encode: checksums and hash tables, the buffer of pending
    instructions, the string matcher, the state machine of the encoder. Xd3_MatchSafe and Xd3_MatchLoop
    show that the matcher ends, stays in bounds and enters only right instructions, Xd3_EncodeWindow and
    Xd3_EncodeSafe that the sections and the header written mean the input.
  \<^item> Xd3_Stream: configuration, \<open>xd3_process_stream\<close>, the memory functions and delta.c.
    Xd3_EncodeMemory, Xd3_DecodeMemory and Delta_Chunks compose the parts into round trips; Xd3_Client
    has sessions of a client as an inductive relation, and the errors of the interface.

  \<^bold>\<open>The server.\<close> Dedup_Backend models containers, the dispenser of their names, the share index with its
  write batch and the recipes; Dedup_Core the index of super features, storing and restoring shares,
  the two stages of an upload and the restoration of a file. An operation is a function on the state
  with exceptions as values. Dedup_Safe shows by rule induction over uploads and flushes that stored
  data stays in place and that every indexed share is restored to the bytes uploaded under its
  fingerprint; locale \<open>blob_store\<close> states what the core needs of the containers and is interpreted on
  them. Dedup_Files shows what an upload in packets leaves in the recipe and the store and that the
  restoration streams it back; Dedup_Server has the properties of the server, and two ways in which it
  goes wrong.

  \<^bold>\<open>Super features.\<close> Spooky (spook.c) models SpookyHash and shows that its streaming interface agrees with
  the one-shot hash. Rabin (rabin.c) models polynomial arithmetic over GF(2), the tables, the rolling
  fingerprint and the two functions that compute super features; the fingerprint is shown to be the
  remainder of the window, computed bit by bit, from the additivity of all functions involved and the
  values of the tables on single bits. The server theorems hold for any super features, since
  \<open>finesse_super_feature\<close> also reads memory behind the share.

  \<^bold>\<open>The client.\<close> Chunker (client/src/chunker.cc) divides a file into chunks; the chunks are a partition of the
  buffer, and the cuts are where the hash of the window before them says.

  \<^bold>\<open>Bounds.\<close> The round trip of the codec is for inputs of one window (at most 2^23 bytes, the default
  window size) and sources of at most 2^31 bytes (above, the sizing of the hash table shifts a 32-bit 1
  out of its word); shares in the server have at most 128 KiB, the buffer of \<open>compute_delta\<close>. Loops are
  functions with a measure, or \<open>partial_function (option)\<close> with a proof that they return; there is no
  fuel.

  \<^bold>\<open>Not modelled.\<close> The secondary compressors of xdelta3 (not compiled in), its command line, merge and
  tests; LevelDB, the sockets and the thread pool (vendored; LevelDB appears as a map); threads and
  mutexes; I/O failures; the byte layout of the index structures; the rest of the client (secret sharing
  and its protocol). Error strings and statistics of xdelta3 are left out.
\<close>

section \<open>Round trips\<close>

text \<open>C1. Encoding and decoding a buffer: \<open>xd3_encode_memory\<close> on an input of one window and a source of at
  most \<open>2 ^ 31\<close> bytes ends without a fault whatever the allocator answers, and writes no more than the output
  buffer holds; its errors are \<open>ENOSPC\<close> and, when the allocator refuses a request, \<open>ENOMEM\<close> or
  \<open>XD3_INTERNAL\<close>. After success, \<open>xd3_decode_memory\<close> on the bytes written, with memory available, returns
  the input. The flags \<open>XD3_BEGREEDY\<close> and \<open>XD3_ADLER32_RECODE\<close> and the secondary compressors are not
  set.\<close>

theorem memory_roundtrip:
  assumes "mem_ok m'" "inp \<noteq> []" "length inp \<le> 2 ^ 23" "length S \<le> 2 ^ 31" "unat omax \<le> 2 ^ 23"
    "config_secondary fl" "fl AND XD3_BEGREEDY = 0" "fl AND XD3_ADLER32_RECODE = 0"
    "config_secondary dfl" "dfl AND XD3_JUST_HDR = 0" "dfl AND XD3_SKIP_WINDOW = 0" "dfl AND XD3_SKIP_EMIT = 0"
  shows "\<exists>r out. xd3_encode_memory m inp (Some S) omax fl = Some (r, out) \<and> length out \<le> unat omax
     \<and> (r = None \<or> r = Some ENOSPC \<or> (r = Some ENOMEM \<or> r = Some XD3_INTERNAL) \<and> \<not> mem_ok m)
     \<and> (r = None \<longrightarrow> xd3_decode_memory m' out (Some S) (of_nat (length inp)) dfl = Some (None, inp))"
proof -
  have om: "unat omax \<le> 2 ^ 63" using assms(5) by simp
  have un: "unat (of_nat (length inp) :: u64) = length inp" using assms(3) by (intro unat_of_nat_less) simp
  have d: "xd3_decode_memory m' (page_bytes (all_pages u)) (Some S) (of_nat (length inp)) dfl = Some (None, inp)"
    if "encodes S inp fl u" "length (page_bytes (all_pages u)) \<le> unat omax" for u
    by (rule decode_memory_encoded [OF that(1) assms(2-4,8) refl _ assms(1,10-12,9)]) (use that(2) assms(5) un in simp_all)
  show ?thesis
    using encode_memory_ok [OF assms(2-4,7,6) om, of m] d by (auto simp: encoder_result_def hard_def split: if_splits)
qed

theorem memory_roundtrip_witness:
  "\<exists>r out. xd3_encode_memory full_mem [1, 2, 3, 4, 5, 6] (Some [9, 1, 2, 3, 4, 5, 6]) 100 XD3_ADLER32 = Some (r, out)
     \<and> length out \<le> unat (100 :: u64)
     \<and> (r = None \<or> r = Some ENOSPC \<or> (r = Some ENOMEM \<or> r = Some XD3_INTERNAL) \<and> \<not> mem_ok full_mem)
     \<and> (r = None \<longrightarrow> xd3_decode_memory full_mem out (Some [9, 1, 2, 3, 4, 5, 6]) (of_nat (length [1 :: u8, 2, 3, 4, 5, 6])) 0
          = Some (None, [1, 2, 3, 4, 5, 6]))"
proof -
  have f: "config_secondary XD3_ADLER32" "XD3_ADLER32 AND XD3_BEGREEDY = 0" "XD3_ADLER32 AND XD3_ADLER32_RECODE = 0" "config_secondary 0"
    by code_simp+
  show ?thesis by (rule memory_roundtrip) (use f in simp_all)
qed

text \<open>C2. Deltas of chunks: on a chunk of at most 128 KiB and a base chunk of at most \<open>2 ^ 31\<close> bytes,
  \<open>compute_delta\<close> runs without a fault whatever the allocator of the encoder answers, its writes stay inside
  the buffer of 128 KiB on its stack, and when it returns a delta, the delta is no longer than the chunk and
  \<open>restore_delta\<close>, with memory available, gives the chunk back from the same base.\<close>

theorem delta_roundtrip:
  assumes "mem_ok m'" "length chunk_base \<le> 2 ^ 31" "length chunk \<le> 128 * 1024"
  shows "\<exists>r. compute_delta m True chunk_base chunk = Some r
     \<and> (\<forall>d. r = Some d \<longrightarrow> length (delta_data d) \<le> length chunk \<and> restore_delta m' chunk_base d = Some (None, chunk))"
proof -
  obtain r where r: "compute_delta m True chunk_base chunk = Some r" "\<And>d. r = Some d \<Longrightarrow> delta_srcSize d = of_nat (length chunk)
      \<and> length (delta_data d) \<le> length chunk \<and> restores chunk_base (delta_data d) (length chunk) chunk"
    using compute_delta_ok [OF assms(2,3), of m] by blast
  have "restore_delta m' chunk_base d = Some (None, chunk)" if d: "r = Some d" for d
  proof -
    have "d = \<lparr>delta_data = delta_data d, delta_srcSize = of_nat (length chunk)\<rparr>" using r(2) [OF d] by (cases d) simp
    then show ?thesis using r(2) [OF d] assms(1) unfolding restores_def by metis
  qed
  then show ?thesis using r by blast
qed

theorem delta_roundtrip_witness:
  "\<exists>r. compute_delta full_mem True (replicate 2000 7) (replicate 1000 7) = Some r
     \<and> (\<forall>d. r = Some d \<longrightarrow> length (delta_data d) \<le> length (replicate 1000 (7 :: u8))
          \<and> restore_delta full_mem (replicate 2000 7) d = Some (None, replicate 1000 7))"
  by (rule delta_roundtrip) simp_all

section \<open>The encoder, part by part\<close>

text \<open>An encoder as \<open>xd3_encode_memory\<close> configures it, before and after its first call, for the witnesses.\<close>

definition demo_src :: bytes where "demo_src = [9, 1, 2, 3, 4, 5, 6]"
definition demo_input :: bytes where "demo_input = [1, 2, 3, 4, 5, 6]"

definition demo_encoder :: xd3_estream where
  "demo_encoder = (encoder_stream ((zero_config 0)\<lparr>cfg_winsize := 6, cfg_sprevsz := 8\<rparr>) full_mem smatcher_default)
     \<lparr>esrc := the (memory_set_source (Some demo_src)), eflags := XD3_FLUSH, ein := demo_input, ein_set := True\<rparr>"

definition demo_search :: xd3_estream where
  "demo_search = snd (the (xd3_encode_input demo_encoder))"

lemma demo_search_start: "search_start demo_src demo_search"
proof -
  have "length demo_src \<le> 2 ^ 31" by (simp add: demo_src_def)
  then obtain x where x: "memory_set_source (Some demo_src) = Some (Some x)" "memory_src demo_src x" "srclen x = 0" "unat (max_winsize x) \<le> 2 ^ 31"
    using memory_source_ok by metis
  have f: "XD3_FLUSH AND XD3_BEGREEDY = 0" by code_simp
  have "\<exists>t. xd3_encode_input demo_encoder = Some (Some XD3_WINSTART, t) \<and> search_start demo_src t"
    using first_call_ok [where inp = demo_input and s = demo_encoder and m = full_mem and sm = smatcher_default
        and cfg = "(zero_config 0)\<lparr>cfg_winsize := 6, cfg_sprevsz := 8\<rparr>" and fl = XD3_FLUSH, OF _ _ _ x(2,3,4)] f
    by (auto simp: demo_input_def demo_encoder_def x(1) zero_config_def encoder_stream_def Let_def good_smatcher_def)
  then show ?thesis by (auto simp: demo_search_def)
qed

text \<open>C10. The string matcher: \<open>xd3_string_match\<close> ends without a fault from every state between windows, with success or
  with \<open>ENOMEM\<close> after a refused allocation. After success every instruction it has entered is right (a run of one byte,
  a copy from earlier input or a copy from the source inside the recorded address range, equal to the input it stands
  for), the instructions are in the order of both their ends, and the hash tables are ready for the next window.\<close>

theorem string_match_correct:
  assumes "search_ready S s"
  shows "\<exists>r t. xd3_string_match s = Some (r, t) \<and> (r = None \<or> r = Some ENOMEM \<and> \<not> mem_ok (emem s))
     \<and> (r = None \<longrightarrow> ein t = ein s \<and> search_idle S t \<and> sorted_wrt ordered (iopt_used t)
          \<and> list_all (inst_ok S (unat (match_minaddr t)) (unat (match_maxaddr t)) (ein s)) (iopt_used t))"
proof -
  obtain r t where t: "xd3_string_match s = Some (r, t)" "core t = core s" "r = None \<and> search_idle S t \<and> (\<exists>n. insts S n t) \<or> r = Some ENOMEM \<and> \<not> mem_ok (emem s)"
    using string_match_ok [OF assms] by blast
  have "ein t = ein s" using core_fields [OF t(2)] by blast
  then show ?thesis using t by (auto simp: insts_def used_ok_def list_all_iff)
qed

theorem string_match_correct_witness:
  "\<exists>r t. xd3_string_match demo_search = Some (r, t) \<and> (r = None \<or> r = Some ENOMEM \<and> \<not> mem_ok (emem demo_search))
     \<and> (r = None \<longrightarrow> ein t = ein demo_search \<and> search_idle demo_src t \<and> sorted_wrt ordered (iopt_used t)
          \<and> list_all (inst_ok demo_src (unat (match_minaddr t)) (unat (match_maxaddr t)) (ein demo_search)) (iopt_used t))"
  by (rule string_match_correct) (use demo_search_start in \<open>simp add: search_start_def\<close>)

text \<open>C8. One window of output: the state \<open>ENC_SEARCH\<close> of \<open>xd3_encode_input\<close> searches the window, optimises and emits
  the instructions and writes the header. The sections it writes mean exactly the input of the window, under the reference
  semantics with the source window the header announces; it fails only when the allocator refuses a request.\<close>

theorem encode_window_meaning:
  assumes "search_start S s"
  shows "\<exists>u. enc_search s = Some (enc_output (all_pages u) u)
       \<and> chain_bytes (hdr_chain u) = header_image u
       \<and> (\<forall>sw. sw_ok S u sw \<longrightarrow> vc_window sw (eacache s) (chain_bytes (inst_chain u)) (chain_bytes (data_chain u))
            (chain_bytes (addr_chain u)) = Some (ein s))
     \<or> (\<exists>e. enc_search s = Some (Some e, u) \<and> (e = ENOMEM \<or> e = XD3_INTERNAL) \<and> \<not> mem_ok (emem s))"
  using enc_search_ok [OF assms] unfolding window_written_def hard_def by auto

theorem encode_window_meaning_witness:
  "\<exists>u. enc_search demo_search = Some (enc_output (all_pages u) u)
       \<and> chain_bytes (hdr_chain u) = header_image u
       \<and> (\<forall>sw. sw_ok demo_src u sw \<longrightarrow> vc_window sw (eacache demo_search) (chain_bytes (inst_chain u)) (chain_bytes (data_chain u))
            (chain_bytes (addr_chain u)) = Some (ein demo_search))
     \<or> (\<exists>e. enc_search demo_search = Some (Some e, u) \<and> (e = ENOMEM \<or> e = XD3_INTERNAL) \<and> \<not> mem_ok (emem demo_search))"
  by (rule encode_window_meaning [OF demo_search_start])

end
